(* ===== verification/NT_Prelude.thy ===== *)
theory NT_Prelude
  imports Main "HOL-Library.Word" "HOL-Library.Monad_Syntax"
begin

text \<open>
  Shared material of the development: the machine integers of the C code as natural
  numbers with the wrap-around written out, array accesses that fault outside the array,
  and generic facts on them.

  A \<open>ULONG\<close> (32-bit unsigned) is a \<^typ>\<open>nat\<close>; every sum, difference and product
  that the C code computes in that type goes through \<open>u32_add\<close>, \<open>u32_sub\<close> or
  \<open>u32_mul\<close>, which reduce modulo \<open>2 ^ 32\<close>. Values that are combined bit by bit are
  \<open>32 word\<close>. An array is a list; a read or a write outside it is \<^const>\<open>None\<close>.
  Thus a function of type \<open>\<dots> option\<close> that returns \<^const>\<open>Some\<close> performed no access
  outside its arrays.
\<close>

unbundle bit_operations_syntax

type_synonym ULONG = nat
type_synonym USHORT = nat
type_synonym LONG = int
type_synonym WCHAR = nat

section \<open>Unsigned 32-bit arithmetic on natural numbers\<close>

named_theorems u32_simps

definition u32_add :: "nat \<Rightarrow> nat \<Rightarrow> nat" where
  "u32_add a b = (a + b) mod 4294967296"

definition u32_sub :: "nat \<Rightarrow> nat \<Rightarrow> nat" where
  "u32_sub a b = (a + (4294967296 - b mod 4294967296)) mod 4294967296"

definition u32_mul :: "nat \<Rightarrow> nat \<Rightarrow> nat" where
  "u32_mul a b = (a * b) mod 4294967296"

definition MAXINDEX :: nat where
  "MAXINDEX = 4294967295"

lemma u32_add_small [u32_simps]: "a + b < 4294967296 \<Longrightarrow> u32_add a b = a + b"
  by (simp add: u32_add_def)

lemma u32_mul_small [u32_simps]: "a * b < 4294967296 \<Longrightarrow> u32_mul a b = a * b"
  by (simp add: u32_mul_def)

lemma u32_sub_small [u32_simps]:
  assumes "b \<le> a" and "a < 4294967296"
  shows "u32_sub a b = a - b"
proof -
  obtain d where "a = b + d" using assms le_Suc_ex by blast
  then have "a + (4294967296 - b) = d + 4294967296" using assms by simp
  with \<open>a = b + d\<close> show ?thesis using assms
    by (simp only: u32_sub_def mod_add_self2 mod_less)
qed

lemma u32_sub_add_cancel [u32_simps]:
  assumes "a + b < 4294967296 + c" and "c \<le> a + b" and "a < 4294967296" and "c < 4294967296"
    and "b < 4294967296"
  shows "u32_add a (u32_sub b c) = a + b - c"
proof -
  have "u32_add a (u32_sub b c) = (a + (b + (4294967296 - c))) mod 4294967296"
    using assms by (simp add: u32_add_def u32_sub_def mod_add_right_eq)
  also have "a + (b + (4294967296 - c)) = (a + b - c) + 4294967296" using assms by simp
  also have "\<dots> mod 4294967296 = a + b - c"
    using assms by (simp only: mod_add_self2) simp
  finally show ?thesis .
qed

lemma u32_add_bound: "u32_add a b < 4294967296" and u32_sub_bound: "u32_sub a b < 4294967296"
  and u32_mul_bound: "u32_mul a b < 4294967296"
  by (simp_all add: u32_add_def u32_sub_def u32_mul_def)

lemma round_up_32: "x \<le> 32 * ((x + 31) div 32)" and round_up_32': "32 * ((x + 31) div 32) \<le> x + (31::nat)"
  using mult_div_mod_eq[of 32 "x + 31"] mod_less_divisor[of 32 "x + 31"] by linarith+

section \<open>Signed integers\<close>

text \<open>
  Signed integers are \<^typ>\<open>int\<close>. \<open>s16\<close>, \<open>s32\<close> and \<open>s64\<close> reduce a value to a signed
  integer of that width (two's complement); \<open>c_div\<close> and \<open>c_rem\<close> are the division and
  the remainder of C, which truncate towards zero.
\<close>

definition s16 :: "int \<Rightarrow> int" where
  "s16 x = (x + 32768) mod 65536 - 32768"

definition s32 :: "int \<Rightarrow> int" where
  "s32 x = (x + 2147483648) mod 4294967296 - 2147483648"

definition s64 :: "int \<Rightarrow> int" where
  "s64 x = (x + 9223372036854775808) mod 18446744073709551616 - 9223372036854775808"

definition c_div :: "int \<Rightarrow> int \<Rightarrow> int" where
  "c_div a b = sgn a * sgn b * (\<bar>a\<bar> div \<bar>b\<bar>)"

definition c_rem :: "int \<Rightarrow> int \<Rightarrow> int" where
  "c_rem a b = a - b * c_div a b"

lemma s16_small: "-32768 \<le> x \<Longrightarrow> x < 32768 \<Longrightarrow> s16 x = x"
  and s32_small: "-2147483648 \<le> x \<Longrightarrow> x < 2147483648 \<Longrightarrow> s32 x = x"
  and s64_small: "-9223372036854775808 \<le> x \<Longrightarrow> x < 9223372036854775808 \<Longrightarrow> s64 x = x"
  by (simp_all add: s16_def s32_def s64_def mod_pos_pos_trivial)

lemma s32_range: "-2147483648 \<le> s32 x \<and> s32 x < 2147483648"
  by (simp add: s32_def)

lemma c_div_nonneg: "0 \<le> a \<Longrightarrow> 0 < b \<Longrightarrow> c_div a b = a div b"
  by (cases "a = 0") (simp_all add: c_div_def)

lemma c_rem_nonneg: "0 \<le> a \<Longrightarrow> 0 < b \<Longrightarrow> c_rem a b = a mod b"
  by (simp add: c_rem_def c_div_nonneg minus_mult_div_eq_mod)

section \<open>Array accesses\<close>

definition peek :: "'a list \<Rightarrow> nat \<Rightarrow> 'a option" where
  "peek xs i = (if i < length xs then Some (xs ! i) else None)"

definition poke :: "'a list \<Rightarrow> nat \<Rightarrow> 'a \<Rightarrow> 'a list option" where
  "poke xs i v = (if i < length xs then Some (xs[i := v]) else None)"

lemma peek_eq [simp]: "i < length xs \<Longrightarrow> peek xs i = Some (xs ! i)"
  by (simp add: peek_def)

lemma peek_None [simp]: "length xs \<le> i \<Longrightarrow> peek xs i = None"
  by (simp add: peek_def)

lemma poke_eq [simp]: "i < length xs \<Longrightarrow> poke xs i v = Some (xs[i := v])"
  by (simp add: poke_def)

lemma peek_SomeD: "peek xs i = Some v \<Longrightarrow> i < length xs \<and> v = xs ! i"
  by (auto simp: peek_def split: if_splits)

lemma poke_SomeD: "poke xs i v = Some ys \<Longrightarrow> i < length xs \<and> ys = xs[i := v]"
  by (auto simp: poke_def split: if_splits)

section \<open>Searching a list\<close>

lemma find_upt_SomeD:
  assumes "find P [a..<b] = Some k"
  shows "a \<le> k \<and> k < b \<and> P k \<and> (\<forall>j. a \<le> j \<and> j < k \<longrightarrow> \<not> P j)"
proof -
  obtain i where i: "i < b - a" "P (a + i)" "k = a + i" "\<forall>j<i. \<not> P ([a..<b] ! j)"
    using assms by (auto simp: find_Some_iff)
  have "\<not> P j" if "a \<le> j" "j < k" for j
    using i(4)[rule_format, of "j - a"] i(1,3) that by simp
  with i show ?thesis by auto
qed

lemma find_rev_upt_SomeD:
  assumes "find P (rev [a..<b]) = Some k"
  shows "a \<le> k \<and> k < b \<and> P k \<and> (\<forall>j. k < j \<and> j < b \<longrightarrow> \<not> P j)"
proof -
  obtain i where i: "i < b - a" "P (rev [a..<b] ! i)" "k = rev [a..<b] ! i"
    "\<forall>j<i. \<not> P (rev [a..<b] ! j)"
    using assms by (auto simp: find_Some_iff)
  have nth: "rev [a..<b] ! j = b - Suc j" if "j < b - a" for j
    using that by (simp add: rev_nth)
  have k: "k = b - Suc i" using i(1,3) nth by simp
  have "\<not> P j" if "k < j" "j < b" for j
  proof -
    have "b - Suc j < i" using that k i(1) by simp
    moreover have "rev [a..<b] ! (b - Suc j) = j" using that k i(1) by (simp add: rev_nth)
    ultimately show ?thesis using i(4) by metis
  qed
  with i k show ?thesis by auto
qed

lemma find_NoneD: "find P xs = None \<Longrightarrow> x \<in> set xs \<Longrightarrow> \<not> P x"
  by (auto simp: find_None_iff)

end
