(* ===== verification/Rtl_Memory.thy ===== *)
theory Rtl_Memory
  imports NT_Prelude
begin

text \<open>
  The memory primitives of \<open>sdk/lib/rtl/mem.c\<close> that the other components call:
  comparing and filling blocks. A block of bytes is a list of bytes, a block of
  \<open>ULONG\<close>s a list of \<open>32 word\<close>s together with an index that stands for the pointer.
\<close>

section \<open>Definitions\<close>

text \<open>\<open>RtlCompareMemory\<close>: the loop counts the leading positions at which both blocks agree.\<close>

function RtlCompareMemory_loop :: "'a list \<Rightarrow> 'a list \<Rightarrow> nat \<Rightarrow> nat \<Rightarrow> nat option" where
  "RtlCompareMemory_loop Source1 Source2 Length i =
     (if i < Length then
        do {
          a \<leftarrow> peek Source1 i;
          b \<leftarrow> peek Source2 i;
          if a = b then RtlCompareMemory_loop Source1 Source2 Length (i + 1) else Some i
        }
      else Some i)"
  by pat_completeness auto
termination
  by (relation "measure (\<lambda>(s1, s2, n, i). n - i)") auto

declare RtlCompareMemory_loop.simps [simp del]

definition RtlCompareMemory :: "'a list \<Rightarrow> 'a list \<Rightarrow> nat \<Rightarrow> nat option" where
  "RtlCompareMemory Source1 Source2 Length = RtlCompareMemory_loop Source1 Source2 Length 0"

text \<open>\<open>RtlCompareMemoryUlong\<close>: \<open>Length\<close> is in bytes, the result too.\<close>

fun RtlCompareMemoryUlong_loop :: "32 word list \<Rightarrow> nat \<Rightarrow> nat \<Rightarrow> 32 word \<Rightarrow> nat option" where
  "RtlCompareMemoryUlong_loop Source ptr 0 Value = Some ptr"
| "RtlCompareMemoryUlong_loop Source ptr (Suc n) Value =
     do {
       v \<leftarrow> peek Source ptr;
       if v \<noteq> Value then Some ptr else RtlCompareMemoryUlong_loop Source (ptr + 1) n Value
     }"

definition RtlCompareMemoryUlong :: "32 word list \<Rightarrow> nat \<Rightarrow> 32 word \<Rightarrow> nat option" where
  "RtlCompareMemoryUlong Source Length Value =
     map_option (\<lambda>ptr. ptr * 4) (RtlCompareMemoryUlong_loop Source 0 (Length div 4) Value)"

text \<open>\<open>RtlFillMemoryUlong\<close>: writes \<open>Length / 4\<close> words from \<open>Dest\<close> on.\<close>

fun RtlFillMemoryUlong_loop :: "32 word list \<Rightarrow> nat \<Rightarrow> nat \<Rightarrow> 32 word \<Rightarrow> 32 word list option" where
  "RtlFillMemoryUlong_loop mem Dest 0 Fill = Some mem"
| "RtlFillMemoryUlong_loop mem Dest (Suc Count) Fill =
     do {
       mem' \<leftarrow> poke mem Dest Fill;
       RtlFillMemoryUlong_loop mem' (Dest + 1) Count Fill
     }"

definition RtlFillMemoryUlong :: "32 word list \<Rightarrow> nat \<Rightarrow> nat \<Rightarrow> 32 word \<Rightarrow> 32 word list option" where
  "RtlFillMemoryUlong mem Destination Length Fill =
     RtlFillMemoryUlong_loop mem Destination (Length div 4) Fill"

section \<open>Properties\<close>

lemma RtlFillMemoryUlong_loop_eq:
  "d + n \<le> length mem \<Longrightarrow>
   RtlFillMemoryUlong_loop mem d n v = Some (take d mem @ replicate n v @ drop (d + n) mem)"
proof (induction mem d n v rule: RtlFillMemoryUlong_loop.induct)
  case (1 mem Dest Fill)
  then show ?case by simp
next
  case (2 mem Dest Count Fill)
  have "take (Suc Dest) (mem[Dest := Fill]) = take Dest mem @ [Fill]"
    using 2(2) by (simp add: take_Suc_conv_app_nth)
  moreover have "drop (Suc (Dest + Count)) (mem[Dest := Fill]) = drop (Suc (Dest + Count)) mem"
    by simp
  ultimately show ?case using 2 by simp
qed

lemma RtlFillMemoryUlong_eq:
  assumes "d + len div 4 \<le> length mem"
  shows "RtlFillMemoryUlong mem d len v =
    Some (take d mem @ replicate (len div 4) v @ drop (d + len div 4) mem)"
  using assms by (simp add: RtlFillMemoryUlong_def RtlFillMemoryUlong_loop_eq)

lemma nth_filled:
  assumes "d + n \<le> length mem" and "i < length mem"
  shows "(take d mem @ replicate n v @ drop (d + n) mem) ! i =
    (if d \<le> i \<and> i < d + n then v else mem ! i)"
  using assms by (auto simp: nth_append min_def)

lemma RtlFillMemoryUlong_loop_outside:
  "length mem < d + n \<Longrightarrow> 0 < n \<Longrightarrow> RtlFillMemoryUlong_loop mem d n v = None"
proof (induction mem d n v rule: RtlFillMemoryUlong_loop.induct)
  case (2 mem Dest Count Fill)
  then show ?case by (cases "Dest < length mem"; cases Count) (auto simp: poke_def)
qed simp

lemma RtlCompareMemory_loop_spec:
  assumes "n \<le> length xs" and "n \<le> length ys" and "i \<le> n" and "\<forall>j<i. xs ! j = ys ! j"
  shows "\<exists>r. RtlCompareMemory_loop xs ys n i = Some r \<and> r \<le> n \<and>
     (\<forall>j<r. xs ! j = ys ! j) \<and> (r < n \<longrightarrow> xs ! r \<noteq> ys ! r)"
  using assms
proof (induction xs ys n i rule: RtlCompareMemory_loop.induct)
  case (1 xs ys n i)
  show ?case
  proof (cases "i < n \<and> xs ! i = ys ! i")
    case True
    with 1 have "\<exists>r. RtlCompareMemory_loop xs ys n (i + 1) = Some r \<and> r \<le> n \<and>
      (\<forall>j<r. xs ! j = ys ! j) \<and> (r < n \<longrightarrow> xs ! r \<noteq> ys ! r)"
      by (simp add: less_Suc_eq)
    with True 1 show ?thesis by (simp add: RtlCompareMemory_loop.simps[of xs ys n i])
  next
    case False
    with 1 show ?thesis by (auto simp: RtlCompareMemory_loop.simps[of xs ys n i])
  qed
qed

end
