(* ===== verification/Rtl_Bitmap.thy ===== *)
theory Rtl_Bitmap
  imports Rtl_Memory
begin

text \<open>
  The bitmap package of the runtime library, \<open>sdk/lib/rtl/bitmap.c\<close>, in its 32-bit
  build (\<open>_BITCOUNT\<close> is 32). A bitmap is its size in bits and its buffer of 32-bit
  words; a pointer into the buffer is an index of the list. Every operation that reads
  the buffer is a function into \<open>option\<close>: \<^const>\<open>None\<close> is an access outside
  the buffer or a loop that never ends. The lemmas show that on a well-formed bitmap
  the operations always return, and return what a scan over the single bits would.
\<close>

section \<open>Data and operations\<close>

record RTL_BITMAP =
  SizeOfBitMap :: ULONG
  Buffer :: "32 word list"

record RTL_BITMAP_RUN =
  Run_StartingIndex :: ULONG
  Run_NumberOfBits :: ULONG

definition BitScanForward :: "32 word \<Rightarrow> nat option" where
  "BitScanForward Mask = find (\<lambda>i. bit Mask i) [0..<32]"

definition BitScanReverse :: "32 word \<Rightarrow> nat option" where
  "BitScanReverse Mask = find (\<lambda>i. bit Mask i) (rev [0..<32])"

text \<open>The loop "skip all clear ULONGs" of \<open>RtlpGetLengthOfRunClear\<close>.\<close>

function skip_clear :: "32 word list \<Rightarrow> nat \<Rightarrow> nat \<Rightarrow> 32 word \<Rightarrow> (32 word \<times> nat) option" where
  "skip_clear buf MaxBuffer ptr Value =
     (if Value = 0 \<and> ptr < MaxBuffer then
        do { v \<leftarrow> peek buf ptr; skip_clear buf MaxBuffer (ptr + 1) v }
      else Some (Value, ptr))"
  by pat_completeness auto
termination
  by (relation "measure (\<lambda>(buf, m, ptr, v). m - ptr)") auto

declare skip_clear.simps [simp del]

definition RtlpGetLengthOfRunClear :: "RTL_BITMAP \<Rightarrow> ULONG \<Rightarrow> ULONG \<Rightarrow> ULONG option" where
  "RtlpGetLengthOfRunClear BitMapHeader StartingIndex MaxLength =
     (if StartingIndex \<ge> SizeOfBitMap BitMapHeader then Some 0
      else
        let Buf = StartingIndex div 32;
            BitPos = StartingIndex mod 32;
            MaxLength = min MaxLength (u32_sub (SizeOfBitMap BitMapHeader) StartingIndex);
            MaxBuffer = Buf + u32_sub (u32_add (u32_add BitPos MaxLength) 32) 1 div 32
        in do {
          w \<leftarrow> peek (Buffer BitMapHeader) Buf;
          (Value, Buf) \<leftarrow> skip_clear (Buffer BitMapHeader) MaxBuffer (Buf + 1)
                            (push_bit BitPos (drop_bit BitPos w));
          if Value = 0 then Some MaxLength
          else do {
            BitPos \<leftarrow> BitScanForward Value;
            let Length = u32_sub (u32_mul Buf 32) StartingIndex;
            let Length = u32_add Length (u32_sub BitPos 32);
            Some (if Length > u32_sub (SizeOfBitMap BitMapHeader) StartingIndex
                  then u32_sub (SizeOfBitMap BitMapHeader) StartingIndex else Length)
          }
        })"

text \<open>The loop "skip all set ULONGs" of \<open>RtlpGetLengthOfRunSet\<close>.\<close>

function skip_set :: "32 word list \<Rightarrow> nat \<Rightarrow> nat \<Rightarrow> 32 word \<Rightarrow> (32 word \<times> nat) option" where
  "skip_set buf MaxBuffer ptr InvValue =
     (if InvValue = 0 \<and> ptr < MaxBuffer then
        do { v \<leftarrow> peek buf ptr; skip_set buf MaxBuffer (ptr + 1) (NOT v) }
      else Some (InvValue, ptr))"
  by pat_completeness auto
termination
  by (relation "measure (\<lambda>(buf, m, ptr, v). m - ptr)") auto

declare skip_set.simps [simp del]

definition RtlpGetLengthOfRunSet :: "RTL_BITMAP \<Rightarrow> ULONG \<Rightarrow> ULONG \<Rightarrow> ULONG option" where
  "RtlpGetLengthOfRunSet BitMapHeader StartingIndex MaxLength =
     (if StartingIndex \<ge> SizeOfBitMap BitMapHeader then Some 0
      else
        let Buf = StartingIndex div 32;
            BitPos = StartingIndex mod 32;
            MaxLength = min MaxLength (u32_sub (SizeOfBitMap BitMapHeader) StartingIndex);
            MaxBuffer = Buf + u32_sub (u32_add (u32_add BitPos MaxLength) 32) 1 div 32
        in do {
          w \<leftarrow> peek (Buffer BitMapHeader) Buf;
          (InvValue, Buf) \<leftarrow> skip_set (Buffer BitMapHeader) MaxBuffer (Buf + 1)
                               (push_bit BitPos (drop_bit BitPos (NOT w)));
          if InvValue = 0 then Some MaxLength
          else do {
            BitPos \<leftarrow> BitScanForward InvValue;
            let Length = u32_sub (u32_mul Buf 32) StartingIndex;
            let Length = u32_add Length (u32_sub BitPos 32);
            Some (if Length > u32_sub (SizeOfBitMap BitMapHeader) StartingIndex
                  then u32_sub (SizeOfBitMap BitMapHeader) StartingIndex else Length)
          }
        })"

text \<open>
  \<open>RtlFindMostSignificantBit\<close> and \<open>RtlFindLeastSignificantBit\<close> as built for 32-bit
  processors: the 64-bit value is scanned as two halves, and -1 is returned for 0.
\<close>

definition RtlFindMostSignificantBit :: "64 word \<Rightarrow> int" where
  "RtlFindMostSignificantBit Value =
     (case BitScanReverse (ucast (drop_bit 32 Value)) of
        Some Position \<Rightarrow> int (Position + 32)
      | None \<Rightarrow> (case BitScanReverse (ucast Value) of
          Some Position \<Rightarrow> int Position
        | None \<Rightarrow> -1))"

definition RtlFindLeastSignificantBit :: "64 word \<Rightarrow> int" where
  "RtlFindLeastSignificantBit Value =
     (case BitScanForward (ucast Value) of
        Some Position \<Rightarrow> int Position
      | None \<Rightarrow> (case BitScanForward (ucast (drop_bit 32 Value)) of
          Some Position \<Rightarrow> int (Position + 32)
        | None \<Rightarrow> -1))"

definition RtlInitializeBitMap :: "32 word list \<Rightarrow> ULONG \<Rightarrow> RTL_BITMAP" where
  "RtlInitializeBitMap BitMapBuffer Size = \<lparr>SizeOfBitMap = Size, Buffer = BitMapBuffer\<rparr>"

definition RtlClearAllBits :: "RTL_BITMAP \<Rightarrow> RTL_BITMAP option" where
  "RtlClearAllBits BitMapHeader =
     (let LengthInUlongs = u32_sub (u32_add (SizeOfBitMap BitMapHeader) 32) 1 div 32
      in do {
        b \<leftarrow> RtlFillMemoryUlong (Buffer BitMapHeader) 0 (u32_mul LengthInUlongs 4) 0;
        Some (BitMapHeader\<lparr>Buffer := b\<rparr>)
      })"

definition RtlSetAllBits :: "RTL_BITMAP \<Rightarrow> RTL_BITMAP option" where
  "RtlSetAllBits BitMapHeader =
     (let LengthInUlongs = u32_sub (u32_add (SizeOfBitMap BitMapHeader) 32) 1 div 32
      in do {
        b \<leftarrow> RtlFillMemoryUlong (Buffer BitMapHeader) 0 (u32_mul LengthInUlongs 4) (NOT 0);
        Some (BitMapHeader\<lparr>Buffer := b\<rparr>)
      })"

definition RtlClearBit :: "RTL_BITMAP \<Rightarrow> ULONG \<Rightarrow> RTL_BITMAP option" where
  "RtlClearBit BitMapHeader BitNumber =
     do {
       w \<leftarrow> peek (Buffer BitMapHeader) (BitNumber div 32);
       b \<leftarrow> poke (Buffer BitMapHeader) (BitNumber div 32) (w AND NOT (push_bit (BitNumber mod 32) 1));
       Some (BitMapHeader\<lparr>Buffer := b\<rparr>)
     }"

definition RtlSetBit :: "RTL_BITMAP \<Rightarrow> ULONG \<Rightarrow> RTL_BITMAP option" where
  "RtlSetBit BitMapHeader BitNumber =
     do {
       w \<leftarrow> peek (Buffer BitMapHeader) (BitNumber div 32);
       b \<leftarrow> poke (Buffer BitMapHeader) (BitNumber div 32) (w OR push_bit (BitNumber mod 32) 1);
       Some (BitMapHeader\<lparr>Buffer := b\<rparr>)
     }"

text \<open>The part of \<open>RtlClearBits\<close> after the unaligned head: full words, then the rest.\<close>

definition RtlClearBits_aligned :: "32 word list \<Rightarrow> nat \<Rightarrow> ULONG \<Rightarrow> 32 word list option" where
  "RtlClearBits_aligned buf Buf NumberToClear =
     do {
       buf \<leftarrow> RtlFillMemoryUlong buf Buf (NumberToClear div 8) 0;
       let Buf = Buf + NumberToClear div 32;
       let NumberToClear = NumberToClear mod 32;
       if NumberToClear \<noteq> 0 then do {
         w \<leftarrow> peek buf Buf;
         poke buf Buf (w AND push_bit NumberToClear (-1))
       } else Some buf
     }"

definition RtlClearBits :: "RTL_BITMAP \<Rightarrow> ULONG \<Rightarrow> ULONG \<Rightarrow> RTL_BITMAP option" where
  "RtlClearBits BitMapHeader StartingIndex NumberToClear =
     (let Buf = StartingIndex div 32;
          Bits = StartingIndex mod 32
      in if Bits \<noteq> 0 then
           let Mask = push_bit Bits (-1);
               Bits = 32 - Bits
           in if NumberToClear < Bits then
                let Bits = Bits - NumberToClear;
                    Mask = drop_bit Bits (push_bit Bits Mask)
                in do {
                  w \<leftarrow> peek (Buffer BitMapHeader) Buf;
                  b \<leftarrow> poke (Buffer BitMapHeader) Buf (w AND NOT Mask);
                  Some (BitMapHeader\<lparr>Buffer := b\<rparr>)
                }
              else do {
                w \<leftarrow> peek (Buffer BitMapHeader) Buf;
                b \<leftarrow> poke (Buffer BitMapHeader) Buf (w AND NOT Mask);
                b \<leftarrow> RtlClearBits_aligned b (Buf + 1) (NumberToClear - Bits);
                Some (BitMapHeader\<lparr>Buffer := b\<rparr>)
              }
         else do {
           b \<leftarrow> RtlClearBits_aligned (Buffer BitMapHeader) Buf NumberToClear;
           Some (BitMapHeader\<lparr>Buffer := b\<rparr>)
         })"

definition RtlSetBits_aligned :: "32 word list \<Rightarrow> nat \<Rightarrow> ULONG \<Rightarrow> 32 word list option" where
  "RtlSetBits_aligned buf Buf NumberToSet =
     do {
       buf \<leftarrow> RtlFillMemoryUlong buf Buf (NumberToSet div 8) (-1);
       let Buf = Buf + NumberToSet div 32;
       let NumberToSet = NumberToSet mod 32;
       if NumberToSet \<noteq> 0 then do {
         w \<leftarrow> peek buf Buf;
         poke buf Buf (w OR NOT (push_bit NumberToSet (-1)))
       } else Some buf
     }"

definition RtlSetBits :: "RTL_BITMAP \<Rightarrow> ULONG \<Rightarrow> ULONG \<Rightarrow> RTL_BITMAP option" where
  "RtlSetBits BitMapHeader StartingIndex NumberToSet =
     (let Buf = StartingIndex div 32;
          Bits = StartingIndex mod 32
      in if Bits \<noteq> 0 then
           let Mask = push_bit Bits (-1);
               Bits = 32 - Bits
           in if NumberToSet < Bits then
                let Bits = Bits - NumberToSet;
                    Mask = drop_bit Bits (push_bit Bits Mask)
                in do {
                  w \<leftarrow> peek (Buffer BitMapHeader) Buf;
                  b \<leftarrow> poke (Buffer BitMapHeader) Buf (w OR Mask);
                  Some (BitMapHeader\<lparr>Buffer := b\<rparr>)
                }
              else do {
                w \<leftarrow> peek (Buffer BitMapHeader) Buf;
                b \<leftarrow> poke (Buffer BitMapHeader) Buf (w OR Mask);
                b \<leftarrow> RtlSetBits_aligned b (Buf + 1) (NumberToSet - Bits);
                Some (BitMapHeader\<lparr>Buffer := b\<rparr>)
              }
         else do {
           b \<leftarrow> RtlSetBits_aligned (Buffer BitMapHeader) Buf NumberToSet;
           Some (BitMapHeader\<lparr>Buffer := b\<rparr>)
         })"

definition RtlTestBit :: "RTL_BITMAP \<Rightarrow> ULONG \<Rightarrow> bool option" where
  "RtlTestBit BitMapHeader BitNumber =
     do {
       w \<leftarrow> peek (Buffer BitMapHeader) (BitNumber div 32);
       Some ((drop_bit (BitNumber mod 32) w) AND 1 \<noteq> 0)
     }"

definition RtlAreBitsClear :: "RTL_BITMAP \<Rightarrow> ULONG \<Rightarrow> ULONG \<Rightarrow> bool option" where
  "RtlAreBitsClear BitMapHeader StartingIndex Length =
     (if u32_add StartingIndex Length > SizeOfBitMap BitMapHeader \<or>
         u32_add StartingIndex Length \<le> StartingIndex then Some False
      else map_option (\<lambda>n. n \<ge> Length) (RtlpGetLengthOfRunClear BitMapHeader StartingIndex Length))"

definition RtlAreBitsSet :: "RTL_BITMAP \<Rightarrow> ULONG \<Rightarrow> ULONG \<Rightarrow> bool option" where
  "RtlAreBitsSet BitMapHeader StartingIndex Length =
     (if u32_add StartingIndex Length > SizeOfBitMap BitMapHeader \<or>
         u32_add StartingIndex Length \<le> StartingIndex then Some False
      else map_option (\<lambda>n. n \<ge> Length) (RtlpGetLengthOfRunSet BitMapHeader StartingIndex Length))"

definition BitCountTable :: "nat list" where
  "BitCountTable =
    [0, 1, 1, 2, 1, 2, 2, 3, 1, 2, 2, 3, 2, 3, 3, 4,
     1, 2, 2, 3, 2, 3, 3, 4, 2, 3, 3, 4, 3, 4, 4, 5,
     1, 2, 2, 3, 2, 3, 3, 4, 2, 3, 3, 4, 3, 4, 4, 5,
     2, 3, 3, 4, 3, 4, 4, 5, 3, 4, 4, 5, 4, 5, 5, 6,
     1, 2, 2, 3, 2, 3, 3, 4, 2, 3, 3, 4, 3, 4, 4, 5,
     2, 3, 3, 4, 3, 4, 4, 5, 3, 4, 4, 5, 4, 5, 5, 6,
     2, 3, 3, 4, 3, 4, 4, 5, 3, 4, 4, 5, 4, 5, 5, 6,
     3, 4, 4, 5, 4, 5, 5, 6, 4, 5, 5, 6, 5, 6, 6, 7,
     1, 2, 2, 3, 2, 3, 3, 4, 2, 3, 3, 4, 3, 4, 4, 5,
     2, 3, 3, 4, 3, 4, 4, 5, 3, 4, 4, 5, 4, 5, 5, 6,
     2, 3, 3, 4, 3, 4, 4, 5, 3, 4, 4, 5, 4, 5, 5, 6,
     3, 4, 4, 5, 4, 5, 5, 6, 4, 5, 5, 6, 5, 6, 6, 7,
     2, 3, 3, 4, 3, 4, 4, 5, 3, 4, 4, 5, 4, 5, 5, 6,
     3, 4, 4, 5, 4, 5, 5, 6, 4, 5, 5, 6, 5, 6, 6, 7,
     3, 4, 4, 5, 4, 5, 5, 6, 4, 5, 5, 6, 5, 6, 6, 7,
     4, 5, 5, 6, 5, 6, 6, 7, 5, 6, 6, 7, 6, 7, 7, 8]"

text \<open>The buffer read as bytes (\<open>(PUCHAR)Buffer\<close>); the target is little-endian.\<close>

definition peek_byte :: "32 word list \<Rightarrow> nat \<Rightarrow> nat option" where
  "peek_byte buf i =
     do { w \<leftarrow> peek buf (i div 4); Some (unat (drop_bit (8 * (i mod 4)) w) mod 256) }"

fun count_bytes :: "32 word list \<Rightarrow> nat \<Rightarrow> nat \<Rightarrow> ULONG \<Rightarrow> ULONG option" where
  "count_bytes buf Byte 0 BitCount = Some BitCount"
| "count_bytes buf Byte (Suc n) BitCount =
     do {
       b \<leftarrow> peek_byte buf Byte;
       c \<leftarrow> peek BitCountTable b;
       count_bytes buf (Byte + 1) n (u32_add BitCount c)
     }"

definition RtlNumberOfSetBits :: "RTL_BITMAP \<Rightarrow> ULONG option" where
  "RtlNumberOfSetBits BitMapHeader =
     do {
       let MaxByte = SizeOfBitMap BitMapHeader div 8;
       BitCount \<leftarrow> count_bytes (Buffer BitMapHeader) 0 MaxByte 0;
       if SizeOfBitMap BitMapHeader mod 8 \<noteq> 0 then do {
         let Shift = 8 - SizeOfBitMap BitMapHeader mod 8;
         b \<leftarrow> peek_byte (Buffer BitMapHeader) MaxByte;
         c \<leftarrow> peek BitCountTable ((b * 2 ^ Shift) mod 256);
         Some (u32_add BitCount c)
       } else Some BitCount
     }"

definition RtlNumberOfClearBits :: "RTL_BITMAP \<Rightarrow> ULONG option" where
  "RtlNumberOfClearBits BitMapHeader =
     map_option (\<lambda>n. u32_sub (SizeOfBitMap BitMapHeader) n) (RtlNumberOfSetBits BitMapHeader)"

text \<open>
  \<open>RtlFindClearBits\<close>: the search loop from \<open>CurrentBit\<close> up to \<open>Margin\<close>. The inner
  \<open>option\<close> says whether the loop returned a position or ran into its guard. The
  guard can hold for ever when \<open>CurrentBit + NumberToFind\<close> wraps around, so the loop is
  a partial function.
\<close>

partial_function (option) FindClearBits_loop ::
  "RTL_BITMAP \<Rightarrow> ULONG \<Rightarrow> ULONG \<Rightarrow> ULONG \<Rightarrow> ULONG option option" where
  "FindClearBits_loop BitMapHeader NumberToFind Margin CurrentBit =
     (if u32_add CurrentBit NumberToFind < Margin then
        do {
          SetLength \<leftarrow> RtlpGetLengthOfRunSet BitMapHeader CurrentBit MAXINDEX;
          let CurrentBit = u32_add CurrentBit SetLength;
          CurrentLength \<leftarrow> RtlpGetLengthOfRunClear BitMapHeader CurrentBit NumberToFind;
          if CurrentLength \<ge> NumberToFind then Some (Some CurrentBit)
          else FindClearBits_loop BitMapHeader NumberToFind Margin (u32_add CurrentBit CurrentLength)
        }
      else Some None)"

definition RtlFindClearBits :: "RTL_BITMAP option \<Rightarrow> ULONG \<Rightarrow> ULONG \<Rightarrow> ULONG option" where
  "RtlFindClearBits BitMapHeader NumberToFind HintIndex =
     (case BitMapHeader of
        None \<Rightarrow> Some MAXINDEX
      | Some bm \<Rightarrow>
          if NumberToFind > SizeOfBitMap bm then Some MAXINDEX
          else
            let HintIndex = (if HintIndex \<ge> SizeOfBitMap bm then 0 else HintIndex) in
            if NumberToFind = 0 then Some (HintIndex - HintIndex mod 8)
            else do {
              r \<leftarrow> FindClearBits_loop bm NumberToFind (SizeOfBitMap bm) HintIndex;
              case r of
                Some CurrentBit \<Rightarrow> Some CurrentBit
              | None \<Rightarrow>
                  if HintIndex \<noteq> 0 then do {
                    let Margin = min (u32_add HintIndex NumberToFind) (SizeOfBitMap bm);
                    r \<leftarrow> FindClearBits_loop bm NumberToFind Margin 0;
                    case r of Some CurrentBit \<Rightarrow> Some CurrentBit | None \<Rightarrow> Some MAXINDEX
                  }
                  else Some MAXINDEX
            })"

text \<open>\<open>RtlFindSetBits\<close>: the same shape with the guard \<open>\<le>\<close>.\<close>

partial_function (option) FindSetBits_loop ::
  "RTL_BITMAP \<Rightarrow> ULONG \<Rightarrow> ULONG \<Rightarrow> ULONG \<Rightarrow> ULONG option option" where
  "FindSetBits_loop BitMapHeader NumberToFind Margin CurrentBit =
     (if u32_add CurrentBit NumberToFind \<le> Margin then
        do {
          ClearLength \<leftarrow> RtlpGetLengthOfRunClear BitMapHeader CurrentBit MAXINDEX;
          let CurrentBit = u32_add CurrentBit ClearLength;
          CurrentLength \<leftarrow> RtlpGetLengthOfRunSet BitMapHeader CurrentBit NumberToFind;
          if CurrentLength \<ge> NumberToFind then Some (Some CurrentBit)
          else FindSetBits_loop BitMapHeader NumberToFind Margin (u32_add CurrentBit CurrentLength)
        }
      else Some None)"

definition RtlFindSetBits :: "RTL_BITMAP option \<Rightarrow> ULONG \<Rightarrow> ULONG \<Rightarrow> ULONG option" where
  "RtlFindSetBits BitMapHeader NumberToFind HintIndex =
     (case BitMapHeader of
        None \<Rightarrow> Some MAXINDEX
      | Some bm \<Rightarrow>
          if NumberToFind > SizeOfBitMap bm then Some MAXINDEX
          else
            let HintIndex = (if HintIndex \<ge> SizeOfBitMap bm then 0 else HintIndex) in
            if NumberToFind = 0 then Some (HintIndex - HintIndex mod 8)
            else do {
              r \<leftarrow> FindSetBits_loop bm NumberToFind (SizeOfBitMap bm) HintIndex;
              case r of
                Some CurrentBit \<Rightarrow> Some CurrentBit
              | None \<Rightarrow>
                  if HintIndex \<noteq> 0 then do {
                    let Margin = min (u32_add HintIndex NumberToFind) (SizeOfBitMap bm);
                    r \<leftarrow> FindSetBits_loop bm NumberToFind Margin 0;
                    case r of Some CurrentBit \<Rightarrow> Some CurrentBit | None \<Rightarrow> Some MAXINDEX
                  }
                  else Some MAXINDEX
            })"

text \<open>The two combined operations return the position and the updated bitmap.\<close>

definition RtlFindClearBitsAndSet :: "RTL_BITMAP \<Rightarrow> ULONG \<Rightarrow> ULONG \<Rightarrow> (ULONG \<times> RTL_BITMAP) option" where
  "RtlFindClearBitsAndSet BitMapHeader NumberToFind HintIndex =
     do {
       Position \<leftarrow> RtlFindClearBits (Some BitMapHeader) NumberToFind HintIndex;
       if Position \<noteq> MAXINDEX then do {
         BitMapHeader \<leftarrow> RtlSetBits BitMapHeader Position NumberToFind;
         Some (Position, BitMapHeader)
       } else Some (Position, BitMapHeader)
     }"

definition RtlFindSetBitsAndClear :: "RTL_BITMAP \<Rightarrow> ULONG \<Rightarrow> ULONG \<Rightarrow> (ULONG \<times> RTL_BITMAP) option" where
  "RtlFindSetBitsAndClear BitMapHeader NumberToFind HintIndex =
     do {
       Position \<leftarrow> RtlFindSetBits (Some BitMapHeader) NumberToFind HintIndex;
       if Position \<noteq> MAXINDEX then do {
         BitMapHeader \<leftarrow> RtlClearBits BitMapHeader Position NumberToFind;
         Some (Position, BitMapHeader)
       } else Some (Position, BitMapHeader)
     }"

text \<open>The run searches return the length of the run and \<open>*StartingRunIndex\<close>.\<close>

definition RtlFindNextForwardRunClear :: "RTL_BITMAP \<Rightarrow> ULONG \<Rightarrow> (ULONG \<times> ULONG) option" where
  "RtlFindNextForwardRunClear BitMapHeader FromIndex =
     (if FromIndex \<ge> SizeOfBitMap BitMapHeader then Some (0, FromIndex)
      else do {
        Length \<leftarrow> RtlpGetLengthOfRunSet BitMapHeader FromIndex MAXINDEX;
        n \<leftarrow> RtlpGetLengthOfRunClear BitMapHeader (u32_add FromIndex Length) MAXINDEX;
        Some (n, u32_add FromIndex Length)
      })"

definition RtlFindNextForwardRunSet :: "RTL_BITMAP \<Rightarrow> ULONG \<Rightarrow> (ULONG \<times> ULONG) option" where
  "RtlFindNextForwardRunSet BitMapHeader FromIndex =
     (if FromIndex \<ge> SizeOfBitMap BitMapHeader then Some (0, FromIndex)
      else do {
        Length \<leftarrow> RtlpGetLengthOfRunClear BitMapHeader FromIndex MAXINDEX;
        n \<leftarrow> RtlpGetLengthOfRunSet BitMapHeader (u32_add FromIndex Length) MAXINDEX;
        Some (n, u32_add FromIndex Length)
      })"

definition RtlFindFirstRunClear :: "RTL_BITMAP \<Rightarrow> (ULONG \<times> ULONG) option" where
  "RtlFindFirstRunClear BitMapHeader = RtlFindNextForwardRunClear BitMapHeader 0"

text \<open>
  \<open>RtlFindLastBackwardRunClear\<close>: the pointer runs downwards and may stop below the
  buffer, so it is an \<^typ>\<open>int\<close>. The first loop yields no value when it passes the
  start of the buffer; then the function returns 0 and leaves \<open>*StartingRunIndex\<close> alone.
\<close>

function skip_set_back :: "32 word list \<Rightarrow> int \<Rightarrow> 32 word \<Rightarrow> (32 word \<times> int) option option" where
  "skip_set_back buf ptr InvValue =
     (if InvValue = 0 then
        if ptr < 0 then Some None
        else do { v \<leftarrow> peek buf (nat ptr); skip_set_back buf (ptr - 1) (NOT v) }
      else Some (Some (InvValue, ptr)))"
  by pat_completeness auto
termination
  by (relation "measure (\<lambda>(buf, ptr, v). nat (ptr + 1))") auto

function skip_clear_back :: "32 word list \<Rightarrow> int \<Rightarrow> 32 word \<Rightarrow> (32 word \<times> int) option" where
  "skip_clear_back buf ptr Value =
     (if Value = 0 \<and> ptr \<ge> 0 then
        do { v \<leftarrow> peek buf (nat ptr); skip_clear_back buf (ptr - 1) v }
      else Some (Value, ptr))"
  by pat_completeness auto
termination
  by (relation "measure (\<lambda>(buf, ptr, v). nat (ptr + 1))") auto

declare skip_set_back.simps [simp del] skip_clear_back.simps [simp del]

definition RtlFindLastBackwardRunClear :: "RTL_BITMAP \<Rightarrow> ULONG \<Rightarrow> (ULONG \<times> ULONG option) option" where
  "RtlFindLastBackwardRunClear BitMapHeader FromIndex =
     (let FromIndex = min FromIndex (u32_sub (SizeOfBitMap BitMapHeader) 1);
          Buf = int (FromIndex div 32);
          BitPos = 31 - FromIndex mod 32
      in do {
        w \<leftarrow> peek (Buffer BitMapHeader) (nat Buf);
        r \<leftarrow> skip_set_back (Buffer BitMapHeader) (Buf - 1) (drop_bit BitPos (push_bit BitPos (NOT w)));
        case r of
          None \<Rightarrow> Some (0, None)
        | Some (InvValue, Buf) \<Rightarrow> do {
            BitPos \<leftarrow> BitScanReverse InvValue;
            let FromIndex = u32_add (u32_mul (nat (Buf + 1)) 32) BitPos;
            (Value, Buf) \<leftarrow> skip_clear_back (Buffer BitMapHeader) Buf
                               (drop_bit (31 - BitPos) (push_bit (31 - BitPos) (NOT InvValue)));
            Start \<leftarrow> (if Value \<noteq> 0 then do {
                        BitPos \<leftarrow> BitScanReverse Value;
                        Some (u32_add (u32_add (u32_mul (nat (Buf + 1)) 32) BitPos) 1)
                      } else Some 0);
            Some (u32_sub FromIndex Start, Some Start)
          }
      })"

text \<open>
  \<open>RtlFindClearRuns\<close>. \<open>RunArray\<close> is the caller's array of \<open>SizeOfRunArray\<close> runs. The
  first loop returns the number of runs found, the array, the index of the smallest run
  and where the scan stands.
\<close>

function FindClearRuns_loop :: "RTL_BITMAP \<Rightarrow> ULONG \<Rightarrow> ULONG \<Rightarrow> RTL_BITMAP_RUN list \<Rightarrow> ULONG \<Rightarrow> ULONG
    \<Rightarrow> (ULONG \<times> RTL_BITMAP_RUN list \<times> ULONG \<times> ULONG) option" where
  "FindClearRuns_loop BitMapHeader SizeOfRunArray Run RunArray SmallestRun FromIndex =
     (if Run < SizeOfRunArray then
        do {
          (Bits, Start) \<leftarrow> RtlFindNextForwardRunClear BitMapHeader FromIndex;
          if Bits = 0 then Some (Run, RunArray, SmallestRun, FromIndex)
          else do {
            RunArray \<leftarrow> poke RunArray Run \<lparr>Run_StartingIndex = Start, Run_NumberOfBits = Bits\<rparr>;
            sm \<leftarrow> peek RunArray SmallestRun;
            let SmallestRun = (if Bits < Run_NumberOfBits sm then Run else SmallestRun);
            FindClearRuns_loop BitMapHeader SizeOfRunArray (Run + 1) RunArray SmallestRun
              (u32_add Start Bits)
          }
        }
      else Some (Run, RunArray, SmallestRun, FromIndex))"
  by pat_completeness auto
termination
  by (relation "measure (\<lambda>(bm, n, Run, ra, sm, f). n - Run)") auto

declare FindClearRuns_loop.simps [simp del]

text \<open>The inner loop that is meant to find the new smallest run.\<close>

fun FindSmallestRun_loop :: "ULONG \<Rightarrow> RTL_BITMAP_RUN list \<Rightarrow> nat \<Rightarrow> nat \<Rightarrow> nat \<Rightarrow> nat option" where
  "FindSmallestRun_loop Bits RunArray Run 0 SmallestRun = Some SmallestRun"
| "FindSmallestRun_loop Bits RunArray Run (Suc n) SmallestRun =
     do {
       sm \<leftarrow> peek RunArray SmallestRun;
       FindSmallestRun_loop Bits RunArray (Run + 1) n
         (if Bits < Run_NumberOfBits sm then Run else SmallestRun)
     }"

partial_function (option) FindLongerRuns_loop ::
  "RTL_BITMAP \<Rightarrow> ULONG \<Rightarrow> RTL_BITMAP_RUN list \<Rightarrow> ULONG \<Rightarrow> ULONG \<Rightarrow> RTL_BITMAP_RUN list option" where
  "FindLongerRuns_loop BitMapHeader SizeOfRunArray RunArray SmallestRun FromIndex =
     do {
       (Bits, Start) \<leftarrow> RtlFindNextForwardRunClear BitMapHeader FromIndex;
       if Bits = 0 then Some RunArray
       else do {
         sm \<leftarrow> peek RunArray SmallestRun;
         if Bits > Run_NumberOfBits sm then do {
           RunArray \<leftarrow> poke RunArray SmallestRun \<lparr>Run_StartingIndex = Start, Run_NumberOfBits = Bits\<rparr>;
           SmallestRun \<leftarrow> FindSmallestRun_loop Bits RunArray 0 SizeOfRunArray SmallestRun;
           FindLongerRuns_loop BitMapHeader SizeOfRunArray RunArray SmallestRun (u32_add FromIndex Bits)
         }
         else FindLongerRuns_loop BitMapHeader SizeOfRunArray RunArray SmallestRun (u32_add FromIndex Bits)
       }
     }"

definition RtlFindClearRuns :: "RTL_BITMAP \<Rightarrow> RTL_BITMAP_RUN list \<Rightarrow> ULONG \<Rightarrow> bool
    \<Rightarrow> (ULONG \<times> RTL_BITMAP_RUN list) option" where
  "RtlFindClearRuns BitMapHeader RunArray SizeOfRunArray LocateLongestRuns =
     do {
       (Run, RunArray, SmallestRun, FromIndex) \<leftarrow>
         FindClearRuns_loop BitMapHeader SizeOfRunArray 0 RunArray 0 0;
       if Run < SizeOfRunArray \<or> \<not> LocateLongestRuns then Some (Run, RunArray)
       else do {
         RunArray \<leftarrow> FindLongerRuns_loop BitMapHeader SizeOfRunArray RunArray SmallestRun FromIndex;
         Some (Run, RunArray)
       }
     }"

text \<open>
  \<open>RtlFindLongestRunClear\<close> and \<open>RtlFindLongestRunSet\<close> return the length and, when a run
  was found, \<open>*StartingIndex\<close>.
\<close>

partial_function (option) LongestRunClear_loop ::
  "RTL_BITMAP \<Rightarrow> ULONG \<Rightarrow> ULONG \<Rightarrow> ULONG option \<Rightarrow> (ULONG \<times> ULONG option) option" where
  "LongestRunClear_loop BitMapHeader FromIndex MaxNumberOfBits StartingIndex =
     do {
       (Bits, Index) \<leftarrow> RtlFindNextForwardRunClear BitMapHeader FromIndex;
       if Bits = 0 then Some (MaxNumberOfBits, StartingIndex)
       else if Bits > MaxNumberOfBits
       then LongestRunClear_loop BitMapHeader (u32_add FromIndex Bits) Bits (Some Index)
       else LongestRunClear_loop BitMapHeader (u32_add FromIndex Bits) MaxNumberOfBits StartingIndex
     }"

definition RtlFindLongestRunClear :: "RTL_BITMAP \<Rightarrow> (ULONG \<times> ULONG option) option" where
  "RtlFindLongestRunClear BitMapHeader = LongestRunClear_loop BitMapHeader 0 0 None"

partial_function (option) LongestRunSet_loop ::
  "RTL_BITMAP \<Rightarrow> ULONG \<Rightarrow> ULONG \<Rightarrow> ULONG option \<Rightarrow> (ULONG \<times> ULONG option) option" where
  "LongestRunSet_loop BitMapHeader FromIndex MaxNumberOfBits StartingIndex =
     do {
       (Bits, Index) \<leftarrow> RtlFindNextForwardRunSet BitMapHeader FromIndex;
       if Bits = 0 then Some (MaxNumberOfBits, StartingIndex)
       else if Bits > MaxNumberOfBits
       then LongestRunSet_loop BitMapHeader (u32_add FromIndex Bits) Bits (Some Index)
       else LongestRunSet_loop BitMapHeader (u32_add FromIndex Bits) MaxNumberOfBits StartingIndex
     }"

definition RtlFindLongestRunSet :: "RTL_BITMAP \<Rightarrow> (ULONG \<times> ULONG option) option" where
  "RtlFindLongestRunSet BitMapHeader = LongestRunSet_loop BitMapHeader 0 0 None"

declare FindClearBits_loop.simps [code] FindSetBits_loop.simps [code] FindLongerRuns_loop.simps [code]
  LongestRunClear_loop.simps [code] LongestRunSet_loop.simps [code]

section \<open>Bits of a buffer\<close>

definition bit_at :: "32 word list \<Rightarrow> nat \<Rightarrow> bool" where
  "bit_at buf i = bit (buf ! (i div 32)) (i mod 32)"

text \<open>
  Well-formed bitmaps: the buffer holds all the bits, and the size leaves room for the
  sums of two indices that the code computes.
\<close>

definition wf_bitmap :: "RTL_BITMAP \<Rightarrow> bool" where
  "wf_bitmap bm \<longleftrightarrow> SizeOfBitMap bm \<le> 32 * length (Buffer bm) \<and> SizeOfBitMap bm < 2147483648"

abbreviation bm_bit :: "RTL_BITMAP \<Rightarrow> nat \<Rightarrow> bool" where
  "bm_bit bm i \<equiv> bit_at (Buffer bm) i"

lemma word32_eq_0_iff: "(w :: 32 word) = 0 \<longleftrightarrow> (\<forall>k<32. \<not> bit w k)"
  by (simp add: bit_eq_iff)

lemma BitScanForward_spec:
  assumes "w \<noteq> 0"
  obtains k where "BitScanForward w = Some k" "k < 32" "bit w k" "\<forall>j<k. \<not> bit w j"
proof -
  obtain j where j: "j < 32" "bit w j" using assms by (auto simp: word32_eq_0_iff)
  have "BitScanForward w \<noteq> None"
    using j by (auto simp: BitScanForward_def find_None_iff)
  then obtain k where "find (\<lambda>i. bit w i) [0..<32] = Some k"
    by (auto simp: BitScanForward_def)
  from find_upt_SomeD[OF this] this show thesis by (intro that) (auto simp: BitScanForward_def)
qed

lemma BitScanReverse_spec:
  assumes "w \<noteq> 0"
  obtains k where "BitScanReverse w = Some k" "k < 32" "bit w k" "\<forall>j. k < j \<and> j < 32 \<longrightarrow> \<not> bit w j"
proof -
  obtain j where j: "j < 32" "bit w j" using assms by (auto simp: word32_eq_0_iff)
  have "BitScanReverse w \<noteq> None"
    using j by (auto simp: BitScanReverse_def find_None_iff)
  then obtain k where "find (\<lambda>i. bit w i) (rev [0..<32]) = Some k"
    by (auto simp: BitScanReverse_def)
  from find_rev_upt_SomeD[OF this] this show thesis
    by (intro that) (auto simp: BitScanReverse_def)
qed

lemma BitScanForward_0 [simp]: "BitScanForward 0 = None"
  by (simp add: BitScanForward_def find_None_iff)

lemma BitScanReverse_0 [simp]: "BitScanReverse 0 = None"
  by (simp add: BitScanReverse_def find_None_iff)

lemma bit_mask_low: "k < 32 \<Longrightarrow> bit (push_bit b (drop_bit b (w :: 32 word))) k \<longleftrightarrow> b \<le> k \<and> bit w k"
  by (auto simp: bit_simps)

lemma bit_mask_high: "k < 32 \<Longrightarrow> bit (drop_bit b (push_bit b (w :: 32 word))) k \<longleftrightarrow> k + b < 32 \<and> bit w k"
  by (auto simp: bit_simps)

section \<open>The length of a run\<close>

text \<open>
  What the scan knows after it has read the words below \<open>p\<close>: every bit from \<open>s\<close> up to
  the last word read is clear, and \<open>V\<close> is that last word without the bits below \<open>s\<close>.
\<close>

definition scan_state :: "32 word list \<Rightarrow> nat \<Rightarrow> nat \<Rightarrow> 32 word \<Rightarrow> bool" where
  "scan_state buf s p V \<longleftrightarrow> 0 < p \<and> s < 32 * p \<and>
     (\<forall>k<32. bit V k \<longleftrightarrow> bit (buf ! (p - 1)) k \<and> s \<le> 32 * (p - 1) + k) \<and>
     (\<forall>i. s \<le> i \<and> i < 32 * (p - 1) \<longrightarrow> \<not> bit_at buf i)"

lemma scan_state_zero:
  assumes "scan_state buf s p 0" and "s \<le> i" and "i < 32 * p"
  shows "\<not> bit_at buf i"
proof (cases "i < 32 * (p - 1)")
  case True
  with assms show ?thesis by (simp add: scan_state_def)
next
  case False
  then have "i div 32 = p - 1" using assms(3) by (simp add: div_nat_eqI)
  then have i: "32 * (p - 1) + i mod 32 = i" by (metis mult_div_mod_eq)
  have "i mod 32 < 32" by simp
  with assms(1) have "bit (buf ! (p - 1)) (i mod 32) \<Longrightarrow> \<not> s \<le> 32 * (p - 1) + i mod 32"
    unfolding scan_state_def by (metis bit_0_eq bot_apply bot_bool_def)
  then show ?thesis
    using assms(2) i \<open>i div 32 = p - 1\<close> by (auto simp: bit_at_def)
qed

lemma scan_state_bit:
  "scan_state buf s p V \<Longrightarrow> k < 32 \<Longrightarrow> s \<le> 32 * (p - 1) + k \<Longrightarrow> bit V k \<longleftrightarrow> bit (buf ! (p - 1)) k"
  by (simp add: scan_state_def)

lemma scan_state_next:
  assumes "scan_state buf s p 0"
  shows "scan_state buf s (p + 1) (buf ! p)"
  using assms scan_state_zero[OF assms] by (auto simp: scan_state_def)

lemma skip_clear_spec:
  "MaxBuffer \<le> length buf \<Longrightarrow> scan_state buf s p V \<Longrightarrow>
   \<exists>V' p'. skip_clear buf MaxBuffer p V = Some (V', p') \<and> scan_state buf s p' V' \<and>
     p \<le> p' \<and> p' \<le> max p MaxBuffer \<and> (V' = 0 \<longrightarrow> MaxBuffer \<le> p')"
proof (induction buf MaxBuffer p V rule: skip_clear.induct)
  case (1 buf MaxBuffer p V)
  show ?case
  proof (cases "V = 0 \<and> p < MaxBuffer")
    case True
    then have p: "p < length buf" using 1 by simp
    have "scan_state buf s (p + 1) (buf ! p)" using 1 True scan_state_next by blast
    then obtain V' p' where "skip_clear buf MaxBuffer (p + 1) (buf ! p) = Some (V', p')"
      "scan_state buf s p' V'" "p + 1 \<le> p'" "p' \<le> max (p + 1) MaxBuffer"
      "V' = 0 \<longrightarrow> MaxBuffer \<le> p'"
      using "1.IH"[OF True, of "buf ! p"] "1.prems" p by auto
    moreover have "skip_clear buf MaxBuffer p V = skip_clear buf MaxBuffer (p + 1) (buf ! p)"
      using True p by (subst skip_clear.simps) simp
    ultimately show ?thesis using True by auto
  next
    case False
    then show ?thesis using 1 by (auto simp: skip_clear.simps[of buf MaxBuffer p V])
  qed
qed

lemma scan_state_first:
  "scan_state buf s (s div 32 + 1) (push_bit (s mod 32) (drop_bit (s mod 32) (buf ! (s div 32))))"
proof -
  have "s mod 32 \<le> k \<longleftrightarrow> s \<le> 32 * (s div 32) + k" if "k < 32" for k
    using that by (metis add_le_cancel_left mult_div_mod_eq)
  then show ?thesis by (auto simp: scan_state_def bit_mask_low)
qed

text \<open>The length that is returned is that of a clear run, cut off at \<open>MaxLength\<close> or longer.\<close>

definition clear_run :: "RTL_BITMAP \<Rightarrow> nat \<Rightarrow> nat \<Rightarrow> nat \<Rightarrow> bool" where
  "clear_run bm s m r \<longleftrightarrow> s + r \<le> SizeOfBitMap bm \<and> (\<forall>i. s \<le> i \<and> i < s + r \<longrightarrow> \<not> bm_bit bm i) \<and>
     (min m (SizeOfBitMap bm - s) \<le> r \<or> bm_bit bm (s + r))"

definition set_run :: "RTL_BITMAP \<Rightarrow> nat \<Rightarrow> nat \<Rightarrow> nat \<Rightarrow> bool" where
  "set_run bm s m r \<longleftrightarrow> s + r \<le> SizeOfBitMap bm \<and> (\<forall>i. s \<le> i \<and> i < s + r \<longrightarrow> bm_bit bm i) \<and>
     (min m (SizeOfBitMap bm - s) \<le> r \<or> \<not> bm_bit bm (s + r))"

lemma RunClear_spec:
  assumes wf: "wf_bitmap bm" and s: "s < SizeOfBitMap bm"
  shows "\<exists>r. RtlpGetLengthOfRunClear bm s m = Some r \<and> clear_run bm s m r"
proof -
  let ?size = "SizeOfBitMap bm" and ?buf = "Buffer bm"
  define q b M where qb: "q = s div 32" "b = s mod 32" and M_def: "M = min m (?size - s)"
  define MB where "MB = q + (b + M + 31) div 32"
  have sqb: "s = 32 * q + b" "b < 32" by (simp_all add: qb)
  have size: "?size < 2147483648" "?size \<le> 32 * length ?buf" using wf by (auto simp: wf_bitmap_def)
  have M: "s + M \<le> ?size" using s by (simp add: M_def)
  have sub: "u32_sub ?size s = ?size - s" using s size by (intro u32_sub_small) auto
  have "b + M < 2147483648" using M sqb size by linarith
  then have mb: "q + u32_sub (u32_add (u32_add b M) 32) 1 div 32 = MB"
    by (simp add: MB_def u32_add_small u32_sub_small)
  have "32 * ((b + M + 31) div 32) \<le> b + M + 31" by simp
  then have MB1: "32 * MB \<le> ?size + 31" using M sqb unfolding MB_def by (simp add: distrib_left)
  have "b + M \<le> 32 * ((b + M + 31) div 32)" by (rule round_up_32)
  then have MB2: "s + M \<le> 32 * MB" unfolding MB_def sqb(1) by (simp add: distrib_left)
  have q: "q < length ?buf" using sqb s size by linarith
  have "MB \<le> length ?buf" using MB1 size by linarith
  then obtain V p where skip: "skip_clear ?buf MB (q + 1) (push_bit b (drop_bit b (?buf ! q))) = Some (V, p)"
    and st: "scan_state ?buf s p V" and p: "q + 1 \<le> p" "p \<le> max (q + 1) MB" "V = 0 \<longrightarrow> MB \<le> p"
    using skip_clear_spec[OF _ scan_state_first] unfolding qb by blast
  show ?thesis
  proof (cases "V = 0")
    case True
    have "RtlpGetLengthOfRunClear bm s m = Some M"
      using s q skip True mb by (simp add: RtlpGetLengthOfRunClear_def Let_def sub flip: qb M_def)
    moreover have "\<not> bm_bit bm i" if "s \<le> i" "i < s + M" for i
      using scan_state_zero[of ?buf s p i] st True p MB2 that by simp
    ultimately show ?thesis using M by (simp add: clear_run_def M_def)
  next
    case False
    then obtain k where k: "BitScanForward V = Some k" "k < 32" "bit V k" "\<forall>j<k. \<not> bit V j"
      by (rule BitScanForward_spec)
    define pos where "pos = 32 * (p - 1) + k"
    have p0: "0 < p" using p by simp
    have posdm: "pos div 32 = p - 1" "pos mod 32 = k" using k(2) by (auto simp: pos_def)
    have set: "bm_bit bm pos" and spos: "s \<le> pos"
      using st k by (auto simp: scan_state_def bit_at_def posdm pos_def)
    have clr: "\<not> bm_bit bm i" if "s \<le> i" "i < pos" for i
    proof (cases "i < 32 * (p - 1)")
      case True
      then show ?thesis using st that by (auto simp: scan_state_def)
    next
      case False
      then have i: "i div 32 = p - 1" using that k(2) by (intro div_nat_eqI) (auto simp: pos_def)
      then have i': "i = 32 * (p - 1) + i mod 32" by (metis mult_div_mod_eq)
      then have "i mod 32 < k" using that(2) unfolding pos_def by linarith
      then have "\<not> bit V (i mod 32)" "i mod 32 < 32" using k(4) by auto
      then have "\<not> bit (?buf ! (p - 1)) (i mod 32)"
        using scan_state_bit[OF st, of "i mod 32"] that(1) i' by simp
      then show ?thesis by (simp add: bit_at_def i)
    qed
    have "32 * p \<le> ?size + 31" using p MB1 sqb s by (auto simp: max_def split: if_splits)
    then have p32: "p * 32 < 4294967296" "32 \<le> p * 32 - s + k" "s \<le> p * 32"
      using size st p0 spos unfolding pos_def scan_state_def by linarith+
    have "u32_add (p * 32 - s) (u32_sub k 32) = p * 32 - s + k - 32"
      using p32 k(2) by (intro u32_sub_add_cancel) linarith+
    then have len: "u32_add (u32_sub (u32_mul p 32) s) (u32_sub k 32) = pos - s"
      using p32 p0 spos by (simp add: u32_mul_small u32_sub_small pos_def)
    have "RtlpGetLengthOfRunClear bm s m = Some (if ?size - s < pos - s then ?size - s else pos - s)"
      using s q skip False k mb len
      by (simp add: RtlpGetLengthOfRunClear_def Let_def sub flip: qb M_def)
    moreover have "clear_run bm s m (?size - s)" if "?size - s < pos - s"
      using clr that s by (auto simp: clear_run_def)
    moreover have "clear_run bm s m (pos - s)" if "\<not> ?size - s < pos - s"
      using clr set spos that s by (simp add: clear_run_def)
    ultimately show ?thesis by simp
  qed
qed

text \<open>
  A set run is a clear run of the complemented buffer: the two C functions compute the
  same on complementary bitmaps.
\<close>

definition complement_bm :: "RTL_BITMAP \<Rightarrow> RTL_BITMAP" where
  "complement_bm bm = bm\<lparr>Buffer := map (NOT) (Buffer bm)\<rparr>"

lemma skip_set_complement: "skip_set buf m p v = skip_clear (map (NOT) buf) m p v"
proof (induction buf m p v rule: skip_set.induct)
  case (1 buf m p v)
  then show ?case
    by (subst skip_set.simps, subst skip_clear.simps) (auto simp: peek_def)
qed

lemma RunSet_complement:
  "RtlpGetLengthOfRunSet bm s m = RtlpGetLengthOfRunClear (complement_bm bm) s m"
proof -
  have c: "SizeOfBitMap (complement_bm bm) = SizeOfBitMap bm"
    "Buffer (complement_bm bm) = map (NOT) (Buffer bm)"
    by (simp_all add: complement_bm_def)
  show ?thesis
    unfolding RtlpGetLengthOfRunSet_def RtlpGetLengthOfRunClear_def c skip_set_complement
    by (simp add: Let_def peek_def)
qed

lemma bm_bit_complement:
  "i < 32 * length (Buffer bm) \<Longrightarrow> bm_bit (complement_bm bm) i \<longleftrightarrow> \<not> bm_bit bm i"
  by (simp add: complement_bm_def bit_at_def bit_not_iff less_mult_imp_div_less mult.commute)

lemma wf_complement: "wf_bitmap bm \<Longrightarrow> wf_bitmap (complement_bm bm)"
  by (simp add: wf_bitmap_def complement_bm_def)

lemma RunSet_spec:
  assumes wf: "wf_bitmap bm" and s: "s < SizeOfBitMap bm"
  shows "\<exists>r. RtlpGetLengthOfRunSet bm s m = Some r \<and> set_run bm s m r"
proof -
  have size: "SizeOfBitMap (complement_bm bm) = SizeOfBitMap bm" by (simp add: complement_bm_def)
  obtain r where r: "RtlpGetLengthOfRunSet bm s m = Some r" "clear_run (complement_bm bm) s m r"
    using RunClear_spec[OF wf_complement[OF wf], of s m] s size RunSet_complement by auto
  have flip: "bm_bit (complement_bm bm) i \<longleftrightarrow> \<not> bm_bit bm i" if "i < SizeOfBitMap bm" for i
    using that wf bm_bit_complement by (simp add: wf_bitmap_def)
  have "set_run bm s m r"
  proof (cases "s + r = SizeOfBitMap bm")
    case True
    then show ?thesis using r(2) flip by (auto simp: clear_run_def set_run_def size)
  next
    case False
    then show ?thesis using r(2) flip by (auto simp: clear_run_def set_run_def size)
  qed
  with r show ?thesis by blast
qed

lemma RunClear_end [simp]: "SizeOfBitMap bm \<le> s \<Longrightarrow> RtlpGetLengthOfRunClear bm s m = Some 0"
  and RunSet_end [simp]: "SizeOfBitMap bm \<le> s \<Longrightarrow> RtlpGetLengthOfRunSet bm s m = Some 0"
  by (simp_all add: RtlpGetLengthOfRunClear_def RtlpGetLengthOfRunSet_def)

text \<open>Both functions, for any starting index up to the end of the bitmap.\<close>

lemma RunClear_total:
  assumes "wf_bitmap bm" and "s \<le> SizeOfBitMap bm"
  obtains r where "RtlpGetLengthOfRunClear bm s m = Some r" and "clear_run bm s m r"
proof (cases "s < SizeOfBitMap bm")
  case True
  then show thesis using RunClear_spec[OF assms(1)] that by blast
next
  case False
  then show thesis using assms by (intro that[of 0]) (auto simp: clear_run_def)
qed

lemma RunSet_total:
  assumes "wf_bitmap bm" and "s \<le> SizeOfBitMap bm"
  obtains r where "RtlpGetLengthOfRunSet bm s m = Some r" and "set_run bm s m r"
proof (cases "s < SizeOfBitMap bm")
  case True
  then show thesis using RunSet_spec[OF assms(1)] that by blast
next
  case False
  then show thesis using assms by (intro that[of 0]) (auto simp: set_run_def)
qed

section \<open>Testing, setting and clearing bits\<close>

lemma RtlTestBit_correct:
  assumes "wf_bitmap bm" and "i < SizeOfBitMap bm"
  shows "RtlTestBit bm i = Some (bm_bit bm i)"
proof -
  have "i div 32 < length (Buffer bm)"
    using assms by (simp add: wf_bitmap_def less_mult_imp_div_less mult.commute)
  moreover have "drop_bit k w AND 1 \<noteq> 0 \<longleftrightarrow> bit w k" for w :: "32 word" and k
    by (simp add: and_one_eq bit_iff_odd_drop_bit mod_2_eq_odd)
  ultimately show ?thesis by (simp add: RtlTestBit_def bit_at_def)
qed

lemmas bit_words = bit_or_iff bit_and_iff bit_not_iff bit_mask_iff bit_mask_high

text \<open>A buffer seen through a word-wise description of its new contents.\<close>

lemma bit_at_update:
  assumes "p < length buf" and "i < 32 * length buf"
  shows "bit_at (buf[p := w]) i = (if i div 32 = p then bit w (i mod 32) else bit_at buf i)"
  using assms by (simp add: bit_at_def nth_list_update)

lemma bit_at_filled:
  assumes "p + n \<le> length buf" and "i < 32 * length buf"
  shows "bit_at (take p buf @ replicate n w @ drop (p + n) buf) i =
    (if 32 * p \<le> i \<and> i < 32 * (p + n) then bit w (i mod 32) else bit_at buf i)"
proof -
  have "i div 32 < length buf" using assms(2) by (simp add: less_mult_imp_div_less mult.commute)
  moreover have "p \<le> i div 32 \<longleftrightarrow> 32 * p \<le> i"
    by (simp add: less_eq_div_iff_mult_less_eq mult.commute)
  moreover have "i div 32 < p + n \<longleftrightarrow> i < 32 * (p + n)"
    by (simp add: div_less_iff_less_mult mult.commute)
  ultimately show ?thesis using assms(1) by (simp add: bit_at_def nth_filled)
qed

text \<open>What a function that changes the bits of a range must do to a buffer.\<close>

definition range_written :: "bool \<Rightarrow> nat \<Rightarrow> nat \<Rightarrow> 32 word list \<Rightarrow> 32 word list \<Rightarrow> bool" where
  "range_written v s n buf buf' \<longleftrightarrow> length buf' = length buf \<and>
     (\<forall>i<32 * length buf. bit_at buf' i = (if s \<le> i \<and> i < s + n then v else bit_at buf i))"

lemma div_eq_range: "i div 32 = p \<longleftrightarrow> 32 * p \<le> i \<and> i < 32 * p + (32::nat)"
  by (metis div_nat_eqI mult.commute less_eq_div_iff_mult_less_eq div_less_iff_less_mult
      add.commute distrib_left nat_mult_1_right less_Suc_eq_le order_refl zero_less_numeral
      mult_Suc_right)

lemma div_8_4: "n div 8 div 4 = n div (32::nat)"
  by (simp flip: div_mult2_eq)

text \<open>One word is rewritten: the bits of the range \<open>s \<le> i < s + n\<close> inside word \<open>p\<close>.\<close>

lemma range_written_word:
  assumes "p < length buf" and "32 * p \<le> s" and "s + n \<le> 32 * p + 32"
    and "\<forall>k<32. bit w k = (if s \<le> 32 * p + k \<and> 32 * p + k < s + n then v else bit (buf ! p) k)"
  shows "range_written v s n buf (buf[p := w])"
proof -
  have "bit_at (buf[p := w]) i = (if s \<le> i \<and> i < s + n then v else bit_at buf i)"
    if "i < 32 * length buf" for i
  proof (cases "i div 32 = p")
    case True
    then have "32 * p + i mod 32 = i" by (metis mult_div_mod_eq)
    then show ?thesis using assms(1,4) True that by (auto simp: bit_at_update) (auto simp: bit_at_def)
  next
    case False
    then have "\<not> (s \<le> i \<and> i < s + n)" using assms(2,3) by (auto simp: div_eq_range)
    then show ?thesis using assms(1) that False by (auto simp: bit_at_update)
  qed
  then show ?thesis by (simp add: range_written_def)
qed

lemma range_written_fill:
  assumes "p + n \<le> length buf" and "\<forall>k<32. bit w k = v"
  shows "range_written v (32 * p) (32 * n) buf (take p buf @ replicate n w @ drop (p + n) buf)"
  using assms by (auto simp: range_written_def bit_at_filled min_def)

lemma range_written_trans:
  assumes "range_written v s n a b" and "range_written v (s + n) m b c"
  shows "range_written v s (n + m) a c"
  using assms by (auto simp: range_written_def)

lemma range_written_refl: "range_written v s 0 buf buf"
  by (auto simp: range_written_def)

lemma RtlSetBits_aligned_spec:
  assumes "32 * p + n \<le> 32 * length buf"
  shows "\<exists>buf'. RtlSetBits_aligned buf p n = Some buf' \<and> range_written True (32 * p) n buf buf'"
proof -
  define q r where qr: "q = n div 32" "r = n mod 32"
  have n: "n = 32 * q + r" "r < 32" by (simp_all add: qr)
  have pq: "p + q \<le> length buf" using assms n by linarith
  define b1 where "b1 = take p buf @ replicate q (-1) @ drop (p + q) buf"
  have fill: "RtlFillMemoryUlong buf p (n div 8) (-1) = Some b1"
    using pq by (simp add: RtlFillMemoryUlong_eq div_8_4 b1_def qr)
  have w1: "range_written True (32 * p) (32 * q) buf b1"
    unfolding b1_def using pq by (intro range_written_fill) simp_all
  have len: "length b1 = length buf" using w1 by (simp add: range_written_def)
  show ?thesis
  proof (cases "r = 0")
    case True
    then show ?thesis using fill w1 n by (simp add: RtlSetBits_aligned_def Let_def flip: qr)
  next
    case False
    then have "p + q < length b1" using assms n len by linarith
    then have "range_written True (32 * (p + q)) r b1 (b1[p + q := b1 ! (p + q) OR NOT (push_bit r (-1))])"
      using n by (intro range_written_word) (auto simp: bit_words)
    with w1 have "range_written True (32 * p) n buf (b1[p + q := b1 ! (p + q) OR NOT (push_bit r (-1))])"
      unfolding n(1) by (intro range_written_trans) (simp_all add: distrib_left)
    with False fill \<open>p + q < length b1\<close> show ?thesis
      by (simp add: RtlSetBits_aligned_def Let_def flip: qr)
  qed
qed

lemma RtlClearBits_aligned_spec:
  assumes "32 * p + n \<le> 32 * length buf"
  shows "\<exists>buf'. RtlClearBits_aligned buf p n = Some buf' \<and> range_written False (32 * p) n buf buf'"
proof -
  define q r where qr: "q = n div 32" "r = n mod 32"
  have n: "n = 32 * q + r" "r < 32" by (simp_all add: qr)
  have pq: "p + q \<le> length buf" using assms n by linarith
  define b1 where "b1 = take p buf @ replicate q 0 @ drop (p + q) buf"
  have fill: "RtlFillMemoryUlong buf p (n div 8) 0 = Some b1"
    using pq by (simp add: RtlFillMemoryUlong_eq div_8_4 b1_def qr)
  have w1: "range_written False (32 * p) (32 * q) buf b1"
    unfolding b1_def using pq by (intro range_written_fill) simp_all
  have len: "length b1 = length buf" using w1 by (simp add: range_written_def)
  show ?thesis
  proof (cases "r = 0")
    case True
    then show ?thesis using fill w1 n by (simp add: RtlClearBits_aligned_def Let_def flip: qr)
  next
    case False
    then have "p + q < length b1" using assms n len by linarith
    then have "range_written False (32 * (p + q)) r b1 (b1[p + q := b1 ! (p + q) AND push_bit r (-1)])"
      using n by (intro range_written_word) (auto simp: bit_words)
    with w1 have "range_written False (32 * p) n buf (b1[p + q := b1 ! (p + q) AND push_bit r (-1)])"
      unfolding n(1) by (intro range_written_trans) (simp_all add: distrib_left)
    with False fill \<open>p + q < length b1\<close> show ?thesis
      by (simp add: RtlClearBits_aligned_def Let_def flip: qr)
  qed
qed

lemma RtlSetBits_spec:
  assumes wf: "wf_bitmap bm" and sn: "s + n \<le> SizeOfBitMap bm" and n0: "0 < n"
  shows "\<exists>buf'. RtlSetBits bm s n = Some (bm\<lparr>Buffer := buf'\<rparr>) \<and> range_written True s n (Buffer bm) buf'"
proof -
  define q b where qb: "q = s div 32" "b = s mod 32"
  have s: "s = 32 * q + b" "b < 32" by (simp_all add: qb)
  have len: "s + n \<le> 32 * length (Buffer bm)" using wf sn by (simp add: wf_bitmap_def)
  then have q: "q < length (Buffer bm)" using s n0 by linarith
  consider "b = 0" | "b \<noteq> 0" "n < 32 - b" | "b \<noteq> 0" "\<not> n < 32 - b" by blast
  then show ?thesis
  proof cases
    case 1
    then obtain buf' where "RtlSetBits_aligned (Buffer bm) q n = Some buf'"
      "range_written True s n (Buffer bm) buf'"
      using RtlSetBits_aligned_spec[of q n "Buffer bm"] len s by auto
    then show ?thesis using 1 by (auto simp: RtlSetBits_def Let_def simp flip: qb)
  next
    case 2
    let ?m = "drop_bit (32 - b - n) (push_bit (32 - b - n) (push_bit b (-1))) :: 32 word"
    have "bit ?m k \<longleftrightarrow> b \<le> k \<and> k < b + n" if "k < 32" for k
      using that 2 s(2) by (auto simp: bit_words)
    then have "range_written True s n (Buffer bm) ((Buffer bm)[q := Buffer bm ! q OR ?m])"
      using q s 2 by (intro range_written_word) (auto simp: bit_words)
    then show ?thesis using 2 q by (auto simp: RtlSetBits_def Let_def simp flip: qb)
  next
    case 3
    define b1 where "b1 = (Buffer bm)[q := Buffer bm ! q OR push_bit b (-1)]"
    have w1: "range_written True s (32 - b) (Buffer bm) b1"
      unfolding b1_def using q s 3 by (intro range_written_word) (auto simp: bit_words)
    have "32 * (q + 1) + (n - (32 - b)) \<le> 32 * length b1" using len s 3 by (simp add: b1_def)
    then obtain buf' where buf': "RtlSetBits_aligned b1 (q + 1) (n - (32 - b)) = Some buf'"
      "range_written True (32 * (q + 1)) (n - (32 - b)) b1 buf'"
      using RtlSetBits_aligned_spec by blast
    have "32 * (q + 1) = s + (32 - b)" using s by simp
    then have "range_written True s n (Buffer bm) buf'"
      using range_written_trans[OF w1, of "n - (32 - b)" buf'] buf' 3 by simp
    then show ?thesis using 3 q buf'(1) by (auto simp: RtlSetBits_def Let_def b1_def simp flip: qb)
  qed
qed

lemma RtlClearBits_spec:
  assumes wf: "wf_bitmap bm" and sn: "s + n \<le> SizeOfBitMap bm" and n0: "0 < n"
  shows "\<exists>buf'. RtlClearBits bm s n = Some (bm\<lparr>Buffer := buf'\<rparr>) \<and> range_written False s n (Buffer bm) buf'"
proof -
  define q b where qb: "q = s div 32" "b = s mod 32"
  have s: "s = 32 * q + b" "b < 32" by (simp_all add: qb)
  have len: "s + n \<le> 32 * length (Buffer bm)" using wf sn by (simp add: wf_bitmap_def)
  then have q: "q < length (Buffer bm)" using s n0 by linarith
  consider "b = 0" | "b \<noteq> 0" "n < 32 - b" | "b \<noteq> 0" "\<not> n < 32 - b" by blast
  then show ?thesis
  proof cases
    case 1
    then obtain buf' where "RtlClearBits_aligned (Buffer bm) q n = Some buf'"
      "range_written False s n (Buffer bm) buf'"
      using RtlClearBits_aligned_spec[of q n "Buffer bm"] len s by auto
    then show ?thesis using 1 by (auto simp: RtlClearBits_def Let_def simp flip: qb)
  next
    case 2
    let ?m = "drop_bit (32 - b - n) (push_bit (32 - b - n) (push_bit b (-1))) :: 32 word"
    have "bit ?m k \<longleftrightarrow> b \<le> k \<and> k < b + n" if "k < 32" for k
      using that 2 s(2) by (auto simp: bit_words)
    then have "range_written False s n (Buffer bm) ((Buffer bm)[q := Buffer bm ! q AND NOT ?m])"
      using q s 2 by (intro range_written_word) (auto simp: bit_words)
    then show ?thesis using 2 q by (auto simp: RtlClearBits_def Let_def simp flip: qb)
  next
    case 3
    define b1 where "b1 = (Buffer bm)[q := Buffer bm ! q AND NOT (push_bit b (-1))]"
    have w1: "range_written False s (32 - b) (Buffer bm) b1"
      unfolding b1_def using q s 3
      by (intro range_written_word) (auto simp: bit_words)
    have "32 * (q + 1) + (n - (32 - b)) \<le> 32 * length b1" using len s 3 by (simp add: b1_def)
    then obtain buf' where buf': "RtlClearBits_aligned b1 (q + 1) (n - (32 - b)) = Some buf'"
      "range_written False (32 * (q + 1)) (n - (32 - b)) b1 buf'"
      using RtlClearBits_aligned_spec by blast
    have "32 * (q + 1) = s + (32 - b)" using s by simp
    then have "range_written False s n (Buffer bm) buf'"
      using range_written_trans[OF w1, of "n - (32 - b)" buf'] buf' 3 by simp
    then show ?thesis using 3 q buf'(1) by (auto simp: RtlClearBits_def Let_def b1_def simp flip: qb)
  qed
qed

section \<open>Searching for a range of bits\<close>

text \<open>
  \<open>range_of v bm i n\<close>: the \<open>n\<close> bits from \<open>i\<close> on lie inside the bitmap and all have
  the value \<open>v\<close>. This is the specification the searches are measured against.
\<close>

definition range_of :: "bool \<Rightarrow> RTL_BITMAP \<Rightarrow> nat \<Rightarrow> nat \<Rightarrow> bool" where
  "range_of v bm i n \<longleftrightarrow> i + n \<le> SizeOfBitMap bm \<and> (\<forall>j. i \<le> j \<and> j < i + n \<longrightarrow> bm_bit bm j = v)"

text \<open>One round of a search loop: skip a run of the other value, measure the run after it.\<close>

definition search_round :: "bool \<Rightarrow> RTL_BITMAP \<Rightarrow> nat \<Rightarrow> nat \<Rightarrow> nat \<Rightarrow> nat \<Rightarrow> bool" where
  "search_round v bm n c r1 r2 \<longleftrightarrow>
     c + r1 + r2 \<le> SizeOfBitMap bm \<and>
     (\<forall>i. c \<le> i \<and> i < c + r1 \<longrightarrow> bm_bit bm i \<noteq> v) \<and>
     (SizeOfBitMap bm \<le> c + r1 \<or> bm_bit bm (c + r1) = v) \<and>
     (\<forall>i. c + r1 \<le> i \<and> i < c + r1 + r2 \<longrightarrow> bm_bit bm i = v) \<and>
     (min n (SizeOfBitMap bm - (c + r1)) \<le> r2 \<or> bm_bit bm (c + r1 + r2) \<noteq> v)"

lemma search_round_progress:
  "search_round v bm n c r1 r2 \<Longrightarrow> c < SizeOfBitMap bm \<Longrightarrow> 0 < n \<Longrightarrow> 0 < r1 + r2"
  by (rule ccontr) (auto simp: search_round_def min_def split: if_splits)

lemma search_round_found:
  "search_round v bm n c r1 r2 \<Longrightarrow> n \<le> r2 \<Longrightarrow> range_of v bm (c + r1) n"
  by (auto simp: search_round_def range_of_def)

lemma search_round_skipped:
  assumes "search_round v bm n c r1 r2" and "0 < n" and "c \<le> i" and "i < c + r1"
  shows "\<not> range_of v bm i n"
  using assms by (auto simp: search_round_def range_of_def)

lemma search_round_short:
  assumes r: "search_round v bm n c r1 r2" and "0 < n" and "r2 < n" and i: "c \<le> i" "i < c + r1 + r2"
  shows "\<not> range_of v bm i n"
proof (cases "i < c + r1")
  case True
  then show ?thesis using search_round_skipped assms by blast
next
  case False
  show ?thesis
  proof
    assume a: "range_of v bm i n"
    have "c + r1 + r2 < i + n" using False assms(3) i by linarith
    moreover have "c + r1 + r2 = SizeOfBitMap bm \<or> bm_bit bm (c + r1 + r2) \<noteq> v"
      using r assms(3) by (auto simp: search_round_def min_def split: if_splits)
    ultimately show False using a i by (auto simp: range_of_def)
  qed
qed

text \<open>What the loops owe: the first range from \<open>c\<close> on, or none that the guard \<open>G\<close> admits.\<close>

definition search_result :: "bool \<Rightarrow> RTL_BITMAP \<Rightarrow> nat \<Rightarrow> (nat \<Rightarrow> bool) \<Rightarrow> nat \<Rightarrow> nat option \<Rightarrow> bool" where
  "search_result v bm n G c r \<longleftrightarrow>
     (case r of
        Some p \<Rightarrow> c \<le> p \<and> range_of v bm p n \<and> (\<forall>i. c \<le> i \<and> i < p \<longrightarrow> \<not> range_of v bm i n)
      | None \<Rightarrow> (\<forall>i. c \<le> i \<and> G i \<longrightarrow> \<not> range_of v bm i n))"

lemma search_result_step:
  assumes "search_round v bm n c r1 r2" and "0 < n" and "r2 < n"
    and "search_result v bm n G (c + r1 + r2) r"
  shows "search_result v bm n G c r"
proof -
  have no: "\<not> range_of v bm i n" if "c \<le> i" "i < c + r1 + r2" for i
    using search_round_short[OF assms(1-3)] that by blast
  show ?thesis
  proof (cases r)
    case None
    then show ?thesis using assms(4) no by (simp add: search_result_def) (meson not_le)
  next
    case (Some p)
    then show ?thesis using assms(4) no by (simp add: search_result_def) (meson not_le)
  qed
qed

lemma search_result_found:
  assumes "search_round v bm n c r1 r2" and "0 < n" and "n \<le> r2"
  shows "search_result v bm n G c (Some (c + r1))"
  using search_round_found[OF assms(1,3)] search_round_skipped[OF assms(1,2)]
  by (auto simp: search_result_def)

lemma clear_round:
  assumes "wf_bitmap bm" and "c < SizeOfBitMap bm"
  obtains r1 r2 where "RtlpGetLengthOfRunSet bm c MAXINDEX = Some r1"
    "RtlpGetLengthOfRunClear bm (c + r1) n = Some r2" "search_round False bm n c r1 r2"
proof -
  obtain r1 where r1: "RtlpGetLengthOfRunSet bm c MAXINDEX = Some r1" "set_run bm c MAXINDEX r1"
    by (rule RunSet_total[OF assms(1) less_imp_le[OF assms(2)]])
  then have "c + r1 \<le> SizeOfBitMap bm" by (simp add: set_run_def)
  then obtain r2 where r2: "RtlpGetLengthOfRunClear bm (c + r1) n = Some r2" "clear_run bm (c + r1) n r2"
    by (rule RunClear_total[OF assms(1)])
  have "SizeOfBitMap bm - c \<le> MAXINDEX" using assms(1) unfolding wf_bitmap_def MAXINDEX_def by linarith
  then have m: "min MAXINDEX (SizeOfBitMap bm - c) = SizeOfBitMap bm - c" by (rule min_absorb2)
  note r1' = r1(2)[unfolded set_run_def m] and r2' = r2(2)[unfolded clear_run_def]
  have "search_round False bm n c r1 r2"
    unfolding search_round_def
  proof (intro conjI)
    show "c + r1 + r2 \<le> SizeOfBitMap bm" using r2' by blast
    show "\<forall>i. c \<le> i \<and> i < c + r1 \<longrightarrow> bm_bit bm i \<noteq> False" using r1' by blast
    show "SizeOfBitMap bm \<le> c + r1 \<or> bm_bit bm (c + r1) = False"
      using r1' le_diff_conv[of "SizeOfBitMap bm" c r1] by (metis add.commute)
    show "\<forall>i. c + r1 \<le> i \<and> i < c + r1 + r2 \<longrightarrow> bm_bit bm i = False" using r2' by blast
    show "min n (SizeOfBitMap bm - (c + r1)) \<le> r2 \<or> bm_bit bm (c + r1 + r2) \<noteq> False" using r2' by blast
  qed
  with r1(1) r2(1) show thesis by (rule that)
qed

lemma set_round:
  assumes "wf_bitmap bm" and "c < SizeOfBitMap bm"
  obtains r1 r2 where "RtlpGetLengthOfRunClear bm c MAXINDEX = Some r1"
    "RtlpGetLengthOfRunSet bm (c + r1) n = Some r2" "search_round True bm n c r1 r2"
proof -
  obtain r1 where r1: "RtlpGetLengthOfRunClear bm c MAXINDEX = Some r1" "clear_run bm c MAXINDEX r1"
    by (rule RunClear_total[OF assms(1) less_imp_le[OF assms(2)]])
  then have "c + r1 \<le> SizeOfBitMap bm" by (simp add: clear_run_def)
  then obtain r2 where r2: "RtlpGetLengthOfRunSet bm (c + r1) n = Some r2" "set_run bm (c + r1) n r2"
    by (rule RunSet_total[OF assms(1)])
  have "SizeOfBitMap bm - c \<le> MAXINDEX" using assms(1) unfolding wf_bitmap_def MAXINDEX_def by linarith
  then have m: "min MAXINDEX (SizeOfBitMap bm - c) = SizeOfBitMap bm - c" by (rule min_absorb2)
  note r1' = r1(2)[unfolded clear_run_def m] and r2' = r2(2)[unfolded set_run_def]
  have "search_round True bm n c r1 r2"
    unfolding search_round_def
  proof (intro conjI)
    show "c + r1 + r2 \<le> SizeOfBitMap bm" using r2' by blast
    show "\<forall>i. c \<le> i \<and> i < c + r1 \<longrightarrow> bm_bit bm i \<noteq> True" using r1' by blast
    show "SizeOfBitMap bm \<le> c + r1 \<or> bm_bit bm (c + r1) = True"
      using r1' le_diff_conv[of "SizeOfBitMap bm" c r1] by (metis add.commute)
    show "\<forall>i. c + r1 \<le> i \<and> i < c + r1 + r2 \<longrightarrow> bm_bit bm i = True" using r2' by blast
    show "min n (SizeOfBitMap bm - (c + r1)) \<le> r2 \<or> bm_bit bm (c + r1 + r2) \<noteq> True" using r2' by blast
  qed
  with r1(1) r2(1) show thesis by (rule that)
qed

text \<open>
  The guard of the loop is strict: a range that ends at the margin is found unless the loop is
  entered at its start.
\<close>

lemma FindClearBits_loop_spec:
  assumes wf: "wf_bitmap bm" and n: "0 < n" "n \<le> SizeOfBitMap bm" and m: "Margin \<le> SizeOfBitMap bm"
    and "c \<le> SizeOfBitMap bm"
  shows "\<exists>r. FindClearBits_loop bm n Margin c = Some r \<and>
    search_result False bm n (\<lambda>i. i + n \<le> Margin \<and> (i \<noteq> c \<or> i + n < Margin)) c r"
  using assms(5)
proof (induction "SizeOfBitMap bm - c" arbitrary: c rule: less_induct)
  case less
  have size: "SizeOfBitMap bm < 2147483648" using wf by (simp add: wf_bitmap_def)
  have add: "u32_add c n = c + n" using less.prems n size by (intro u32_add_small) linarith
  show ?case
  proof (cases "c + n < Margin")
    case True
    then have c: "c < SizeOfBitMap bm" using m by simp
    obtain r1 r2 where r1: "RtlpGetLengthOfRunSet bm c MAXINDEX = Some r1"
      and r2: "RtlpGetLengthOfRunClear bm (c + r1) n = Some r2"
      and round: "search_round False bm n c r1 r2"
      using clear_round[OF wf c] by blast
    have bnd: "c + r1 + r2 \<le> SizeOfBitMap bm" using round by (simp add: search_round_def)
    have adds: "u32_add c r1 = c + r1" "u32_add (c + r1) r2 = c + r1 + r2"
      using bnd size by (auto intro!: u32_add_small)
    show ?thesis
    proof (cases "n \<le> r2")
      case True
      then have "FindClearBits_loop bm n Margin c = Some (Some (c + r1))"
        using \<open>c + n < Margin\<close> r1 r2 by (subst FindClearBits_loop.simps) (simp add: add adds)
      then show ?thesis using search_result_found[OF round n(1) True] by blast
    next
      case False
      then have eq: "FindClearBits_loop bm n Margin c = FindClearBits_loop bm n Margin (c + r1 + r2)"
        using \<open>c + n < Margin\<close> r1 r2 by (subst FindClearBits_loop.simps) (simp add: add adds)
      have "SizeOfBitMap bm - (c + r1 + r2) < SizeOfBitMap bm - c"
        using search_round_progress[OF round c n(1)] bnd c by linarith
      from less.hyps[OF this bnd] obtain r where "FindClearBits_loop bm n Margin (c + r1 + r2) = Some r"
        "search_result False bm n (\<lambda>i. i + n \<le> Margin \<and> (i \<noteq> c + r1 + r2 \<or> i + n < Margin)) (c + r1 + r2) r" by blast
      moreover have "\<not> range_of False bm (c + r1 + r2) n"
        using round False n(1) by (auto simp: search_round_def range_of_def min_def split: if_splits)
      ultimately have "search_result False bm n (\<lambda>i. i + n \<le> Margin \<and> (i \<noteq> c \<or> i + n < Margin)) (c + r1 + r2) r"
        by (auto simp: search_result_def split: option.splits)
      with search_result_step[OF round n(1)] False eq \<open>FindClearBits_loop bm n Margin (c + r1 + r2) = Some r\<close> show ?thesis
        by (metis not_le)
    qed
  next
    case False
    then have "FindClearBits_loop bm n Margin c = Some None"
      by (subst FindClearBits_loop.simps) (simp add: add)
    with False show ?thesis by (auto simp: search_result_def)
  qed
qed

lemma FindSetBits_loop_spec:
  assumes wf: "wf_bitmap bm" and n: "0 < n" "n \<le> SizeOfBitMap bm" and m: "Margin \<le> SizeOfBitMap bm"
    and "c \<le> SizeOfBitMap bm"
  shows "\<exists>r. FindSetBits_loop bm n Margin c = Some r \<and>
    search_result True bm n (\<lambda>i. i + n \<le> Margin) c r"
  using assms(5)
proof (induction "SizeOfBitMap bm - c" arbitrary: c rule: less_induct)
  case less
  have size: "SizeOfBitMap bm < 2147483648" using wf by (simp add: wf_bitmap_def)
  have add: "u32_add c n = c + n" using less.prems n size by (intro u32_add_small) linarith
  show ?case
  proof (cases "c + n \<le> Margin")
    case True
    then have c: "c < SizeOfBitMap bm" using m n by simp
    obtain r1 r2 where r1: "RtlpGetLengthOfRunClear bm c MAXINDEX = Some r1"
      and r2: "RtlpGetLengthOfRunSet bm (c + r1) n = Some r2"
      and round: "search_round True bm n c r1 r2"
      using set_round[OF wf c] by blast
    have bnd: "c + r1 + r2 \<le> SizeOfBitMap bm" using round by (simp add: search_round_def)
    have adds: "u32_add c r1 = c + r1" "u32_add (c + r1) r2 = c + r1 + r2"
      using bnd size by (auto intro!: u32_add_small)
    show ?thesis
    proof (cases "n \<le> r2")
      case True
      then have "FindSetBits_loop bm n Margin c = Some (Some (c + r1))"
        using \<open>c + n \<le> Margin\<close> r1 r2 by (subst FindSetBits_loop.simps) (simp add: add adds)
      then show ?thesis using search_result_found[OF round n(1) True] by blast
    next
      case False
      then have eq: "FindSetBits_loop bm n Margin c = FindSetBits_loop bm n Margin (c + r1 + r2)"
        using \<open>c + n \<le> Margin\<close> r1 r2 by (subst FindSetBits_loop.simps) (simp add: add adds)
      have "SizeOfBitMap bm - (c + r1 + r2) < SizeOfBitMap bm - c"
        using search_round_progress[OF round c n(1)] bnd c by linarith
      from less.hyps[OF this bnd] obtain r where "FindSetBits_loop bm n Margin (c + r1 + r2) = Some r"
        "search_result True bm n (\<lambda>i. i + n \<le> Margin) (c + r1 + r2) r" by blast
      with search_result_step[OF round n(1)] False eq show ?thesis by (metis not_le)
    qed
  next
    case False
    then have "FindSetBits_loop bm n Margin c = Some None"
      by (subst FindSetBits_loop.simps) (simp add: add)
    with False show ?thesis by (auto simp: search_result_def)
  qed
qed

lemma range_of_position: "wf_bitmap bm \<Longrightarrow> range_of v bm p n \<Longrightarrow> p \<noteq> MAXINDEX"
  by (auto simp: range_of_def wf_bitmap_def MAXINDEX_def)

text \<open>
  Both passes of a search together: from the hint to the end, then from the start with the
  margin \<open>min (h + n) size\<close>.
\<close>

lemma two_passes:
  assumes wf: "wf_bitmap bm" and r: "search_result v bm n G h r" and r2: "search_result v bm n G' 0 r2"
    and cover: "\<And>i. Q i \<Longrightarrow> h \<le> i \<and> G i \<or> h \<noteq> 0 \<and> G' i"
    and res: "res = (case r of Some p \<Rightarrow> Some p | None \<Rightarrow> if h \<noteq> 0 then
       (case r2 of Some p \<Rightarrow> Some p | None \<Rightarrow> Some MAXINDEX) else Some MAXINDEX)"
  shows "\<exists>p. res = Some p \<and> (p \<noteq> MAXINDEX \<longrightarrow> range_of v bm p n) \<and>
    (p = MAXINDEX \<longrightarrow> (\<forall>i. Q i \<longrightarrow> \<not> range_of v bm i n))"
proof (cases r)
  case (Some p)
  then have "range_of v bm p n" using r by (simp add: search_result_def)
  then show ?thesis using res Some range_of_position[OF wf] by auto
next
  case None
  show ?thesis
  proof (cases "h \<noteq> 0 \<and> r2 \<noteq> None")
    case True
    then obtain p where p: "r2 = Some p" "h \<noteq> 0" by auto
    then have "range_of v bm p n" using r2 by (simp add: search_result_def)
    then show ?thesis using res None p range_of_position[OF wf] by auto
  next
    case False
    have "\<not> range_of v bm i n" if "Q i" for i
      using cover[OF that] False r r2 None by (auto simp: search_result_def)
    with False show ?thesis using res None by auto
  qed
qed

lemma RtlFindClearBits_spec:
  assumes wf: "wf_bitmap bm" and n: "0 < n"
  shows "\<exists>p. RtlFindClearBits (Some bm) n h = Some p \<and> (p \<noteq> MAXINDEX \<longrightarrow> range_of False bm p n) \<and>
    (p = MAXINDEX \<longrightarrow> (\<forall>i. n < SizeOfBitMap bm \<and> i + n \<le> SizeOfBitMap bm \<longrightarrow> \<not> range_of False bm i n))"
proof (cases "SizeOfBitMap bm < n")
  case True
  then show ?thesis by (auto simp: RtlFindClearBits_def range_of_def)
next
  case False
  define h' where "h' = (if h \<ge> SizeOfBitMap bm then 0 else h)"
  define m where "m = min (h' + n) (SizeOfBitMap bm)"
  have h': "h' \<le> SizeOfBitMap bm" "h' + n < 4294967296"
    using wf False by (auto simp: h'_def wf_bitmap_def)
  obtain r r2 where r: "FindClearBits_loop bm n (SizeOfBitMap bm) h' = Some r"
    "search_result False bm n (\<lambda>i. i + n \<le> SizeOfBitMap bm \<and> (i \<noteq> h' \<or> i + n < SizeOfBitMap bm)) h' r"
    and r2: "FindClearBits_loop bm n m 0 = Some r2" "search_result False bm n (\<lambda>i. i + n \<le> m \<and> (i \<noteq> 0 \<or> i + n < m)) 0 r2"
    using FindClearBits_loop_spec[OF wf n, of "SizeOfBitMap bm" h'] False h'
      FindClearBits_loop_spec[OF wf n, of m 0] by (auto simp: m_def)
  show ?thesis
    by (rule two_passes[OF wf r(2) r2(2)])
      (use False n r(1) r2(1) h'(2) in \<open>auto simp: RtlFindClearBits_def Let_def u32_add_small m_def
        simp flip: h'_def split: option.splits\<close>)
qed

lemma RtlFindSetBits_spec:
  assumes wf: "wf_bitmap bm" and n: "0 < n"
  shows "\<exists>p. RtlFindSetBits (Some bm) n h = Some p \<and> (p \<noteq> MAXINDEX \<longrightarrow> range_of True bm p n) \<and>
    (p = MAXINDEX \<longrightarrow> (\<forall>i. i + n \<le> SizeOfBitMap bm \<longrightarrow> \<not> range_of True bm i n))"
proof (cases "SizeOfBitMap bm < n")
  case True
  then show ?thesis by (auto simp: RtlFindSetBits_def range_of_def)
next
  case False
  define h' where "h' = (if h \<ge> SizeOfBitMap bm then 0 else h)"
  define m where "m = min (h' + n) (SizeOfBitMap bm)"
  have h': "h' \<le> SizeOfBitMap bm" "h' + n < 4294967296"
    using wf False by (auto simp: h'_def wf_bitmap_def)
  obtain r r2 where r: "FindSetBits_loop bm n (SizeOfBitMap bm) h' = Some r"
    "search_result True bm n (\<lambda>i. i + n \<le> SizeOfBitMap bm) h' r"
    and r2: "FindSetBits_loop bm n m 0 = Some r2" "search_result True bm n (\<lambda>i. i + n \<le> m) 0 r2"
    using FindSetBits_loop_spec[OF wf n, of "SizeOfBitMap bm" h'] False h'
      FindSetBits_loop_spec[OF wf n, of m 0] by (auto simp: m_def)
  show ?thesis
    by (rule two_passes[OF wf r(2) r2(2)])
      (use False n r(1) r2(1) h'(2) in \<open>auto simp: RtlFindSetBits_def Let_def u32_add_small m_def
        simp flip: h'_def split: option.splits\<close>)
qed

section \<open>The allocation interface\<close>

text \<open>
  Drivers and the kernel use a bitmap as an allocator of index ranges. What such a client
  relies on: \<open>find\<close> yields a free range or the value \<open>fail\<close>, \<open>mark\<close> changes the state of
  exactly one range, and \<open>alloc\<close> runs the one after the other.
\<close>

locale range_allocator =
  fixes inv :: "'b \<Rightarrow> bool" and size_of :: "'b \<Rightarrow> nat" and used :: "'b \<Rightarrow> nat \<Rightarrow> bool"
    and find :: "'b \<Rightarrow> nat \<Rightarrow> nat \<Rightarrow> nat option" and mark :: "'b \<Rightarrow> nat \<Rightarrow> nat \<Rightarrow> 'b option"
    and fail :: nat and alloc :: "'b \<Rightarrow> nat \<Rightarrow> nat \<Rightarrow> (nat \<times> 'b) option"
  assumes find_total: "inv b \<Longrightarrow> 0 < n \<Longrightarrow> \<exists>p. find b n h = Some p"
    and find_sound: "inv b \<Longrightarrow> 0 < n \<Longrightarrow> find b n h = Some p \<Longrightarrow> p \<noteq> fail \<Longrightarrow>
      p + n \<le> size_of b \<and> (\<forall>i. p \<le> i \<and> i < p + n \<longrightarrow> \<not> used b i)"
    and mark_spec: "inv b \<Longrightarrow> 0 < n \<Longrightarrow> p + n \<le> size_of b \<Longrightarrow>
      \<exists>b'. mark b p n = Some b' \<and> inv b' \<and> size_of b' = size_of b \<and>
        (\<forall>i < size_of b. used b' i = (p \<le> i \<and> i < p + n \<or> used b i))"
    and alloc_eq: "alloc b n h = do {
      p \<leftarrow> find b n h;
      if p \<noteq> fail then do { b' \<leftarrow> mark b p n; Some (p, b') } else Some (p, b)
    }"
begin

text \<open>An allocation always returns, keeps the invariant and takes exactly a free range.\<close>

lemma alloc_spec:
  assumes "inv b" and "0 < n"
  shows "\<exists>p b'. alloc b n h = Some (p, b') \<and> inv b' \<and> size_of b' = size_of b \<and>
    (if p = fail then b' = b
     else p + n \<le> size_of b \<and> (\<forall>i. p \<le> i \<and> i < p + n \<longrightarrow> \<not> used b i) \<and>
       (\<forall>i < size_of b. used b' i = (p \<le> i \<and> i < p + n \<or> used b i)))"
proof -
  obtain p where p: "find b n h = Some p" using find_total[OF assms] by blast
  show ?thesis
  proof (cases "p = fail")
    case True
    then show ?thesis using p assms by (simp add: alloc_eq)
  next
    case False
    have s: "p + n \<le> size_of b" "\<forall>i. p \<le> i \<and> i < p + n \<longrightarrow> \<not> used b i"
      using find_sound[OF assms p False] by blast+
    obtain b' where "mark b p n = Some b'" "inv b'" "size_of b' = size_of b"
      "\<forall>i < size_of b. used b' i = (p \<le> i \<and> i < p + n \<or> used b i)"
      using mark_spec[OF assms s(1)] by blast
    then show ?thesis using p False s by (simp add: alloc_eq)
  qed
qed

text \<open>Two successful allocations never overlap.\<close>

lemma alloc_disjoint:
  assumes "inv b" and "0 < n" and "0 < m"
    and "alloc b n h = Some (p, b')" and "p \<noteq> fail"
    and "alloc b' m h' = Some (q, b'')" and "q \<noteq> fail"
  shows "p + n \<le> q \<or> q + m \<le> p"
proof -
  have a: "inv b'" "size_of b' = size_of b" "p + n \<le> size_of b"
    "\<forall>i < size_of b. used b' i = (p \<le> i \<and> i < p + n \<or> used b i)"
    using alloc_spec[OF assms(1,2), of h] assms(4,5) by auto
  have "\<forall>i. q \<le> i \<and> i < q + m \<longrightarrow> \<not> used b' i"
    using alloc_spec[OF a(1) assms(3), of h'] assms(6,7) by auto
  then have no: "\<not> (p \<le> i \<and> i < p + n)" if "q \<le> i \<and> i < q + m" for i
    using a(3,4) that by auto
  show ?thesis
  proof (cases "p \<le> q")
    case True
    then have "\<not> q < p + n" using no[of q] assms(3) by auto
    then show ?thesis by simp
  next
    case False
    then have "\<not> p < q + m" using no[of p] assms(2) by auto
    then show ?thesis by simp
  qed
qed

end

lemma bitmap_mark:
  assumes "wf_bitmap bm" and "range_written v p n (Buffer bm) buf'"
  shows "wf_bitmap (bm\<lparr>Buffer := buf'\<rparr>)"
    and "\<forall>i<SizeOfBitMap bm. bit_at buf' i = (if p \<le> i \<and> i < p + n then v else bm_bit bm i)"
  using assms by (auto simp: wf_bitmap_def range_written_def)

interpretation clear_alloc: range_allocator wf_bitmap SizeOfBitMap "\<lambda>bm i. bm_bit bm i"
  "\<lambda>bm. RtlFindClearBits (Some bm)" RtlSetBits MAXINDEX RtlFindClearBitsAndSet
proof (unfold_locales, goal_cases)
  case (1 b n h)
  then show ?case using RtlFindClearBits_spec by blast
next
  case (2 b n h p)
  then have "range_of False b p n" using RtlFindClearBits_spec[of b n h] by auto
  then show ?case by (simp add: range_of_def)
next
  case (3 b n p)
  then obtain buf' where "RtlSetBits b p n = Some (b\<lparr>Buffer := buf'\<rparr>)"
    "range_written True p n (Buffer b) buf'" using RtlSetBits_spec by blast
  then show ?case using bitmap_mark[OF 3(1)] by auto
next
  case (4 b n h)
  show ?case by (simp add: RtlFindClearBitsAndSet_def)
qed

interpretation set_alloc: range_allocator wf_bitmap SizeOfBitMap "\<lambda>bm i. \<not> bm_bit bm i"
  "\<lambda>bm. RtlFindSetBits (Some bm)" RtlClearBits MAXINDEX RtlFindSetBitsAndClear
proof (unfold_locales, goal_cases)
  case (1 b n h)
  then show ?case using RtlFindSetBits_spec by blast
next
  case (2 b n h p)
  then have "range_of True b p n" using RtlFindSetBits_spec[of b n h] by auto
  then show ?case by (simp add: range_of_def)
next
  case (3 b n p)
  then obtain buf' where "RtlClearBits b p n = Some (b\<lparr>Buffer := buf'\<rparr>)"
    "range_written False p n (Buffer b) buf'" using RtlClearBits_spec by blast
  then show ?case using bitmap_mark[OF 3(1)] by auto
next
  case (4 b n h)
  show ?case by (simp add: RtlFindSetBitsAndClear_def)
qed

section \<open>Runs\<close>

lemma RtlAreBitsClear_spec:
  assumes wf: "wf_bitmap bm" and "s < 2147483648" and "n < 2147483648"
  shows "RtlAreBitsClear bm s n = Some (0 < n \<and> range_of False bm s n)"
proof (cases "s + n \<le> SizeOfBitMap bm \<and> 0 < n")
  case True
  then have s: "s \<le> SizeOfBitMap bm" by simp
  obtain r where r: "RtlpGetLengthOfRunClear bm s n = Some r" "clear_run bm s n r"
    by (rule RunClear_total[OF wf s])
  have "n \<le> r \<longleftrightarrow> range_of False bm s n"
    using r(2) True by (auto simp: clear_run_def range_of_def min_def split: if_splits)
  then show ?thesis using True r(1) assms by (simp add: RtlAreBitsClear_def u32_add_small)
next
  case False
  then show ?thesis using assms by (auto simp: RtlAreBitsClear_def u32_add_small range_of_def)
qed

lemma RtlAreBitsSet_spec:
  assumes wf: "wf_bitmap bm" and "s < 2147483648" and "n < 2147483648"
  shows "RtlAreBitsSet bm s n = Some (0 < n \<and> range_of True bm s n)"
proof (cases "s + n \<le> SizeOfBitMap bm \<and> 0 < n")
  case True
  then have s: "s \<le> SizeOfBitMap bm" by simp
  obtain r where r: "RtlpGetLengthOfRunSet bm s n = Some r" "set_run bm s n r"
    by (rule RunSet_total[OF wf s])
  have "n \<le> r \<longleftrightarrow> range_of True bm s n"
    using r(2) True by (auto simp: set_run_def range_of_def min_def split: if_splits)
  then show ?thesis using True r(1) assms by (simp add: RtlAreBitsSet_def u32_add_small)
next
  case False
  then show ?thesis using assms by (auto simp: RtlAreBitsSet_def u32_add_small range_of_def)
qed

text \<open>
  The next run from an index on: everything skipped has the other value, and the run is
  maximal to the right.
\<close>

definition next_run :: "bool \<Rightarrow> RTL_BITMAP \<Rightarrow> nat \<Rightarrow> nat \<Rightarrow> nat \<Rightarrow> bool" where
  "next_run v bm f len start \<longleftrightarrow> f \<le> start \<and> range_of v bm start len \<and>
     (\<forall>i. f \<le> i \<and> i < start \<longrightarrow> bm_bit bm i \<noteq> v) \<and>
     (len = 0 \<longrightarrow> start = SizeOfBitMap bm) \<and>
     (start + len = SizeOfBitMap bm \<or> bm_bit bm (start + len) \<noteq> v)"

lemma search_round_next_run:
  assumes "search_round v bm MAXINDEX c r1 r2" and "wf_bitmap bm"
  shows "next_run v bm c r2 (c + r1)"
proof -
  have "SizeOfBitMap bm - (c + r1) \<le> MAXINDEX"
    using assms(2) unfolding wf_bitmap_def MAXINDEX_def by linarith
  then have m: "min MAXINDEX (SizeOfBitMap bm - (c + r1)) = SizeOfBitMap bm - (c + r1)"
    by (rule min_absorb2)
  note r = assms(1)[unfolded search_round_def m]
  from r have bnd: "c + r1 + r2 \<le> SizeOfBitMap bm"
    and skip: "\<forall>i. c \<le> i \<and> i < c + r1 \<longrightarrow> bm_bit bm i \<noteq> v"
    and run: "\<forall>i. c + r1 \<le> i \<and> i < c + r1 + r2 \<longrightarrow> bm_bit bm i = v"
    and first: "SizeOfBitMap bm \<le> c + r1 \<or> bm_bit bm (c + r1) = v"
    and last: "SizeOfBitMap bm - (c + r1) \<le> r2 \<or> bm_bit bm (c + r1 + r2) \<noteq> v"
    by blast+
  have last': "c + r1 + r2 = SizeOfBitMap bm \<or> bm_bit bm (c + r1 + r2) \<noteq> v" using last bnd by auto
  moreover have "r2 = 0 \<longrightarrow> c + r1 = SizeOfBitMap bm" using first last' bnd by auto
  ultimately show ?thesis using bnd skip run by (simp add: next_run_def range_of_def)
qed

lemma RtlFindNextForwardRunClear_spec:
  assumes wf: "wf_bitmap bm" and f: "f \<le> SizeOfBitMap bm"
  shows "\<exists>len start. RtlFindNextForwardRunClear bm f = Some (len, start) \<and> next_run False bm f len start"
proof (cases "f < SizeOfBitMap bm")
  case True
  obtain r1 r2 where r: "RtlpGetLengthOfRunSet bm f MAXINDEX = Some r1"
    "RtlpGetLengthOfRunClear bm (f + r1) MAXINDEX = Some r2" "search_round False bm MAXINDEX f r1 r2"
    by (rule clear_round[OF wf True])
  have "f + r1 + r2 \<le> SizeOfBitMap bm" using r(3) by (simp add: search_round_def)
  then have "u32_add f r1 = f + r1" using wf by (intro u32_add_small) (simp add: wf_bitmap_def)
  then have "RtlFindNextForwardRunClear bm f = Some (r2, f + r1)"
    using r True by (simp add: RtlFindNextForwardRunClear_def)
  then show ?thesis using search_round_next_run[OF r(3) wf] by blast
next
  case False
  then show ?thesis using f by (auto simp: RtlFindNextForwardRunClear_def next_run_def range_of_def)
qed

lemma RtlFindNextForwardRunSet_spec:
  assumes wf: "wf_bitmap bm" and f: "f \<le> SizeOfBitMap bm"
  shows "\<exists>len start. RtlFindNextForwardRunSet bm f = Some (len, start) \<and> next_run True bm f len start"
proof (cases "f < SizeOfBitMap bm")
  case True
  obtain r1 r2 where r: "RtlpGetLengthOfRunClear bm f MAXINDEX = Some r1"
    "RtlpGetLengthOfRunSet bm (f + r1) MAXINDEX = Some r2" "search_round True bm MAXINDEX f r1 r2"
    by (rule set_round[OF wf True])
  have "f + r1 + r2 \<le> SizeOfBitMap bm" using r(3) by (simp add: search_round_def)
  then have "u32_add f r1 = f + r1" using wf by (intro u32_add_small) (simp add: wf_bitmap_def)
  then have "RtlFindNextForwardRunSet bm f = Some (r2, f + r1)"
    using r True by (simp add: RtlFindNextForwardRunSet_def)
  then show ?thesis using search_round_next_run[OF r(3) wf] by blast
next
  case False
  then show ?thesis using f by (auto simp: RtlFindNextForwardRunSet_def next_run_def range_of_def)
qed

text \<open>
  A range that does not fit before the next run lies behind its start: this is why the
  search for the longest run may resume at \<open>FromIndex + NumberOfBits\<close>, inside the run
  that it has just measured.
\<close>

lemma next_run_longest:
  assumes nr: "next_run v bm f len start" and rg: "range_of v bm i n" and "f \<le> i" and "len < n"
  shows "f + len \<le> i"
proof (rule ccontr)
  assume "\<not> f + len \<le> i"
  then have i: "i < f + len" and "0 < len" using assms by auto
  have "start \<le> i"
  proof (rule ccontr)
    assume "\<not> start \<le> i"
    then have "bm_bit bm i \<noteq> v" using nr assms(3) by (simp add: next_run_def)
    then show False using rg assms(4) by (auto simp: range_of_def)
  qed
  have "i \<le> start + len" "start + len < i + n" using i nr \<open>start \<le> i\<close> assms(4) by (auto simp: next_run_def)
  then show False using nr rg by (auto simp: next_run_def range_of_def)
qed

definition longest_run :: "bool \<Rightarrow> RTL_BITMAP \<Rightarrow> nat \<Rightarrow> nat option \<Rightarrow> bool" where
  "longest_run v bm len start \<longleftrightarrow>
     (case start of None \<Rightarrow> len = 0 | Some s \<Rightarrow> 0 < len \<and> range_of v bm s len) \<and>
     (\<forall>i n. range_of v bm i n \<longrightarrow> n \<le> len)"

text \<open>The state of the search: what was found, and what can still be longer.\<close>

definition longest_inv :: "bool \<Rightarrow> RTL_BITMAP \<Rightarrow> nat \<Rightarrow> nat \<Rightarrow> nat option \<Rightarrow> bool" where
  "longest_inv v bm f m st \<longleftrightarrow> f \<le> SizeOfBitMap bm \<and>
     (case st of None \<Rightarrow> m = 0 | Some s \<Rightarrow> 0 < m \<and> range_of v bm s m) \<and>
     (\<forall>i n. range_of v bm i n \<and> m < n \<longrightarrow> f \<le> i)"

lemma longest_inv_step:
  assumes inv: "longest_inv v bm f m st" and nr: "next_run v bm f len start" and "0 < len"
  shows "longest_inv v bm (f + len) (max m len) (if m < len then Some start else st)"
proof -
  have "f + len \<le> i" if "range_of v bm i n" "max m len < n" for i n
    using next_run_longest[OF nr that(1)] inv that by (auto simp: longest_inv_def)
  moreover have "f + len \<le> SizeOfBitMap bm" using nr by (auto simp: next_run_def range_of_def)
  moreover have "range_of v bm start len" using nr by (simp add: next_run_def)
  ultimately show ?thesis using inv assms(3) by (auto simp: longest_inv_def max_def split: option.splits)
qed

lemma longest_inv_done:
  assumes inv: "longest_inv v bm f m st" and nr: "next_run v bm f 0 start"
  shows "longest_run v bm m st"
proof -
  have "n \<le> m" if rg: "range_of v bm i n" for i n
  proof (rule ccontr)
    assume "\<not> n \<le> m"
    then have "m < n" by simp
    then have "f \<le> i" using inv rg unfolding longest_inv_def by blast
    then have "i < SizeOfBitMap bm" "bm_bit bm i = v" using rg \<open>\<not> n \<le> m\<close> by (auto simp: range_of_def)
    then show False using nr \<open>f \<le> i\<close> by (auto simp: next_run_def)
  qed
  then show ?thesis using inv by (auto simp: longest_run_def longest_inv_def)
qed

lemma LongestRunClear_loop_spec:
  assumes wf: "wf_bitmap bm"
  shows "longest_inv False bm f m st \<Longrightarrow>
    \<exists>len start. LongestRunClear_loop bm f m st = Some (len, start) \<and> longest_run False bm len start"
proof (induction "SizeOfBitMap bm - f" arbitrary: f m st rule: less_induct)
  case less
  have f: "f \<le> SizeOfBitMap bm" using less.prems by (simp add: longest_inv_def)
  obtain len start where r: "RtlFindNextForwardRunClear bm f = Some (len, start)"
    "next_run False bm f len start"
    using RtlFindNextForwardRunClear_spec[OF wf f] by blast
  show ?case
  proof (cases "len = 0")
    case True
    then have "LongestRunClear_loop bm f m st = Some (m, st)"
      using r(1) by (subst LongestRunClear_loop.simps) simp
    then show ?thesis using longest_inv_done less.prems r(2) True by blast
  next
    case False
    have inv: "longest_inv False bm (f + len) (max m len) (if m < len then Some start else st)"
      using longest_inv_step[OF less.prems r(2)] False by simp
    have bnd: "f + len \<le> SizeOfBitMap bm" using inv by (simp add: longest_inv_def)
    then have add: "u32_add f len = f + len" using wf by (intro u32_add_small) (simp add: wf_bitmap_def)
    have "LongestRunClear_loop bm f m st =
      LongestRunClear_loop bm (f + len) (max m len) (if m < len then Some start else st)"
      using r(1) False add by (subst LongestRunClear_loop.simps) (simp add: max_def)
    then show ?thesis using less.hyps[OF _ inv] False bnd by simp
  qed
qed

lemma LongestRunSet_loop_spec:
  assumes wf: "wf_bitmap bm"
  shows "longest_inv True bm f m st \<Longrightarrow>
    \<exists>len start. LongestRunSet_loop bm f m st = Some (len, start) \<and> longest_run True bm len start"
proof (induction "SizeOfBitMap bm - f" arbitrary: f m st rule: less_induct)
  case less
  have f: "f \<le> SizeOfBitMap bm" using less.prems by (simp add: longest_inv_def)
  obtain len start where r: "RtlFindNextForwardRunSet bm f = Some (len, start)"
    "next_run True bm f len start"
    using RtlFindNextForwardRunSet_spec[OF wf f] by blast
  show ?case
  proof (cases "len = 0")
    case True
    then have "LongestRunSet_loop bm f m st = Some (m, st)"
      using r(1) by (subst LongestRunSet_loop.simps) simp
    then show ?thesis using longest_inv_done less.prems r(2) True by blast
  next
    case False
    have inv: "longest_inv True bm (f + len) (max m len) (if m < len then Some start else st)"
      using longest_inv_step[OF less.prems r(2)] False by simp
    have bnd: "f + len \<le> SizeOfBitMap bm" using inv by (simp add: longest_inv_def)
    then have add: "u32_add f len = f + len" using wf by (intro u32_add_small) (simp add: wf_bitmap_def)
    have "LongestRunSet_loop bm f m st =
      LongestRunSet_loop bm (f + len) (max m len) (if m < len then Some start else st)"
      using r(1) False add by (subst LongestRunSet_loop.simps) (simp add: max_def)
    then show ?thesis using less.hyps[OF _ inv] False bnd by simp
  qed
qed

section \<open>Counting bits\<close>

definition count_bits :: "(nat \<Rightarrow> bool) \<Rightarrow> nat \<Rightarrow> nat" where
  "count_bits P n = length (filter P [0..<n])"

lemma count_bits_card: "count_bits P n = card {i. i < n \<and> P i}"
proof -
  have "count_bits P n = card (set (filter P [0..<n]))"
    unfolding count_bits_def by (rule distinct_card[symmetric]) simp
  also have "set (filter P [0..<n]) = {i. i < n \<and> P i}" by auto
  finally show ?thesis .
qed

lemma count_bits_add: "count_bits P (a + b) = count_bits P a + count_bits (\<lambda>k. P (a + k)) b"
proof -
  have "[a..<a + b] = map (\<lambda>k. a + k) [0..<b]" by (rule nth_equalityI) auto
  then show ?thesis unfolding count_bits_def
    by (simp add: upt_add_eq_append[of 0 a b, simplified] filter_map comp_def)
qed

lemma count_bits_le: "count_bits P n \<le> n"
  unfolding count_bits_def by (metis length_filter_le length_upt minus_nat.diff_0)

lemma count_bits_cong: "(\<And>k. k < n \<Longrightarrow> P k = Q k) \<Longrightarrow> count_bits P n = count_bits Q n"
  unfolding count_bits_def by (metis (mono_tags, lifting) atLeastLessThan_iff filter_cong set_upt)

text \<open>The table is built by doubling: the upper half counts one more bit than the lower.\<close>

fun pop_table :: "nat \<Rightarrow> nat list" where
  "pop_table 0 = [0]"
| "pop_table (Suc k) = pop_table k @ map (\<lambda>x. x + 1) (pop_table k)"

lemma length_pop_table [simp]: "length (pop_table k) = 2 ^ k"
  by (induction k) simp_all

lemma count_bits_Suc: "count_bits P (Suc k) = count_bits P k + (if P k then 1 else 0)"
  by (simp add: count_bits_def)

lemma pop_table_nth: "b < 2 ^ k \<Longrightarrow> pop_table k ! b = count_bits (bit b) k"
proof (induction k arbitrary: b)
  case 0
  then show ?case by (simp add: count_bits_def)
next
  case (Suc k)
  show ?case
  proof (cases "b < 2 ^ k")
    case True
    then have "\<not> bit b k" by (simp add: bit_iff_odd)
    then show ?thesis using Suc.IH[OF True] True by (simp add: nth_append count_bits_Suc)
  next
    case False
    then obtain c where c: "b = 2 ^ k + c" "c < 2 ^ k" using Suc.prems by (auto dest: le_Suc_ex simp: not_less)
    have "take_bit k b = take_bit k c" by (simp add: c take_bit_eq_mod)
    then have "bit b j = bit c j" if "j < k" for j using that by (metis bit_take_bit_iff)
    then have "count_bits (bit b) k = count_bits (bit c) k" by (intro count_bits_cong)
    moreover have "bit b k" using c(2) by (simp add: c(1) bit_iff_odd div_add_self1)
    ultimately show ?thesis using Suc.IH[OF c(2)] c by (simp add: nth_append count_bits_Suc)
  qed
qed

lemma BitCountTable_pop_table: "BitCountTable = pop_table 8"
  by (simp add: BitCountTable_def numeral_eq_Suc)

lemma BitCountTable_nth: "b < 256 \<Longrightarrow> peek BitCountTable b = Some (count_bits (bit b) 8)"
  by (simp add: BitCountTable_pop_table pop_table_nth)

lemma peek_byte_spec:
  assumes "j < 4 * length buf"
  obtains b where "peek_byte buf j = Some b" "b < 256" "\<forall>k<8. bit b k = bit_at buf (8 * j + k)"
proof -
  have j: "j div 4 < length buf" using assms by (simp add: less_mult_imp_div_less mult.commute)
  define b where "b = unat (drop_bit (8 * (j mod 4)) (buf ! (j div 4))) mod 256"
  have "bit b k = bit_at buf (8 * j + k)" if "k < 8" for k
  proof -
    have "8 * j = 32 * (j div 4) + 8 * (j mod 4)" using mult_div_mod_eq[of 4 j] by linarith
    moreover have "8 * (j mod 4) + k < 32" using that mod_less_divisor[of 4 j] by linarith
    ultimately have "(8 * j + k) div 32 = j div 4" "(8 * j + k) mod 32 = 8 * (j mod 4) + k"
      by (simp_all add: add.assoc)
    moreover have "b = take_bit 8 (unat (drop_bit (8 * (j mod 4)) (buf ! (j div 4))))"
      by (simp add: b_def take_bit_eq_mod)
    ultimately show ?thesis using that by (simp add: bit_at_def bit_simps)
  qed
  moreover have "peek_byte buf j = Some b" using j by (simp add: peek_byte_def b_def)
  moreover have "b < 256" by (simp add: b_def)
  ultimately show thesis by (intro that) auto
qed

lemma count_bytes_spec:
  "j + n \<le> 4 * length buf \<Longrightarrow> acc + 8 * n < 4294967296 \<Longrightarrow>
   count_bytes buf j n acc = Some (acc + count_bits (\<lambda>k. bit_at buf (8 * j + k)) (8 * n))"
proof (induction buf j n acc rule: count_bytes.induct)
  case (1 buf j acc)
  then show ?case by (simp add: count_bits_def)
next
  case (2 buf j n acc)
  obtain b where b: "peek_byte buf j = Some b" "b < 256" "\<forall>k<8. bit b k = bit_at buf (8 * j + k)"
    by (rule peek_byte_spec[of j buf]) (use 2(2) in auto)
  define c where "c = count_bits (bit b) 8"
  have c: "c = count_bits (\<lambda>k. bit_at buf (8 * j + k)) 8" unfolding c_def using b(3) by (intro count_bits_cong) simp
  have "c \<le> 8" unfolding c by (rule count_bits_le)
  then have add: "u32_add acc c = acc + c" using 2(3) by (intro u32_add_small) simp
  have tab: "peek BitCountTable b = Some c" using b(2) BitCountTable_nth by (simp add: c_def)
  have "count_bytes buf (j + 1) n (u32_add acc c) =
    Some (u32_add acc c + count_bits (\<lambda>k. bit_at buf (8 * (j + 1) + k)) (8 * n))"
    using 2(1)[OF b(1) tab] 2(2,3) \<open>c \<le> 8\<close> add by simp
  moreover have "count_bits (\<lambda>k. bit_at buf (8 * j + k)) (8 * Suc n) =
    c + count_bits (\<lambda>k. bit_at buf (8 * (j + 1) + k)) (8 * n)"
    unfolding c using count_bits_add[of "\<lambda>k. bit_at buf (8 * j + k)" 8 "8 * n"] by (simp add: add.assoc add.commute)
  ultimately show ?case using b(1) tab add by simp
qed

text \<open>The last byte is shifted left so that only the bits inside the bitmap count.\<close>

lemma count_bits_shifted:
  assumes "r < 8"
  shows "count_bits (bit ((b * 2 ^ (8 - r)) mod 256 :: nat)) 8 = count_bits (bit b) r"
proof -
  have eq: "(b * 2 ^ (8 - r)) mod 256 = take_bit 8 (push_bit (8 - r) b)"
    by (simp add: push_bit_eq_mult take_bit_eq_mod)
  have "count_bits (bit (take_bit 8 (push_bit (8 - r) b))) ((8 - r) + r) =
    count_bits (bit (take_bit 8 (push_bit (8 - r) b))) (8 - r) +
    count_bits (\<lambda>k. bit (take_bit 8 (push_bit (8 - r) b)) ((8 - r) + k)) r"
    by (rule count_bits_add)
  moreover have "count_bits (bit (take_bit 8 (push_bit (8 - r) b))) (8 - r) = count_bits (\<lambda>k. False) (8 - r)"
    by (rule count_bits_cong) (simp add: bit_simps)
  moreover have "count_bits (\<lambda>k. bit (take_bit 8 (push_bit (8 - r) b)) ((8 - r) + k)) r = count_bits (bit b) r"
    using assms by (intro count_bits_cong) (auto simp: bit_simps)
  ultimately show ?thesis using assms unfolding eq by (simp add: count_bits_def)
qed

lemma RtlNumberOfSetBits_spec:
  assumes wf: "wf_bitmap bm"
  shows "RtlNumberOfSetBits bm = Some (count_bits (bm_bit bm) (SizeOfBitMap bm))"
proof -
  let ?size = "SizeOfBitMap bm" and ?buf = "Buffer bm"
  define q r where qr: "q = ?size div 8" "r = ?size mod 8"
  have s: "?size = 8 * q + r" "r < 8" by (simp_all add: qr)
  have size: "?size \<le> 32 * length ?buf" "?size < 2147483648" using wf by (auto simp: wf_bitmap_def)
  have full: "count_bytes ?buf 0 q 0 = Some (count_bits (bm_bit bm) (8 * q))"
    using count_bytes_spec[of 0 q ?buf 0] s size by simp
  show ?thesis
  proof (cases "r = 0")
    case True
    then show ?thesis using full s by (simp add: RtlNumberOfSetBits_def flip: qr)
  next
    case False
    obtain b where b: "peek_byte ?buf q = Some b" "b < 256" "\<forall>k<8. bit b k = bit_at ?buf (8 * q + k)"
      by (rule peek_byte_spec[of q ?buf]) (use s False size in auto)
    have "count_bits (bit b) r = count_bits (\<lambda>k. bm_bit bm (8 * q + k)) r"
      using b(3) s(2) by (intro count_bits_cong) simp
    then have tab: "peek BitCountTable ((b * 2 ^ (8 - r)) mod 256) =
      Some (count_bits (\<lambda>k. bm_bit bm (8 * q + k)) r)"
      using s(2) by (simp add: BitCountTable_nth count_bits_shifted)
    have tot: "count_bits (bm_bit bm) ?size =
      count_bits (bm_bit bm) (8 * q) + count_bits (\<lambda>k. bm_bit bm (8 * q + k)) r"
      unfolding s(1) by (rule count_bits_add)
    have "u32_add (count_bits (bm_bit bm) (8 * q)) (count_bits (\<lambda>k. bm_bit bm (8 * q + k)) r) =
      count_bits (bm_bit bm) ?size"
      unfolding tot using count_bits_le[of "bm_bit bm" "8 * q"]
        count_bits_le[of "\<lambda>k. bm_bit bm (8 * q + k)" r] s size by (intro u32_add_small) linarith
    then show ?thesis using False full b(1) tab by (simp add: RtlNumberOfSetBits_def Let_def flip: qr)
  qed
qed

lemma count_bits_compl: "count_bits P n + count_bits (\<lambda>i. \<not> P i) n = n"
  using sum_length_filter_compl[of P "[0..<n]"] by (simp add: count_bits_def)

lemma RtlNumberOfClearBits_spec:
  assumes wf: "wf_bitmap bm"
  shows "RtlNumberOfClearBits bm = Some (count_bits (\<lambda>i. \<not> bm_bit bm i) (SizeOfBitMap bm))"
proof -
  have "u32_sub (SizeOfBitMap bm) (count_bits (bm_bit bm) (SizeOfBitMap bm)) =
    SizeOfBitMap bm - count_bits (bm_bit bm) (SizeOfBitMap bm)"
    using wf count_bits_le by (intro u32_sub_small) (auto simp: wf_bitmap_def)
  also have "\<dots> = count_bits (\<lambda>i. \<not> bm_bit bm i) (SizeOfBitMap bm)"
    using count_bits_compl[of "bm_bit bm" "SizeOfBitMap bm"] by linarith
  finally show ?thesis using RtlNumberOfSetBits_spec[OF wf] by (simp add: RtlNumberOfClearBits_def)
qed

section \<open>Most and least significant bits\<close>

lemma BitScanReverse_None: "BitScanReverse w = None \<longleftrightarrow> w = 0"
  using BitScanReverse_spec[of w] BitScanReverse_0 by (metis option.distinct(1))

lemma BitScanForward_None: "BitScanForward w = None \<longleftrightarrow> w = 0"
  using BitScanForward_spec[of w] BitScanForward_0 by (metis option.distinct(1))

lemma halves_bits:
  fixes v :: "64 word"
  shows "k < 32 \<Longrightarrow> bit (ucast v :: 32 word) k \<longleftrightarrow> bit v k"
    and "k < 32 \<Longrightarrow> bit (ucast (drop_bit 32 v) :: 32 word) k \<longleftrightarrow> bit v (k + 32)"
  by (simp_all add: bit_simps add.commute)

lemma halves_zero:
  fixes v :: "64 word"
  shows "(ucast v :: 32 word) = 0 \<Longrightarrow> k < 32 \<Longrightarrow> \<not> bit v k"
    and "(ucast (drop_bit 32 v) :: 32 word) = 0 \<Longrightarrow> 32 \<le> k \<Longrightarrow> \<not> bit v k"
proof -
  show "(ucast v :: 32 word) = 0 \<Longrightarrow> k < 32 \<Longrightarrow> \<not> bit v k"
    using halves_bits(1)[of k v] by simp
  show "(ucast (drop_bit 32 v) :: 32 word) = 0 \<Longrightarrow> 32 \<le> k \<Longrightarrow> \<not> bit v k"
    using halves_bits(2)[of "k - 32" v] bit_imp_le_length[of v k] by (cases "k < 64") auto
qed

lemma RtlFindMostSignificantBit_spec:
  assumes "v \<noteq> 0"
  shows "\<exists>k. RtlFindMostSignificantBit v = int k \<and> bit v k \<and> (\<forall>j>k. \<not> bit v j)"
proof (cases "(ucast (drop_bit 32 v) :: 32 word) = 0")
  case False
  then obtain k where k: "BitScanReverse (ucast (drop_bit 32 v)) = Some k" "k < 32"
    "bit (ucast (drop_bit 32 v) :: 32 word) k"
    "\<forall>j. k < j \<and> j < 32 \<longrightarrow> \<not> bit (ucast (drop_bit 32 v) :: 32 word) j"
    by (rule BitScanReverse_spec)
  have "\<not> bit v j" if "k + 32 < j" for j
    using k(4) halves_bits(2)[of "j - 32" v] that bit_imp_le_length[of v j]
    by (cases "j < 64") (auto dest: spec[of _ "j - 32"])
  then show ?thesis using k(1-3) halves_bits(2)[OF k(2), of v]
    by (intro exI[of _ "k + 32"]) (simp add: RtlFindMostSignificantBit_def)
next
  case True
  note hi = halves_zero(2)[OF True]
  have "(ucast v :: 32 word) \<noteq> 0"
  proof
    assume "(ucast v :: 32 word) = 0"
    then have "\<not> bit v k" for k using hi halves_zero(1)[of v k] by (cases "k < 32") auto
    then show False using assms by (simp add: bit_eq_iff)
  qed
  then obtain k where k: "BitScanReverse (ucast v) = Some k" "k < 32" "bit (ucast v :: 32 word) k"
    "\<forall>j. k < j \<and> j < 32 \<longrightarrow> \<not> bit (ucast v :: 32 word) j"
    by (rule BitScanReverse_spec)
  have "\<not> bit v j" if "k < j" for j
    using k(4) halves_bits(1)[of j v] hi[of j] that by (cases "j < 32") auto
  then show ?thesis using k halves_bits(1)[OF k(2), of v] True
    by (intro exI[of _ k]) (simp add: RtlFindMostSignificantBit_def)
qed

lemma RtlFindLeastSignificantBit_spec:
  assumes "v \<noteq> 0"
  shows "\<exists>k. RtlFindLeastSignificantBit v = int k \<and> bit v k \<and> (\<forall>j<k. \<not> bit v j)"
proof (cases "(ucast v :: 32 word) = 0")
  case False
  then obtain k where k: "BitScanForward (ucast v) = Some k" "k < 32" "bit (ucast v :: 32 word) k"
    "\<forall>j<k. \<not> bit (ucast v :: 32 word) j"
    by (rule BitScanForward_spec)
  then show ?thesis using halves_bits(1)[of _ v]
    by (intro exI[of _ k]) (auto simp: RtlFindLeastSignificantBit_def)
next
  case True
  note lo = halves_zero(1)[OF True]
  have "(ucast (drop_bit 32 v) :: 32 word) \<noteq> 0"
  proof
    assume "(ucast (drop_bit 32 v) :: 32 word) = 0"
    then have "\<not> bit v k" for k using lo halves_zero(2)[of v k] by (cases "k < 32") auto
    then show False using assms by (simp add: bit_eq_iff)
  qed
  then obtain k where k: "BitScanForward (ucast (drop_bit 32 v)) = Some k" "k < 32"
    "bit (ucast (drop_bit 32 v) :: 32 word) k"
    "\<forall>j<k. \<not> bit (ucast (drop_bit 32 v) :: 32 word) j"
    by (rule BitScanForward_spec)
  have "\<not> bit v j" if "j < k + 32" for j
    using k(2,4) halves_bits(2)[of "j - 32" v] lo[of j] that by (cases "j < 32") auto
  then show ?thesis using k(1-3) halves_bits(2)[OF k(2), of v] True
    by (intro exI[of _ "k + 32"]) (simp add: RtlFindLeastSignificantBit_def)
qed

section \<open>Properties of the bitmap package\<close>

abbreviation sample_bm :: RTL_BITMAP where
  "sample_bm \<equiv> \<lparr>SizeOfBitMap = 40, Buffer = [0xFFFF00F0, 0]\<rparr>"

lemma sample_bm_wf: "wf_bitmap sample_bm"
  by (simp add: wf_bitmap_def)

text \<open>
  C33: \<open>RtlSetBits\<close> on a range inside a well-formed bitmap never leaves the buffer and
  sets exactly the bits of that range: every bit of the buffer afterwards is set if and
  only if it lies in the range or was set before. The masks of the first and last word
  and the filled words in between add up to the range whatever its alignment.
\<close>

theorem RtlSetBits_exact:
  assumes "wf_bitmap bm" and "s + n \<le> SizeOfBitMap bm" and "0 < n"
  shows "\<exists>buf'. RtlSetBits bm s n = Some (bm\<lparr>Buffer := buf'\<rparr>) \<and> length buf' = length (Buffer bm) \<and>
    (\<forall>i<32 * length (Buffer bm). bit_at buf' i = (s \<le> i \<and> i < s + n \<or> bit_at (Buffer bm) i))"
proof -
  obtain buf' where "RtlSetBits bm s n = Some (bm\<lparr>Buffer := buf'\<rparr>)"
    and w: "range_written True s n (Buffer bm) buf'"
    using RtlSetBits_spec[OF assms] by blast
  then show ?thesis unfolding range_written_def by (intro exI[of _ buf']) auto
qed

theorem RtlSetBits_exact_witness:
  "wf_bitmap sample_bm \<and> (10::nat) + 25 \<le> SizeOfBitMap sample_bm \<and> (0::nat) < 25 \<and>
   (\<exists>buf'. RtlSetBits sample_bm 10 25 = Some (sample_bm\<lparr>Buffer := buf'\<rparr>) \<and>
     length buf' = length (Buffer sample_bm) \<and>
     (\<forall>i<32 * length (Buffer sample_bm).
        bit_at buf' i = (10 \<le> i \<and> i < 10 + 25 \<or> bit_at (Buffer sample_bm) i)))"
proof -
  have h: "(10::nat) + 25 \<le> SizeOfBitMap sample_bm" "(0::nat) < 25" by simp_all
  show ?thesis using RtlSetBits_exact[OF sample_bm_wf h] sample_bm_wf h by blast
qed

text \<open>
  C34: \<open>RtlFindSetBits\<close> always returns on a well-formed bitmap, without leaving the
  buffer, for every hint. A position it returns is the start of \<open>NumberToFind\<close> set bits
  inside the bitmap, and it returns \<open>MAXINDEX\<close> exactly when there is no such range.
\<close>

theorem RtlFindSetBits_exact:
  assumes "wf_bitmap bm" and "0 < n"
  shows "\<exists>p. RtlFindSetBits (Some bm) n h = Some p \<and>
    (if p = MAXINDEX then \<not> (\<exists>i. range_of True bm i n) else range_of True bm p n)"
proof -
  obtain p where p: "RtlFindSetBits (Some bm) n h = Some p" "p \<noteq> MAXINDEX \<longrightarrow> range_of True bm p n"
    "p = MAXINDEX \<longrightarrow> (\<forall>i. i + n \<le> SizeOfBitMap bm \<longrightarrow> \<not> range_of True bm i n)"
    using RtlFindSetBits_spec[OF assms] by blast
  have "i + n \<le> SizeOfBitMap bm" if "range_of True bm i n" for i
    using that by (simp add: range_of_def)
  then show ?thesis using p by auto
qed

theorem RtlFindSetBits_exact_witness:
  "wf_bitmap sample_bm \<and> (0::nat) < 3 \<and>
   (\<exists>p. RtlFindSetBits (Some sample_bm) 3 6 = Some p \<and>
     (if p = MAXINDEX then \<not> (\<exists>i. range_of True sample_bm i 3) else range_of True sample_bm p 3))"
  using RtlFindSetBits_exact[OF sample_bm_wf, of 3 6] sample_bm_wf by simp

text \<open>
  C35: \<open>RtlFindClearBits\<close> always returns on a well-formed bitmap, without leaving the buffer. For a
  request of fewer bits than the bitmap has it is exact, also at the end of the bitmap: a position
  it returns starts a range of clear bits, and it returns \<open>MAXINDEX\<close> only if there is none. But its
  guard is strict where that of \<open>RtlFindSetBits\<close> is not, so a request for as many bits as the bitmap
  has always fails, even if all of them are clear.
\<close>

theorem RtlFindClearBits_exact:
  assumes "wf_bitmap bm" and "0 < n"
  shows "\<exists>p. RtlFindClearBits (Some bm) n h = Some p \<and>
    (if n = SizeOfBitMap bm then p = MAXINDEX
     else if p = MAXINDEX then \<not> (\<exists>i. range_of False bm i n) else range_of False bm p n)"
proof (cases "n = SizeOfBitMap bm")
  case True
  have add: "u32_add h' n = h' + n" if "h' < n" for h'
    using assms(1) that True by (intro u32_add_small) (simp add: wf_bitmap_def)
  have loop: "FindClearBits_loop bm n n h' = Some None" if "h' < n" for h'
    using add[OF that] by (subst FindClearBits_loop.simps) simp
  have "RtlFindClearBits (Some bm) n h = Some MAXINDEX"
    using assms(2) loop[of h] loop[of 0] add[of h] True
    by (simp add: RtlFindClearBits_def Let_def min_absorb2)
  then show ?thesis using True by simp
next
  case False
  obtain p where "RtlFindClearBits (Some bm) n h = Some p" "p \<noteq> MAXINDEX \<Longrightarrow> range_of False bm p n"
    "p = MAXINDEX \<Longrightarrow> \<forall>i. n < SizeOfBitMap bm \<and> i + n \<le> SizeOfBitMap bm \<longrightarrow> \<not> range_of False bm i n"
    using RtlFindClearBits_spec[OF assms, of h] by blast
  then show ?thesis using False by (intro exI[of _ p]) (auto simp: range_of_def)
qed

theorem RtlFindClearBits_exact_witness:
  "(\<exists>p. RtlFindClearBits (Some sample_bm) 7 20 = Some p \<and>
     (if p = MAXINDEX then \<not> (\<exists>i. range_of False sample_bm i 7) else range_of False sample_bm p 7)) \<and>
   RtlFindClearBits (Some \<lparr>SizeOfBitMap = 8, Buffer = [0]\<rparr>) 8 0 = Some MAXINDEX"
proof -
  have "SizeOfBitMap sample_bm \<noteq> 7"
    by simp
  then show ?thesis
    using RtlFindClearBits_exact[OF sample_bm_wf, of 7 20] RtlFindClearBits_exact[of "\<lparr>SizeOfBitMap = 8, Buffer = [0]\<rparr>" 8 0]
    by (simp add: wf_bitmap_def)
qed

text \<open>
  \<open>RtlFindClearBitsAndSet\<close> is an allocator: it always returns, and either fails and
  leaves the bitmap as it was, or returns a range whose bits were all clear and after
  which exactly those bits have become set.
\<close>

theorem RtlFindClearBitsAndSet_allocates:
  assumes "wf_bitmap bm" and "0 < n"
  shows "\<exists>p bm'. RtlFindClearBitsAndSet bm n h = Some (p, bm') \<and> wf_bitmap bm' \<and>
    SizeOfBitMap bm' = SizeOfBitMap bm \<and>
    (if p = MAXINDEX then bm' = bm
     else p + n \<le> SizeOfBitMap bm \<and> (\<forall>i. p \<le> i \<and> i < p + n \<longrightarrow> \<not> bm_bit bm i) \<and>
       (\<forall>i<SizeOfBitMap bm. bm_bit bm' i = (p \<le> i \<and> i < p + n \<or> bm_bit bm i)))"
  by (rule clear_alloc.alloc_spec[OF assms])

theorem RtlFindClearBitsAndSet_allocates_witness:
  "wf_bitmap sample_bm \<and> (0::nat) < 5 \<and>
   (\<exists>p bm'. RtlFindClearBitsAndSet sample_bm 5 0 = Some (p, bm') \<and> wf_bitmap bm' \<and>
    SizeOfBitMap bm' = SizeOfBitMap sample_bm \<and>
    (if p = MAXINDEX then bm' = sample_bm
     else p + 5 \<le> SizeOfBitMap sample_bm \<and> (\<forall>i. p \<le> i \<and> i < p + 5 \<longrightarrow> \<not> bm_bit sample_bm i) \<and>
       (\<forall>i<SizeOfBitMap sample_bm. bm_bit bm' i = (p \<le> i \<and> i < p + 5 \<or> bm_bit sample_bm i))))"
proof -
  have h: "(0::nat) < 5" by simp
  show ?thesis using RtlFindClearBitsAndSet_allocates[OF sample_bm_wf h, of 0] sample_bm_wf h by blast
qed

text \<open>
  C36: two allocations that both succeed never share a bit.
\<close>

theorem RtlFindClearBitsAndSet_disjoint:
  assumes "wf_bitmap bm" and "0 < n" and "0 < m"
    and "RtlFindClearBitsAndSet bm n h = Some (p, bm')" and "p \<noteq> MAXINDEX"
    and "RtlFindClearBitsAndSet bm' m h' = Some (q, bm'')" and "q \<noteq> MAXINDEX"
  shows "p + n \<le> q \<or> q + m \<le> p"
  by (rule clear_alloc.alloc_disjoint[OF assms])

lemmas bitmap_eval = RtlFindClearBitsAndSet_def RtlFindClearBits_def FindClearBits_loop.simps
  RtlpGetLengthOfRunSet_def RtlpGetLengthOfRunClear_def skip_set.simps skip_clear.simps
  RtlSetBits_def RtlSetBits_aligned_def RtlFillMemoryUlong_def BitScanForward_def MAXINDEX_def
  peek_def poke_def u32_add_def u32_sub_def u32_mul_def bit_simps upt_rec

lemma sample_alloc:
  "RtlFindClearBitsAndSet \<lparr>SizeOfBitMap = 8, Buffer = [0]\<rparr> 1 0 = Some (0, \<lparr>SizeOfBitMap = 8, Buffer = [1]\<rparr>)"
  "RtlFindClearBitsAndSet \<lparr>SizeOfBitMap = 8, Buffer = [1]\<rparr> 2 0 = Some (1, \<lparr>SizeOfBitMap = 8, Buffer = [7]\<rparr>)"
  by (simp_all add: bitmap_eval)

theorem RtlFindClearBitsAndSet_disjoint_witness:
  "RtlFindClearBitsAndSet \<lparr>SizeOfBitMap = 8, Buffer = [0]\<rparr> 1 0 = Some (0, \<lparr>SizeOfBitMap = 8, Buffer = [1]\<rparr>) \<and>
   RtlFindClearBitsAndSet \<lparr>SizeOfBitMap = 8, Buffer = [1]\<rparr> 2 0 = Some (1, \<lparr>SizeOfBitMap = 8, Buffer = [7]\<rparr>) \<and>
   ((0::nat) + 1 \<le> 1 \<or> (1::nat) + 2 \<le> 0)"
proof -
  have wf: "wf_bitmap \<lparr>SizeOfBitMap = 8, Buffer = [0]\<rparr>" by (simp add: wf_bitmap_def)
  have m: "0 \<noteq> MAXINDEX" "1 \<noteq> MAXINDEX" and n: "(0::nat) < 1" "(0::nat) < 2" by (simp_all add: MAXINDEX_def)
  show ?thesis
    using RtlFindClearBitsAndSet_disjoint[OF wf n sample_alloc(1) m(1) sample_alloc(2) m(2)] sample_alloc
    by blast
qed

text \<open>
  \<open>RtlNumberOfSetBits\<close> (a table look-up per byte, with the last byte shifted) is the
  number of set bits of the bitmap, and \<open>RtlNumberOfClearBits\<close> that of its clear bits.
\<close>

theorem RtlNumberOfSetBits_correct:
  assumes "wf_bitmap bm"
  shows "RtlNumberOfSetBits bm = Some (card {i. i < SizeOfBitMap bm \<and> bm_bit bm i}) \<and>
    RtlNumberOfClearBits bm = Some (card {i. i < SizeOfBitMap bm \<and> \<not> bm_bit bm i})"
  using RtlNumberOfSetBits_spec[OF assms] RtlNumberOfClearBits_spec[OF assms]
  by (simp add: count_bits_card)

theorem RtlNumberOfSetBits_correct_witness:
  "wf_bitmap sample_bm \<and>
   RtlNumberOfSetBits sample_bm = Some (card {i. i < SizeOfBitMap sample_bm \<and> bm_bit sample_bm i}) \<and>
   RtlNumberOfClearBits sample_bm = Some (card {i. i < SizeOfBitMap sample_bm \<and> \<not> bm_bit sample_bm i})"
  using RtlNumberOfSetBits_correct[OF sample_bm_wf] sample_bm_wf by simp

text \<open>
  C37: \<open>RtlFindLongestRunClear\<close> and \<open>RtlFindLongestRunSet\<close> terminate and return the
  length and the start of a longest run, although they resume the scan inside the run
  they have just measured.
\<close>

theorem RtlFindLongestRun_correct:
  assumes "wf_bitmap bm"
  shows "(\<exists>len start. RtlFindLongestRunClear bm = Some (len, start) \<and> longest_run False bm len start) \<and>
    (\<exists>len start. RtlFindLongestRunSet bm = Some (len, start) \<and> longest_run True bm len start)"
proof -
  have "longest_inv v bm 0 0 None" for v by (simp add: longest_inv_def)
  then show ?thesis
    using LongestRunClear_loop_spec[OF assms] LongestRunSet_loop_spec[OF assms]
    by (simp add: RtlFindLongestRunClear_def RtlFindLongestRunSet_def)
qed

theorem RtlFindLongestRun_correct_witness:
  "wf_bitmap sample_bm \<and>
   (\<exists>len start. RtlFindLongestRunClear sample_bm = Some (len, start) \<and> longest_run False sample_bm len start) \<and>
   (\<exists>len start. RtlFindLongestRunSet sample_bm = Some (len, start) \<and> longest_run True sample_bm len start)"
  using RtlFindLongestRun_correct[OF sample_bm_wf] sample_bm_wf by simp

end
