(* ===== verification/Rtl_Time.thy ===== *)
theory Rtl_Time
  imports NT_Prelude
begin

text \<open>
  Conversion between system time (100 ns ticks since 1601) and calendar fields,
  \<open>sdk/lib/rtl/time.c\<close>. A \<open>LARGE_INTEGER\<close> is an \<^typ>\<open>int\<close> in the range of 64 bits,
  the fields of \<open>TIME_FIELDS\<close> are \<open>CSHORT\<close>s (16 bits). A function that returns
  \<open>BOOLEAN\<close> and fills an output parameter becomes a function into \<open>option\<close>.
\<close>

section \<open>Data and operations\<close>

record TIME_FIELDS =
  TF_Year :: int
  TF_Month :: int
  TF_Day :: int
  TF_Hour :: int
  TF_Minute :: int
  TF_Second :: int
  TF_Milliseconds :: int
  TF_Weekday :: int

abbreviation (input) "TICKSPERSEC \<equiv> (10000000 :: int)"
abbreviation (input) "TICKSPERMSEC \<equiv> (10000 :: int)"
abbreviation (input) "SECSPERDAY \<equiv> (86400 :: int)"
abbreviation (input) "SECSPERHOUR \<equiv> (3600 :: int)"
abbreviation (input) "SECSPERMIN \<equiv> (60 :: int)"
abbreviation (input) "EPOCHWEEKDAY \<equiv> (1 :: int)"
abbreviation (input) "DAYSPERWEEK \<equiv> (7 :: int)"
abbreviation (input) "EPOCHYEAR \<equiv> (1601 :: int)"
abbreviation (input) "DAYSPERNORMALYEAR \<equiv> (365 :: int)"
abbreviation (input) "DAYSPERLEAPYEAR \<equiv> (366 :: int)"
abbreviation (input) "TICKSTO1970 \<equiv> (0x019db1ded53e8000 :: int)"
abbreviation (input) "TICKSTO1980 \<equiv> (0x01a8e79fe1d58000 :: int)"

definition YearLengths :: "nat \<Rightarrow> int" where
  "YearLengths LeapYear = [DAYSPERNORMALYEAR, DAYSPERLEAPYEAR] ! LeapYear"

definition MonthLengths :: "nat \<Rightarrow> int list" where
  "MonthLengths LeapYear =
     [[31, 28, 31, 30, 31, 30, 31, 31, 30, 31, 30, 31],
      [31, 29, 31, 30, 31, 30, 31, 31, 30, 31, 30, 31]] ! LeapYear"

definition IsLeapYear :: "int \<Rightarrow> nat" where
  "IsLeapYear Year = (if Year mod 4 = 0 \<and> (Year mod 100 \<noteq> 0 \<or> Year mod 400 = 0) then 1 else 0)"

definition DaysSinceEpoch :: "int \<Rightarrow> int" where
  "DaysSinceEpoch Year =
     (let Year = Year - 1;
          Days = Year * DAYSPERNORMALYEAR + c_div Year 4 - c_div Year 100 + c_div Year 400
      in Days - ((EPOCHYEAR - 1) * DAYSPERNORMALYEAR + c_div (EPOCHYEAR - 1) 4
                 - c_div (EPOCHYEAR - 1) 100 + c_div (EPOCHYEAR - 1) 400))"

text \<open>The loop of \<open>RtlTimeFieldsToTime\<close> that adds the lengths of the months before \<open>Month\<close>.\<close>

fun add_months :: "int list \<Rightarrow> int \<Rightarrow> nat \<Rightarrow> nat \<Rightarrow> int" where
  "add_months Lengths t CurMonth 0 = t"
| "add_months Lengths t CurMonth (Suc n) =
     add_months Lengths (s64 (t + Lengths ! (CurMonth - 1))) (CurMonth + 1) n"

definition RtlTimeFieldsToTime :: "TIME_FIELDS \<Rightarrow> int option" where
  "RtlTimeFieldsToTime TimeFields =
     (if TF_Milliseconds TimeFields < 0 \<or> TF_Milliseconds TimeFields > 999 \<or>
         TF_Second TimeFields < 0 \<or> TF_Second TimeFields > 59 \<or>
         TF_Minute TimeFields < 0 \<or> TF_Minute TimeFields > 59 \<or>
         TF_Hour TimeFields < 0 \<or> TF_Hour TimeFields > 23 \<or>
         TF_Month TimeFields < 1 \<or> TF_Month TimeFields > 12 \<or>
         TF_Day TimeFields < 1 \<or>
         TF_Day TimeFields > MonthLengths (IsLeapYear (TF_Year TimeFields)) ! nat (TF_Month TimeFields - 1) \<or>
         TF_Year TimeFields < 1601
      then None
      else
        let t = DaysSinceEpoch (TF_Year TimeFields);
            t = add_months (MonthLengths (IsLeapYear (TF_Year TimeFields))) t 1 (nat (TF_Month TimeFields - 1));
            t = s64 (t + (TF_Day TimeFields - 1));
            t = s64 (t * SECSPERDAY);
            t = s64 (t + (TF_Hour TimeFields * SECSPERHOUR + TF_Minute TimeFields * SECSPERMIN + TF_Second TimeFields));
            t = s64 (t * TICKSPERSEC);
            t = s64 (t + TF_Milliseconds TimeFields * TICKSPERMSEC)
        in Some t)"

definition RtlTimeToElapsedTimeFields :: "int \<Rightarrow> TIME_FIELDS \<Rightarrow> TIME_FIELDS" where
  "RtlTimeToElapsedTimeFields Time TimeFields =
     (let ElapsedSeconds = (Time mod 18446744073709551616) div TICKSPERSEC;
          SecondsInDay = ElapsedSeconds mod SECSPERDAY;
          SecondsInMinute = SecondsInDay mod SECSPERHOUR
      in TimeFields\<lparr>
           TF_Milliseconds := s16 (c_div (c_rem Time TICKSPERSEC) TICKSPERMSEC),
           TF_Hour := s16 (SecondsInDay div SECSPERHOUR),
           TF_Minute := s16 (SecondsInMinute div SECSPERMIN),
           TF_Second := s16 (SecondsInMinute mod SECSPERMIN),
           TF_Day := s16 (ElapsedSeconds div SECSPERDAY),
           TF_Month := 0,
           TF_Year := 0\<rparr>)"

text \<open>The loop of \<open>RtlTimeToTimeFields\<close> that takes whole years off \<open>Days\<close>.\<close>

function find_year :: "int \<Rightarrow> int \<Rightarrow> int \<times> int" where
  "find_year CurYear Days =
     (if Days < YearLengths (IsLeapYear CurYear) then (CurYear, Days)
      else find_year (CurYear + 1) (Days - YearLengths (IsLeapYear CurYear)))"
  by pat_completeness auto
termination
  by (relation "measure (\<lambda>(y, d). nat d)") (auto simp: YearLengths_def IsLeapYear_def)

declare find_year.simps [simp del]

text \<open>The loop over the months; reading past the end of the table is \<^const>\<open>None\<close>.\<close>

function find_month :: "int list \<Rightarrow> nat \<Rightarrow> int \<Rightarrow> (nat \<times> int) option" where
  "find_month Months CurMonth Days =
     (if CurMonth < length Months then
        if Days \<ge> Months ! CurMonth then find_month Months (CurMonth + 1) (Days - Months ! CurMonth)
        else Some (CurMonth, Days)
      else None)"
  by pat_completeness auto
termination
  by (relation "measure (\<lambda>(m, c, d). length m - c)") auto

declare find_month.simps [simp del]

definition RtlTimeToTimeFields :: "int \<Rightarrow> TIME_FIELDS option" where
  "RtlTimeToTimeFields Time =
     (let IntTime = Time mod 18446744073709551616;
          Milliseconds = s16 ((IntTime mod TICKSPERSEC) div TICKSPERMSEC);
          IntTime = IntTime div TICKSPERSEC;
          Days = (IntTime div SECSPERDAY) mod 4294967296;
          SecondsInDay = IntTime mod SECSPERDAY;
          Hour = s16 (SecondsInDay div SECSPERHOUR);
          SecondsInDay = SecondsInDay mod SECSPERHOUR;
          Minute = s16 (SecondsInDay div SECSPERMIN);
          Second = s16 (SecondsInDay mod SECSPERMIN);
          Weekday = s16 ((EPOCHWEEKDAY + Days) mod 4294967296 mod DAYSPERWEEK);
          CurYear = EPOCHYEAR + Days div DAYSPERLEAPYEAR;
          Days = (Days - DaysSinceEpoch CurYear) mod 4294967296;
          (CurYear, Days) = find_year CurYear Days
      in do {
        (CurMonth, Days) \<leftarrow> find_month (MonthLengths (IsLeapYear CurYear)) 0 Days;
        Some \<lparr>TF_Year = s16 CurYear, TF_Month = s16 (int CurMonth + 1), TF_Day = s16 (Days + 1),
              TF_Hour = Hour, TF_Minute = Minute, TF_Second = Second,
              TF_Milliseconds = Milliseconds, TF_Weekday = Weekday\<rparr>
      })"

definition RtlTimeToSecondsSince1970 :: "int \<Rightarrow> int option" where
  "RtlTimeToSecondsSince1970 Time =
     (let IntTime = s64 (Time - TICKSTO1970);
          IntTime = c_div IntTime TICKSPERSEC
      in if IntTime div 4294967296 \<noteq> 0 then None else Some (IntTime mod 4294967296))"

definition RtlTimeToSecondsSince1980 :: "int \<Rightarrow> int option" where
  "RtlTimeToSecondsSince1980 Time =
     (let IntTime = s64 (Time - TICKSTO1980);
          IntTime = c_div IntTime TICKSPERSEC
      in if IntTime div 4294967296 \<noteq> 0 then None else Some (IntTime mod 4294967296))"

text \<open>
  The time zone conversions ask the kernel for the bias. \<open>ZwQuery\<close> stands for that system
  call: \<^const>\<open>Inl\<close> its failure status, \<^const>\<open>Inr\<close> the bias it reports.
\<close>

definition RtlLocalTimeToSystemTime :: "int + int \<Rightarrow> int \<Rightarrow> int + int" where
  "RtlLocalTimeToSystemTime ZwQuery LocalTime =
     (case ZwQuery of Inl Status \<Rightarrow> Inl Status | Inr TimeZoneBias \<Rightarrow> Inr (s64 (LocalTime + TimeZoneBias)))"

definition RtlSystemTimeToLocalTime :: "int + int \<Rightarrow> int \<Rightarrow> int + int" where
  "RtlSystemTimeToLocalTime ZwQuery SystemTime =
     (case ZwQuery of Inl Status \<Rightarrow> Inl Status | Inr TimeZoneBias \<Rightarrow> Inr (s64 (SystemTime - TimeZoneBias)))"

definition RtlSecondsSince1970ToTime :: "int \<Rightarrow> int" where
  "RtlSecondsSince1970ToTime SecondsSince1970 = s64 (SecondsSince1970 * TICKSPERSEC + TICKSTO1970)"

definition RtlSecondsSince1980ToTime :: "int \<Rightarrow> int" where
  "RtlSecondsSince1980ToTime SecondsSince1980 = s64 (SecondsSince1980 * TICKSPERSEC + TICKSTO1980)"

text \<open>
  \<open>RtlCutoverTimeToSystemTime\<close>. One round of its loop computes the cutover of one year:
  the first day of the month, moved to the first matching weekday, then by whole weeks.
\<close>

definition cutover_first :: "TIME_FIELDS \<Rightarrow> int \<Rightarrow> TIME_FIELDS" where
  "cutover_first Cutover Year =
     \<lparr>TF_Year = Year, TF_Month = TF_Month Cutover, TF_Day = 1, TF_Hour = TF_Hour Cutover,
      TF_Minute = TF_Minute Cutover, TF_Second = TF_Second Cutover,
      TF_Milliseconds = TF_Milliseconds Cutover, TF_Weekday = 0\<rparr>"

definition cutover_in_year :: "TIME_FIELDS \<Rightarrow> int \<Rightarrow> int option" where
  "cutover_in_year Cutover Year =
     (let Adjusted = cutover_first Cutover Year
      in do {
        CutoverSystemTime \<leftarrow> RtlTimeFieldsToTime Adjusted;
        Fields \<leftarrow> RtlTimeToTimeFields CutoverSystemTime;
        let Adjusted =
          (if TF_Weekday Fields \<noteq> TF_Weekday Cutover then
             let Days = (if TF_Weekday Fields < TF_Weekday Cutover
                         then s16 (TF_Weekday Cutover - TF_Weekday Fields)
                         else s16 (DAYSPERWEEK - (TF_Weekday Fields - TF_Weekday Cutover)))
             in Adjusted\<lparr>TF_Day := s16 (TF_Day Adjusted + Days)\<rparr>
           else Adjusted);
        let Adjusted =
          (if TF_Day Cutover > 1 then
             let Days = s16 (DAYSPERWEEK * (TF_Day Cutover - 1));
                 MonthLength = MonthLengths (IsLeapYear (TF_Year Adjusted)) ! nat (TF_Month Adjusted - 1);
                 Days = (if TF_Day Adjusted + Days > MonthLength then s16 (Days - DAYSPERWEEK) else Days)
             in Adjusted\<lparr>TF_Day := s16 (TF_Day Adjusted + Days)\<rparr>
           else Adjusted);
        RtlTimeFieldsToTime Adjusted
      })"

definition RtlCutoverTimeToSystemTime :: "TIME_FIELDS \<Rightarrow> int \<Rightarrow> bool \<Rightarrow> int option" where
  "RtlCutoverTimeToSystemTime Cutover CurrentTime ThisYearsCutoverOnly =
     (if TF_Year Cutover \<noteq> 0 then
        (case RtlTimeFieldsToTime Cutover of
           None \<Rightarrow> None
         | Some SystemTime \<Rightarrow> if SystemTime < CurrentTime then None else Some SystemTime)
      else if TF_Day Cutover = 0 \<or> TF_Day Cutover > 5 then None
      else do {
        CurrentTimeFields \<leftarrow> RtlTimeToTimeFields CurrentTime;
        t \<leftarrow> cutover_in_year Cutover (TF_Year CurrentTimeFields);
        if ThisYearsCutoverOnly \<or> t \<ge> CurrentTime then Some t
        else cutover_in_year Cutover (s16 (TF_Year CurrentTimeFields + 1))
      })"

section \<open>The calendar\<close>

lemma IsLeapYear_cases: "IsLeapYear y = 0 \<or> IsLeapYear y = 1"
  by (simp add: IsLeapYear_def)

lemma YearLengths_pos: "365 \<le> YearLengths (IsLeapYear y)" "YearLengths (IsLeapYear y) \<le> 366"
  by (simp_all add: YearLengths_def IsLeapYear_def)

lemma div_pred_step:
  assumes "0 < (k::int)"
  shows "y div k - (y - 1) div k = (if y mod k = 0 then 1 else 0)"
proof -
  define q r where qr: "q = y div k" "r = y mod k"
  have y: "y = k * q + r" "0 \<le> r" "r < k" using assms by (simp_all add: qr)
  show ?thesis
  proof (cases "r = 0")
    case True
    have "(y - 1) div k = q - 1"
      by (rule int_div_pos_eq[where r = "k - 1"]) (use True y assms in \<open>auto simp: algebra_simps\<close>)
    then show ?thesis using True by (simp flip: qr)
  next
    case False
    have "(y - 1) div k = q"
      by (rule int_div_pos_eq[where r = "r - 1"]) (use False y assms in \<open>auto simp: algebra_simps\<close>)
    then show ?thesis using False by (simp flip: qr)
  qed
qed

lemma DaysSinceEpoch_eq:
  assumes "1 \<le> y"
  shows "DaysSinceEpoch y = (y - 1) * 365 + (y - 1) div 4 - (y - 1) div 100 + (y - 1) div 400 - 584388"
  using assms by (simp add: DaysSinceEpoch_def Let_def c_div_nonneg)

lemma DaysSinceEpoch_Suc:
  assumes "1 \<le> y"
  shows "DaysSinceEpoch (y + 1) = DaysSinceEpoch y + YearLengths (IsLeapYear y)"
proof -
  have "y mod 400 = 0 \<Longrightarrow> y mod 100 = 0" "y mod 100 = 0 \<Longrightarrow> y mod 4 = 0"
    using dvd_trans[of 100 400 y] dvd_trans[of 4 100 y] by (auto simp: mod_eq_0_iff_dvd)
  then have "int (IsLeapYear y) = (if y mod 4 = 0 then 1 else 0) - (if y mod 100 = 0 then 1 else 0)
      + (if y mod 400 = 0 then 1 else 0)"
    by (auto simp: IsLeapYear_def)
  also have "\<dots> = (y div 4 - (y - 1) div 4) - (y div 100 - (y - 1) div 100) + (y div 400 - (y - 1) div 400)"
    by (simp only: div_pred_step)
  finally have leap: "int (IsLeapYear y) = \<dots>" .
  have len: "YearLengths (IsLeapYear y) = 365 + int (IsLeapYear y)"
    by (simp add: YearLengths_def IsLeapYear_def)
  have eq: "DaysSinceEpoch (y + 1) = y * 365 + y div 4 - y div 100 + y div 400 - 584388"
    using DaysSinceEpoch_eq[of "y + 1"] assms by simp
  show ?thesis unfolding eq len leap DaysSinceEpoch_eq[OF assms] by (simp only: left_diff_distrib)
qed

lemma DaysSinceEpoch_add:
  assumes "1 \<le> y"
  shows "365 * int n \<le> DaysSinceEpoch (y + int n) - DaysSinceEpoch y"
    and "DaysSinceEpoch (y + int n) - DaysSinceEpoch y \<le> 366 * int n"
proof (induction n)
  case (Suc n)
  {
    case 1
    show ?case using Suc DaysSinceEpoch_Suc[of "y + int n"] YearLengths_pos[of "y + int n"] assms
      by (simp add: algebra_simps)
  next
    case 2
    show ?case using Suc DaysSinceEpoch_Suc[of "y + int n"] YearLengths_pos[of "y + int n"] assms
      by (simp add: algebra_simps)
  }
qed simp_all

lemma DaysSinceEpoch_bounds:
  assumes "1601 \<le> y"
  shows "365 * (y - 1601) \<le> DaysSinceEpoch y" "DaysSinceEpoch y \<le> 366 * (y - 1601)"
  using DaysSinceEpoch_add[of 1601 "nat (y - 1601)"] assms
  by (simp_all add: DaysSinceEpoch_eq[of 1601])

text \<open>The year loop finds the year that contains the day, and only that year.\<close>

lemma find_year_sound:
  assumes "find_year y d = (y', d')" "1 \<le> y" "0 \<le> d"
  shows "y \<le> y' \<and> 0 \<le> d' \<and> d' < YearLengths (IsLeapYear y')
         \<and> DaysSinceEpoch y + d = DaysSinceEpoch y' + d'"
  using assms
proof (induction y d rule: find_year.induct)
  case (1 y d)
  show ?case
  proof (cases "d < YearLengths (IsLeapYear y)")
    case True
    then show ?thesis using 1 by (simp add: find_year.simps[of y d])
  next
    case False
    then have "find_year (y + 1) (d - YearLengths (IsLeapYear y)) = (y', d')"
      using 1 by (simp add: find_year.simps[of y d])
    then show ?thesis using 1 False DaysSinceEpoch_Suc[of y] by simp
  qed
qed

lemma find_year_complete:
  assumes "1 \<le> y" "0 \<le> d" "d < YearLengths (IsLeapYear (y + int n))"
  shows "find_year y (DaysSinceEpoch (y + int n) - DaysSinceEpoch y + d) = (y + int n, d)"
  using assms
proof (induction n arbitrary: y)
  case 0
  then show ?case by (simp add: find_year.simps)
next
  case (Suc n)
  have "0 \<le> DaysSinceEpoch (y + 1 + int n) - DaysSinceEpoch (y + 1)"
    using DaysSinceEpoch_add(1)[of "y + 1" n] Suc.prems by simp
  then have "\<not> DaysSinceEpoch (y + int (Suc n)) - DaysSinceEpoch y + d < YearLengths (IsLeapYear y)"
    using DaysSinceEpoch_Suc[of y] Suc.prems by (simp add: algebra_simps)
  then show ?case
    using Suc.IH[of "y + 1"] Suc.prems DaysSinceEpoch_Suc[of y]
    by (subst find_year.simps) (simp add: algebra_simps)
qed

lemma find_month_sound:
  assumes "find_month M c d = Some (c', d')" "0 \<le> d"
  shows "c' < length M \<and> 0 \<le> d' \<and> d' < M ! c'
         \<and> sum_list (take c M) + d = sum_list (take c' M) + d'"
  using assms
proof (induction M c d rule: find_month.induct)
  case (1 M c d)
  show ?case
  proof (cases "c < length M \<and> M ! c \<le> d")
    case True
    then have "find_month M (c + 1) (d - M ! c) = Some (c', d')"
      using "1.prems" by (simp add: find_month.simps[of M c d])
    with True show ?thesis using 1 by (simp add: take_Suc_conv_app_nth)
  next
    case False
    then show ?thesis using "1.prems" by (auto simp: find_month.simps[of M c d] split: if_splits)
  qed
qed

lemma find_month_complete:
  assumes "c + n < length M" "0 \<le> d" "d < M ! (c + n)" "\<forall>x \<in> set M. 0 \<le> x"
  shows "find_month M c (sum_list (take (c + n) M) - sum_list (take c M) + d) = Some (c + n, d)"
  using assms
proof (induction n arbitrary: c)
  case 0
  then show ?case by (simp add: find_month.simps)
next
  case (Suc n)
  have tk: "sum_list (take (Suc c) M) = sum_list (take c M) + M ! c"
    using Suc.prems by (simp add: take_Suc_conv_app_nth)
  have "take (c + Suc n) M = take (Suc c) M @ take n (drop (Suc c) M)"
    by (metis add_Suc add_Suc_right take_add)
  then have "sum_list (take (c + Suc n) M) = sum_list (take (Suc c) M) + sum_list (take n (drop (Suc c) M))"
    by simp
  moreover have "0 \<le> sum_list (take n (drop (Suc c) M))"
    using Suc.prems(4) by (intro sum_list_nonneg) (meson in_set_dropD in_set_takeD)
  ultimately show ?case
    using Suc.IH[of "Suc c"] Suc.prems tk
    by (subst find_month.simps) (simp add: algebra_simps)
qed

lemma find_month_total:
  assumes "0 \<le> d" "d < sum_list (drop c M)" "\<forall>x \<in> set M. 0 \<le> x"
  shows "\<exists>c' d'. find_month M c d = Some (c', d')"
  using assms
proof (induction M c d rule: find_month.induct)
  case (1 M c d)
  then have "c < length M" by (rule_tac ccontr) simp
  with 1 show ?case
    by (cases "M ! c \<le> d") (auto simp: find_month.simps[of M c d] Cons_nth_drop_Suc[symmetric])
qed

lemma MonthLengths_facts [simp]:
  "length (MonthLengths (IsLeapYear y)) = 12"
  "sum_list (MonthLengths (IsLeapYear y)) = YearLengths (IsLeapYear y)"
  "\<forall>x \<in> set (MonthLengths (IsLeapYear y)). 0 \<le> x"
  by (simp_all add: MonthLengths_def IsLeapYear_def YearLengths_def)

lemma MonthLengths_range:
  assumes "m < 12"
  shows "28 \<le> MonthLengths (IsLeapYear y) ! m" "MonthLengths (IsLeapYear y) ! m \<le> 31"
proof -
  have "list_all (\<lambda>x. 28 \<le> x \<and> x \<le> 31) (MonthLengths (IsLeapYear y))"
    using IsLeapYear_cases[of y] by (elim disjE) (simp_all add: MonthLengths_def)
  moreover have "MonthLengths (IsLeapYear y) ! m \<in> set (MonthLengths (IsLeapYear y))"
    using assms by (intro nth_mem) simp
  ultimately show "28 \<le> MonthLengths (IsLeapYear y) ! m" "MonthLengths (IsLeapYear y) ! m \<le> 31"
    unfolding list_all_iff by blast+
qed

section \<open>Day numbers\<close>

text \<open>
  The day a date falls on, counted from 1 January 1601, and the tick a set of fields
  denotes: the specification both conversions are compared with.
\<close>

definition month_start :: "int \<Rightarrow> nat \<Rightarrow> int" where
  "month_start y m = sum_list (take m (MonthLengths (IsLeapYear y)))"

definition valid_fields :: "TIME_FIELDS \<Rightarrow> bool" where
  "valid_fields f \<longleftrightarrow>
     0 \<le> TF_Milliseconds f \<and> TF_Milliseconds f \<le> 999 \<and> 0 \<le> TF_Second f \<and> TF_Second f \<le> 59
     \<and> 0 \<le> TF_Minute f \<and> TF_Minute f \<le> 59 \<and> 0 \<le> TF_Hour f \<and> TF_Hour f \<le> 23
     \<and> 1 \<le> TF_Month f \<and> TF_Month f \<le> 12 \<and> 1 \<le> TF_Day f
     \<and> TF_Day f \<le> MonthLengths (IsLeapYear (TF_Year f)) ! nat (TF_Month f - 1)
     \<and> 1601 \<le> TF_Year f"

definition day_number :: "TIME_FIELDS \<Rightarrow> int" where
  "day_number f = DaysSinceEpoch (TF_Year f) + month_start (TF_Year f) (nat (TF_Month f - 1)) + (TF_Day f - 1)"

definition second_of_day :: "TIME_FIELDS \<Rightarrow> int" where
  "second_of_day f = TF_Hour f * 3600 + TF_Minute f * 60 + TF_Second f"

definition ticks :: "TIME_FIELDS \<Rightarrow> int" where
  "ticks f = (day_number f * 86400 + second_of_day f) * 10000000 + TF_Milliseconds f * 10000"

lemma month_start_Suc: "m < 12 \<Longrightarrow> month_start y (Suc m) = month_start y m + MonthLengths (IsLeapYear y) ! m"
  by (simp add: month_start_def take_Suc_conv_app_nth)

lemma month_start_12 [simp]: "month_start y 12 = YearLengths (IsLeapYear y)"
  by (simp add: month_start_def)

lemma month_start_0 [simp]: "month_start y 0 = 0"
  by (simp add: month_start_def)

lemma month_start_mono:
  assumes "m \<le> n" "n \<le> 12"
  shows "month_start y m \<le> month_start y n"
  using assms
proof (induction n)
  case (Suc n)
  then show ?case using month_start_Suc[of n y] MonthLengths_range(1)[of n y]
    by (cases "m = Suc n") auto
qed simp

lemma month_start_bounds:
  assumes "m \<le> 12"
  shows "0 \<le> month_start y m" "month_start y m \<le> 366"
  using month_start_mono[of 0 m y] month_start_mono[of m 12 y] assms YearLengths_pos[of y] by auto

lemma day_in_year:
  assumes "valid_fields f"
  shows "0 \<le> month_start (TF_Year f) (nat (TF_Month f - 1)) + (TF_Day f - 1)"
    and "month_start (TF_Year f) (nat (TF_Month f - 1)) + (TF_Day f - 1) < YearLengths (IsLeapYear (TF_Year f))"
proof -
  let ?m = "nat (TF_Month f - 1)"
  have m: "?m < 12" and d: "1 \<le> TF_Day f" "TF_Day f \<le> MonthLengths (IsLeapYear (TF_Year f)) ! ?m"
    using assms by (auto simp: valid_fields_def)
  show "0 \<le> month_start (TF_Year f) ?m + (TF_Day f - 1)"
    using month_start_bounds(1)[of ?m "TF_Year f"] m d by simp
  have "month_start (TF_Year f) (Suc ?m) \<le> month_start (TF_Year f) 12"
    using month_start_mono[of "Suc ?m" 12 "TF_Year f"] m by linarith
  then show "month_start (TF_Year f) ?m + (TF_Day f - 1) < YearLengths (IsLeapYear (TF_Year f))"
    using month_start_Suc[OF m, of "TF_Year f"] d by simp
qed

lemma day_number_bounds:
  assumes "valid_fields f"
  shows "0 \<le> day_number f" "day_number f < 366 * (TF_Year f - 1600)"
  using day_in_year[OF assms] DaysSinceEpoch_bounds[of "TF_Year f"] YearLengths_pos[of "TF_Year f"] assms
  by (auto simp: day_number_def valid_fields_def)

lemma day_number_before:
  assumes "valid_fields f" "TF_Year f \<le> 30827"
  shows "day_number f < 10674944"
proof -
  have "DaysSinceEpoch (TF_Year f) + 365 * int (nat (30828 - TF_Year f)) \<le> DaysSinceEpoch 30828"
    using DaysSinceEpoch_add(1)[of "TF_Year f" "nat (30828 - TF_Year f)"] assms by (simp add: valid_fields_def)
  moreover have "DaysSinceEpoch 30828 = 10674942" by (simp add: DaysSinceEpoch_eq)
  ultimately show ?thesis
    using day_in_year(2)[OF assms(1)] YearLengths_pos[of "TF_Year f"] assms by (simp add: day_number_def)
qed

lemma second_of_day_bounds:
  assumes "valid_fields f"
  shows "0 \<le> second_of_day f" "second_of_day f < 86400"
  using assms by (auto simp: second_of_day_def valid_fields_def)

lemma ticks_bounds:
  assumes "valid_fields f" "TF_Year f \<le> 30827"
  shows "0 \<le> ticks f" "ticks f < 9223372036854775808"
proof -
  show "0 \<le> ticks f"
    using day_number_bounds(1)[OF assms(1)] second_of_day_bounds(1)[OF assms(1)] assms(1)
    by (auto simp: ticks_def valid_fields_def)
  show "ticks f < 9223372036854775808"
    using day_number_before[OF assms] second_of_day_bounds(2)[OF assms(1)] assms(1)
    by (auto simp: ticks_def valid_fields_def)
qed

lemma add_months_eq:
  assumes "c + n \<le> 12" "0 \<le> t" "t \<le> 100000000"
  shows "add_months (MonthLengths (IsLeapYear y)) (t + month_start y c) (Suc c) n = t + month_start y (c + n)"
  using assms
proof (induction n arbitrary: c)
  case (Suc n)
  have "s64 (t + month_start y c + MonthLengths (IsLeapYear y) ! c) = t + month_start y (Suc c)"
    using Suc.prems month_start_bounds[of "Suc c" y] month_start_Suc[of c y]
    by (subst s64_small) auto
  then show ?case using Suc.IH[of "Suc c"] Suc.prems by simp
qed simp

text \<open>
  A set of fields is accepted exactly when it is valid; when the tick it denotes fits in
  63 bits (every date before the year 30828) nothing overflows on the way.
\<close>

lemma RtlTimeFieldsToTime_None: "\<not> valid_fields f \<Longrightarrow> RtlTimeFieldsToTime f = None"
  unfolding RtlTimeFieldsToTime_def valid_fields_def by auto

lemma s64_add: "s64 (s64 a + b) = s64 (a + b)"
  and s64_mult: "s64 (s64 a * b) = s64 (a * b)"
proof -
  have eq: "(s64 a) mod 18446744073709551616 = a mod 18446744073709551616"
    by (simp add: s64_def mod_simps)
  show "s64 (s64 a + b) = s64 (a + b)"
    unfolding s64_def[of "s64 a + b"] s64_def[of "a + b"] add.assoc
    by (subst (1 2) mod_add_left_eq[symmetric]) (simp only: eq)
  show "s64 (s64 a * b) = s64 (a * b)"
    unfolding s64_def[of "s64 a * b"] s64_def[of "a * b"]
    by (subst (1 2) mod_add_left_eq[symmetric], subst (1 2) mod_mult_left_eq[symmetric]) (simp only: eq)
qed

lemma RtlTimeFieldsToTime_s64:
  assumes "valid_fields f" "day_number f < 20000000"
  shows "RtlTimeFieldsToTime f = Some (s64 (ticks f))"
proof -
  let ?y = "TF_Year f" and ?m = "nat (TF_Month f - 1)"
  have y: "1601 \<le> ?y" and m: "?m \<le> 12" using assms by (auto simp: valid_fields_def)
  note b = day_number_bounds(1)[OF assms(1)] second_of_day_bounds[OF assms(1)]
  have "DaysSinceEpoch ?y \<le> day_number f"
    using day_in_year(1)[OF assms(1)] by (simp add: day_number_def)
  then have "add_months (MonthLengths (IsLeapYear ?y)) (DaysSinceEpoch ?y) 1 ?m = DaysSinceEpoch ?y + month_start ?y ?m"
    using add_months_eq[of 0 ?m "DaysSinceEpoch ?y" ?y] m y DaysSinceEpoch_bounds[of ?y] assms(2)
    by simp
  moreover have "s64 (DaysSinceEpoch ?y + month_start ?y ?m + (TF_Day f - 1)) = day_number f"
    using b assms(2) by (subst s64_small) (auto simp: day_number_def)
  moreover have "s64 (s64 (s64 (s64 (day_number f * 86400) + (TF_Hour f * 3600 + TF_Minute f * 60 + TF_Second f))
      * 10000000) + TF_Milliseconds f * 10000) = s64 (ticks f)"
    by (simp only: s64_add s64_mult ticks_def second_of_day_def)
  ultimately show ?thesis
    using assms(1) unfolding RtlTimeFieldsToTime_def valid_fields_def by (simp add: Let_def)
qed

lemma RtlTimeFieldsToTime_eq:
  assumes "valid_fields f" "ticks f < 9223372036854775808"
  shows "RtlTimeFieldsToTime f = Some (ticks f)"
proof -
  note b = day_number_bounds(1)[OF assms(1)] second_of_day_bounds[OF assms(1)]
  have ms: "0 \<le> TF_Milliseconds f" using assms by (auto simp: valid_fields_def)
  then have "day_number f < 20000000" "0 \<le> ticks f" using assms(2) b by (simp_all add: ticks_def)
  then show ?thesis using RtlTimeFieldsToTime_s64[OF assms(1)] assms(2) by (simp add: s64_small)
qed

section \<open>From ticks back to fields\<close>

text \<open>\<open>date_of\<close> is the calendar part of \<^const>\<open>RtlTimeToTimeFields\<close>: the date of a day number.\<close>

definition date_of :: "int \<Rightarrow> (int \<times> nat \<times> int) option" where
  "date_of D =
     (let (y, d) = find_year (1601 + D div 366) (D - DaysSinceEpoch (1601 + D div 366))
      in map_option (\<lambda>(m, d). (y, m, d)) (find_month (MonthLengths (IsLeapYear y)) 0 d))"

lemma start_year:
  assumes "0 \<le> D"
  shows "0 \<le> D - DaysSinceEpoch (1601 + D div 366)"
  using DaysSinceEpoch_bounds(2)[of "1601 + D div 366"] assms mult_div_mod_eq[of 366 D] pos_mod_sign[of 366 D]
    div_int_pos_iff[of D 366] by simp

lemma start_year_wrap:
  assumes "0 \<le> D" "D < 10675200"
  shows "(D - DaysSinceEpoch (1601 + D div 366)) mod 4294967296 = D - DaysSinceEpoch (1601 + D div 366)"
proof (rule mod_pos_pos_trivial)
  have "0 \<le> D div 366" using assms by simp
  then have "0 \<le> DaysSinceEpoch (1601 + D div 366)"
    using DaysSinceEpoch_bounds(1)[of "1601 + D div 366"] by simp
  then show "D - DaysSinceEpoch (1601 + D div 366) < 4294967296" using assms by simp
qed (rule start_year[OF assms(1)])

lemma date_of_sound:
  assumes "0 \<le> D"
  shows "\<exists>y m d. date_of D = Some (y, m, d) \<and> 1601 \<le> y \<and> m < 12 \<and> 0 \<le> d
      \<and> d < MonthLengths (IsLeapYear y) ! m \<and> D = DaysSinceEpoch y + month_start y m + d"
proof -
  let ?y = "1601 + D div 366"
  obtain y d where f: "find_year ?y (D - DaysSinceEpoch ?y) = (y, d)" by fastforce
  have y0: "1601 \<le> ?y" using assms by (simp add: div_int_pos_iff)
  then have y: "?y \<le> y" "0 \<le> d" "d < YearLengths (IsLeapYear y)" "D = DaysSinceEpoch y + d"
    using find_year_sound[OF f] start_year[OF assms] by auto
  obtain m d' where g: "find_month (MonthLengths (IsLeapYear y)) 0 d = Some (m, d')"
    using find_month_total[of d 0 "MonthLengths (IsLeapYear y)"] y by auto
  have "date_of D = Some (y, m, d')" by (simp add: date_of_def Let_def f g)
  moreover have "m < 12 \<and> 0 \<le> d' \<and> d' < MonthLengths (IsLeapYear y) ! m \<and> d = month_start y m + d'"
    using find_month_sound[OF g] y by (simp add: month_start_def)
  ultimately show ?thesis using y y0 by auto
qed

lemma date_of_complete:
  assumes "1601 \<le> y" "m < 12" "0 \<le> d" "d < MonthLengths (IsLeapYear y) ! m"
  shows "date_of (DaysSinceEpoch y + month_start y m + d) = Some (y, m, d)"
proof -
  let ?D = "DaysSinceEpoch y + month_start y m + d"
  let ?y0 = "1601 + ?D div 366"
  have yd: "month_start y m + d < YearLengths (IsLeapYear y)" "0 \<le> month_start y m + d"
    using month_start_Suc[of m y] month_start_mono[of "Suc m" 12 y] month_start_bounds(1)[of m y] assms by auto
  have D: "0 \<le> ?D" using yd DaysSinceEpoch_bounds(1)[of y] assms(1) by simp
  have le: "?y0 \<le> y"
  proof (rule ccontr)
    assume "\<not> ?y0 \<le> y"
    then have "y + 1 \<le> ?y0" by simp
    then have "366 * (y + 1 - 1601) \<le> 366 * (?D div 366)" by simp
    also have "\<dots> \<le> ?D" using mult_div_mod_eq[of 366 ?D] pos_mod_sign[of 366 ?D] by linarith
    finally show False
      using DaysSinceEpoch_Suc[of y] DaysSinceEpoch_bounds(2)[of "y + 1"] yd assms(1) by simp
  qed
  have "1 \<le> ?y0" using D by (simp add: div_int_pos_iff)
  then have "find_year ?y0 (DaysSinceEpoch (?y0 + int (nat (y - ?y0))) - DaysSinceEpoch ?y0 + (month_start y m + d))
      = (?y0 + int (nat (y - ?y0)), month_start y m + d)"
    using yd le by (intro find_year_complete) simp_all
  moreover have "?y0 + int (nat (y - ?y0)) = y" using le by simp
  moreover have "DaysSinceEpoch y - DaysSinceEpoch ?y0 + (month_start y m + d) = ?D - DaysSinceEpoch ?y0" by simp
  ultimately have fy: "find_year ?y0 (?D - DaysSinceEpoch ?y0) = (y, month_start y m + d)" by metis
  have "find_month (MonthLengths (IsLeapYear y)) 0 (month_start y m + d) = Some (m, d)"
    using find_month_complete[of 0 m "MonthLengths (IsLeapYear y)" d] assms by (simp add: month_start_def)
  then show ?thesis by (simp add: date_of_def Let_def fy)
qed

text \<open>What \<^const>\<open>RtlTimeToTimeFields\<close> computes for a tick that is not negative.\<close>

definition fields_of :: "int \<Rightarrow> int \<Rightarrow> nat \<Rightarrow> int \<Rightarrow> TIME_FIELDS" where
  "fields_of t y m d =
     (let s = t div 10000000 mod 86400
      in \<lparr>TF_Year = y, TF_Month = int m + 1, TF_Day = d + 1, TF_Hour = s div 3600,
          TF_Minute = s mod 3600 div 60, TF_Second = s mod 3600 mod 60,
          TF_Milliseconds = t mod 10000000 div 10000,
          TF_Weekday = (1 + t div 10000000 div 86400) mod 7\<rparr>)"

lemma time_of_day:
  assumes "0 \<le> s" "s < (86400 :: int)"
  shows "0 \<le> s div 3600" "s div 3600 \<le> 23"
    "0 \<le> s mod 3600 div 60" "s mod 3600 div 60 \<le> 59"
    "0 \<le> s mod 3600 mod 60" "s mod 3600 mod 60 \<le> 59"
    "s div 3600 * 3600 + s mod 3600 div 60 * 60 + s mod 3600 mod 60 = s"
proof -
  show "0 \<le> s div 3600" "s div 3600 \<le> 23" using assms by linarith+
  have r: "0 \<le> s mod 3600" "s mod 3600 < 3600" by simp_all
  then show "0 \<le> s mod 3600 div 60" "s mod 3600 div 60 \<le> 59" by linarith+
  show "0 \<le> s mod 3600 mod 60" by simp
  show "s mod 3600 mod 60 \<le> 59" using pos_mod_bound[of 60 "s mod 3600"] by linarith
  show "s div 3600 * 3600 + s mod 3600 div 60 * 60 + s mod 3600 mod 60 = s"
    by (simp only: add.assoc div_mult_mod_eq)
qed

lemma s16_between:
  assumes "0 \<le> x" "x \<le> n" "n \<le> 32767"
  shows "s16 x = x"
  using assms by (intro s16_small) linarith+

lemma milliseconds_range: "0 \<le> (t::int) mod 10000000 div 10000" "t mod 10000000 div 10000 \<le> 999"
proof -
  have r: "0 \<le> t mod 10000000" "t mod 10000000 < 10000000" by simp_all
  then show "0 \<le> t mod 10000000 div 10000" "t mod 10000000 div 10000 \<le> 999" by linarith+
qed

lemma day_range:
  assumes "0 \<le> t" "t < 9223372036854775808"
  shows "0 \<le> t div 10000000 div (86400 :: int)" "t div 10000000 div 86400 < 10675200"
proof -
  show "0 \<le> t div 10000000 div 86400" using assms by (simp add: pos_imp_zdiv_nonneg_iff)
  have "t div 10000000 < 922337203686" using assms by linarith
  then show "t div 10000000 div 86400 < 10675200" by linarith
qed

lemma date_of_year:
  assumes "0 \<le> D" "D < 10675200" "D = DaysSinceEpoch y + month_start y m + d" "1601 \<le> y" "m < 12" "0 \<le> d"
  shows "y < 32768"
proof (rule ccontr)
  assume "\<not> y < 32768"
  then have "365 * (32768 - 1601) \<le> DaysSinceEpoch y" using DaysSinceEpoch_bounds(1)[of y] by simp
  then show False using assms month_start_bounds(1)[of m y] by simp
qed

lemma RtlTimeToTimeFields_eq:
  assumes t: "0 \<le> t" "t < 9223372036854775808"
    and d: "date_of (t div 10000000 div 86400) = Some (y, m, d)"
  shows "RtlTimeToTimeFields t = Some (fields_of t y m d)"
proof -
  let ?D = "t div 10000000 div 86400" and ?s = "t div 10000000 mod 86400"
  note D = day_range[OF t]
  have s: "0 \<le> ?s" "?s < 86400" by simp_all
  obtain y0 d0 where f: "find_year (1601 + ?D div 366) (?D - DaysSinceEpoch (1601 + ?D div 366)) = (y0, d0)"
    by fastforce
  have ym: "y0 = y" "find_month (MonthLengths (IsLeapYear y)) 0 d0 = Some (m, d)"
    using d by (auto simp: date_of_def Let_def f)
  have dd: "1601 \<le> y" "m < 12" "0 \<le> d" "d < MonthLengths (IsLeapYear y) ! m"
      "?D = DaysSinceEpoch y + month_start y m + d"
    using date_of_sound[OF D(1)] d by auto
  have y: "y < 32768" using date_of_year[OF D dd(5,1,2,3)] .
  have tm: "t mod 18446744073709551616 = t" using t by (simp add: mod_pos_pos_trivial)
  have Dm: "?D mod 4294967296 = ?D" "(1 + ?D) mod 4294967296 = 1 + ?D"
    using D by (simp_all add: mod_pos_pos_trivial)
  note sub = start_year_wrap[OF D]
  have w: "s16 ((1 + ?D) mod 7) = (1 + ?D) mod 7"
    by (rule s16_between[of _ 7]) (simp_all add: less_imp_le)
  have tod: "s16 (?s div 3600) = ?s div 3600" "s16 (?s mod 3600 div 60) = ?s mod 3600 div 60"
      "s16 (?s mod 3600 mod 60) = ?s mod 3600 mod 60"
    by (rule s16_between[OF time_of_day(1,2)[OF s]] s16_between[OF time_of_day(3,4)[OF s]]
        s16_between[OF time_of_day(5,6)[OF s]]; simp)+
  have ms: "s16 (t mod 10000000 div 10000) = t mod 10000000 div 10000"
    by (rule s16_between[OF milliseconds_range]) simp
  have md: "s16 y = y" "s16 (int m + 1) = int m + 1" "s16 (d + 1) = d + 1"
    using dd y MonthLengths_range(2)[OF dd(2), of y] by (auto intro!: s16_small)
  show ?thesis
    unfolding RtlTimeToTimeFields_def Let_def tm Dm sub f ym(1) w tod ms prod.case ym(2) Option.bind.simps md
    by (simp only: fields_of_def Let_def)
qed

lemma fields_of_valid:
  assumes "1601 \<le> y" "m < 12" "0 \<le> d" "d < MonthLengths (IsLeapYear y) ! m"
  shows "valid_fields (fields_of t y m d)"
proof -
  let ?s = "t div 10000000 mod 86400"
  have s: "0 \<le> ?s" "?s < 86400" by simp_all
  have "1 \<le> int m + 1" "int m + 1 \<le> 12" "1 \<le> d + 1"
      "d + 1 \<le> MonthLengths (IsLeapYear y) ! nat (int m + 1 - 1)"
    using assms by simp_all
  then show ?thesis
    unfolding valid_fields_def fields_of_def Let_def TIME_FIELDS.simps
    by (intro conjI time_of_day[OF s] milliseconds_range assms(1))
qed

lemma ticks_fields_of:
  assumes "t div 10000000 div 86400 = DaysSinceEpoch y + month_start y m + d"
  shows "ticks (fields_of t y m d) = t - t mod 10000"
proof -
  let ?s = "t div 10000000 mod 86400"
  have "day_number (fields_of t y m d) = t div 10000000 div 86400"
    using assms by (simp add: day_number_def fields_of_def Let_def)
  moreover have "second_of_day (fields_of t y m d) = ?s"
    using time_of_day(7)[of ?s] by (simp add: second_of_day_def fields_of_def Let_def)
  moreover have "TF_Milliseconds (fields_of t y m d) = t mod 10000000 div 10000"
    by (simp add: fields_of_def Let_def)
  ultimately have "ticks (fields_of t y m d) = t div 10000000 * 10000000 + t mod 10000000 div 10000 * 10000"
    by (simp only: ticks_def div_mult_mod_eq)
  also have "\<dots> = t - t mod 10000000 mod 10000"
    by (simp only: minus_mod_eq_div_mult[symmetric] add_diff_eq diff_add_cancel)
  also have "t mod 10000000 mod 10000 = t mod 10000" by (simp add: mod_mod_cancel)
  finally show ?thesis .
qed

lemma ticks_parts:
  assumes "valid_fields f"
  shows "ticks f div 10000000 = day_number f * 86400 + second_of_day f"
    and "ticks f mod 10000000 = TF_Milliseconds f * 10000"
    and "(day_number f * 86400 + second_of_day f) div 86400 = day_number f"
    and "(day_number f * 86400 + second_of_day f) mod 86400 = second_of_day f"
proof -
  have ms: "0 \<le> TF_Milliseconds f" "TF_Milliseconds f \<le> 999" using assms by (auto simp: valid_fields_def)
  then have r: "0 \<le> TF_Milliseconds f * 10000" "TF_Milliseconds f * 10000 < 10000000" by simp_all
  have eq: "ticks f = 10000000 * (day_number f * 86400 + second_of_day f) + TF_Milliseconds f * 10000"
    by (simp only: ticks_def mult.commute)
  show "ticks f div 10000000 = day_number f * 86400 + second_of_day f"
    by (rule int_div_pos_eq[OF eq r])
  show "ticks f mod 10000000 = TF_Milliseconds f * 10000"
    by (rule int_mod_pos_eq[OF eq r])
  have eq: "day_number f * 86400 + second_of_day f = 86400 * day_number f + second_of_day f" by simp
  show "(day_number f * 86400 + second_of_day f) div 86400 = day_number f"
    by (rule int_div_pos_eq[OF eq second_of_day_bounds[OF assms]])
  show "(day_number f * 86400 + second_of_day f) mod 86400 = second_of_day f"
    by (rule int_mod_pos_eq[OF eq second_of_day_bounds[OF assms]])
qed

lemma second_of_day_parts:
  assumes "valid_fields f"
  shows "second_of_day f div 3600 = TF_Hour f" "second_of_day f mod 3600 = TF_Minute f * 60 + TF_Second f"
    "(TF_Minute f * 60 + TF_Second f) div 60 = TF_Minute f" "(TF_Minute f * 60 + TF_Second f) mod 60 = TF_Second f"
proof -
  have b: "0 \<le> TF_Minute f * 60 + TF_Second f" "TF_Minute f * 60 + TF_Second f < 3600"
      "0 \<le> TF_Second f" "TF_Second f < 60"
    using assms by (auto simp: valid_fields_def)
  have eq: "second_of_day f = 3600 * TF_Hour f + (TF_Minute f * 60 + TF_Second f)"
    by (simp add: second_of_day_def)
  show "second_of_day f div 3600 = TF_Hour f" by (rule int_div_pos_eq[OF eq b(1,2)])
  show "second_of_day f mod 3600 = TF_Minute f * 60 + TF_Second f" by (rule int_mod_pos_eq[OF eq b(1,2)])
  have eq: "TF_Minute f * 60 + TF_Second f = 60 * TF_Minute f + TF_Second f" by simp
  show "(TF_Minute f * 60 + TF_Second f) div 60 = TF_Minute f" by (rule int_div_pos_eq[OF eq b(3,4)])
  show "(TF_Minute f * 60 + TF_Second f) mod 60 = TF_Second f" by (rule int_mod_pos_eq[OF eq b(3,4)])
qed

lemma fields_of_ticks:
  assumes "valid_fields f" "ticks f < 9223372036854775808"
  shows "RtlTimeToTimeFields (ticks f) = Some (f\<lparr>TF_Weekday := (1 + day_number f) mod 7\<rparr>)"
proof -
  let ?m = "nat (TF_Month f - 1)"
  have "0 \<le> ticks f"
    using day_number_bounds(1)[OF assms(1)] second_of_day_bounds(1)[OF assms(1)] assms(1)
    by (auto simp: ticks_def valid_fields_def)
  moreover have "date_of (ticks f div 10000000 div 86400) = Some (TF_Year f, ?m, TF_Day f - 1)"
    unfolding ticks_parts[OF assms(1)]
    unfolding day_number_def by (rule date_of_complete) (use assms(1) in \<open>auto simp: valid_fields_def\<close>)
  ultimately have "RtlTimeToTimeFields (ticks f) = Some (fields_of (ticks f) (TF_Year f) ?m (TF_Day f - 1))"
    using assms(2) by (intro RtlTimeToTimeFields_eq) simp_all
  also have "fields_of (ticks f) (TF_Year f) ?m (TF_Day f - 1) = f\<lparr>TF_Weekday := (1 + day_number f) mod 7\<rparr>"
    unfolding fields_of_def Let_def ticks_parts[OF assms(1)] second_of_day_parts[OF assms(1)]
    using assms(1) by (simp add: valid_fields_def)
  finally show ?thesis .
qed

lemma ticks_Weekday [simp]: "ticks (f\<lparr>TF_Weekday := w\<rparr>) = ticks f"
  by (simp add: ticks_def day_number_def second_of_day_def)

lemma valid_fields_Weekday [simp]: "valid_fields (f\<lparr>TF_Weekday := w\<rparr>) = valid_fields f"
  by (simp add: valid_fields_def)

lemma fields_of_time:
  assumes "0 \<le> t" "t < 9223372036854775808"
  shows "\<exists>f. RtlTimeToTimeFields t = Some f \<and> valid_fields f \<and> ticks f = t - t mod 10000 \<and> TF_Year f \<le> 30828"
proof -
  let ?D = "t div 10000000 div 86400"
  note D = day_range[OF assms]
  obtain y m d where "date_of ?D = Some (y, m, d)" "1601 \<le> y" "m < 12" "0 \<le> d"
      "d < MonthLengths (IsLeapYear y) ! m" "?D = DaysSinceEpoch y + month_start y m + d"
    using date_of_sound[OF D(1)] by blast
  note y = this
  have "y \<le> 30828"
  proof (rule ccontr)
    assume "\<not> y \<le> 30828"
    then have "365 * int (nat (y - 30829)) \<le> DaysSinceEpoch y - DaysSinceEpoch 30829"
      using DaysSinceEpoch_add(1)[of 30829 "nat (y - 30829)"] by simp
    moreover have "DaysSinceEpoch 30829 = 10675308" by (simp add: DaysSinceEpoch_eq)
    ultimately show False
      using D(2)[unfolded y(6)] y(3,4) month_start_bounds(1)[of m y] \<open>\<not> y \<le> 30828\<close> by simp
  qed
  then have "TF_Year (fields_of t y m d) \<le> 30828" by (simp add: fields_of_def Let_def)
  with RtlTimeToTimeFields_eq[OF assms y(1)] fields_of_valid[OF y(2-5)] ticks_fields_of[OF y(6)]
  show ?thesis by blast
qed

section \<open>Cutover times\<close>

text \<open>
  \<open>cutover_day\<close> is the day of the month a recurring cutover asks for, when the month has
  \<open>len\<close> days and its first day is a weekday \<open>w\<close>: the n-th weekday \<open>wd\<close>, the fifth meaning the last.
\<close>

definition cutover_day :: "int \<Rightarrow> int \<Rightarrow> int \<Rightarrow> int \<Rightarrow> int" where
  "cutover_day len w wd n =
     (let first = 1 + (wd - w) mod 7; day = first + 7 * (n - 1)
      in if day > len then day - 7 else day)"

definition valid_cutover :: "TIME_FIELDS \<Rightarrow> bool" where
  "valid_cutover c \<longleftrightarrow> 1 \<le> TF_Day c \<and> TF_Day c \<le> 5 \<and> 0 \<le> TF_Weekday c \<and> TF_Weekday c \<le> 6
     \<and> 1 \<le> TF_Month c \<and> TF_Month c \<le> 12 \<and> 0 \<le> TF_Hour c \<and> TF_Hour c \<le> 23
     \<and> 0 \<le> TF_Minute c \<and> TF_Minute c \<le> 59 \<and> 0 \<le> TF_Second c \<and> TF_Second c \<le> 59
     \<and> 0 \<le> TF_Milliseconds c \<and> TF_Milliseconds c \<le> 999"

lemma cutover_first_valid:
  assumes "valid_cutover c" "1601 \<le> y"
  shows "valid_fields (cutover_first c y)"
proof -
  have "nat (TF_Month c - 1) < 12" using assms by (auto simp: valid_cutover_def)
  from MonthLengths_range(1)[OF this, of y] show ?thesis
    using assms by (simp add: valid_fields_def valid_cutover_def cutover_first_def)
qed

lemma cutover_day_bounds:
  assumes "28 \<le> len" "len \<le> 31" "1 \<le> n" "n \<le> 5"
  shows "1 \<le> cutover_day len w wd n" "cutover_day len w wd n \<le> len"
    and "n < 5 \<Longrightarrow> (cutover_day len w wd n - 1) div 7 = n - 1"
    and "n = 5 \<Longrightarrow> len < cutover_day len w wd n + 7"
    and "cutover_day len w wd n mod 7 = (1 + wd - w) mod 7"
proof -
  define r where "r = (wd - w) mod 7"
  have r: "0 \<le> r" "r < 7" by (simp_all add: r_def)
  have n: "n = 1 \<or> n = 2 \<or> n = 3 \<or> n = 4 \<or> n = 5" using assms by auto
  have eq: "cutover_day len w wd n = (if r + 7 * n - 6 > len then r + 7 * n - 13 else r + 7 * n - 6)"
    by (simp add: cutover_day_def r_def Let_def algebra_simps)
  show "1 \<le> cutover_day len w wd n" "cutover_day len w wd n \<le> len"
      "n = 5 \<Longrightarrow> len < cutover_day len w wd n + 7"
    unfolding eq using n r assms by auto
  show "(cutover_day len w wd n - 1) div 7 = n - 1" if "n < 5"
    by (rule int_div_pos_eq[where r = r]) (use n r assms that eq in auto)
  obtain k where "cutover_day len w wd n = 1 + r + 7 * k"
    by (rule that[of "if r + 7 * n - 6 > len then n - 2 else n - 1"]) (simp add: eq)
  then have "cutover_day len w wd n mod 7 = (1 + r) mod 7" by simp
  also have "\<dots> = (1 + wd - w) mod 7" unfolding r_def by (simp add: mod_simps algebra_simps)
  finally show "cutover_day len w wd n mod 7 = (1 + wd - w) mod 7" .
qed

definition cutover_fields :: "TIME_FIELDS \<Rightarrow> int \<Rightarrow> TIME_FIELDS" where
  "cutover_fields c y =
     (let f = cutover_first c y
      in f\<lparr>TF_Day := cutover_day (MonthLengths (IsLeapYear y) ! nat (TF_Month c - 1))
                      ((1 + day_number f) mod 7) (TF_Weekday c) (TF_Day c)\<rparr>)"

lemma weekday_step:
  assumes "0 \<le> w" "w \<le> 6" "0 \<le> wd" "wd \<le> (6::int)"
  shows "(if w < wd then wd - w else 7 - (w - wd)) = (if w = wd then 7 else (wd - w) mod 7)"
proof (cases "w \<le> wd")
  case True
  then show ?thesis using assms by (auto simp: mod_pos_pos_trivial)
next
  case False
  then have "(wd - w) mod 7 = wd - w + 7" using assms by (intro int_mod_pos_eq[of _ _ "-1"]) auto
  then show ?thesis using False by auto
qed

lemma s16_range: "-32768 \<le> x \<and> x < 32768 \<Longrightarrow> s16 x = x"
  by (simp add: s16_small)

lemma cutover_fields_valid:
  assumes "valid_cutover c" "1601 \<le> y"
  shows "valid_fields (cutover_fields c y)"
proof -
  have "nat (TF_Month c - 1) < 12" using assms by (auto simp: valid_cutover_def)
  note len = MonthLengths_range[OF this, of y]
  have n: "1 \<le> TF_Day c" "TF_Day c \<le> 5" using assms by (auto simp: valid_cutover_def)
  note cutover_day_bounds(1,2)[OF len n]
  then show ?thesis
    using cutover_first_valid[OF assms] unfolding valid_fields_def cutover_fields_def Let_def
    by (auto simp: cutover_first_def)
qed

lemma cutover_in_year_eq:
  assumes c: "valid_cutover c" and y: "1601 \<le> y" "y \<le> 30827"
  shows "cutover_in_year c y = Some (ticks (cutover_fields c y))"
proof -
  define F where "F = cutover_first c y"
  define w where "w = (1 + day_number F) mod 7"
  define len where "len = MonthLengths (IsLeapYear y) ! nat (TF_Month c - 1)"
  define r where "r = (TF_Weekday c - w) mod 7"
  have F: "TF_Year F = y" "TF_Month F = TF_Month c" "TF_Day F = 1" by (simp_all add: F_def cutover_first_def)
  have vF: "valid_fields F" using cutover_first_valid[OF c y(1)] by (simp add: F_def)
  have n: "1 \<le> TF_Day c" "TF_Day c \<le> 5" and wd: "0 \<le> TF_Weekday c" "TF_Weekday c \<le> 6"
    using c by (auto simp: valid_cutover_def)
  have w: "0 \<le> w" "w \<le> 6" using pos_mod_bound[of 7 "1 + day_number F"] by (auto simp: w_def)
  have r: "0 \<le> r" "r \<le> 6" using pos_mod_bound[of 7 "TF_Weekday c - w"] by (auto simp: r_def)
  have len: "28 \<le> len" "len \<le> 31"
    using MonthLengths_range[of "nat (TF_Month c - 1)" y] c by (auto simp: len_def valid_cutover_def)
  have conv: "RtlTimeFieldsToTime F = Some (ticks F)"
      "RtlTimeToTimeFields (ticks F) = Some (F\<lparr>TF_Weekday := w\<rparr>)"
    using RtlTimeFieldsToTime_eq[OF vF] fields_of_ticks[OF vF] ticks_bounds(2)[OF vF] y by (simp_all add: F w_def)
  have first: "(if w \<noteq> TF_Weekday c then
        F\<lparr>TF_Day := s16 (TF_Day F + (if w < TF_Weekday c then s16 (TF_Weekday c - w)
                                     else s16 (7 - (w - TF_Weekday c))))\<rparr> else F) = F\<lparr>TF_Day := 1 + r\<rparr>"
  proof (cases "w = TF_Weekday c")
    case True
    then show ?thesis by (simp add: r_def F F_def cutover_first_def)
  next
    case False
    have "(if w < TF_Weekday c then s16 (TF_Weekday c - w) else s16 (7 - (w - TF_Weekday c))) = r"
      using weekday_step[OF w wd] False w wd unfolding r_def by (auto simp: s16_range split: if_splits)
    then show ?thesis using False r by (simp add: F s16_range)
  qed
  have weeks: "(if TF_Day c > 1 then F\<lparr>TF_Day := s16 (1 + r +
        (if 1 + r + s16 (7 * (TF_Day c - 1)) > len then s16 (s16 (7 * (TF_Day c - 1)) - 7)
         else s16 (7 * (TF_Day c - 1))))\<rparr> else F\<lparr>TF_Day := 1 + r\<rparr>)
      = F\<lparr>TF_Day := cutover_day len w (TF_Weekday c) (TF_Day c)\<rparr>"
    using n r len by (auto simp: cutover_day_def Let_def s16_range r_def[symmetric])
  have last: "cutover_fields c y = F\<lparr>TF_Day := cutover_day len w (TF_Weekday c) (TF_Day c)\<rparr>"
    by (simp add: cutover_fields_def F_def w_def len_def Let_def)
  have "RtlTimeFieldsToTime (cutover_fields c y) = Some (ticks (cutover_fields c y))"
    using RtlTimeFieldsToTime_eq[OF cutover_fields_valid[OF c y(1)]] ticks_bounds(2)[OF cutover_fields_valid[OF c y(1)]]
      y by (simp add: last F)
  then show ?thesis
    using first weeks
    unfolding cutover_in_year_def Let_def F_def[symmetric] conv Option.bind.simps last
    by (simp add: F len_def[symmetric] cong: if_cong)
qed

lemma cutover_fields_simps:
  "TF_Year (cutover_fields c y) = y" "TF_Month (cutover_fields c y) = TF_Month c"
  "TF_Hour (cutover_fields c y) = TF_Hour c" "TF_Minute (cutover_fields c y) = TF_Minute c"
  "TF_Second (cutover_fields c y) = TF_Second c" "TF_Milliseconds (cutover_fields c y) = TF_Milliseconds c"
  by (simp_all add: cutover_fields_def cutover_first_def Let_def)

lemma cutover_fields_day:
  "TF_Day (cutover_fields c y) = cutover_day (MonthLengths (IsLeapYear y) ! nat (TF_Month c - 1))
     ((1 + day_number (cutover_first c y)) mod 7) (TF_Weekday c) (TF_Day c)"
  by (simp add: cutover_fields_def Let_def)

text \<open>The cutover of a year falls on the weekday and in the week that were asked for.\<close>

lemma cutover_fields_spec:
  assumes c: "valid_cutover c" and y: "1601 \<le> y"
  shows "(1 + day_number (cutover_fields c y)) mod 7 = TF_Weekday c"
    and "TF_Day c < 5 \<Longrightarrow> (TF_Day (cutover_fields c y) - 1) div 7 = TF_Day c - 1"
    and "TF_Day c = 5 \<Longrightarrow> MonthLengths (IsLeapYear y) ! nat (TF_Month c - 1) < TF_Day (cutover_fields c y) + 7"
proof -
  let ?F = "cutover_first c y" and ?C = "cutover_fields c y"
  let ?w = "(1 + day_number ?F) mod 7"
  have "nat (TF_Month c - 1) < 12" using c by (auto simp: valid_cutover_def)
  note len = MonthLengths_range[OF this, of y]
  have n: "1 \<le> TF_Day c" "TF_Day c \<le> 5" and wd: "0 \<le> TF_Weekday c" "TF_Weekday c < 7"
    using c by (auto simp: valid_cutover_def)
  note cd = cutover_day_bounds[OF len n, of ?w "TF_Weekday c", folded cutover_fields_day]
  show "TF_Day c < 5 \<Longrightarrow> (TF_Day ?C - 1) div 7 = TF_Day c - 1" by (rule cd(3))
  show "TF_Day c = 5 \<Longrightarrow> MonthLengths (IsLeapYear y) ! nat (TF_Month c - 1) < TF_Day ?C + 7" by (rule cd(4))
  have "day_number ?C = day_number ?F + TF_Day ?C - 1"
    by (simp add: day_number_def cutover_fields_simps) (simp add: cutover_first_def)
  then have "(1 + day_number ?C) mod 7 = (day_number ?F + TF_Day ?C) mod 7" by simp
  also have "\<dots> = (day_number ?F + (1 + TF_Weekday c - ?w)) mod 7"
    by (subst mod_add_right_eq[symmetric], subst cd(5)) (simp only: mod_add_right_eq)
  also have "\<dots> = TF_Weekday c mod 7" by (simp add: mod_simps algebra_simps)
  finally show "(1 + day_number ?C) mod 7 = TF_Weekday c" using wd by simp
qed

lemma ticks_year_order:
  assumes "valid_fields f" "valid_fields g" "TF_Year f < TF_Year g"
  shows "ticks f + 10000 \<le> ticks g"
proof -
  have y: "1 \<le> TF_Year f" using assms(1) by (simp add: valid_fields_def)
  have "day_number f + 1 \<le> DaysSinceEpoch (TF_Year f + 1)"
    using day_in_year(2)[OF assms(1)] DaysSinceEpoch_Suc[OF y] by (simp add: day_number_def)
  also have "\<dots> \<le> DaysSinceEpoch (TF_Year g)"
    using DaysSinceEpoch_add(1)[of "TF_Year f + 1" "nat (TF_Year g - (TF_Year f + 1))"] y assms(3) by simp
  also have "\<dots> \<le> day_number g" using day_in_year(1)[OF assms(2)] by (simp add: day_number_def)
  finally show ?thesis
    using second_of_day_bounds[OF assms(1)] second_of_day_bounds[OF assms(2)] assms(1,2)
    by (auto simp: ticks_def valid_fields_def)
qed

section \<open>Properties\<close>

text \<open>
  C30. Every set of calendar fields that is valid and whose tick fits in 63 bits survives
  the conversion to a system time and back; only the weekday is recomputed, and it is the
  weekday of that day, 1 January 1601 being a Monday.
\<close>

theorem TimeFields_roundtrip:
  assumes "valid_fields f" "ticks f < 2 ^ 63"
  shows "\<exists>t. RtlTimeFieldsToTime f = Some t
           \<and> RtlTimeToTimeFields t = Some (f\<lparr>TF_Weekday := (1 + day_number f) mod 7\<rparr>)"
  using RtlTimeFieldsToTime_eq[of f] fields_of_ticks[of f] assms by simp

definition sample_date :: TIME_FIELDS where
  "sample_date = \<lparr>TF_Year = 2000, TF_Month = 2, TF_Day = 29, TF_Hour = 23, TF_Minute = 59, TF_Second = 58,
     TF_Milliseconds = 999, TF_Weekday = 0\<rparr>"

lemmas time_eval = valid_fields_def ticks_def day_number_def second_of_day_def month_start_def
  DaysSinceEpoch_eq IsLeapYear_def MonthLengths_def

theorem TimeFields_roundtrip_witness:
  "\<exists>t. RtlTimeFieldsToTime sample_date = Some t \<and> RtlTimeToTimeFields t = Some (sample_date\<lparr>TF_Weekday := 2\<rparr>)"
proof -
  have "valid_fields sample_date" "ticks sample_date < 2 ^ 63" "(1 + day_number sample_date) mod 7 = 2"
    by (simp_all add: sample_date_def time_eval)
  then show ?thesis using TimeFields_roundtrip[of sample_date] by simp
qed

text \<open>
  C31. Every system time that is not negative is converted to valid fields, and these
  fields convert back to the same time, rounded down to the millisecond.
\<close>

theorem Time_roundtrip:
  assumes "0 \<le> t" "t < 2 ^ 63"
  shows "\<exists>f. RtlTimeToTimeFields t = Some f \<and> valid_fields f \<and> RtlTimeFieldsToTime f = Some (t - t mod 10000)"
proof -
  have t: "0 \<le> t" "t < 9223372036854775808" using assms by simp_all
  have "t - t mod 10000 < 9223372036854775808"
    using t(2) pos_mod_sign[of 10000 t] by linarith
  with fields_of_time[OF t] RtlTimeFieldsToTime_eq show ?thesis by fastforce
qed

theorem Time_roundtrip_witness:
  "\<exists>f. RtlTimeToTimeFields 125963423999991234 = Some f \<and> valid_fields f
     \<and> RtlTimeFieldsToTime f = Some 125963423999990000"
  using Time_roundtrip[of 125963423999991234] by simp

text \<open>
  C32. A recurring cutover is found for every current time up to the year 30826: the time
  returned falls in the month, on the weekday and at the time of day asked for, in the
  n-th week of the month (the last one for n = 5), in the current year or, unless only
  this year was asked for, the next one, and is then not earlier than the current time. The next
  year is taken only if the cutover of this year is past.
\<close>

theorem RtlCutoverTimeToSystemTime_recurring:
  assumes "valid_cutover c" "TF_Year c = 0" "0 \<le> now" "now < 2 ^ 63"
    and "RtlTimeToTimeFields now = Some g" "TF_Year g \<le> 30826"
  shows "\<exists>t f. RtlCutoverTimeToSystemTime c now only = Some t \<and> RtlTimeToTimeFields t = Some f
    \<and> TF_Weekday f = TF_Weekday c \<and> TF_Month f = TF_Month c \<and> TF_Hour f = TF_Hour c
    \<and> TF_Minute f = TF_Minute c \<and> TF_Second f = TF_Second c \<and> TF_Milliseconds f = TF_Milliseconds c
    \<and> (if TF_Day c < 5 then (TF_Day f - 1) div 7 = TF_Day c - 1
       else MonthLengths (IsLeapYear (TF_Year f)) ! nat (TF_Month f - 1) < TF_Day f + 7)
    \<and> (if only then TF_Year f = TF_Year g else TF_Year f \<in> {TF_Year g, TF_Year g + 1} \<and> now \<le> t)
    \<and> (TF_Year f = TF_Year g \<or> (\<exists>t0 < now. RtlCutoverTimeToSystemTime c now True = Some t0))"
proof -
  let ?y = "TF_Year g"
  have now: "0 \<le> now" "now < 9223372036854775808" using assms by simp_all
  have g: "valid_fields g" "ticks g = now - now mod 10000" using fields_of_time[OF now] assms(5) by auto
  then have y: "1601 \<le> ?y" "1601 \<le> ?y + 1" by (simp_all add: valid_fields_def)
  have n: "1 \<le> TF_Day c" "TF_Day c \<le> 5" using assms(1) by (auto simp: valid_cutover_def)
  have found: "cutover_in_year c ?y = Some (ticks (cutover_fields c ?y))"
      "cutover_in_year c (s16 (?y + 1)) = Some (ticks (cutover_fields c (?y + 1)))"
    using cutover_in_year_eq[OF assms(1) y(1)] cutover_in_year_eq[OF assms(1) y(2)] assms(6) y
    by (simp_all add: s16_small)
  have next_year: "now \<le> ticks (cutover_fields c (?y + 1))"
    using ticks_year_order[OF g(1) cutover_fields_valid[OF assms(1) y(2)]] g(2) pos_mod_bound[of 10000 now]
    by (simp add: cutover_fields_simps)
  obtain y' where y': "RtlCutoverTimeToSystemTime c now only = Some (ticks (cutover_fields c y'))"
      "if only then y' = ?y else y' \<in> {?y, ?y + 1} \<and> now \<le> ticks (cutover_fields c y')"
      "y' = ?y \<or> (\<exists>t0 < now. RtlCutoverTimeToSystemTime c now True = Some t0)"
  proof (cases "only \<or> now \<le> ticks (cutover_fields c ?y)")
    case True
    then show ?thesis using that[of ?y] assms(2,5) n by (auto simp: RtlCutoverTimeToSystemTime_def found)
  next
    case False
    then show ?thesis
      using that[of "?y + 1"] assms(2,5) n next_year by (auto simp: RtlCutoverTimeToSystemTime_def found)
  qed
  then have le: "1601 \<le> y'" "y' \<le> 30827" using y assms(6) by (auto split: if_splits)
  note v = cutover_fields_valid[OF assms(1) le(1)]
  have "RtlTimeToTimeFields (ticks (cutover_fields c y')) = Some ((cutover_fields c y')\<lparr>TF_Weekday := TF_Weekday c\<rparr>)"
    using fields_of_ticks[OF v] ticks_bounds(2)[OF v] le(2) cutover_fields_spec(1)[OF assms(1) le(1)]
    by (simp add: cutover_fields_simps)
  with y' cutover_fields_spec(2,3)[OF assms(1) le(1)] n show ?thesis
    by (intro exI[of _ "ticks (cutover_fields c y')"] exI[of _ "(cutover_fields c y')\<lparr>TF_Weekday := TF_Weekday c\<rparr>"])
      (auto simp: cutover_fields_simps)
qed

definition sample_cutover :: TIME_FIELDS where
  "sample_cutover = \<lparr>TF_Year = 0, TF_Month = 10, TF_Day = 5, TF_Hour = 3, TF_Minute = 0, TF_Second = 0,
     TF_Milliseconds = 0, TF_Weekday = 0\<rparr>"

theorem RtlCutoverTimeToSystemTime_recurring_witness:
  "\<exists>t f. RtlCutoverTimeToSystemTime sample_cutover (ticks sample_date) False = Some t
     \<and> RtlTimeToTimeFields t = Some f \<and> TF_Weekday f = 0 \<and> TF_Month f = 10 \<and> ticks sample_date \<le> t"
proof -
  have v: "valid_fields sample_date" "ticks sample_date < 9223372036854775808" "0 \<le> ticks sample_date"
    by (simp_all add: sample_date_def time_eval)
  have c: "valid_cutover sample_cutover" "TF_Year sample_cutover = 0"
    by (simp_all add: sample_cutover_def valid_cutover_def)
  have "TF_Year (sample_date\<lparr>TF_Weekday := (1 + day_number sample_date) mod 7\<rparr>) \<le> 30826"
    by (simp add: sample_date_def)
  with RtlCutoverTimeToSystemTime_recurring[OF c v(3) _ fields_of_ticks[OF v(1,2)], of False] v(2)
  obtain t f where "RtlCutoverTimeToSystemTime sample_cutover (ticks sample_date) False = Some t"
      "RtlTimeToTimeFields t = Some f" "TF_Weekday f = TF_Weekday sample_cutover"
      "TF_Month f = TF_Month sample_cutover" "ticks sample_date \<le> t"
    by auto
  then show ?thesis by (simp add: sample_cutover_def)
qed

text \<open>
  A 32-bit number of seconds since 1970 (or since 1980) is converted to a system time
  and back without loss.
\<close>

theorem SecondsSince_roundtrip:
  assumes "0 \<le> s" "s < 2 ^ 32"
  shows "RtlTimeToSecondsSince1970 (RtlSecondsSince1970ToTime s) = Some s
    \<and> RtlTimeToSecondsSince1980 (RtlSecondsSince1980ToTime s) = Some s"
proof -
  have s: "s < 4294967296" using assms by simp
  have "s64 (s * 10000000 + 116444736000000000) = s * 10000000 + 116444736000000000"
      "s64 (s * 10000000 + 119600064000000000) = s * 10000000 + 119600064000000000"
      "s64 (s * 10000000) = s * 10000000"
    using assms(1) s by (simp_all add: s64_small)
  then show ?thesis
    using assms(1) s
    by (simp add: RtlTimeToSecondsSince1970_def RtlSecondsSince1970ToTime_def
        RtlTimeToSecondsSince1980_def RtlSecondsSince1980ToTime_def Let_def c_div_nonneg)
qed

theorem SecondsSince_roundtrip_witness:
  "RtlTimeToSecondsSince1970 (RtlSecondsSince1970ToTime 4294967295) = Some 4294967295"
  using SecondsSince_roundtrip[of 4294967295] by simp

text \<open>
  The range of years is not checked from above: a date after the year 30828 is
  accepted and its tick wraps around to a negative time.
\<close>

theorem RtlTimeFieldsToTime_wraps:
  "\<exists>f. valid_fields f \<and> TF_Year f \<le> 32767 \<and> (\<exists>t < 0. RtlTimeFieldsToTime f = Some t)"
proof -
  let ?f = "sample_date\<lparr>TF_Year := 30832\<rparr>"
  have v: "valid_fields ?f" by (simp add: sample_date_def time_eval)
  moreover have "DaysSinceEpoch 30832 = 10676403" by (simp add: DaysSinceEpoch_eq)
  then have "day_number ?f = 10676462"
    by (simp add: sample_date_def day_number_def month_start_def MonthLengths_def IsLeapYear_def)
  moreover from this have "s64 (ticks ?f) = - 9222280041719561616"
    by (simp add: ticks_def second_of_day_def s64_def) (simp add: sample_date_def)
  ultimately show ?thesis
    using RtlTimeFieldsToTime_s64[of ?f] by (intro exI[of _ ?f]) (simp add: sample_date_def)
qed

end
