(* ===== verification/Rtl_RangeList.thy ===== *)
theory Rtl_RangeList
  imports NT_Prelude
begin

text \<open>
  Range lists (\<open>sdk/lib/rtl/rangelist.c\<close>) on a 32-bit system. A list is the list of its entries;
  start and end of a range are 64-bit numbers. Whether an allocation succeeds is an argument. A
  function that reads an entry it has freed has no defined result: it returns \<^const>\<open>None\<close>.
\<close>

section \<open>Data\<close>

record RTL_RANGE =
  rg_Start :: nat
  rg_End :: nat
  rg_UserData :: nat
  rg_Owner :: nat
  rg_Attributes :: nat
  rg_Flags :: nat

record RTL_RANGE_LIST =
  rl_Entries :: "RTL_RANGE list"
  rl_Flags :: nat
  rl_Count :: nat
  rl_Stamp :: nat

text \<open>The current entry of an iterator is a position in the list, if the list was not empty.\<close>

record RTL_RANGE_LIST_ITERATOR =
  it_Current :: "nat option"
  it_Stamp :: nat

datatype NTSTATUS = STATUS_SUCCESS | STATUS_INVALID_PARAMETER | STATUS_INSUFFICIENT_RESOURCES | STATUS_RANGE_NOT_FOUND | STATUS_NO_MORE_ENTRIES

definition u64_add :: "nat \<Rightarrow> nat \<Rightarrow> nat" where
  "u64_add a b = (a + b) mod 18446744073709551616"

definition u64_sub :: "nat \<Rightarrow> nat \<Rightarrow> nat" where
  "u64_sub a b = (a + (18446744073709551616 - b mod 18446744073709551616)) mod 18446744073709551616"

abbreviation (input) "MAXULONGLONG \<equiv> (18446744073709551615 :: nat)"

text \<open>The macro \<open>ROUND_DOWN\<close> casts to \<open>ULONG_PTR\<close>, which has 32 bits.\<close>

definition ROUND_DOWN :: "nat \<Rightarrow> nat \<Rightarrow> nat" where
  "ROUND_DOWN n align = unat ((of_nat n :: 32 word) AND NOT (of_nat align - 1))"

section \<open>Operations\<close>

definition RtlInitializeRangeList :: "RTL_RANGE_LIST \<Rightarrow> RTL_RANGE_LIST" where
  "RtlInitializeRangeList RangeList = \<lparr>rl_Entries = [], rl_Flags = 0, rl_Count = 0, rl_Stamp = 0\<rparr>"

definition RtlFreeRangeList :: "RTL_RANGE_LIST \<Rightarrow> RTL_RANGE_LIST" where
  "RtlFreeRangeList RangeList = RangeList\<lparr>rl_Entries := [], rl_Flags := 0, rl_Count := 0\<rparr>"

fun insert_range :: "RTL_RANGE \<Rightarrow> RTL_RANGE list \<Rightarrow> RTL_RANGE list" where
  "insert_range r [] = [r]"
| "insert_range r (c # cs) = (if rg_Start c > rg_End r then r # c # cs else c # insert_range r cs)"

definition RtlAddRange ::
  "bool \<Rightarrow> nat \<Rightarrow> nat \<Rightarrow> nat \<Rightarrow> nat \<Rightarrow> nat \<Rightarrow> nat \<Rightarrow> RTL_RANGE_LIST \<Rightarrow> NTSTATUS \<times> RTL_RANGE_LIST" where
  "RtlAddRange allocated Start End Attributes Flags UserData Owner RangeList =
     (if Start > End then (STATUS_INVALID_PARAMETER, RangeList)
      else if \<not> allocated then (STATUS_INSUFFICIENT_RESOURCES, RangeList)
      else
        let r = \<lparr>rg_Start = Start, rg_End = End, rg_UserData = UserData, rg_Owner = Owner, rg_Attributes = Attributes,
                 rg_Flags = (if bit Flags 1 then 1 else 0)\<rparr>;
            es = (if rl_Count RangeList = 0 then rl_Entries RangeList @ [r] else insert_range r (rl_Entries RangeList))
        in (STATUS_SUCCESS, RangeList\<lparr>rl_Entries := es, rl_Count := u32_add (rl_Count RangeList) 1, rl_Stamp := u32_add (rl_Stamp RangeList) 1\<rparr>))"

fun copy_entries :: "(nat \<Rightarrow> bool) \<Rightarrow> nat \<Rightarrow> RTL_RANGE list \<Rightarrow> RTL_RANGE_LIST \<Rightarrow> NTSTATUS \<times> RTL_RANGE_LIST" where
  "copy_entries allocated k [] CopyRangeList = (STATUS_SUCCESS, CopyRangeList\<lparr>rl_Stamp := u32_add (rl_Stamp CopyRangeList) 1\<rparr>)"
| "copy_entries allocated k (c # cs) CopyRangeList =
     (if \<not> allocated k then (STATUS_INSUFFICIENT_RESOURCES, CopyRangeList)
      else copy_entries allocated (k + 1) cs
             (CopyRangeList\<lparr>rl_Entries := rl_Entries CopyRangeList @ [c], rl_Count := u32_add (rl_Count CopyRangeList) 1\<rparr>))"

definition RtlCopyRangeList :: "(nat \<Rightarrow> bool) \<Rightarrow> RTL_RANGE_LIST \<Rightarrow> RTL_RANGE_LIST \<Rightarrow> NTSTATUS \<times> RTL_RANGE_LIST" where
  "RtlCopyRangeList allocated CopyRangeList RangeList =
     copy_entries allocated 0 (rl_Entries RangeList) (CopyRangeList\<lparr>rl_Flags := rl_Flags RangeList\<rparr>)"

text \<open>The loop goes on to the next entry through the entry it has just freed.\<close>

definition RtlDeleteOwnersRanges :: "nat \<Rightarrow> RTL_RANGE_LIST \<Rightarrow> (NTSTATUS \<times> RTL_RANGE_LIST) option" where
  "RtlDeleteOwnersRanges Owner RangeList =
     (if \<exists>r \<in> set (rl_Entries RangeList). rg_Owner r = Owner then None else Some (STATUS_SUCCESS, RangeList))"

fun delete_first :: "(RTL_RANGE \<Rightarrow> bool) \<Rightarrow> RTL_RANGE list \<Rightarrow> RTL_RANGE list option" where
  "delete_first P [] = None"
| "delete_first P (c # cs) = (if P c then Some cs else map_option ((#) c) (delete_first P cs))"

definition RtlDeleteRange :: "nat \<Rightarrow> nat \<Rightarrow> nat \<Rightarrow> RTL_RANGE_LIST \<Rightarrow> NTSTATUS \<times> RTL_RANGE_LIST" where
  "RtlDeleteRange Start End Owner RangeList =
     (case delete_first (\<lambda>c. rg_Start c = Start \<and> rg_End c = End \<and> rg_Owner c = Owner) (rl_Entries RangeList) of
        None \<Rightarrow> (STATUS_RANGE_NOT_FOUND, RangeList)
      | Some es \<Rightarrow> (STATUS_SUCCESS, RangeList\<lparr>rl_Entries := es, rl_Count := u32_sub (rl_Count RangeList) 1, rl_Stamp := u32_add (rl_Stamp RangeList) 1\<rparr>))"

text \<open>One place below \<open>RangeMax\<close>: the search gives up, or it has a candidate.\<close>

definition range_below :: "nat \<Rightarrow> nat \<Rightarrow> nat \<Rightarrow> nat \<Rightarrow> nat option" where
  "range_below Minimum Length Alignment RangeMax =
     (let l = u32_sub Length 1 in
      if u64_add RangeMax l < Minimum then None
      else
        let RangeMin = ROUND_DOWN (u64_sub RangeMax l) Alignment in
        if RangeMin < Minimum \<or> u64_sub RangeMax RangeMin < l then None else Some RangeMin)"

text \<open>The loop runs from the last entry to the first; \<open>cs\<close> are the entries still to come, in that order.\<close>

fun find_range :: "nat \<Rightarrow> nat \<Rightarrow> nat \<Rightarrow> nat \<Rightarrow> RTL_RANGE list \<Rightarrow> nat option" where
  "find_range Minimum Length Alignment RangeMax [] = range_below Minimum Length Alignment RangeMax"
| "find_range Minimum Length Alignment RangeMax (c # cs) =
     (case range_below Minimum Length Alignment RangeMax of
        None \<Rightarrow> None
      | Some RangeMin \<Rightarrow>
          if RangeMin > rg_End c then Some RangeMin
          else find_range Minimum Length Alignment (u64_sub (rg_Start c) 1) cs)"

definition RtlFindRange :: "nat \<Rightarrow> nat \<Rightarrow> nat \<Rightarrow> nat \<Rightarrow> RTL_RANGE_LIST \<Rightarrow> NTSTATUS + nat" where
  "RtlFindRange Minimum Maximum Length Alignment RangeList =
     (if Alignment = 0 \<or> Length = 0 then Inl STATUS_INVALID_PARAMETER
      else if rl_Entries RangeList = [] then Inr (ROUND_DOWN (u64_sub Maximum (u32_sub Length 1)) Alignment)
      else case find_range Minimum Length Alignment Maximum (rev (rl_Entries RangeList)) of
          None \<Rightarrow> Inl STATUS_RANGE_NOT_FOUND
        | Some s \<Rightarrow> Inr s)"

definition RtlGetFirstRange :: "RTL_RANGE_LIST \<Rightarrow> NTSTATUS \<times> RTL_RANGE_LIST_ITERATOR \<times> RTL_RANGE option" where
  "RtlGetFirstRange RangeList =
     (case rl_Entries RangeList of
        [] \<Rightarrow> (STATUS_NO_MORE_ENTRIES, \<lparr>it_Current = None, it_Stamp = rl_Stamp RangeList\<rparr>, None)
      | r # rs \<Rightarrow> (STATUS_SUCCESS, \<lparr>it_Current = Some 0, it_Stamp = rl_Stamp RangeList\<rparr>, Some r))"

text \<open>An iterator on an empty list has no current entry; following its link is an access through a null pointer.\<close>

definition RtlGetNextRange ::
  "RTL_RANGE_LIST \<Rightarrow> bool \<Rightarrow> RTL_RANGE_LIST_ITERATOR \<Rightarrow> (NTSTATUS \<times> RTL_RANGE_LIST_ITERATOR \<times> RTL_RANGE option) option" where
  "RtlGetNextRange RangeList MoveForwards Iterator =
     (if it_Stamp Iterator \<noteq> rl_Stamp RangeList then Some (STATUS_INVALID_PARAMETER, Iterator, None)
      else case it_Current Iterator of
          None \<Rightarrow> None
        | Some i \<Rightarrow>
            if MoveForwards \<and> i + 1 = length (rl_Entries RangeList) \<or> \<not> MoveForwards \<and> i = 0
            then Some (STATUS_NO_MORE_ENTRIES, Iterator, None)
            else let j = (if MoveForwards then i + 1 else i - 1)
                 in do { r \<leftarrow> peek (rl_Entries RangeList) j; Some (STATUS_SUCCESS, Iterator\<lparr>it_Current := Some j\<rparr>, Some r) })"

text \<open>The gaps before and between the ranges, and what follows the last one.\<close>

fun invert_gaps :: "(nat \<Rightarrow> bool) \<Rightarrow> nat \<Rightarrow> RTL_RANGE option \<Rightarrow> RTL_RANGE list \<Rightarrow> RTL_RANGE_LIST \<Rightarrow> NTSTATUS \<times> RTL_RANGE_LIST" where
  "invert_gaps allocated k None [] Inverted = (STATUS_SUCCESS, Inverted)"
| "invert_gaps allocated k (Some p) [] Inverted =
     (if u64_add (rg_End p) 1 \<noteq> MAXULONGLONG then RtlAddRange (allocated k) (u64_add (rg_End p) 1) MAXULONGLONG 0 0 0 0 Inverted
      else (STATUS_SUCCESS, Inverted))"
| "invert_gaps allocated k None (c # cs) Inverted =
     (if rg_Start c \<noteq> 0 then
        (case RtlAddRange (allocated k) 0 (u64_sub (rg_Start c) 1) 0 0 0 0 Inverted of
           (s, Inverted) \<Rightarrow> if s = STATUS_SUCCESS then invert_gaps allocated (k + 1) (Some c) cs Inverted else (s, Inverted))
      else invert_gaps allocated k (Some c) cs Inverted)"
| "invert_gaps allocated k (Some p) (c # cs) Inverted =
     (if u64_add (rg_End p) 1 \<noteq> rg_Start c then
        (case RtlAddRange (allocated k) (u64_add (rg_End p) 1) (u64_sub (rg_Start c) 1) 0 0 0 0 Inverted of
           (s, Inverted) \<Rightarrow> if s = STATUS_SUCCESS then invert_gaps allocated (k + 1) (Some c) cs Inverted else (s, Inverted))
      else invert_gaps allocated k (Some c) cs Inverted)"

definition RtlInvertRangeList :: "(nat \<Rightarrow> bool) \<Rightarrow> RTL_RANGE_LIST \<Rightarrow> RTL_RANGE_LIST \<Rightarrow> NTSTATUS \<times> RTL_RANGE_LIST" where
  "RtlInvertRangeList allocated Inverted RangeList = invert_gaps allocated 0 None (rl_Entries RangeList) Inverted"

definition range_conflict :: "nat \<Rightarrow> nat \<Rightarrow> nat \<Rightarrow> RTL_RANGE \<Rightarrow> bool" where
  "range_conflict Start End Flags c =
     (\<not> (rg_Start c \<ge> End \<and> rg_End c > End \<or>
         rg_Start c \<le> Start \<and> rg_End c < Start \<and> (\<not> bit Flags 0 \<or> \<not> bit (rg_Flags c) 0)))"

definition RtlIsRangeAvailable :: "nat \<Rightarrow> nat \<Rightarrow> nat \<Rightarrow> (RTL_RANGE \<Rightarrow> bool) option \<Rightarrow> RTL_RANGE_LIST \<Rightarrow> bool" where
  "RtlIsRangeAvailable Start End Flags Callback RangeList =
     fold (\<lambda>c Available. if range_conflict Start End Flags c then (case Callback of None \<Rightarrow> False | Some f \<Rightarrow> f c) else Available)
       (rl_Entries RangeList) True"

fun merge_entries :: "(nat \<Rightarrow> bool) \<Rightarrow> nat \<Rightarrow> nat \<Rightarrow> RTL_RANGE list \<Rightarrow> RTL_RANGE_LIST \<Rightarrow> NTSTATUS \<times> RTL_RANGE_LIST" where
  "merge_entries allocated k Flags [] Merged = (STATUS_SUCCESS, Merged)"
| "merge_entries allocated k Flags (c # cs) Merged =
     (case RtlAddRange (allocated k) (rg_Start c) (rg_End c) (rg_Attributes c) (rg_Flags c OR Flags) (rg_UserData c) (rg_Owner c) Merged of
        (s, Merged) \<Rightarrow> if s = STATUS_SUCCESS then merge_entries allocated (k + 1) Flags cs Merged else (s, Merged))"

definition RtlMergeRangeLists ::
  "(nat \<Rightarrow> bool) \<Rightarrow> nat \<Rightarrow> RTL_RANGE_LIST \<Rightarrow> RTL_RANGE_LIST \<Rightarrow> RTL_RANGE_LIST \<Rightarrow> NTSTATUS \<times> RTL_RANGE_LIST" where
  "RtlMergeRangeLists allocated Flags Merged RangeList1 RangeList2 =
     (case RtlCopyRangeList allocated Merged RangeList1 of
        (s, Merged) \<Rightarrow>
          if s = STATUS_SUCCESS then merge_entries allocated (length (rl_Entries RangeList1)) Flags (rl_Entries RangeList2) Merged
          else (s, Merged))"

section \<open>Lists of disjoint ranges\<close>

definition ranges_ok :: "RTL_RANGE list \<Rightarrow> bool" where
  "ranges_ok es = ((\<forall>r \<in> set es. rg_Start r \<le> rg_End r \<and> rg_End r \<le> MAXULONGLONG) \<and> sorted_wrt (\<lambda>a b. rg_End a < rg_Start b) es)"

lemma ranges_ok_Cons:
  "ranges_ok (c # cs) \<longleftrightarrow> rg_Start c \<le> rg_End c \<and> rg_End c \<le> MAXULONGLONG \<and> (\<forall>d \<in> set cs. rg_End c < rg_Start d) \<and> ranges_ok cs"
  by (auto simp: ranges_ok_def)

lemma ranges_ok_Nil [simp]: "ranges_ok []"
  by (simp add: ranges_ok_def)

lemma ranges_ok_append:
  "ranges_ok (cs @ ds) \<longleftrightarrow> ranges_ok cs \<and> ranges_ok ds \<and> (\<forall>c \<in> set cs. \<forall>d \<in> set ds. rg_End c < rg_Start d)"
  by (auto simp: ranges_ok_def sorted_wrt_append)

lemma ranges_ok_last: "ranges_ok cs \<Longrightarrow> c \<in> set cs \<Longrightarrow> rg_End c \<le> rg_End (last cs)"
proof (induction cs)
  case (Cons d cs)
  then show ?case
    by (cases "cs = []") (force simp: ranges_ok_Cons ranges_ok_def dest: last_in_set)+
qed simp

lemma set_insert_range [simp]: "set (insert_range r cs) = insert r (set cs)"
  by (induction cs) auto

lemma insert_range_ok:
  assumes "ranges_ok cs" "rg_Start r \<le> rg_End r" "rg_End r \<le> MAXULONGLONG" "\<And>c. c \<in> set cs \<Longrightarrow> rg_End c < rg_Start r \<or> rg_End r < rg_Start c"
  shows "ranges_ok (insert_range r cs)"
  using assms
proof (induction cs)
  case (Cons c cs)
  then show ?case
    by (force simp: ranges_ok_Cons)
qed (simp add: ranges_ok_def)

lemma insert_range_last: "(\<And>c. c \<in> set cs \<Longrightarrow> rg_Start c \<le> rg_End r) \<Longrightarrow> insert_range r cs = cs @ [r]"
  by (induction cs) (auto simp: not_less[symmetric])

section \<open>Rounding\<close>

lemma u64_small: "a + b < 18446744073709551616 \<Longrightarrow> u64_add a b = a + b"
  "b \<le> a \<Longrightarrow> a < 18446744073709551616 \<Longrightarrow> u64_sub a b = a - b"
proof -
  show "a + b < 18446744073709551616 \<Longrightarrow> u64_add a b = a + b"
    by (simp add: u64_add_def)
  assume ab: "b \<le> a" "a < 18446744073709551616"
  then have "a + (18446744073709551616 - b) = (a - b) + 18446744073709551616"
    by simp
  then show "u64_sub a b = a - b"
    using ab unfolding u64_sub_def by (simp add: mod_less[of b] del: add_diff_assoc2)
qed

lemma unat_and_not_mask: "unat ((w :: 32 word) AND NOT (mask k)) = unat w - unat w mod 2 ^ k"
proof -
  have "w AND NOT (mask k) = push_bit k (drop_bit k w)"
    by (rule bit_eqI) (auto simp: bit_simps)
  also have "\<dots> = w - take_bit k w"
    using bits_ident[of k w] by (metis add_diff_cancel_right')
  finally have eq: "w AND NOT (mask k) = w - take_bit k w" .
  have t: "unat (take_bit k w) = unat w mod 2 ^ k"
    unfolding unsigned_take_bit_eq by (simp add: take_bit_eq_mod)
  then have "take_bit k w \<le> w"
    by (simp add: word_le_nat_alt)
  then show ?thesis
    by (simp add: eq unat_sub t)
qed

lemma ROUND_DOWN_pow2:
  assumes "n < 4294967296" "k < 32"
  shows "ROUND_DOWN n (2 ^ k) = n - n mod 2 ^ k"
proof -
  have "(of_nat (2 ^ k) - 1 :: 32 word) = mask k"
    by (simp add: mask_eq_decr_exp)
  moreover have "unat (of_nat n :: 32 word) = n"
    using assms(1) by (simp add: unsigned_of_nat take_bit_nat_eq_self)
  ultimately show ?thesis
    by (simp add: ROUND_DOWN_def unat_and_not_mask)
qed

section \<open>The search\<close>

text \<open>A place for \<open>l + 1\<close> numbers: aligned, inside the bounds, and outside of all ranges.\<close>

definition fits :: "nat \<Rightarrow> nat \<Rightarrow> nat \<Rightarrow> nat \<Rightarrow> RTL_RANGE list \<Rightarrow> nat \<Rightarrow> bool" where
  "fits Minimum Maximum l a cs s =
     (s mod a = 0 \<and> Minimum \<le> s \<and> s + l \<le> Maximum \<and> (\<forall>c \<in> set cs. rg_End c < s \<or> s + l < rg_Start c))"

text \<open>The highest place.\<close>

definition best :: "(nat \<Rightarrow> bool) \<Rightarrow> nat option \<Rightarrow> bool" where
  "best P r = (case r of None \<Rightarrow> \<forall>s. \<not> P s | Some s \<Rightarrow> P s \<and> (\<forall>s'. P s' \<longrightarrow> s' \<le> s))"

lemma aligned_below:
  assumes "s mod a = 0" "s \<le> (n :: nat)" "0 < a"
  shows "s \<le> n - n mod a"
proof -
  have "s div a * a \<le> n div a * a"
    using assms(2) by (intro mult_right_mono div_le_mono) simp_all
  then show ?thesis
    using assms(1) by (simp add: minus_mod_eq_div_mult mod_0_imp_dvd)
qed

lemma range_below_best:
  assumes "0 < Length" "Length < 4294967296" "k < 32" "RangeMax < 4294967296" "Length \<le> RangeMax + 1"
  shows "best (fits Minimum RangeMax (Length - 1) (2 ^ k) []) (range_below Minimum Length (2 ^ k) RangeMax)"
    "range_below Minimum Length (2 ^ k) RangeMax = Some m \<Longrightarrow> m + (Length - 1) \<le> RangeMax"
proof -
  define l where "l = Length - 1"
  define m0 where "m0 = RangeMax - l - (RangeMax - l) mod 2 ^ k"
  have l: "u32_sub Length 1 = l" "l \<le> RangeMax"
    using assms by (simp_all add: l_def u32_sub_small)
  have r: "u64_add RangeMax l = RangeMax + l" "u64_sub RangeMax l = RangeMax - l" "u64_sub RangeMax m0 = RangeMax - m0"
    using assms l by (simp_all add: u64_small m0_def)
  have m0: "ROUND_DOWN (RangeMax - l) (2 ^ k) = m0" "m0 mod 2 ^ k = 0" "m0 + l \<le> RangeMax"
    using assms(3,4) l(2) by (simp_all add: m0_def ROUND_DOWN_pow2 minus_mod_eq_div_mult) (simp add: add.commute le_diff_conv2 minus_mod_eq_div_mult[symmetric])
  have eq: "range_below Minimum Length (2 ^ k) RangeMax = (if m0 < Minimum then None else Some m0)"
    unfolding range_below_def l r m0(1) Let_def using m0(3) l(2) by auto
  have hi: "s \<le> m0" if "s mod 2 ^ k = 0" "s + l \<le> RangeMax" for s
    using aligned_below[OF that(1), of "RangeMax - l"] that(2) l(2) by (simp add: m0_def)
  show "best (fits Minimum RangeMax (Length - 1) (2 ^ k) []) (range_below Minimum Length (2 ^ k) RangeMax)"
  proof (cases "m0 < Minimum")
    case True
    have "\<not> fits Minimum RangeMax l (2 ^ k) [] s" for s
      using hi[of s] True by (auto simp: fits_def)
    then show ?thesis
      unfolding l_def[symmetric] eq best_def using True by simp
  next
    case False
    have "s \<le> m0" if "fits Minimum RangeMax l (2 ^ k) [] s" for s
      using hi[of s] that by (simp add: fits_def)
    moreover have "fits Minimum RangeMax l (2 ^ k) [] m0"
      using m0(2,3) False by (simp add: fits_def)
    ultimately show ?thesis
      unfolding l_def[symmetric] eq best_def using False by simp
  qed
  show "range_below Minimum Length (2 ^ k) RangeMax = Some m \<Longrightarrow> m + (Length - 1) \<le> RangeMax"
    unfolding l_def[symmetric] eq using m0(3) by (simp split: if_splits)
qed

lemma find_range_best:
  assumes "0 < Length" "Length < 4294967296" "k < 32" "RangeMax < 4294967296" "Length \<le> RangeMax + 1" "ranges_ok (rev cs)"
    "\<And>c. c \<in> set cs \<Longrightarrow> Length \<le> rg_Start c \<and> rg_Start c \<le> RangeMax + 1"
  shows "best (fits Minimum RangeMax (Length - 1) (2 ^ k) cs) (find_range Minimum Length (2 ^ k) RangeMax cs)"
  using assms(4-7)
proof (induction cs arbitrary: RangeMax)
  case Nil
  then show ?case
    using range_below_best(1)[OF assms(1-3)] by simp
next
  case (Cons c cs)
  let ?l = "Length - 1"
  note B = range_below_best(1)[OF assms(1-3) Cons.prems(1,2), of Minimum]
  have c: "Length \<le> rg_Start c" "rg_Start c \<le> RangeMax + 1" "rg_Start c \<le> rg_End c" "ranges_ok (rev cs)"
    "\<And>d. d \<in> set cs \<Longrightarrow> rg_End d < rg_Start c"
    using Cons.prems(3,4) by (auto simp: ranges_ok_append ranges_ok_Cons)
  have d: "rg_Start d \<le> rg_End d" if "d \<in> set cs" for d
    using c(4) that by (auto simp: ranges_ok_def)
  have start: "u64_sub (rg_Start c) 1 = rg_Start c - 1"
    using c(1,2) assms(1) Cons.prems(1) by (simp add: u64_small)
  have IH: "best (fits Minimum (rg_Start c - 1) ?l (2 ^ k) cs) (find_range Minimum Length (2 ^ k) (rg_Start c - 1) cs)"
  proof (rule Cons.IH)
    show "Length \<le> rg_Start e \<and> rg_Start e \<le> rg_Start c - 1 + 1" if "e \<in> set cs" for e
      using Cons.prems(4)[of e] c(5)[OF that] d[OF that] that by simp
  qed (use c assms(1) Cons.prems(1) in auto)
  show ?case
  proof (cases "range_below Minimum Length (2 ^ k) RangeMax")
    case None
    then show ?thesis
      using B by (simp add: best_def fits_def) blast
  next
    case (Some m)
    have m: "fits Minimum RangeMax ?l (2 ^ k) [] m" "\<And>s. fits Minimum RangeMax ?l (2 ^ k) [] s \<Longrightarrow> s \<le> m"
      using B Some by (simp_all add: best_def)
    show ?thesis
    proof (cases "m > rg_End c")
      case True
      have "fits Minimum RangeMax ?l (2 ^ k) (c # cs) m"
        using m(1) True c(3,5) by (force simp: fits_def)
      then show ?thesis
        using True Some m(2) by (auto simp: best_def fits_def)
    next
      case False
      have "fits Minimum RangeMax ?l (2 ^ k) (c # cs) s \<longleftrightarrow> fits Minimum (rg_Start c - 1) ?l (2 ^ k) cs s" for s
      proof
        assume f: "fits Minimum RangeMax ?l (2 ^ k) (c # cs) s"
        then have "s \<le> m"
          by (intro m(2)) (simp add: fits_def)
        then show "fits Minimum (rg_Start c - 1) ?l (2 ^ k) cs s"
          using f False by (auto simp: fits_def)
      next
        assume "fits Minimum (rg_Start c - 1) ?l (2 ^ k) cs s"
        then show "fits Minimum RangeMax ?l (2 ^ k) (c # cs) s"
          using c(1,2) assms(1) by (auto simp: fits_def)
      qed
      then show ?thesis
        using IH False Some start by (simp add: best_def)
    qed
  qed
qed

section \<open>The complement\<close>

definition covers :: "RTL_RANGE list \<Rightarrow> nat \<Rightarrow> bool" where
  "covers es n = (\<exists>r \<in> set es. rg_Start r \<le> n \<and> n \<le> rg_End r)"

lemma gap_added:
  assumes "a \<le> b" "b \<le> MAXULONGLONG" "ranges_ok (rl_Entries I)" "\<And>r. r \<in> set (rl_Entries I) \<Longrightarrow> rg_End r < a"
  obtains J where "RtlAddRange True a b x f u w I = (STATUS_SUCCESS, J)" "ranges_ok (rl_Entries J)"
    "\<And>r. r \<in> set (rl_Entries J) \<Longrightarrow> rg_End r \<le> b" "\<And>n. covers (rl_Entries J) n \<longleftrightarrow> covers (rl_Entries I) n \<or> a \<le> n \<and> n \<le> b"
proof -
  obtain J where J: "RtlAddRange True a b x f u w I = (STATUS_SUCCESS, J)"
    using assms(1) by (simp add: RtlAddRange_def Let_def)
  define r where "r = last (rl_Entries J)"
  have "rg_Start c \<le> b" if "c \<in> set (rl_Entries I)" for c
    using assms(1,3,4) that by (force simp: ranges_ok_def)
  then have es: "rl_Entries J = rl_Entries I @ [r]" "rg_Start r = a" "rg_End r = b"
    using J assms(1) unfolding r_def by (auto simp: RtlAddRange_def Let_def insert_range_last)
  show thesis
  proof (rule that[OF J])
    show "ranges_ok (rl_Entries J)"
      unfolding es(1) ranges_ok_append using assms es by (simp add: ranges_ok_Cons)
    show "rg_End e \<le> b" if "e \<in> set (rl_Entries J)" for e
      using that assms(1,4) es by fastforce
    show "covers (rl_Entries J) n \<longleftrightarrow> covers (rl_Entries I) n \<or> a \<le> n \<and> n \<le> b" for n
      using es by (auto simp: covers_def)
  qed
qed

definition next_number :: "RTL_RANGE option \<Rightarrow> nat" where
  "next_number p = (case p of None \<Rightarrow> 0 | Some r \<Rightarrow> rg_End r + 1)"

lemma invert_gaps_complement:
  assumes "ranges_ok cs" "\<And>c. c \<in> set cs \<Longrightarrow> next_number p \<le> rg_Start c" "p \<noteq> None \<or> cs \<noteq> []"
    "\<And>c. c \<in> set cs \<or> p = Some c \<Longrightarrow> rg_End c + 1 < MAXULONGLONG"
    "ranges_ok (rl_Entries I)" "\<And>r. r \<in> set (rl_Entries I) \<Longrightarrow> rg_End r < next_number p"
  shows "\<exists>J. invert_gaps (\<lambda>_. True) k p cs I = (STATUS_SUCCESS, J) \<and> ranges_ok (rl_Entries J) \<and>
           (\<forall>n \<le> MAXULONGLONG. covers (rl_Entries J) n \<longleftrightarrow> covers (rl_Entries I) n \<or> next_number p \<le> n \<and> \<not> covers cs n)"
  using assms
proof (induction cs arbitrary: k p I)
  case Nil
  then obtain r where p: "p = Some r" "u64_add (rg_End r) 1 = rg_End r + 1" "rg_End r + 1 < MAXULONGLONG"
    by (auto simp: u64_small)
  obtain J where "RtlAddRange True (rg_End r + 1) MAXULONGLONG 0 0 0 0 I = (STATUS_SUCCESS, J)" "ranges_ok (rl_Entries J)"
    "\<And>n. covers (rl_Entries J) n \<longleftrightarrow> covers (rl_Entries I) n \<or> rg_End r + 1 \<le> n \<and> n \<le> MAXULONGLONG"
    by (rule gap_added[of "rg_End r + 1" MAXULONGLONG I 0 0 0 0]) (use p Nil.prems in \<open>auto simp: next_number_def\<close>)
  then show ?case
    using p by (auto simp: next_number_def covers_def)
next
  case (Cons c cs)
  let ?a = "next_number p"
  have c: "?a \<le> rg_Start c" "rg_Start c \<le> rg_End c" "rg_End c + 1 < MAXULONGLONG" "next_number (Some c) = rg_End c + 1"
    "\<And>d. d \<in> set cs \<Longrightarrow> rg_End c + 1 \<le> rg_Start d"
    using Cons.prems(1,2,4) by (force simp: ranges_ok_Cons next_number_def)+
  have rec: "\<exists>J. invert_gaps (\<lambda>_. True) j (Some c) cs K = (STATUS_SUCCESS, J) \<and> ranges_ok (rl_Entries J) \<and>
      (\<forall>n \<le> MAXULONGLONG. covers (rl_Entries J) n \<longleftrightarrow> covers (rl_Entries I) n \<or> ?a \<le> n \<and> \<not> covers (c # cs) n)"
    if "ranges_ok (rl_Entries K)" "\<And>r. r \<in> set (rl_Entries K) \<Longrightarrow> rg_End r < rg_Start c"
      "\<And>n. covers (rl_Entries K) n \<longleftrightarrow> covers (rl_Entries I) n \<or> ?a \<le> n \<and> n < rg_Start c" for j K
  proof -
    have "\<exists>J. invert_gaps (\<lambda>_. True) j (Some c) cs K = (STATUS_SUCCESS, J) \<and> ranges_ok (rl_Entries J) \<and>
      (\<forall>n \<le> MAXULONGLONG. covers (rl_Entries J) n \<longleftrightarrow> covers (rl_Entries K) n \<or> next_number (Some c) \<le> n \<and> \<not> covers cs n)"
      by (rule Cons.IH) (use Cons.prems c that in \<open>force simp: ranges_ok_Cons\<close>)+
    moreover have "covers (rl_Entries K) n \<or> rg_End c + 1 \<le> n \<and> \<not> covers cs n \<longleftrightarrow>
        covers (rl_Entries I) n \<or> ?a \<le> n \<and> \<not> covers (c # cs) n" for n
      using that(3)[of n] c(1,2,5) by (fastforce simp: covers_def)
    ultimately show ?thesis
      unfolding c(4) by auto
  qed
  show ?case
  proof (cases "?a = rg_Start c")
    case True
    have "invert_gaps (\<lambda>_. True) k p (c # cs) I = invert_gaps (\<lambda>_. True) k (Some c) cs I"
    proof (cases p)
      case (Some q)
      then have "u64_add (rg_End q) 1 = rg_Start c"
        using Cons.prems(4)[of q] True by (simp add: next_number_def u64_small)
      then show ?thesis
        using Some by simp
    qed (use True in \<open>simp add: next_number_def\<close>)
    moreover have "\<exists>J. invert_gaps (\<lambda>_. True) k (Some c) cs I = (STATUS_SUCCESS, J) \<and> ranges_ok (rl_Entries J) \<and>
      (\<forall>n \<le> MAXULONGLONG. covers (rl_Entries J) n \<longleftrightarrow> covers (rl_Entries I) n \<or> ?a \<le> n \<and> \<not> covers (c # cs) n)"
      by (rule rec) (use Cons.prems(5,6) True in auto)
    ultimately show ?thesis
      by simp
  next
    case False
    then have lt: "?a < rg_Start c" "u64_sub (rg_Start c) 1 = rg_Start c - 1"
      using c by (simp_all add: u64_small)
    obtain K where K: "RtlAddRange True ?a (rg_Start c - 1) 0 0 0 0 I = (STATUS_SUCCESS, K)" "ranges_ok (rl_Entries K)"
      "\<And>r. r \<in> set (rl_Entries K) \<Longrightarrow> rg_End r \<le> rg_Start c - 1"
      "\<And>n. covers (rl_Entries K) n \<longleftrightarrow> covers (rl_Entries I) n \<or> ?a \<le> n \<and> n \<le> rg_Start c - 1"
      by (rule gap_added[of ?a "rg_Start c - 1" I 0 0 0 0]) (use lt c Cons.prems(5,6) in auto)
    have "invert_gaps (\<lambda>_. True) k p (c # cs) I = invert_gaps (\<lambda>_. True) (k + 1) (Some c) cs K"
    proof (cases p)
      case None
      then show ?thesis
        using lt K(1) by (simp add: next_number_def)
    next
      case (Some q)
      then have "u64_add (rg_End q) 1 = ?a"
        using Cons.prems(4)[of q] by (simp add: next_number_def u64_small)
      then show ?thesis
        using lt K(1) Some by simp
    qed
    then show ?thesis
      using rec[of K "k + 1"] K(2-4) lt(1) by fastforce
  qed
qed

section \<open>Properties\<close>

text \<open>
  C23: in a list of disjoint ranges that is not empty, \<open>RtlFindRange\<close> with a power of two as the
  alignment returns the highest aligned start of \<open>Length\<close> free numbers between \<open>Minimum\<close> and
  \<open>Maximum\<close>, and returns \<open>STATUS_RANGE_NOT_FOUND\<close> exactly when there is no such place. The numbers
  have 32 bits, \<open>Length\<close> is at most \<open>Maximum + 1\<close>, and every range leaves room for \<open>Length\<close> numbers below
  it and does not start above \<open>Maximum + 1\<close>.
\<close>

theorem RtlFindRange_highest:
  assumes "ranges_ok (rl_Entries RangeList)" "rl_Entries RangeList \<noteq> []"
    "0 < Length" "Length \<le> Maximum + 1" "Maximum < 4294967296" "Length < 4294967296" "k < 32"
    "\<forall>c \<in> set (rl_Entries RangeList). Length \<le> rg_Start c \<and> rg_Start c \<le> Maximum + 1"
  shows "case RtlFindRange Minimum Maximum Length (2 ^ k) RangeList of
      Inr s \<Rightarrow> fits Minimum Maximum (Length - 1) (2 ^ k) (rl_Entries RangeList) s \<and>
               (\<forall>s'. fits Minimum Maximum (Length - 1) (2 ^ k) (rl_Entries RangeList) s' \<longrightarrow> s' \<le> s)
    | Inl e \<Rightarrow> e = STATUS_RANGE_NOT_FOUND \<and> (\<forall>s. \<not> fits Minimum Maximum (Length - 1) (2 ^ k) (rl_Entries RangeList) s)"
proof -
  have "best (fits Minimum Maximum (Length - 1) (2 ^ k) (rev (rl_Entries RangeList)))
          (find_range Minimum Length (2 ^ k) Maximum (rev (rl_Entries RangeList)))"
    by (rule find_range_best) (use assms in auto)
  moreover have "fits Minimum Maximum (Length - 1) (2 ^ k) (rev (rl_Entries RangeList)) =
      fits Minimum Maximum (Length - 1) (2 ^ k) (rl_Entries RangeList)"
    by (simp add: fits_def fun_eq_iff)
  ultimately show ?thesis
    using assms(2,3) by (simp add: RtlFindRange_def best_def split: option.splits)
qed

definition range :: "nat \<Rightarrow> nat \<Rightarrow> RTL_RANGE" where
  "range s e = \<lparr>rg_Start = s, rg_End = e, rg_UserData = 0, rg_Owner = 0, rg_Attributes = 0, rg_Flags = 0\<rparr>"

definition ports :: RTL_RANGE_LIST where
  "ports = \<lparr>rl_Entries = [range 96 111, range 240 255], rl_Flags = 0, rl_Count = 2, rl_Stamp = 2\<rparr>"

theorem RtlFindRange_highest_witness:
  "RtlFindRange 0 255 16 (2 ^ 4) ports = Inr 224 \<and> fits 0 255 15 16 (rl_Entries ports) 224 \<and>
   (\<nexists>s. fits 0 255 15 16 (rl_Entries ports) s \<and> 224 < s)"
proof -
  have "ROUND_DOWN 240 (2 ^ 4) = 240" "ROUND_DOWN 224 (2 ^ 4) = 224"
    using ROUND_DOWN_pow2[of 240 4] ROUND_DOWN_pow2[of 224 4] by simp_all
  then have "RtlFindRange 0 255 16 (2 ^ 4) ports = Inr 224"
    by (simp add: RtlFindRange_def ports_def range_def range_below_def Let_def u64_add_def u64_sub_def u32_sub_def)
  then show ?thesis
    using RtlFindRange_highest[of ports 16 255 4 0]
    by (simp add: ports_def range_def ranges_ok_def) (metis not_less)
qed

text \<open>
  C24. In an empty list \<open>RtlFindRange\<close> does not look at \<open>Minimum\<close>: it returns the highest aligned start
  of \<open>Length\<close> numbers up to \<open>Maximum\<close>, which is below \<open>Minimum\<close> when there is no place between the two.
\<close>

theorem RtlFindRange_empty_list:
  assumes "rl_Entries RangeList = []" "0 < Length" "Length \<le> Maximum + 1" "Maximum < 4294967296" "Length < 4294967296" "k < 32"
  shows "\<exists>s. RtlFindRange Minimum Maximum Length (2 ^ k) RangeList = Inr s \<and> fits 0 Maximum (Length - 1) (2 ^ k) [] s \<and>
    (\<forall>s'. fits 0 Maximum (Length - 1) (2 ^ k) [] s' \<longrightarrow> s' \<le> s) \<and>
    ((\<forall>s'. \<not> fits Minimum Maximum (Length - 1) (2 ^ k) [] s') \<longrightarrow> s < Minimum)"
proof -
  let ?s = "ROUND_DOWN (u64_sub Maximum (u32_sub Length 1)) (2 ^ k)"
  have found: "RtlFindRange Minimum Maximum Length (2 ^ k) RangeList = Inr ?s"
    using assms(1,2) by (simp add: RtlFindRange_def)
  have "u32_sub Length 1 = Length - 1"
    using assms(2,5) by (simp add: u32_sub_small)
  then have s: "?s = Maximum - (Length - 1) - (Maximum - (Length - 1)) mod 2 ^ k"
    using assms(2-6) by (simp add: u64_small ROUND_DOWN_pow2)
  have aligned: "?s mod 2 ^ k = 0" "?s \<le> Maximum - (Length - 1)"
    unfolding s by (simp_all add: minus_mod_eq_div_mult)
  then have "fits 0 Maximum (Length - 1) (2 ^ k) [] ?s"
    using assms(2,3) by (simp add: fits_def)
  moreover have "s' \<le> ?s" if "fits 0 Maximum (Length - 1) (2 ^ k) [] s'" for s'
    unfolding s using that by (intro aligned_below) (auto simp: fits_def)
  moreover have "?s < Minimum" if "\<forall>s'. \<not> fits Minimum Maximum (Length - 1) (2 ^ k) [] s'"
    using that[rule_format, of ?s] aligned assms(2,3) by (simp add: fits_def) linarith
  ultimately show ?thesis
    using found by blast
qed

theorem RtlFindRange_empty_list_witness:
  "RtlFindRange 250 255 16 (2 ^ 4) (RtlInitializeRangeList ports) = Inr 240"
proof -
  have "\<not> fits 0 255 15 16 [] s" if "240 < s" for s
    using that by (simp add: fits_def)
  moreover have "fits 0 255 15 16 [] 240"
    by (simp add: fits_def)
  ultimately show ?thesis
    using RtlFindRange_empty_list[of "RtlInitializeRangeList ports" 16 255 4 250]
    by (simp add: RtlInitializeRangeList_def) (metis nat_less_le)
qed

text \<open>
  C25: for a list of disjoint ranges that is not empty and whose last range ends below 2^64 - 2,
  \<open>RtlInvertRangeList\<close> into an initialised list yields, when the allocations succeed, a list of
  disjoint ranges that contains exactly the 64-bit numbers the given list does not contain.
\<close>

theorem RtlInvertRangeList_complement:
  assumes "ranges_ok (rl_Entries RangeList)" "rl_Entries RangeList \<noteq> []"
    "rg_End (last (rl_Entries RangeList)) + 1 < MAXULONGLONG"
  shows "\<exists>J. RtlInvertRangeList (\<lambda>_. True) (RtlInitializeRangeList I) RangeList = (STATUS_SUCCESS, J) \<and> ranges_ok (rl_Entries J) \<and>
      (\<forall>n \<le> MAXULONGLONG. covers (rl_Entries J) n \<longleftrightarrow> \<not> covers (rl_Entries RangeList) n)"
proof -
  have top: "rg_End c + 1 < MAXULONGLONG" if "c \<in> set (rl_Entries RangeList)" for c
    using ranges_ok_last[OF assms(1) that] assms(3) by simp
  show ?thesis
    unfolding RtlInvertRangeList_def
    using invert_gaps_complement[of "rl_Entries RangeList" None "RtlInitializeRangeList I" 0] assms top
    by (simp add: next_number_def RtlInitializeRangeList_def ranges_ok_def covers_def)
qed

theorem RtlInvertRangeList_complement_witness:
  "\<exists>J. RtlInvertRangeList (\<lambda>_. True) (RtlInitializeRangeList ports) ports = (STATUS_SUCCESS, J) \<and>
       map (\<lambda>r. (rg_Start r, rg_End r)) (rl_Entries J) = [(0, 95), (112, 239), (256, MAXULONGLONG)] \<and>
       (\<forall>n \<le> MAXULONGLONG. covers (rl_Entries J) n \<longleftrightarrow> \<not> covers (rl_Entries ports) n)"
proof -
  have "map (\<lambda>r. (rg_Start r, rg_End r)) (rl_Entries (snd (RtlInvertRangeList (\<lambda>_. True) (RtlInitializeRangeList ports) ports))) =
      [(0, 95), (112, 239), (256, MAXULONGLONG)]"
    by (simp add: RtlInvertRangeList_def RtlInitializeRangeList_def RtlAddRange_def ports_def range_def Let_def u64_add_def u64_sub_def u32_add_def)
  moreover have "\<exists>J. RtlInvertRangeList (\<lambda>_. True) (RtlInitializeRangeList ports) ports = (STATUS_SUCCESS, J) \<and> ranges_ok (rl_Entries J) \<and>
      (\<forall>n \<le> MAXULONGLONG. covers (rl_Entries J) n \<longleftrightarrow> \<not> covers (rl_Entries ports) n)"
    by (rule RtlInvertRangeList_complement) (simp_all add: ports_def range_def ranges_ok_def)
  ultimately show ?thesis
    by auto
qed

end
