(* ===== verification/FsRtl_Name.thy ===== *)
theory FsRtl_Name
  imports NT_Prelude "HOL-Library.Sublist"
begin

text \<open>
  File name support of the file system run-time library, \<open>ntoskrnl/fsrtl/name.c\<close>: name
  comparison, path dissection and the wild card matcher. A \<open>UNICODE_STRING\<close> is the list of
  its characters; its \<open>Length\<close> is twice the length of the list.

  The matcher simulates a nondeterministic automaton: \<open>BackTracking\<close> and
  \<open>OldBackTracking\<close> hold the states reached by the name up to the current character.
  Their buffers live in an explicit store, two arrays of 16 entries on the stack and a pool
  allocation that replaces them when they are full. \<open>Allocate\<close> stands for
  \<open>ExAllocatePoolWithTag\<close>: the memory it returns, with whatever it contains.
\<close>

section \<open>Characters\<close>

abbreviation (input) STAR :: WCHAR where "STAR \<equiv> 42"
abbreviation (input) QMARK :: WCHAR where "QMARK \<equiv> 63"
abbreviation (input) DOS_STAR :: WCHAR where "DOS_STAR \<equiv> 60"
abbreviation (input) DOS_QM :: WCHAR where "DOS_QM \<equiv> 62"
abbreviation (input) DOS_DOT :: WCHAR where "DOS_DOT \<equiv> 34"
abbreviation (input) DOT :: WCHAR where "DOT \<equiv> 46"
abbreviation (input) BACKSLASH :: WCHAR where "BACKSLASH \<equiv> 92"

definition LegalAnsiCharacterArray :: "nat list" where
  "LegalAnsiCharacterArray =
     [0, 0, 0, 0, 0, 0, 0, 0, 0, 0, 0, 0, 0, 0, 0, 0,
      0, 0, 0, 0, 0, 0, 0, 0, 0, 0, 0, 0, 0, 0, 0, 0,
      7, 7, 8, 7, 7, 7, 7, 7, 7, 7, 8, 6, 6, 7, 7, 0,
      7, 7, 7, 7, 7, 7, 7, 7, 7, 7, 4, 6, 8, 6, 8, 8,
      7, 7, 7, 7, 7, 7, 7, 7, 7, 7, 7, 7, 7, 7, 7, 7,
      7, 7, 7, 7, 7, 7, 7, 7, 7, 7, 7, 6, 0, 6, 7, 7,
      7, 7, 7, 7, 7, 7, 7, 7, 7, 7, 7, 7, 7, 7, 7, 7,
      7, 7, 7, 7, 7, 7, 7, 7, 7, 7, 7, 7, 0, 7, 7, 7]"

definition FsRtlIsUnicodeCharacterWild :: "WCHAR \<Rightarrow> bool" where
  "FsRtlIsUnicodeCharacterWild C \<longleftrightarrow> (if C \<ge> 64 then False else LegalAnsiCharacterArray ! C AND 8 \<noteq> 0)"

section \<open>Comparing and dissecting names\<close>

text \<open>The scan from the end of the name, down to the last backslash.\<close>

fun wild_before :: "WCHAR list \<Rightarrow> bool" where
  "wild_before [] = False"
| "wild_before (c # cs) =
     (if c = BACKSLASH then False else if FsRtlIsUnicodeCharacterWild c then True else wild_before cs)"

definition FsRtlDoesNameContainWildCards :: "WCHAR list \<Rightarrow> bool" where
  "FsRtlDoesNameContainWildCards Name = wild_before (rev Name)"

text \<open>The character by character comparison of \<open>FsRtlAreNamesEqual\<close>.\<close>

fun names_equal_upto :: "(WCHAR \<Rightarrow> WCHAR) \<Rightarrow> WCHAR list \<Rightarrow> WCHAR list \<Rightarrow> bool" where
  "names_equal_upto Upcase (a # as) (b # bs) =
     (if Upcase a \<noteq> Upcase b then False else names_equal_upto Upcase as bs)"
| "names_equal_upto Upcase _ _ = True"

text \<open>
  \<open>RtlUpcase\<close> is the system upcase table that \<open>RtlUpcaseUnicodeString\<close> applies when the
  caller gives none.
\<close>

definition FsRtlAreNamesEqual ::
  "(WCHAR \<Rightarrow> WCHAR) \<Rightarrow> WCHAR list \<Rightarrow> WCHAR list \<Rightarrow> bool \<Rightarrow> (WCHAR \<Rightarrow> WCHAR) option \<Rightarrow> bool" where
  "FsRtlAreNamesEqual RtlUpcase Name1 Name2 IgnoreCase UpcaseTable =
     (if length Name1 \<noteq> length Name2 then False
      else case (IgnoreCase, UpcaseTable) of
        (True, None) \<Rightarrow> map RtlUpcase Name1 = map RtlUpcase Name2
      | (False, _) \<Rightarrow> Name1 = Name2
      | (True, Some Upcase) \<Rightarrow> names_equal_upto Upcase Name1 Name2)"

text \<open>The search of \<open>FsRtlDissectName\<close> for the first backslash: its position and \<open>SkipFirstSlash\<close>.\<close>

fun dissect_loop :: "WCHAR list \<Rightarrow> nat \<Rightarrow> nat \<Rightarrow> nat \<times> nat" where
  "dissect_loop [] i SkipFirstSlash = (i, SkipFirstSlash)"
| "dissect_loop (c # cs) i SkipFirstSlash =
     (if c = BACKSLASH then
        if i = 0 then dissect_loop cs (i + 1) 1 else (i, SkipFirstSlash)
      else dissect_loop cs (i + 1) SkipFirstSlash)"

definition FsRtlDissectName :: "WCHAR list \<Rightarrow> WCHAR list \<times> WCHAR list" where
  "FsRtlDissectName Name =
     (if Name = [] then ([], [])
      else
        let (FirstPosition, SkipFirstSlash) = dissect_loop Name 0 0;
            FirstPart = take (FirstPosition - SkipFirstSlash) (drop SkipFirstSlash Name);
            RemainingPart = (if FirstPosition < length Name then drop (FirstPosition + 1) Name else [])
        in (FirstPart, RemainingPart))"

section \<open>The wild card matcher\<close>

datatype BufferId = BackTrackingBuffer | OldBackTrackingBuffer | AllocatedBuffer

record match_env =
  me_Expression :: "WCHAR list"
  me_Name :: "WCHAR list"
  me_Fold :: "WCHAR \<Rightarrow> WCHAR"
  me_Allocate :: "nat \<Rightarrow> USHORT list option"

record match_state =
  ms_Store :: "BufferId \<Rightarrow> USHORT list"
  ms_BackTracking :: "BufferId \<times> nat"
  ms_OldBackTracking :: "BufferId \<times> nat"
  ms_BufferSize :: nat
  ms_BackTrackingPosition :: nat

text \<open>
  A step returns \<open>Some (Inr st)\<close>, or \<open>Some (Inl r)\<close> when the function leaves with result
  \<open>r\<close>, or \<^const>\<open>None\<close> when it accesses memory outside a buffer.
\<close>

type_synonym 'a step = "(bool + 'a) option"

definition read_buf :: "match_state \<Rightarrow> BufferId \<times> nat \<Rightarrow> nat \<Rightarrow> USHORT option" where
  "read_buf st p i = peek (ms_Store st (fst p)) (snd p + i)"

definition push :: "nat \<Rightarrow> match_state \<Rightarrow> match_state option" where
  "push v st =
     (let p = ms_BackTracking st
      in do {
        b \<leftarrow> poke (ms_Store st (fst p)) (snd p + ms_BackTrackingPosition st) (v mod 65536);
        Some (st\<lparr>ms_Store := (ms_Store st)(fst p := b),
                 ms_BackTrackingPosition := ms_BackTrackingPosition st + 1\<rparr>)
      })"

definition copy_into :: "USHORT list \<Rightarrow> nat \<Rightarrow> USHORT list \<Rightarrow> USHORT list option" where
  "copy_into dst off src =
     (if off + length src \<le> length dst then Some (take off dst @ src @ drop (off + length src) dst) else None)"

definition grow_buffers :: "match_env \<Rightarrow> match_state \<Rightarrow> match_state step" where
  "grow_buffers env st =
     (let Size = (2 * length (me_Expression env) + 1) * 2
      in case me_Allocate env (2 * Size) of
           None \<Rightarrow> Some (Inl False)
         | Some pool \<Rightarrow> do {
             pool \<leftarrow> copy_into pool 0 (ms_Store st BackTrackingBuffer);
             pool \<leftarrow> copy_into pool Size (ms_Store st OldBackTrackingBuffer);
             Some (Inr (st\<lparr>ms_Store := (ms_Store st)(AllocatedBuffer := pool),
                           ms_BackTracking := (AllocatedBuffer, 0),
                           ms_OldBackTracking := (AllocatedBuffer, Size),
                           ms_BufferSize := Size\<rparr>))
           })"

text \<open>The search for a dot that \<open>DOS_STAR\<close> makes, from \<open>Position\<close> to \<open>Name->Length\<close>.\<close>

function dot_from :: "WCHAR list \<Rightarrow> nat \<Rightarrow> bool option" where
  "dot_from Name Position =
     (if Position < 2 * length Name then do {
        c \<leftarrow> peek Name Position;
        if c = DOT then Some True else dot_from Name (Position + 1)
      } else Some False)"
  by pat_completeness auto
termination
  by (relation "measure (\<lambda>(n, p). 2 * length n - p)") auto

declare dot_from.simps [simp del]

text \<open>
  The body of the expression loop, at \<open>ExpressionPosition\<close> (in bytes); the boolean of its
  result says whether the loop continues.
\<close>

definition expr_step :: "match_env \<Rightarrow> nat \<Rightarrow> nat \<Rightarrow> match_state \<Rightarrow> (bool \<times> match_state) step" where
  "expr_step env NamePosition ExpressionPosition st =
     (let EndOfName = (NamePosition \<ge> length (me_Name env));
          NameChar = (if EndOfName then 0 else me_Name env ! NamePosition);
          CompareChar = (if EndOfName then 0 else me_Fold env NameChar);
          stop = map_option (\<lambda>st. Inr (False, st));
          go = map_option (\<lambda>st. Inr (True, st))
      in do {
        e \<leftarrow> peek (me_Expression env) (ExpressionPosition div 2);
        if e = CompareChar \<and> \<not> EndOfName then
          stop (push ((ExpressionPosition + 2) * 2) st)
        else if e = QMARK \<and> \<not> EndOfName then
          stop (push ((ExpressionPosition + 2) * 2) st)
        else if e = STAR then
          go (do {
            st \<leftarrow> push (ExpressionPosition * 2) st;
            push (ExpressionPosition * 2 + 3) st
          })
        else if e = DOS_STAR then
          go (do {
            DontSkipDot \<leftarrow>
              (if \<not> EndOfName \<and> NameChar = DOT
               then map_option Not (dot_from (me_Name env) ((NamePosition + 65535) mod 65536))
               else Some True);
            st \<leftarrow> (if EndOfName \<or> NameChar \<noteq> DOT \<or> \<not> DontSkipDot then push (ExpressionPosition * 2) st else Some st);
            push (ExpressionPosition * 2 + 3) st
          })
        else if e = DOS_DOT then
          if EndOfName then Some (Inr (True, st))
          else if NameChar = DOT then stop (push ((ExpressionPosition + 2) * 2) st)
          else Some (Inr (False, st))
        else if e = DOS_QM then
          if EndOfName \<or> NameChar = DOT then Some (Inr (True, st))
          else stop (push ((ExpressionPosition + 2) * 2) st)
        else Some (Inr (False, st))
      })"

function expr_loop :: "match_env \<Rightarrow> nat \<Rightarrow> nat \<Rightarrow> match_state \<Rightarrow> match_state step" where
  "expr_loop env NamePosition ExpressionPosition st =
     (if ExpressionPosition = 2 * length (me_Expression env) then
        map_option Inr (push (2 * length (me_Expression env) * 2) st)
      else if ExpressionPosition > 2 * length (me_Expression env) then None
      else
        case (if ms_BackTrackingPosition st > ms_BufferSize st - 2 then grow_buffers env st else Some (Inr st)) of
          None \<Rightarrow> None
        | Some (Inl r) \<Rightarrow> Some (Inl r)
        | Some (Inr st) \<Rightarrow>
            (case expr_step env NamePosition ExpressionPosition st of
               None \<Rightarrow> None
             | Some (Inl r) \<Rightarrow> Some (Inl r)
             | Some (Inr (continue, st)) \<Rightarrow>
                 if continue then expr_loop env NamePosition (ExpressionPosition + 2) st else Some (Inr st)))"
  by pat_completeness auto
termination
  by (relation "measure (\<lambda>(env, n, p, st). 2 * length (me_Expression env) - p)") auto

declare expr_loop.simps [simp del]

text \<open>The two nested loops that skip old states below a new one.\<close>

partial_function (option) skip_while :: "match_state \<Rightarrow> nat \<Rightarrow> USHORT \<Rightarrow> nat \<Rightarrow> nat option" where
  "skip_while st MatchingChars v Old =
     (if MatchingChars > Old then do {
        o' \<leftarrow> read_buf st (ms_OldBackTracking st) Old;
        if v > o' then skip_while st MatchingChars v (Old + 1) else Some Old
      } else Some Old)"

partial_function (option) skip_for :: "match_state \<Rightarrow> nat \<Rightarrow> nat \<Rightarrow> nat \<Rightarrow> nat option" where
  "skip_for st MatchingChars Position Old =
     (if MatchingChars > Old \<and> Position < ms_BackTrackingPosition st then do {
        v \<leftarrow> read_buf st (ms_BackTracking st) Position;
        Old \<leftarrow> skip_while st MatchingChars v Old;
        skip_for st MatchingChars (Position + 1) Old
      } else Some Old)"

text \<open>The loop over the old states.\<close>

partial_function (option) states_loop ::
  "match_env \<Rightarrow> nat \<Rightarrow> nat \<Rightarrow> nat \<Rightarrow> match_state \<Rightarrow> match_state step" where
  "states_loop env NamePosition MatchingChars Old st =
     (if MatchingChars > Old then do {
        o' \<leftarrow> read_buf st (ms_OldBackTracking st) Old;
        let ExpressionPosition = (o' + 1) div 2;
        r \<leftarrow> (if ExpressionPosition < 2 * length (me_Expression env)
              then expr_loop env NamePosition ExpressionPosition st else Some (Inr st));
        case r of
          Inl b \<Rightarrow> Some (Inl b)
        | Inr st \<Rightarrow> do {
            Old \<leftarrow> skip_for st MatchingChars 0 (Old + 1);
            states_loop env NamePosition MatchingChars Old st
          }
      } else Some (Inr st))"

declare skip_while.simps [code]
declare skip_for.simps [code]
declare states_loop.simps [code]

definition swap_pointers :: "match_state \<Rightarrow> match_state" where
  "swap_pointers st =
     st\<lparr>ms_BackTracking := ms_OldBackTracking st, ms_OldBackTracking := ms_BackTracking st\<rparr>"

text \<open>The result: whether the last old state is the final one.\<close>

definition last_is_final :: "match_env \<Rightarrow> nat \<Rightarrow> match_state \<Rightarrow> bool option" where
  "last_is_final env MatchingChars st =
     (if MatchingChars > 0 then
        map_option (\<lambda>v. v = 2 * length (me_Expression env) * 2) (read_buf st (ms_OldBackTracking st) (MatchingChars - 1))
      else Some False)"

text \<open>The name parsing loop.\<close>

function name_loop :: "match_env \<Rightarrow> nat \<Rightarrow> nat \<Rightarrow> match_state \<Rightarrow> bool option" where
  "name_loop env NamePosition MatchingChars st =
     (let st = st\<lparr>ms_BackTrackingPosition := 0\<rparr>;
          EndOfName = (NamePosition \<ge> length (me_Name env))
      in do {
        final \<leftarrow> (if EndOfName then last_is_final env MatchingChars st else Some False);
        if final then Some True
        else do {
          r \<leftarrow> states_loop env NamePosition MatchingChars 0 st;
          case r of
            Inl b \<Rightarrow> Some b
          | Inr st \<Rightarrow>
              let MatchingChars = ms_BackTrackingPosition st; st = swap_pointers st
              in if EndOfName then last_is_final env MatchingChars st
                 else name_loop env (NamePosition + 1) MatchingChars st
        }
      })"
  by pat_completeness auto
termination
  by (relation "measure (\<lambda>(env, n, m, st). length (me_Name env) - n)") auto

declare name_loop.simps [simp del]

text \<open>\<open>Stack\<close> is the content of \<open>BackTrackingBuffer\<close>, which the code leaves uninitialised.\<close>

definition match_start :: "USHORT list \<Rightarrow> match_state" where
  "match_start Stack =
     \<lparr>ms_Store = (\<lambda>b. case b of BackTrackingBuffer \<Rightarrow> Stack | OldBackTrackingBuffer \<Rightarrow> replicate 16 0
                            | AllocatedBuffer \<Rightarrow> []),
      ms_BackTracking = (BackTrackingBuffer, 0), ms_OldBackTracking = (OldBackTrackingBuffer, 0),
      ms_BufferSize = 16, ms_BackTrackingPosition = 0\<rparr>"

definition FsRtlIsNameInExpressionPrivate ::
  "(nat \<Rightarrow> USHORT list option) \<Rightarrow> USHORT list \<Rightarrow> WCHAR list \<Rightarrow> WCHAR list \<Rightarrow> bool \<Rightarrow> (WCHAR \<Rightarrow> WCHAR) \<Rightarrow> bool option" where
  "FsRtlIsNameInExpressionPrivate Allocate Stack Expression Name IgnoreCase UpcaseTable =
     (if Name = [] \<or> Expression = [] then Some (Name = [] \<and> Expression = [])
      else if length Expression = 1 \<and> Expression ! 0 = STAR then Some True
      else if Expression ! 0 = STAR \<and> \<not> FsRtlDoesNameContainWildCards (tl Expression) then
        let IntExpression = tl Expression
        in if length Name < length Expression - 1 then Some False
           else
             let NamePosition = length Name - length IntExpression
             in Some (if \<not> IgnoreCase then IntExpression = drop NamePosition Name
                      else map UpcaseTable (drop NamePosition Name) = IntExpression)
      else
        name_loop \<lparr>me_Expression = Expression, me_Name = Name,
                   me_Fold = (if IgnoreCase then UpcaseTable else id), me_Allocate = Allocate\<rparr>
          0 1 (match_start Stack))"

definition FsRtlIsNameInExpression ::
  "(WCHAR \<Rightarrow> WCHAR) \<Rightarrow> (nat \<Rightarrow> USHORT list option) \<Rightarrow> USHORT list \<Rightarrow> WCHAR list \<Rightarrow> WCHAR list
    \<Rightarrow> bool \<Rightarrow> (WCHAR \<Rightarrow> WCHAR) option \<Rightarrow> bool option" where
  "FsRtlIsNameInExpression RtlUpcase Allocate Stack Expression Name IgnoreCase UpcaseTable =
     (case UpcaseTable of
        None \<Rightarrow>
          if IgnoreCase
          then FsRtlIsNameInExpressionPrivate Allocate Stack Expression (map RtlUpcase Name) False id
          else FsRtlIsNameInExpressionPrivate Allocate Stack Expression Name False id
      | Some Upcase \<Rightarrow> FsRtlIsNameInExpressionPrivate Allocate Stack Expression Name IgnoreCase Upcase)"

section \<open>What an expression means\<close>

text \<open>
  \<open>wild\<close> is the reference semantics of expressions: whether expression \<open>e\<close> matches name
  \<open>n\<close>. \<open>first\<close> says that no character of the name has been consumed: it only matters for
  \<open>DOS_STAR\<close>, which does not run over a dot that begins the name. A \<open>DOS_QM\<close> that ends
  the expression matches a dot.
\<close>

fun wild :: "(WCHAR \<Rightarrow> WCHAR) \<Rightarrow> bool \<Rightarrow> WCHAR list \<Rightarrow> WCHAR list \<Rightarrow> bool" where
  "wild up first [] n = (n = [])"
| "wild up first (c # e) [] = ((c = STAR \<or> c = DOS_STAR \<or> c = DOS_DOT \<or> c = DOS_QM) \<and> wild up first e [])"
| "wild up first (c # e) (x # n) =
     (if c = up x \<or> c = QMARK then wild up False e n
      else if c = STAR then wild up first e (x # n) \<or> wild up False (c # e) n
      else if c = DOS_STAR then
        wild up first e (x # n) \<or> (if first \<and> x = DOT then wild up False e n else wild up False (c # e) n)
      else if c = DOS_DOT then x = DOT \<and> wild up False e n
      else if c = DOS_QM then if x = DOT \<and> e \<noteq> [] then wild up first e (x # n) else wild up False e n
      else False)"

text \<open>
  \<open>pushed\<close> lists the states the expression loop pushes from position \<open>i\<close>, where the rest of
  the expression is \<open>e\<close>, on the character \<open>x\<close> or at the end of the name. State \<open>4 i\<close>
  stands before position \<open>i\<close>, state \<open>4 i + 3\<close> after a star at position \<open>i\<close>.
\<close>

fun pushed :: "(WCHAR \<Rightarrow> WCHAR) \<Rightarrow> bool \<Rightarrow> WCHAR option \<Rightarrow> nat \<Rightarrow> WCHAR list \<Rightarrow> nat list" where
  "pushed up first x i [] = [4 * i]"
| "pushed up first None i (c # e) =
     (if c = STAR \<or> c = DOS_STAR then 4 * i # (4 * i + 3) # pushed up first None (Suc i) e
      else if c = DOS_DOT \<or> c = DOS_QM then pushed up first None (Suc i) e
      else [])"
| "pushed up first (Some x) i (c # e) =
     (if c = up x \<or> c = QMARK then [4 * Suc i]
      else if c = STAR then 4 * i # (4 * i + 3) # pushed up first (Some x) (Suc i) e
      else if c = DOS_STAR then
        (if first \<and> x = DOT then [4 * i + 3] else [4 * i, 4 * i + 3]) @ pushed up first (Some x) (Suc i) e
      else if c = DOS_DOT then if x = DOT then [4 * Suc i] else []
      else if c = DOS_QM then if x = DOT then pushed up first (Some x) (Suc i) e else [4 * Suc i]
      else [])"

abbreviation plain :: "(WCHAR \<Rightarrow> WCHAR) \<Rightarrow> WCHAR \<Rightarrow> bool" where
  "plain up x \<equiv> up x \<noteq> STAR \<and> up x \<noteq> QMARK \<and> up x \<noteq> DOS_STAR \<and> up x \<noteq> DOS_DOT \<and> up x \<noteq> DOS_QM"

abbreviation state_pos :: "nat \<Rightarrow> nat" where
  "state_pos v \<equiv> Suc v div 4"

lemma state_pos_simps [simp]: "state_pos (4 * i) = i" "Suc (Suc (Suc (Suc (4 * i)))) div 4 = Suc i"
  by simp_all

lemma pushed_range:
  "v \<in> set (pushed up first x i e) \<Longrightarrow> 4 * i \<le> v \<and> v \<le> 4 * (i + length e)"
  by (induction up first x i e rule: pushed.induct) (auto split: if_splits)

lemma pushed_sorted: "sorted (pushed up first x i e)"
  by (induction up first x i e rule: pushed.induct) (auto dest: pushed_range)

lemma wild_star_skip:
  assumes "wild up f e n" "c = STAR \<or> c = DOS_STAR" "\<forall>x \<in> set n. plain up x"
  shows "wild up f (c # e) n"
  using assms by (cases n) auto

text \<open>One character: the states that are pushed match the rest of the name together.\<close>

lemma pushed_wild:
  assumes "\<forall>y \<in> set (x # n). plain up y" "e \<noteq> []"
  shows "wild up first e (x # n) \<longleftrightarrow>
         (\<exists>v \<in> set (pushed up first (Some x) i e). wild up False (drop (state_pos v - i) e) n)"
  using assms(2)
proof (induction e arbitrary: i)
  case (Cons c e)
  have n: "\<forall>y \<in> set n. plain up y" and x: "plain up x" using assms(1) by simp_all
  have rest: "(\<exists>v \<in> set (pushed up first (Some x) (Suc i) e). wild up False (drop (state_pos v - i) (c # e)) n)
      \<longleftrightarrow> (if e = [] then wild up False [] n else wild up first e (x # n))"
  proof (cases "e = []")
    case False
    have "state_pos v - i = Suc (state_pos v - Suc i)" if "v \<in> set (pushed up first (Some x) (Suc i) e)" for v
      using pushed_range[OF that] div_le_mono[of "4 * Suc i" "Suc v" 4] by simp
    then show ?thesis using Cons.IH[OF False, of "Suc i"] False by auto
  qed simp
  have skip: "wild up False e n \<Longrightarrow> wild up False (c # e) n" if "c = STAR \<or> c = DOS_STAR"
    using wild_star_skip[OF _ that n] by blast
  consider (eat) "c = up x \<or> c = QMARK" | (star) "c = STAR" | (dstar) "c = DOS_STAR" | (ddot) "c = DOS_DOT"
    | (dqm) "c = DOS_QM" | (other) "c \<noteq> up x" "c \<noteq> QMARK" "c \<noteq> STAR" "c \<noteq> DOS_STAR" "c \<noteq> DOS_DOT" "c \<noteq> DOS_QM"
    by blast
  then show ?case
  proof cases
    case eat
    then show ?thesis by auto
  next
    case star
    then show ?thesis using x rest skip by (auto simp: bex_Un split: if_splits)
  next
    case dstar
    then show ?thesis using x rest skip by (auto simp: bex_Un split: if_splits)
  next
    case ddot
    then show ?thesis using x by (cases "x = DOT") simp_all
  next
    case dqm
    then show ?thesis using x rest by (cases "x = DOT"; cases "e = []") simp_all
  next
    case other
    then show ?thesis by simp
  qed
qed simp

text \<open>The end of the name: the final state is pushed exactly when the rest of the expression matches nothing.\<close>

lemma pushed_final:
  "4 * (i + length e) \<in> set (pushed up first None i e) \<longleftrightarrow> wild up f e []"
proof (induction e arbitrary: i)
  case (Cons c e)
  have eq: "4 * (i + length (c # e)) = 4 * (Suc i + length e)" by simp
  have "4 * (Suc i + length e) \<noteq> 4 * i" "4 * (Suc i + length e) \<noteq> 4 * i + 3" by presburger+
  then show ?case unfolding eq pushed.simps wild.simps using Cons.IH[of "Suc i"]
    by (simp del: mult_Suc mult_Suc_right add_Suc add_Suc_right)
qed simp

lemma pushed_next_final:
  assumes "v \<in> set (pushed up first x i e)" "v + 1 = 4 * (i + length e)" "e \<noteq> []"
  shows "4 * (i + length e) \<in> set (pushed up first x i e)"
  using assms
proof (induction up first x i e rule: pushed.induct)
  case (2 up first i c e)
  then show ?case by (cases "e = []") (auto split: if_splits)
next
  case (3 up first x i c e)
  then show ?case by (cases "e = []") (auto split: if_splits)
qed simp

abbreviation starred :: "WCHAR \<Rightarrow> bool" where
  "starred c \<equiv> c = STAR \<or> c = DOS_STAR"

text \<open>The shapes of one step of the expression loop.\<close>

lemma pushed_cases:
  assumes "\<forall>y. x = Some y \<longrightarrow> plain up y"
  obtains (star) pre where "starred c" "set pre \<subseteq> {4 * i, 4 * i + 3}" "4 * i + 3 \<in> set pre" "length pre \<le> 2"
      "pushed up first x i (c # e) = pre @ pushed up first x (Suc i) e"
  | (skip) "\<not> starred c" "pushed up first x i (c # e) = pushed up first x (Suc i) e"
  | (eat) "\<not> starred c" "pushed up first x i (c # e) = [4 * Suc i]"
  | (fail) "\<not> starred c" "pushed up first x i (c # e) = []"
proof (cases x)
  case None
  show ?thesis
  proof (cases "starred c")
    case True
    then show ?thesis by (intro star[of "[4 * i, 4 * i + 3]"]) (auto simp: None)
  next
    case False
    then show ?thesis using skip fail by (cases "c = DOS_DOT \<or> c = DOS_QM") (simp_all add: None)
  qed
next
  case (Some y)
  then have y: "plain up y" using assms by simp
  show ?thesis
  proof (cases "starred c")
    case True
    then show ?thesis
      by (intro star[of "if c = DOS_STAR \<and> first \<and> y = DOT then [4 * i + 3] else [4 * i, 4 * i + 3]"])
        (use y in \<open>auto simp: Some\<close>)
  next
    case False
    consider "c = up y \<or> c = QMARK" | "c = DOS_DOT" "y = DOT" | "c = DOS_DOT" "y \<noteq> DOT"
      | "c = DOS_QM" "y = DOT" | "c = DOS_QM" "y \<noteq> DOT"
      | "c \<noteq> up y" "c \<noteq> QMARK" "c \<noteq> DOS_DOT" "c \<noteq> DOS_QM" by blast
    then show ?thesis
      by cases (use False y eat skip fail in \<open>simp_all add: Some\<close>)
  qed
qed

text \<open>States that were pushed after a star really follow a star.\<close>

definition good_state :: "WCHAR list \<Rightarrow> nat \<Rightarrow> bool" where
  "good_state E v \<longleftrightarrow> v \<le> 4 * length E \<and> (v mod 4 = 0 \<or> v mod 4 = 3 \<and> starred (E ! (v div 4)))"

lemma pushed_good:
  assumes "v \<in> set (pushed up first x i e)" "\<forall>y. x = Some y \<longrightarrow> plain up y"
  shows "v mod 4 = 0 \<or> v mod 4 = 3 \<and> i \<le> v div 4 \<and> v div 4 < i + length e \<and> starred (e ! (v div 4 - i))"
  using assms
proof (induction e arbitrary: i)
  case (Cons c e)
  have ih: "v mod 4 = 0 \<or> v mod 4 = 3 \<and> i \<le> v div 4 \<and> v div 4 < i + length (c # e) \<and> starred ((c # e) ! (v div 4 - i))"
    if "v \<in> set (pushed up first x (Suc i) e)"
    using Cons.IH[OF that Cons.prems(2)] by (auto simp: nth_Cons')
  show ?case
  proof (rule pushed_cases[OF Cons.prems(2), of c i first e])
    fix pre
    assume "starred c" "set pre \<subseteq> {4 * i, 4 * i + 3}"
      "pushed up first x i (c # e) = pre @ pushed up first x (Suc i) e"
    then show ?thesis using Cons.prems(1) ih by auto
  qed (use Cons.prems(1) ih in simp_all)
qed simp

text \<open>
  A state below a state that was pushed from an earlier position has nothing to add: what
  it would push has been pushed.
\<close>

lemma pushed_cover:
  assumes "v \<in> set (pushed up first x i e)" "p < v" "i \<le> state_pos p" "state_pos p < i + length e"
    and "p mod 4 = 0 \<or> p mod 4 = 3 \<and> (i \<le> p div 4 \<longrightarrow> starred (e ! (p div 4 - i)))"
    and "\<forall>y. x = Some y \<longrightarrow> plain up y"
  shows "set (pushed up first x (state_pos p) (drop (state_pos p - i) e)) \<subseteq> set (pushed up first x i e)"
  using assms
proof (induction e arbitrary: i)
  case (Cons c e)
  show ?case
  proof (cases "state_pos p = i")
    case False
    then have i: "Suc i \<le> state_pos p" using Cons.prems by simp
    then have p: "4 * i + 3 \<le> p" by simp
    have drop: "drop (state_pos p - i) (c # e) = drop (state_pos p - Suc i) e"
      using i by (simp add: drop_Cons')
    have "v \<in> set (pushed up first x (Suc i) e) \<and> set (pushed up first x (Suc i) e) \<subseteq> set (pushed up first x i (c # e))"
    proof (rule pushed_cases[OF Cons.prems(6), of c i first e])
      fix pre
      assume "set pre \<subseteq> {4 * i, 4 * i + 3}"
        "pushed up first x i (c # e) = pre @ pushed up first x (Suc i) e"
      then show ?thesis using Cons.prems(1,2) p by auto
    next
      assume "\<not> starred c" and eq: "pushed up first x i (c # e) = [4 * Suc i]"
      have "p = 4 * i + 3" using eq p Cons.prems(1,2) by simp
      then have "p mod 4 = 3" "p div 4 = i" by presburger+
      then show ?thesis using \<open>\<not> starred c\<close> Cons.prems(5) by simp
    qed (use Cons.prems(1) in simp_all)
    note rest = conjunct1[OF this] conjunct2[OF this]
    have "p mod 4 = 0 \<or> p mod 4 = 3 \<and> (Suc i \<le> p div 4 \<longrightarrow> starred (e ! (p div 4 - Suc i)))"
      using Cons.prems(5) by (auto simp: nth_Cons' split: if_splits)
    then show ?thesis
      using Cons.IH[OF rest(1) Cons.prems(2) i] Cons.prems(4,6) rest(2) unfolding drop by auto
  qed simp
qed simp

text \<open>The room a position may still need: two entries for a star, one for any other character.\<close>

definition room :: "WCHAR list \<Rightarrow> nat" where
  "room e = sum_list (map (\<lambda>c. if starred c then 2 else 1) e)"

lemma room_simps [simp]: "room [] = 0" "room (c # e) = (if starred c then 2 else 1) + room e"
  by (simp_all add: room_def)

lemma room_drop: "room (drop k e) \<le> room e"
  by (induction e arbitrary: k) (auto simp: drop_Cons' intro!: le_SucI)

lemma pushed_length:
  assumes "\<forall>y. x = Some y \<longrightarrow> plain up y"
  shows "length (pushed up first x i e) \<le> room e + 1"
proof (induction e arbitrary: i)
  case (Cons c e)
  show ?case by (rule pushed_cases[OF assms, of c i first e]) (use Cons.IH[of "Suc i"] in auto)
qed simp

lemma pushed_room:
  assumes "\<forall>v \<in> set (pushed up first x i e). v \<le> p" "i \<le> state_pos p" "state_pos p < i + length e"
    and plain: "\<forall>y. x = Some y \<longrightarrow> plain up y"
  shows "length (pushed up first x i e) + room (drop (state_pos p - i) e) \<le> room e"
  using assms(1-3)
proof (induction e arbitrary: i)
  case (Cons c e)
  have later: "Suc i \<le> state_pos p" if "4 * i + 3 \<le> p" using that div_le_mono[of "4 * i + 4" "Suc p" 4] by simp
  have drop: "drop (state_pos p - i) (c # e) = drop (state_pos p - Suc i) e" if "Suc i \<le> state_pos p"
    using that by (simp add: drop_Cons')
  have ih: "length (pushed up first x (Suc i) e) + room (drop (state_pos p - Suc i) e) \<le> room e"
    if "Suc i \<le> state_pos p" "\<forall>v \<in> set (pushed up first x (Suc i) e). v \<le> p"
    using Cons.IH[OF that(2,1)] Cons.prems(3) by simp
  show ?case
  proof (rule pushed_cases[OF plain, of c i first e])
    fix pre
    assume "starred c" "4 * i + 3 \<in> set pre" "length pre \<le> 2"
      "pushed up first x i (c # e) = pre @ pushed up first x (Suc i) e"
    moreover from this have "Suc i \<le> state_pos p" using Cons.prems(1) by (intro later) auto
    ultimately show ?thesis using ih Cons.prems(1) drop by auto
  next
    assume "\<not> starred c" and eq: "pushed up first x i (c # e) = pushed up first x (Suc i) e"
    show ?thesis
    proof (cases "pushed up first x (Suc i) e")
      case Nil
      then show ?thesis using eq room_drop[of _ "c # e"] by simp
    next
      case (Cons v vs)
      then have "4 * Suc i \<le> v" using pushed_range[of v up first x "Suc i" e] by simp
      then have "Suc i \<le> state_pos p" using Cons eq Cons.prems(1) by (intro later) auto
      then show ?thesis using ih Cons.prems(1) eq drop by simp
    qed
  next
    assume "\<not> starred c" and eq: "pushed up first x i (c # e) = [4 * Suc i]"
    then have "Suc i \<le> state_pos p" using Cons.prems(1) by (intro later) auto
    then show ?thesis using eq drop \<open>\<not> starred c\<close> room_drop[of _ e] by simp
  next
    assume "pushed up first x i (c # e) = []"
    then show ?thesis using room_drop[of _ "c # e"] by simp
  qed
qed simp

section \<open>One round over the old states\<close>

text \<open>
  \<open>run\<close> is the loop over the old states on lists: it takes the first old state, appends
  what it pushes to the new states, and drops the old states that lie below a new one.
\<close>

definition pushes :: "(WCHAR \<Rightarrow> WCHAR) \<Rightarrow> WCHAR list \<Rightarrow> bool \<Rightarrow> WCHAR option \<Rightarrow> nat \<Rightarrow> nat list" where
  "pushes up E first x q =
     (if state_pos q < length E then pushed up first x (state_pos q) (drop (state_pos q) E) else [])"

definition skip_below :: "nat list \<Rightarrow> nat list \<Rightarrow> nat list" where
  "skip_below new old = foldl (\<lambda>ps v. dropWhile (\<lambda>p. p < v) ps) old new"

lemma skip_below_suffix: "suffix (skip_below new old) old"
proof (induction new rule: rev_induct)
  case (snoc v new)
  show ?case using suffix_order.trans[OF suffix_dropWhile snoc] by (simp add: skip_below_def)
qed (simp add: skip_below_def)

lemma skip_below_length: "length (skip_below new old) \<le> length old"
  using suffix_length_le[OF skip_below_suffix] .

function run :: "(WCHAR \<Rightarrow> WCHAR) \<Rightarrow> WCHAR list \<Rightarrow> bool \<Rightarrow> WCHAR option \<Rightarrow> nat list \<Rightarrow> nat list \<Rightarrow> nat list" where
  "run up E first x [] new = new"
| "run up E first x (q # qs) new =
     run up E first x (skip_below (new @ pushes up E first x q) qs) (new @ pushes up E first x q)"
  by pat_completeness auto
termination
  by (relation "measure (\<lambda>(up, E, first, x, old, new). length old)") (auto simp: skip_below_length le_imp_less_Suc)

lemma skip_below_split:
  assumes "sorted old"
  shows "\<exists>ds. old = ds @ skip_below new old \<and> (\<forall>p \<in> set ds. \<exists>v \<in> set new. p < v)
    \<and> (\<forall>p \<in> set (skip_below new old). \<forall>v \<in> set new. v \<le> p)"
proof (induction new rule: rev_induct)
  case Nil
  then show ?case by (simp add: skip_below_def)
next
  case (snoc v new)
  then obtain ds where ds: "old = ds @ skip_below new old" "\<forall>p \<in> set ds. \<exists>v \<in> set new. p < v"
      "\<forall>p \<in> set (skip_below new old). \<forall>v \<in> set new. v \<le> p" by blast
  let ?o = "skip_below new old"
  have step: "skip_below (new @ [v]) old = dropWhile (\<lambda>p. p < v) ?o" by (simp add: skip_below_def)
  have srt: "sorted ?o" using assms ds(1) sorted_append by metis
  have "v \<le> p" if "p \<in> set (dropWhile (\<lambda>p. p < v) ?o)" for p
  proof -
    from that obtain h t where ht: "dropWhile (\<lambda>p. p < v) ?o = h # t"
      by (metis in_set_replicate list.exhaust list.set_intros replicate_0)
    then have "v \<le> h" using hd_dropWhile[of "\<lambda>p. p < v" ?o] by auto
    moreover have "sorted (h # t)" using srt ht by (metis sorted_dropWhile)
    ultimately show ?thesis using that ht by auto
  qed
  moreover have "\<forall>p \<in> set (dropWhile (\<lambda>p. p < v) ?o). p \<in> set ?o" by (meson set_dropWhileD)
  moreover have "old = (ds @ takeWhile (\<lambda>p. p < v) ?o) @ dropWhile (\<lambda>p. p < v) ?o" using ds(1) by simp
  moreover have "\<forall>p \<in> set (takeWhile (\<lambda>p. p < v) ?o). p < v" by (meson set_takeWhileD)
  ultimately show ?case unfolding step using ds(2,3)
    by (intro exI[of _ "ds @ takeWhile (\<lambda>p. p < v) ?o"]) auto
qed

lemma good_state_drop:
  assumes "good_state E p"
  shows "p mod 4 = 0 \<or> p mod 4 = 3 \<and> (i \<le> p div 4 \<longrightarrow> starred (drop i E ! (p div 4 - i)))"
proof -
  have "p div 4 < length E" if "p mod 4 = 3"
    using assms that div_mult_mod_eq[of p 4] unfolding good_state_def by linarith
  then show ?thesis using assms by (auto simp: good_state_def)
qed

lemma pushes_good:
  assumes "v \<in> set (pushes up E first x q)" "good_state E q" "\<forall>y. x = Some y \<longrightarrow> plain up y"
  shows "good_state E v \<and> q \<le> v"
proof -
  let ?i = "state_pos q"
  have i: "?i < length E" "v \<in> set (pushed up first x ?i (drop ?i E))"
    using assms(1) by (auto simp: pushes_def split: if_splits)
  have r: "4 * ?i \<le> v" "v \<le> 4 * length E" using pushed_range[OF i(2)] i(1) by auto
  have "q mod 4 = 0 \<or> q mod 4 = 3" using assms(2) by (auto simp: good_state_def)
  then have "q \<le> 4 * ?i" by presburger
  moreover have "good_state E v"
    using pushed_good[OF i(2) assms(3)] r by (auto simp: good_state_def)
  ultimately show ?thesis using r by simp
qed

lemma pushes_sorted: "sorted (pushes up E first x q)"
  by (simp add: pushes_def pushed_sorted)

text \<open>An old state that is skipped would have pushed nothing new.\<close>

lemma pushes_cover:
  assumes "v \<in> set (pushes up E first x q)" "p < v" "q \<le> p" "good_state E p" "\<forall>y. x = Some y \<longrightarrow> plain up y"
  shows "set (pushes up E first x p) \<subseteq> set (pushes up E first x q)"
proof (cases "state_pos p < length E")
  case True
  let ?i = "state_pos q"
  have i: "?i \<le> state_pos p" using assms(3) by (intro div_le_mono) simp
  have v: "v \<in> set (pushed up first x ?i (drop ?i E))"
    using assms(1) by (auto simp: pushes_def split: if_splits)
  show ?thesis
    using pushed_cover[OF v assms(2) i _ good_state_drop[OF assms(4)] assms(5)] True i
    by (simp add: pushes_def)
qed (simp add: pushes_def)

text \<open>The invariant of a round: \<open>done\<close> are the old states that have been taken or dropped.\<close>

definition run_inv :: "(WCHAR \<Rightarrow> WCHAR) \<Rightarrow> WCHAR list \<Rightarrow> bool \<Rightarrow> WCHAR option \<Rightarrow> nat set \<Rightarrow> nat list \<Rightarrow> nat list \<Rightarrow> bool" where
  "run_inv up E first x done old new \<longleftrightarrow>
     sorted old \<and> sorted new \<and> (\<forall>q \<in> set old. good_state E q) \<and> (\<forall>v \<in> set new. good_state E v)
     \<and> (\<forall>q \<in> set old. \<forall>v \<in> set new. v \<le> q) \<and> (\<forall>q \<in> set old. \<forall>d \<in> done. d \<le> q)
     \<and> set new = (\<Union>d \<in> done. set (pushes up E first x d))
     \<and> (\<forall>q \<in> set old. state_pos q < length E \<longrightarrow> length new + room (drop (state_pos q) E) \<le> room E)
     \<and> length new \<le> room E + 1"

lemma run_invD:
  assumes "run_inv up E first x done old new"
  shows "sorted old" "sorted new" "\<forall>q \<in> set old. good_state E q" "\<forall>v \<in> set new. good_state E v"
    "\<forall>q \<in> set old. \<forall>v \<in> set new. v \<le> q" "\<forall>q \<in> set old. \<forall>d \<in> done. d \<le> q"
    "set new = (\<Union>d \<in> done. set (pushes up E first x d))"
    "\<forall>q \<in> set old. state_pos q < length E \<longrightarrow> length new + room (drop (state_pos q) E) \<le> room E"
    "length new \<le> room E + 1"
  using assms unfolding run_inv_def by simp_all

lemma pushes_room:
  assumes "\<forall>v \<in> set (pushes up E first x q). v \<le> p" "q \<le> p" "state_pos p < length E"
    and "\<forall>y. x = Some y \<longrightarrow> plain up y"
  shows "length (pushes up E first x q) + room (drop (state_pos p) E) \<le> room (drop (state_pos q) E)"
proof -
  have i: "state_pos q \<le> state_pos p" using assms(2) by (intro div_le_mono) simp
  then show ?thesis
    using pushed_room[of up first x "state_pos q" "drop (state_pos q) E" p] assms by (simp add: pushes_def)
qed

lemma pushes_length:
  assumes "\<forall>y. x = Some y \<longrightarrow> plain up y" "state_pos q < length E"
  shows "length (pushes up E first x q) \<le> room (drop (state_pos q) E) + 1"
  using pushed_length[OF assms(1), of first "state_pos q" "drop (state_pos q) E"] assms(2) by (simp add: pushes_def)

lemma run_inv_step:
  assumes inv: "run_inv up E first x done (q # qs) new" and plain: "\<forall>y. x = Some y \<longrightarrow> plain up y"
  shows "\<exists>ds. qs = ds @ skip_below (new @ pushes up E first x q) qs
     \<and> run_inv up E first x (done \<union> {q} \<union> set ds) (skip_below (new @ pushes up E first x q) qs) (new @ pushes up E first x q)"
proof -
  define P where "P = pushes up E first x"
  define rest where "rest = skip_below (new @ P q) qs"
  note I = run_invD[OF inv]
  have srt: "sorted qs" and le: "\<forall>p \<in> set qs. q \<le> p" using I(1) by simp_all
  obtain ds where ds: "qs = ds @ rest" "\<forall>p \<in> set ds. \<exists>v \<in> set (new @ P q). p < v"
      "\<forall>p \<in> set rest. \<forall>v \<in> set (new @ P q). v \<le> p"
    using skip_below_split[OF srt] unfolding rest_def by blast
  have sub: "set rest \<subseteq> set qs" "set ds \<subseteq> set qs" using ds(1) by simp_all
  have good: "good_state E q" "\<forall>p \<in> set qs. good_state E p" using I(3) by simp_all
  have good': "\<forall>v \<in> set (P q). good_state E v" "\<forall>v \<in> set (P q). q \<le> v"
    unfolding P_def using pushes_good[OF _ good(1) plain] by blast+
  have new_q: "\<forall>v \<in> set new. v \<le> q" using I(5) by simp
  have cover: "set (P p) \<subseteq> set (P q)" if "p \<in> set ds" for p
  proof -
    from bspec[OF ds(2) that] obtain v where v: "v \<in> set (new @ P q)" "p < v" by (rule bexE)
    have p: "q \<le> p" "good_state E p" using that sub(2) le good(2) by blast+
    have "v \<notin> set new" using new_q v(2) p(1) by (meson leD le_less_trans order_trans)
    then have "v \<in> set (P q)" using v(1) by simp
    then show ?thesis unfolding P_def using pushes_cover[OF _ v(2) p plain] by blast
  qed
  have len: "length new + room (drop (state_pos q) E) \<le> room E" if "state_pos q < length E" using I(8) that by simp
  have "run_inv up E first x (done \<union> {q} \<union> set ds) rest (new @ P q)"
    unfolding run_inv_def P_def[symmetric]
  proof (intro conjI)
    show "sorted rest" using srt unfolding ds(1) sorted_append by blast
    have "\<forall>v \<in> set new. \<forall>w \<in> set (P q). v \<le> w" using new_q good'(2) order_trans by blast
    then show "sorted (new @ P q)" using I(2) pushes_sorted unfolding sorted_append P_def by blast
    show "\<forall>p \<in> set rest. good_state E p" using sub good(2) by blast
    show "\<forall>v \<in> set (new @ P q). good_state E v" using I(4) good'(1) by auto
    show "\<forall>p \<in> set rest. \<forall>v \<in> set (new @ P q). v \<le> p" by (rule ds(3))
    have "\<forall>d \<in> set ds. \<forall>p \<in> set rest. d \<le> p" using srt unfolding ds(1) sorted_append by blast
    moreover have "\<forall>p \<in> set rest. \<forall>d \<in> done. d \<le> p" using I(6) sub(1) by (meson list.set_intros(2) subsetD)
    moreover have "\<forall>p \<in> set rest. q \<le> p" using le sub(1) by blast
    ultimately show "\<forall>p \<in> set rest. \<forall>d \<in> done \<union> {q} \<union> set ds. d \<le> p" by blast
    have "(\<Union>d \<in> set ds. set (P d)) \<subseteq> set (P q)" using cover by blast
    then show "set (new @ P q) = (\<Union>d \<in> done \<union> {q} \<union> set ds. set (P d))"
      unfolding UN_Un set_append I(7)[folded P_def] by (simp add: Un_assoc Un_absorb2)
    show "\<forall>p \<in> set rest. state_pos p < length E \<longrightarrow> length (new @ P q) + room (drop (state_pos p) E) \<le> room E"
    proof (intro ballI impI)
      fix p assume p: "p \<in> set rest" "state_pos p < length E"
      have qp: "q \<le> p" using p(1) sub le by blast
      have "\<forall>v \<in> set (P q). v \<le> p" using ds(3) p(1) by simp
      then have "length (P q) + room (drop (state_pos p) E) \<le> room (drop (state_pos q) E)"
        unfolding P_def by (rule pushes_room[OF _ qp p(2) plain])
      moreover have "state_pos q < length E" using p(2) div_le_mono[of "Suc q" "Suc p" 4] qp by simp
      ultimately show "length (new @ P q) + room (drop (state_pos p) E) \<le> room E" using len by simp
    qed
    show "length (new @ P q) \<le> room E + 1"
    proof (cases "state_pos q < length E")
      case True
      then show ?thesis using len pushes_length[OF plain True, of first] by (simp add: P_def)
    next
      case False
      then show ?thesis using I(9) by (simp add: P_def pushes_def)
    qed
  qed
  with ds(1) show ?thesis unfolding P_def rest_def by blast
qed

lemma run_spec:
  assumes "run_inv up E first x done old new" "\<forall>y. x = Some y \<longrightarrow> plain up y"
  shows "sorted (run up E first x old new) \<and> (\<forall>v \<in> set (run up E first x old new). good_state E v)
    \<and> set (run up E first x old new) = (\<Union>d \<in> done \<union> set old. set (pushes up E first x d))
    \<and> length (run up E first x old new) \<le> room E + 1"
  using assms
proof (induction up E first x old new arbitrary: "done" rule: run.induct)
  case (1 up E first x new)
  then show ?case by (simp add: run_inv_def)
next
  case (2 up E first x q qs new)
  obtain ds where ds: "qs = ds @ skip_below (new @ pushes up E first x q) qs"
      "run_inv up E first x (done \<union> {q} \<union> set ds) (skip_below (new @ pushes up E first x q) qs) (new @ pushes up E first x q)"
    using run_inv_step[OF 2(2,3)] by blast
  have "set qs = set ds \<union> set (skip_below (new @ pushes up E first x q) qs)" using ds(1) by (metis set_append)
  then show ?case using 2(1)[OF ds(2) 2(3)] by (simp add: Un_assoc)
qed

lemma run_inv_start:
  assumes "sorted old" "\<forall>q \<in> set old. good_state E q"
  shows "run_inv up E first x {} old []"
  using assms room_drop[of _ E] by (simp add: run_inv_def)

section \<open>The loops compute the round\<close>

text \<open>
  \<open>rep\<close> relates the store to the two lists, as long as the buffers are those on the stack.
\<close>

definition rep :: "match_state \<Rightarrow> nat list \<Rightarrow> nat list \<Rightarrow> bool" where
  "rep st new old \<longleftrightarrow>
     (\<exists>b c. ms_BackTracking st = (b, 0) \<and> ms_OldBackTracking st = (c, 0) \<and> b \<noteq> c \<and> ms_BufferSize st = 16
       \<and> length (ms_Store st b) = 16 \<and> length (ms_Store st c) = 16
       \<and> ms_BackTrackingPosition st = length new \<and> length new \<le> 16 \<and> length old \<le> 16
       \<and> take (length new) (ms_Store st b) = new \<and> take (length old) (ms_Store st c) = old)"

lemma rep_push:
  assumes "rep st new old" "length new < 16" "v < 65536"
  shows "\<exists>st'. push v st = Some st' \<and> rep st' (new @ [v]) old"
proof -
  obtain b c where st: "ms_BackTracking st = (b, 0)" "ms_OldBackTracking st = (c, 0)" "b \<noteq> c" "ms_BufferSize st = 16"
      "length (ms_Store st b) = 16" "length (ms_Store st c) = 16" "ms_BackTrackingPosition st = length new"
      "length old \<le> 16" "take (length new) (ms_Store st b) = new" "take (length old) (ms_Store st c) = old"
    using assms(1) unfolding rep_def by auto
  have "push v st = Some (st\<lparr>ms_Store := (ms_Store st)(b := (ms_Store st b)[length new := v]),
      ms_BackTrackingPosition := length new + 1\<rparr>)"
    using st assms(2,3) by (simp add: push_def Let_def poke_eq)
  moreover have "take (Suc (length new)) ((ms_Store st b)[length new := v]) = new @ [v]"
    using st(5,9) assms(2) by (simp add: take_Suc_conv_app_nth)
  ultimately show ?thesis using st assms(2) unfolding rep_def by auto
qed

lemma rep_push2:
  assumes "rep st new old" "length new + 2 \<le> 16" "v < 65536" "w < 65536"
  shows "\<exists>st1 st2. push v st = Some st1 \<and> push w st1 = Some st2 \<and> rep st2 (new @ [v, w]) old"
proof -
  obtain st1 where "push v st = Some st1" "rep st1 (new @ [v]) old" using rep_push[OF assms(1)] assms by auto
  moreover obtain st2 where "push w st1 = Some st2" "rep st2 ((new @ [v]) @ [w]) old"
    using rep_push[OF calculation(2)] assms by auto
  ultimately show ?thesis by auto
qed

lemma dot_from_found:
  assumes "k < length N" "N ! k = DOT" "length N < 32768"
  shows "dot_from N ((k + 65535) mod 65536) = Some (k \<noteq> 0)"
proof (cases k)
  case 0
  then show ?thesis using assms by (simp add: dot_from.simps)
next
  case (Suc j)
  then have "(k + 65535) mod 65536 = j" using assms by simp
  moreover have "dot_from N k = Some True" using assms by (subst dot_from.simps) (simp add: peek_eq)
  ultimately show ?thesis using assms Suc by (subst dot_from.simps) (simp add: peek_eq)
qed

text \<open>One step of the expression loop.\<close>

definition name_char :: "WCHAR list \<Rightarrow> nat \<Rightarrow> WCHAR option" where
  "name_char N k = (if k < length N then Some (N ! k) else None)"

definition small_env :: "match_env \<Rightarrow> bool" where
  "small_env env \<longleftrightarrow> 4 * length (me_Expression env) < 65536 \<and> length (me_Name env) < 32768
     \<and> (\<forall>x \<in> set (me_Name env). plain (me_Fold env) x)"

lemma expr_step_rep:
  assumes env: "small_env env" and E: "drop i (me_Expression env) = c # e"
    and st: "rep st new old" "length new + room (c # e) \<le> 15"
  shows "\<exists>continue st' vs. expr_step env k (2 * i) st = Some (Inr (continue, st')) \<and> rep st' (new @ vs) old
     \<and> length vs \<le> room [c] \<and> pushed (me_Fold env) (k = 0) (name_char (me_Name env) k) i (c # e)
         = vs @ (if continue then pushed (me_Fold env) (k = 0) (name_char (me_Name env) k) (Suc i) e else [])"
proof -
  let ?E = "me_Expression env" and ?N = "me_Name env"
  have i: "i < length ?E" using E by (metis drop_all length_0_conv list.distinct(1) not_less length_Cons nat.distinct(1) length_drop)
  have c: "peek ?E i = Some c" using i E by (simp add: peek_eq nth_via_drop)
  have b: "4 * Suc i < 65536" using env i by (simp add: small_env_def)
  have one: "\<exists>st'. push v st = Some st' \<and> rep st' (new @ [v]) old" if "v < 65536" for v
    using rep_push[OF st(1)] st(2) that by (auto split: if_splits)
  have two: "\<exists>st1 st2. push v st = Some st1 \<and> push w st1 = Some st2 \<and> rep st2 (new @ [v, w]) old"
    if "v < 65536" "w < 65536" "starred c" for v w
    using rep_push2[OF st(1) _ that(1,2)] st(2) that(3) by auto
  obtain s1 where s1: "push (4 * Suc i) st = Some s1" "rep s1 (new @ [4 * Suc i]) old" using one b by blast
  have "4 * Suc i = Suc (Suc (Suc (Suc (4 * i))))" by simp
  note s1' = s1(1)[unfolded this]
  obtain s3 where s3: "push (4 * i + 3) st = Some s3" "rep s3 (new @ [4 * i + 3]) old" using one[of "4 * i + 3"] b by auto
  have pos: "2 * i div 2 = i" "(2 * i + 2) * 2 = 4 * Suc i" "2 * i * 2 = 4 * i" by simp_all
  show ?thesis
  proof (cases "starred c")
    case True
    obtain s21 s22 where s2: "push (4 * i) st = Some s21" "push (4 * i + 3) s21 = Some s22"
        "rep s22 (new @ [4 * i, 4 * i + 3]) old" using two[of "4 * i" "4 * i + 3"] b True by auto
    show ?thesis
    proof (cases "k < length ?N")
      case end': False
      then have "expr_step env k (2 * i) st = Some (Inr (True, s22))"
        using True by (elim disjE) (simp_all add: expr_step_def Let_def pos c s2)
      then show ?thesis
        using end' True s2(3) by (intro exI[of _ True] exI[of _ s22] exI[of _ "[4 * i, 4 * i + 3]"])
          (simp add: name_char_def)
    next
      case name: True
      then have x: "plain (me_Fold env) (?N ! k)" using env by (simp add: small_env_def)
      show ?thesis
      proof (cases "c = DOS_STAR \<and> k = 0 \<and> ?N ! k = DOT")
        case dot: True
        then have dot: "c = DOS_STAR" "k = 0" "?N ! 0 = DOT" by auto
        then have "expr_step env k (2 * i) st = Some (Inr (True, s3))"
          using name x env dot_from_found[of k ?N]
          by (simp add: expr_step_def Let_def pos c s3 small_env_def)
        then show ?thesis
          using dot name x s3(2) by (intro exI[of _ True] exI[of _ s3] exI[of _ "[4 * i + 3]"])
            (simp add: name_char_def)
      next
        case nodot: False
        then have "expr_step env k (2 * i) st = Some (Inr (True, s22))"
          using True name x env dot_from_found[of k ?N]
          by (elim disjE) (auto simp: expr_step_def Let_def pos c s2 small_env_def)
        then show ?thesis
          using True nodot name x s2(3) by (intro exI[of _ True] exI[of _ s22] exI[of _ "[4 * i, 4 * i + 3]"])
            (auto simp: name_char_def)
      qed
    qed
  next
    case False
    show ?thesis
    proof (cases "k < length ?N")
      case end': False
      show ?thesis
      proof (cases "c = DOS_DOT \<or> c = DOS_QM")
        case True
        then have "expr_step env k (2 * i) st = Some (Inr (True, st))"
          using end' by (elim disjE) (simp_all add: expr_step_def Let_def pos c)
        then show ?thesis using True end' st(1)
          by (intro exI[of _ True] exI[of _ st] exI[of _ "[]"]) (auto simp: name_char_def)
      next
        case other: False
        then have "expr_step env k (2 * i) st = Some (Inr (False, st))"
          using end' False by (simp add: expr_step_def Let_def pos c)
        then show ?thesis using other False end' st(1)
          by (intro exI[of _ False] exI[of _ st] exI[of _ "[]"]) (simp add: name_char_def)
      qed
    next
      case name: True
      let ?x = "?N ! k"
      have x: "plain (me_Fold env) ?x" using env name by (simp add: small_env_def)
      consider (eat) "c = me_Fold env ?x \<or> c = QMARK \<or> c = DOS_DOT \<and> ?x = DOT \<or> c = DOS_QM \<and> ?x \<noteq> DOT"
        | (skip) "c = DOS_QM" "?x = DOT"
        | (fail) "c \<noteq> me_Fold env ?x" "c \<noteq> QMARK" "c = DOS_DOT \<longrightarrow> ?x \<noteq> DOT" "c \<noteq> DOS_QM" by blast
      then show ?thesis
      proof cases
        case eat
        then have "expr_step env k (2 * i) st = Some (Inr (False, s1))"
          using name False x by (elim disjE conjE) (simp_all add: expr_step_def Let_def pos c s1 s1')
        moreover have "pushed (me_Fold env) (k = 0) (Some ?x) i (c # e) = [4 * Suc i]"
          using eat False x by (elim disjE conjE) simp_all
        ultimately show ?thesis using name False s1(2)
          by (intro exI[of _ False] exI[of _ s1] exI[of _ "[4 * Suc i]"]) (simp add: name_char_def)
      next
        case skip
        then have "expr_step env k (2 * i) st = Some (Inr (True, st))"
          using name x by (simp add: expr_step_def Let_def pos c)
        then show ?thesis using skip name x st(1)
          by (intro exI[of _ True] exI[of _ st] exI[of _ "[]"]) (simp add: name_char_def)
      next
        case fail
        then have "expr_step env k (2 * i) st = Some (Inr (False, st))"
          using name False by (simp add: expr_step_def Let_def pos c)
        then show ?thesis using fail False name st(1)
          by (intro exI[of _ False] exI[of _ st] exI[of _ "[]"]) (simp add: name_char_def)
      qed
    qed
  qed
qed

lemma expr_loop_rep:
  assumes env: "small_env env"
  shows "drop i (me_Expression env) = e \<Longrightarrow> i \<le> length (me_Expression env) \<Longrightarrow> rep st new old \<Longrightarrow> length new + room e \<le> 15
    \<Longrightarrow> \<exists>st'. expr_loop env k (2 * i) st = Some (Inr st')
          \<and> rep st' (new @ pushed (me_Fold env) (k = 0) (name_char (me_Name env) k) i e) old"
proof (induction e arbitrary: i st new)
  case Nil
  then have i: "i = length (me_Expression env)" by simp
  obtain st' where "push (4 * i) st = Some st'" "rep st' (new @ [4 * i]) old"
    using rep_push[OF Nil.prems(3), of "4 * i"] Nil.prems(4) env i by (auto simp: small_env_def)
  then show ?case using i by (subst expr_loop.simps) (auto simp: mult.commute mult.left_commute)
next
  case (Cons c e)
  obtain continue st' vs where step: "expr_step env k (2 * i) st = Some (Inr (continue, st'))" "rep st' (new @ vs) old"
      "length vs \<le> room [c]" "pushed (me_Fold env) (k = 0) (name_char (me_Name env) k) i (c # e)
         = vs @ (if continue then pushed (me_Fold env) (k = 0) (name_char (me_Name env) k) (Suc i) e else [])"
    using expr_step_rep[OF env Cons.prems(1,3,4)] by blast
  have i: "i < length (me_Expression env)" using Cons.prems(1)
    by (metis drop_all list.distinct(1) not_less)
  have e: "drop (Suc i) (me_Expression env) = e" using Cons.prems(1) by (metis drop_Suc tl_drop list.sel(3))
  have "ms_BackTrackingPosition st = length new" "ms_BufferSize st = 16" "length new \<le> 14"
    using Cons.prems(3,4) by (auto simp: rep_def split: if_splits)
  then have loop: "expr_loop env k (2 * i) st =
      (if continue then expr_loop env k (2 * Suc i) st' else Some (Inr st'))"
    using i step(1) by (subst expr_loop.simps) simp
  have "length (new @ vs) + room e \<le> 15" using step(3) Cons.prems(4) by simp
  then show ?case
    using Cons.IH[OF e _ step(2)] i step(2,4) loop by (cases continue) auto
qed

lemma rep_read:
  assumes "rep st new old"
  shows "j < length old \<Longrightarrow> read_buf st (ms_OldBackTracking st) j = Some (old ! j)"
    and "j < length new \<Longrightarrow> read_buf st (ms_BackTracking st) j = Some (new ! j)"
    and "ms_BackTrackingPosition st = length new"
proof -
  obtain b c where st: "ms_BackTracking st = (b, 0)" "ms_OldBackTracking st = (c, 0)"
      "length (ms_Store st b) = 16" "length (ms_Store st c) = 16" "ms_BackTrackingPosition st = length new"
      "length new \<le> 16" "length old \<le> 16" "take (length new) (ms_Store st b) = new" "take (length old) (ms_Store st c) = old"
    using assms unfolding rep_def by auto
  show "j < length old \<Longrightarrow> read_buf st (ms_OldBackTracking st) j = Some (old ! j)"
    using st(2,4,7) nth_take[of j "length old" "ms_Store st c"] by (simp add: st(9) read_buf_def peek_eq)
  show "j < length new \<Longrightarrow> read_buf st (ms_BackTracking st) j = Some (new ! j)"
    using st(1,3,6) nth_take[of j "length new" "ms_Store st b"] by (simp add: st(8) read_buf_def peek_eq)
  show "ms_BackTrackingPosition st = length new" by (rule st(5))
qed

lemma skip_while_eq:
  assumes "rep st new old" "n \<le> length old"
  shows "\<exists>m. skip_while st (length old) v n = Some m \<and> n \<le> m \<and> m \<le> length old
    \<and> drop m old = dropWhile (\<lambda>p. p < v) (drop n old)"
  using assms(2)
proof (induction "length old - n" arbitrary: n)
  case 0
  then show ?case by (subst skip_while.simps) simp
next
  case (Suc d)
  then have n: "n < length old" by simp
  have d: "drop n old = old ! n # drop (Suc n) old" using n by (simp add: Cons_nth_drop_Suc)
  show ?case
  proof (cases "old ! n < v")
    case True
    have "d = length old - Suc n" using Suc.hyps(2) by linarith
    then obtain m where "skip_while st (length old) v (Suc n) = Some m" "Suc n \<le> m" "m \<le> length old"
        "drop m old = dropWhile (\<lambda>p. p < v) (drop (Suc n) old)"
      using Suc.hyps(1)[of "Suc n"] n by auto
    then show ?thesis using True n
      by (subst skip_while.simps) (simp add: rep_read(1)[OF assms(1)] d)
  next
    case False
    then show ?thesis using n by (subst skip_while.simps) (simp add: rep_read(1)[OF assms(1)] d)
  qed
qed

lemma skip_for_eq:
  assumes "rep st new old" "n \<le> length old" "j \<le> length new"
  shows "\<exists>m. skip_for st (length old) j n = Some m \<and> n \<le> m \<and> m \<le> length old
    \<and> drop m old = skip_below (drop j new) (drop n old)"
  using assms(2,3)
proof (induction "length new - j" arbitrary: j n)
  case 0
  then show ?case by (subst skip_for.simps) (simp add: rep_read(3)[OF assms(1)] skip_below_def)
next
  case (Suc d)
  then have j: "j < length new" by simp
  have d: "drop j new = new ! j # drop (Suc j) new" using j by (simp add: Cons_nth_drop_Suc)
  show ?case
  proof (cases "n < length old")
    case True
    obtain m where m: "skip_while st (length old) (new ! j) n = Some m" "n \<le> m" "m \<le> length old"
        "drop m old = dropWhile (\<lambda>p. p < new ! j) (drop n old)"
      using skip_while_eq[OF assms(1) Suc.prems(1)] by blast
    have "d = length new - Suc j" using Suc.hyps(2) by linarith
    then obtain m' where "skip_for st (length old) (Suc j) m = Some m'" "m \<le> m'" "m' \<le> length old"
        "drop m' old = skip_below (drop (Suc j) new) (drop m old)"
      using Suc.hyps(1)[of "Suc j" m] m(3) j by auto
    then show ?thesis using True j m
      by (subst skip_for.simps) (simp add: rep_read[OF assms(1)] d skip_below_def)
  next
    case False
    have "skip_below vs [] = []" for vs by (induction vs) (simp_all add: skip_below_def)
    then show ?thesis using False Suc.prems(1) by (subst skip_for.simps) simp
  qed
qed

lemma states_loop_rep:
  assumes env: "small_env env" and R: "room (me_Expression env) \<le> 15"
    and plain: "\<forall>y. x = Some y \<longrightarrow> plain (me_Fold env) y" and x: "x = name_char (me_Name env) k"
  shows "run_inv (me_Fold env) (me_Expression env) (k = 0) x done qs new \<Longrightarrow> drop n old = qs \<Longrightarrow> n \<le> length old
    \<Longrightarrow> rep st new old
    \<Longrightarrow> \<exists>st'. states_loop env k (length old) n st = Some (Inr st')
         \<and> rep st' (run (me_Fold env) (me_Expression env) (k = 0) x qs new) old"
proof (induction "length qs" arbitrary: qs n st new "done" rule: less_induct)
  case less
  let ?E = "me_Expression env" and ?P = "pushes (me_Fold env) (me_Expression env) (k = 0) x"
  show ?case
  proof (cases qs)
    case Nil
    then show ?thesis using less.prems by (subst states_loop.simps) simp
  next
    case (Cons q qs')
    have n: "n < length old" "old ! n = q" "drop (Suc n) old = qs'"
      using less.prems(2) Cons
      by (metis drop_all list.distinct(1) not_less, metis nth_via_drop, metis drop_Suc list.sel(3) tl_drop)
    note inv = less.prems(1)[unfolded Cons]
    have "\<exists>st'. (if Suc q div 2 < 2 * length ?E then expr_loop env k (Suc q div 2) st else Some (Inr st))
        = Some (Inr st') \<and> rep st' (new @ ?P q) old"
    proof (cases "state_pos q < length ?E")
      case True
      have "q mod 4 = 0 \<or> q mod 4 = 3" using run_invD(3)[OF inv] by (auto simp: good_state_def)
      then have pos: "Suc q div 2 = 2 * state_pos q" by presburger
      have "length new + room (drop (state_pos q) ?E) \<le> 15" using run_invD(8)[OF inv] True R by force
      from expr_loop_rep[OF env refl _ less.prems(4) this, of k] True show ?thesis
        unfolding pos by (simp add: pushes_def x)
    next
      case False
      then have "\<not> Suc q div 2 < 2 * length ?E" by presburger
      then show ?thesis using False less.prems(4) by (simp add: pushes_def)
    qed
    then obtain st' where st': "(if Suc q div 2 < 2 * length ?E then expr_loop env k (Suc q div 2) st else Some (Inr st))
        = Some (Inr st')" "rep st' (new @ ?P q) old" by blast
    obtain m where m: "skip_for st' (length old) 0 (Suc n) = Some m" "m \<le> length old"
        "drop m old = skip_below (new @ ?P q) qs'"
      using skip_for_eq[OF st'(2), of "Suc n" 0] n by auto
    obtain ds where inv': "run_inv (me_Fold env) ?E (k = 0) x (done \<union> {q} \<union> set ds) (skip_below (new @ ?P q) qs') (new @ ?P q)"
      using run_inv_step[OF inv plain] by blast
    have "length (skip_below (new @ ?P q) qs') < length qs" using skip_below_length[of _ qs'] Cons by (simp add: le_imp_less_Suc)
    from less.hyps[OF this inv' m(3,2) st'(2)] show ?thesis
      using n st'(1) m(1) Cons rep_read(1)[OF less.prems(4) n(1)]
      by (subst states_loop.simps) (simp add: Let_def split del: if_split)
  qed
qed

section \<open>The name loop\<close>

lemma rep_swap:
  assumes "rep st new old"
  shows "rep ((swap_pointers st)\<lparr>ms_BackTrackingPosition := 0\<rparr>) [] new"
proof -
  obtain b c where "ms_BackTracking st = (b, 0)" "ms_OldBackTracking st = (c, 0)" "b \<noteq> c" "ms_BufferSize st = 16"
      "length (ms_Store st b) = 16" "length (ms_Store st c) = 16" "length new \<le> 16"
      "take (length new) (ms_Store st b) = new"
    using assms unfolding rep_def by auto
  then show ?thesis unfolding rep_def swap_pointers_def by (intro exI[of _ c] exI[of _ b]) auto
qed

lemma last_sorted_max:
  assumes "sorted xs" "\<forall>x \<in> set xs. x \<le> (B::nat)"
  shows "xs \<noteq> [] \<and> last xs = B \<longleftrightarrow> B \<in> set xs"
proof
  assume "B \<in> set xs"
  then obtain j where j: "j < length xs" "xs ! j = B" by (auto simp: in_set_conv_nth)
  then have ne: "xs \<noteq> []" by auto
  have "xs ! j \<le> xs ! (length xs - 1)" using assms(1) j(1) by (intro sorted_nth_mono) auto
  then have "B \<le> last xs" using j(2) ne by (simp add: last_conv_nth)
  moreover have "xs \<noteq> []" by (rule ne)
  moreover have "last xs \<le> B" using assms(2) last_in_set[OF \<open>xs \<noteq> []\<close>] by blast
  ultimately show "xs \<noteq> [] \<and> last xs = B" by simp
qed (auto dest: last_in_set)

lemma last_is_final_eq:
  assumes "rep (st\<lparr>ms_BackTrackingPosition := 0\<rparr>) [] old" "sorted old" "\<forall>q \<in> set old. good_state (me_Expression env) q"
  shows "last_is_final env (length old) st = Some (4 * length (me_Expression env) \<in> set old)"
proof -
  have "last_is_final env (length old) st = Some (old \<noteq> [] \<and> last old = 4 * length (me_Expression env))"
  proof (cases "old = []")
    case False
    then have "read_buf st (ms_OldBackTracking st) (length old - 1) = Some (last old)"
      using rep_read(1)[OF assms(1), of "length old - 1"] by (simp add: read_buf_def last_conv_nth)
    then show ?thesis using False by (simp add: last_is_final_def)
  qed (simp add: last_is_final_def)
  then show ?thesis using last_sorted_max[OF assms(2), of "4 * length (me_Expression env)"] assms(3)
    by (simp add: good_state_def)
qed

text \<open>A state set that holds the state after a final star holds the final state.\<close>

definition closed :: "WCHAR list \<Rightarrow> nat list \<Rightarrow> bool" where
  "closed E old \<longleftrightarrow> (\<forall>q \<in> set old. q + 1 = 4 * length E \<longrightarrow> 4 * length E \<in> set old)"

lemma run_closed:
  assumes "set new = (\<Union>d \<in> D. set (pushes up E first x d))"
  shows "closed E new"
  unfolding closed_def
proof (intro ballI impI)
  fix q assume "q \<in> set new" "q + 1 = 4 * length E"
  then obtain d where d: "d \<in> D" "q \<in> set (pushes up E first x d)" using assms by blast
  then have i: "state_pos d < length E" by (auto simp: pushes_def split: if_splits)
  then have "4 * length E \<in> set (pushes up E first x d)"
    using pushed_next_final[of q up first x "state_pos d" "drop (state_pos d) E"] d(2) \<open>q + 1 = 4 * length E\<close>
    by (simp add: pushes_def)
  then show "4 * length E \<in> set new" using d(1) assms by blast
qed

text \<open>What a round means for the match.\<close>

lemma round_char:
  assumes "\<forall>y \<in> set (x # n). plain up y" "set new = (\<Union>d \<in> set old. set (pushes up E first (Some x) d))"
  shows "(\<exists>q \<in> set old. wild up first (drop (state_pos q) E) (x # n)) \<longleftrightarrow>
         (\<exists>v \<in> set new. wild up False (drop (state_pos v) E) n)"
proof -
  have "wild up first (drop (state_pos q) E) (x # n) \<longleftrightarrow>
      (\<exists>v \<in> set (pushes up E first (Some x) q). wild up False (drop (state_pos v) E) n)" for q
  proof (cases "state_pos q < length E")
    case True
    have "drop (state_pos v - state_pos q) (drop (state_pos q) E) = drop (state_pos v) E"
      if "v \<in> set (pushed up first (Some x) (state_pos q) (drop (state_pos q) E))" for v
      using div_le_mono[of "4 * state_pos q" "Suc v" 4] pushed_range[OF that] by (simp add: le_SucI)
    then show ?thesis
      using pushed_wild[OF assms(1), of "drop (state_pos q) E" first "state_pos q"] True by (simp add: pushes_def)
  qed (simp add: pushes_def)
  then show ?thesis using assms(2) by blast
qed

lemma round_end:
  assumes "set new = (\<Union>d \<in> set old. set (pushes up E first None d))" "\<forall>q \<in> set old. state_pos q < length E"
  shows "4 * length E \<in> set new \<longleftrightarrow> (\<exists>q \<in> set old. wild up f (drop (state_pos q) E) [])"
proof -
  have "4 * length E \<in> set (pushes up E first None q) \<longleftrightarrow> wild up f (drop (state_pos q) E) []"
    if "state_pos q < length E" for q
    using pushed_final[of "state_pos q" "drop (state_pos q) E" up first f] that by (simp add: pushes_def)
  then show ?thesis using assms by auto
qed

lemma name_loop_correct:
  assumes env: "small_env env" and R: "room (me_Expression env) \<le> 15"
  shows "k \<le> length (me_Name env) \<Longrightarrow> rep (st\<lparr>ms_BackTrackingPosition := 0\<rparr>) [] old \<Longrightarrow> sorted old
    \<Longrightarrow> \<forall>q \<in> set old. good_state (me_Expression env) q \<Longrightarrow> closed (me_Expression env) old
    \<Longrightarrow> name_loop env k (length old) st =
        Some (\<exists>q \<in> set old. wild (me_Fold env) (k = 0) (drop (state_pos q) (me_Expression env)) (drop k (me_Name env)))"
proof (induction "length (me_Name env) - k" arbitrary: k st old)
  case 0
  let ?E = "me_Expression env" and ?up = "me_Fold env"
  have k: "k = length (me_Name env)" using 0 by simp
  have final: "last_is_final env (length old) (st\<lparr>ms_BackTrackingPosition := 0\<rparr>) = Some (4 * length ?E \<in> set old)"
    using last_is_final_eq[of "st\<lparr>ms_BackTrackingPosition := 0\<rparr>" old env] 0 by simp
  show ?case
  proof (cases "4 * length ?E \<in> set old")
    case True
    then have "\<exists>q \<in> set old. wild ?up (k = 0) (drop (state_pos q) ?E) []" by (intro bexI[of _ "4 * length ?E"]) simp_all
    then show ?thesis using True final k by (subst name_loop.simps) (simp add: Let_def)
  next
    case False
    have pos: "\<forall>q \<in> set old. state_pos q < length ?E"
    proof
      fix q assume q: "q \<in> set old"
      then have "q \<noteq> 4 * length ?E" "q + 1 \<noteq> 4 * length ?E" using False 0 by (auto simp: closed_def)
      then show "state_pos q < length ?E" using q 0 by (auto simp: good_state_def)
    qed
    let ?new = "run ?up ?E (k = 0) None old []"
    have inv: "run_inv ?up ?E (k = 0) None {} old []" using 0 by (intro run_inv_start) simp_all
    have nc: "None = name_char (me_Name env) k" using k by (simp add: name_char_def)
    obtain st' where st': "states_loop env k (length old) 0 (st\<lparr>ms_BackTrackingPosition := 0\<rparr>) = Some (Inr st')"
        "rep st' ?new old"
      using states_loop_rep[OF env R _ nc inv, of 0 old "st\<lparr>ms_BackTrackingPosition := 0\<rparr>"] 0 by auto
    have new: "sorted ?new" "\<forall>v \<in> set ?new. good_state ?E v" "set ?new = (\<Union>d \<in> set old. set (pushes ?up ?E (k = 0) None d))"
      using run_spec[OF inv] by simp_all
    have "last_is_final env (ms_BackTrackingPosition st') (swap_pointers st') = Some (4 * length ?E \<in> set ?new)"
      using last_is_final_eq[OF rep_swap[OF st'(2)] new(1,2)] rep_read(3)[OF st'(2)] by simp
    then show ?thesis
      using False final st'(1) k round_end[OF new(3) pos, of "k = 0"] by (subst name_loop.simps) (simp add: Let_def)
  qed
next
  case (Suc d)
  let ?E = "me_Expression env" and ?up = "me_Fold env" and ?N = "me_Name env"
  have k: "k < length ?N" using Suc.hyps(2) by linarith
  have N: "drop k ?N = ?N ! k # drop (Suc k) ?N" using k by (simp add: Cons_nth_drop_Suc)
  let ?new = "run ?up ?E (k = 0) (Some (?N ! k)) old []"
  have inv: "run_inv ?up ?E (k = 0) (Some (?N ! k)) {} old []" using Suc.prems by (intro run_inv_start) simp_all
  have nc: "Some (?N ! k) = name_char ?N k" using k by (simp add: name_char_def)
  have plain: "\<forall>y. Some (?N ! k) = Some y \<longrightarrow> plain ?up y" using env k by (simp add: small_env_def)
  obtain st' where st': "states_loop env k (length old) 0 (st\<lparr>ms_BackTrackingPosition := 0\<rparr>) = Some (Inr st')"
      "rep st' ?new old"
    using states_loop_rep[OF env R plain nc inv, of 0 old "st\<lparr>ms_BackTrackingPosition := 0\<rparr>"] Suc.prems by auto
  have new: "sorted ?new" "\<forall>v \<in> set ?new. good_state ?E v"
      "set ?new = (\<Union>d \<in> set old. set (pushes ?up ?E (k = 0) (Some (?N ! k)) d))"
    using run_spec[OF inv plain] by simp_all
  have d: "d = length ?N - Suc k" "Suc k \<le> length ?N" using Suc.hyps(2) k by linarith+
  have "\<forall>y \<in> set (?N ! k # drop (Suc k) ?N). plain ?up y"
    using env unfolding N[symmetric] small_env_def by (meson in_set_dropD)
  from round_char[OF this new(3)] Suc.hyps(1)[OF d rep_swap[OF st'(2)] new(1,2) run_closed[OF new(3)]]
  show ?case
    using k st'(1) rep_read(3)[OF st'(2)] unfolding N by (subst name_loop.simps) (simp add: Let_def)
qed

section \<open>Names, wild cards and literal expressions\<close>

lemma wild_character_set:
  "FsRtlIsUnicodeCharacterWild c \<longleftrightarrow> c = DOS_DOT \<or> c = STAR \<or> c = DOS_STAR \<or> c = DOS_QM \<or> c = QMARK"
proof (cases "c < 64")
  case True
  have "\<forall>c \<in> set [0..<64]. FsRtlIsUnicodeCharacterWild c \<longleftrightarrow> c \<in> {34, 42, 60, 62, 63}"
    by code_simp
  then show ?thesis using True by auto
qed (simp add: FsRtlIsUnicodeCharacterWild_def)

lemma wild_before_iff: "BACKSLASH \<notin> set cs \<Longrightarrow> wild_before cs \<longleftrightarrow> (\<exists>c \<in> set cs. FsRtlIsUnicodeCharacterWild c)"
  by (induction cs) auto

lemma contains_wild_cards_iff:
  "BACKSLASH \<notin> set Name \<Longrightarrow> FsRtlDoesNameContainWildCards Name \<longleftrightarrow> (\<exists>c \<in> set Name. FsRtlIsUnicodeCharacterWild c)"
  by (simp add: FsRtlDoesNameContainWildCards_def wild_before_iff)

lemma wild_literal:
  assumes "\<forall>c \<in> set e. \<not> FsRtlIsUnicodeCharacterWild c"
  shows "wild up first e n \<longleftrightarrow> map up n = e"
  using assms
proof (induction e arbitrary: n first)
  case (Cons c e)
  then show ?case by (cases n) (auto simp: wild_character_set)
qed simp

lemma wild_star_literal:
  assumes "\<forall>c \<in> set e. \<not> FsRtlIsUnicodeCharacterWild c" "\<forall>x \<in> set n. up x \<noteq> STAR"
  shows "wild up first (STAR # e) n \<longleftrightarrow> length e \<le> length n \<and> map up (drop (length n - length e) n) = e"
  using assms(2)
proof (induction n arbitrary: first)
  case Nil
  then show ?case using wild_literal[OF assms(1), of up first "[]"] by auto
next
  case (Cons x n)
  have "wild up first (STAR # e) (x # n) \<longleftrightarrow> map up (x # n) = e \<or> wild up False (STAR # e) n"
    using Cons.prems by (simp add: wild_literal[OF assms(1)])
  also have "\<dots> \<longleftrightarrow> length e \<le> length (x # n) \<and> map up (drop (length (x # n) - length e) (x # n)) = e"
  proof (cases "length e \<le> length n")
    case True
    then have "length (x # n) - length e = Suc (length n - length e)" by simp
    moreover have "map up (x # n) \<noteq> e" using True by auto
    ultimately show ?thesis using Cons True by simp
  next
    case False
    then show ?thesis using Cons by (auto dest: arg_cong[of _ _ length])
  qed
  finally show ?case .
qed

lemma room_eq: "room e = length e + length (filter (\<lambda>c. starred c) e)"
  by (induction e) auto

lemma match_start_rep:
  assumes "length Stack = 16"
  shows "rep ((match_start Stack)\<lparr>ms_BackTrackingPosition := 0\<rparr>) [] [0]"
  using assms unfolding rep_def match_start_def
  by (intro exI[of _ BackTrackingBuffer] exI[of _ OldBackTrackingBuffer]) (simp add: take_Cons' numeral_eq_Suc)

lemma matcher_correct:
  assumes "small_env env" "room (me_Expression env) \<le> 15" "length Stack = 16" "me_Expression env \<noteq> []"
  shows "name_loop env 0 1 (match_start Stack) = Some (wild (me_Fold env) True (me_Expression env) (me_Name env))"
proof -
  have "closed (me_Expression env) [0]" using assms(4) by (cases "me_Expression env") (auto simp: closed_def)
  then show ?thesis
    using name_loop_correct[OF assms(1,2), of 0 "match_start Stack" "[0]"] match_start_rep[OF assms(3)]
    by (simp add: good_state_def)
qed

section \<open>Properties\<close>

text \<open>
  C9. The wild card matcher decides the reference semantics: for an expression without a
  backslash whose length plus number of stars is at most 15, and a non-empty name without
  wild cards, it returns (without any access outside its buffers, and without allocating)
  whether the expression matches the name, whatever the stack held before.
\<close>

theorem FsRtlIsNameInExpressionPrivate_correct:
  assumes "E \<noteq> []" "N \<noteq> []" "length E + length (filter (\<lambda>c. c = STAR \<or> c = DOS_STAR) E) \<le> 15"
    and "BACKSLASH \<notin> set E" "length N < 32768" "length Stack = 16"
    and "\<forall>x \<in> set N. \<not> FsRtlIsUnicodeCharacterWild (if IgnoreCase then Upcase x else x)"
  shows "FsRtlIsNameInExpressionPrivate Allocate Stack E N IgnoreCase Upcase
         = Some (wild (if IgnoreCase then Upcase else id) True E N)"
proof -
  define up where "up = (if IgnoreCase then Upcase else id)"
  have plain: "\<forall>x \<in> set N. \<not> FsRtlIsUnicodeCharacterWild (up x)" using assms(7) by (auto simp: up_def)
  show ?thesis
  proof (cases "E ! 0 = STAR \<and> \<not> FsRtlDoesNameContainWildCards (tl E)")
    case True
    then obtain e where e: "E = STAR # e" using assms(1) by (cases E) auto
    have lit: "\<forall>c \<in> set e. \<not> FsRtlIsUnicodeCharacterWild c"
      using True assms(4) contains_wild_cards_iff[of e] by (simp add: e)
    have "\<forall>x \<in> set N. up x \<noteq> STAR" using plain by (simp add: wild_character_set)
    from wild_star_literal[OF lit this, of True] show ?thesis
      using True assms(1,2) by (auto simp: FsRtlIsNameInExpressionPrivate_def e Let_def up_def)
  next
    case False
    let ?env = "\<lparr>me_Expression = E, me_Name = N, me_Fold = up, me_Allocate = Allocate\<rparr>"
    have "length E < 16384" using assms(3) by linarith
    then have "small_env ?env" using assms(5) plain by (simp add: small_env_def wild_character_set)
    moreover have "room E \<le> 15" using assms(3) by (simp add: room_eq)
    ultimately have "name_loop ?env 0 1 (match_start Stack) = Some (wild up True E N)"
      using matcher_correct[of ?env Stack] assms(1,6) by simp
    moreover have "\<not> (length E = 1 \<and> E ! 0 = STAR)"
      using False by (cases E) (auto simp: FsRtlDoesNameContainWildCards_def)
    ultimately show ?thesis using False assms(1,2)
      unfolding FsRtlIsNameInExpressionPrivate_def up_def[symmetric] by (simp only: if_False if_not_P de_Morgan_disj simp_thms)
  qed
qed

text \<open>For example \<open>*?.c\<close> against \<open>ab.c\<close>.\<close>

theorem FsRtlIsNameInExpressionPrivate_correct_witness:
  "FsRtlIsNameInExpressionPrivate (\<lambda>_. None) (replicate 16 7) [42, 63, 46, 99] [97, 98, 46, 99] False id = Some True
   \<and> FsRtlIsNameInExpressionPrivate (\<lambda>_. None) (replicate 16 7) [42, 63, 46, 99] [97, 46, 99, 99] False id = Some False"
  using FsRtlIsNameInExpressionPrivate_correct
      [of "[42, 63, 46, 99]" "[97, 98, 46, 99]" "replicate 16 7" False id "\<lambda>_. None"]
    FsRtlIsNameInExpressionPrivate_correct
      [of "[42, 63, 46, 99]" "[97, 46, 99, 99]" "replicate 16 7" False id "\<lambda>_. None"]
  by (simp add: wild_character_set)

lemma rep_full: "rep st new old \<Longrightarrow> length new = 16 \<Longrightarrow> push v st = None"
  by (auto simp: rep_def push_def Let_def poke_def)

text \<open>A run of stars pushes two entries for each star and then the final state.\<close>

lemma expr_loop_stars:
  assumes "k < length (me_Name env)" "me_Fold env (me_Name env ! k) \<noteq> STAR" "4 * length (me_Expression env) < 65536"
  shows "drop i (me_Expression env) = replicate m STAR \<Longrightarrow> i \<le> length (me_Expression env) \<Longrightarrow> rep st new old
    \<Longrightarrow> length new + 2 * m \<le> 16
    \<Longrightarrow> \<exists>st' new'. rep st' new' old \<and> length new' = length new + 2 * m
          \<and> expr_loop env k (2 * i) st = map_option Inr (push (4 * length (me_Expression env)) st')"
proof (induction m arbitrary: i st new)
  case 0
  then show ?case by (subst expr_loop.simps) (auto simp: mult.commute mult.left_commute)
next
  case (Suc m)
  let ?E = "me_Expression env"
  have i: "i < length ?E" using Suc.prems(1) by (metis drop_all list.distinct(1) not_less replicate_Suc)
  then have c: "peek ?E i = Some STAR" using Suc.prems(1) by (simp add: peek_eq nth_via_drop)
  have e: "drop (Suc i) ?E = replicate m STAR" using Suc.prems(1) by (metis drop_Suc tl_drop list.sel(3) replicate_Suc)
  obtain st1 st2 where st2: "push (4 * i) st = Some st1" "push (4 * i + 3) st1 = Some st2" "rep st2 (new @ [4 * i, 4 * i + 3]) old"
    using rep_push2[OF Suc.prems(3), of "4 * i" "4 * i + 3"] Suc.prems(4) i assms(3) by auto
  have "expr_step env k (2 * i) st = Some (Inr (True, st2))"
    using assms(1,2) c st2 by (simp add: expr_step_def Let_def mult.commute mult.left_commute)
  moreover have "ms_BackTrackingPosition st = length new" "ms_BufferSize st = 16"
    using Suc.prems(3) by (auto simp: rep_def)
  ultimately have "expr_loop env k (2 * i) st = expr_loop env k (2 * Suc i) st2"
    using i Suc.prems(4) by (subst expr_loop.simps) simp
  then show ?case using Suc.IH[OF e _ st2(3)] i Suc.prems(4) by simp
qed

text \<open>
  C38. The bound is sharp: with eight stars against any name, the matcher fills its 16
  entries at the first character and writes the final state behind the end of the buffer
  on the stack (the test for a full buffer lets a star start with two free entries, and
  the final state needs a third one).
\<close>

theorem FsRtlIsNameInExpressionPrivate_overflow:
  assumes "N \<noteq> []" "hd N \<noteq> STAR" "length Stack = 16"
  shows "FsRtlIsNameInExpressionPrivate Allocate Stack (replicate 8 STAR) N False id = None"
proof -
  let ?E = "replicate 8 STAR"
  let ?env = "\<lparr>me_Expression = ?E, me_Name = N, me_Fold = id, me_Allocate = Allocate\<rparr>"
  let ?st = "(match_start Stack)\<lparr>ms_BackTrackingPosition := 0\<rparr>"
  note start = match_start_rep[OF assms(3)]
  obtain st' new' where "rep st' new' [0]" "length new' = 16"
      "expr_loop ?env 0 0 ?st = map_option Inr (push (4 * length ?E) st')"
    using expr_loop_stars[of 0 ?env 0 8 ?st "[]" "[0]"] start assms(1,2) by (auto simp: hd_conv_nth)
  then have loop: "expr_loop ?env 0 0 ?st = None" by (simp add: rep_full)
  have "states_loop ?env 0 1 0 ?st = None"
    using rep_read(1)[OF start, of 0] loop by (subst states_loop.simps) simp
  then have "name_loop ?env 0 1 (match_start Stack) = None"
    using assms(1) by (subst name_loop.simps) simp
  moreover have "FsRtlDoesNameContainWildCards (tl ?E)"
    by (simp add: FsRtlDoesNameContainWildCards_def wild_character_set numeral_eq_Suc)
  ultimately show ?thesis using assms(1) by (simp add: FsRtlIsNameInExpressionPrivate_def id_def)
qed

theorem FsRtlIsNameInExpressionPrivate_overflow_witness:
  "FsRtlIsNameInExpressionPrivate (\<lambda>_. None) (replicate 16 0) (replicate 8 STAR) [97] False id = None"
  using FsRtlIsNameInExpressionPrivate_overflow[of "[97]" "replicate 16 0"] by simp

lemma dissect_loop_position:
  "0 < i \<Longrightarrow> dissect_loop cs i s = (i + length (takeWhile (\<lambda>c. c \<noteq> BACKSLASH) cs), s)"
  by (induction cs i s rule: dissect_loop.induct) auto

text \<open>
  C39. Dissecting a path drops one leading backslash, if there is one; the first part is what
  comes before the next backslash, the remaining part what comes after it. Without another
  backslash the first part is all of it and the remaining part is empty.
\<close>

theorem FsRtlDissectName_exact:
  "FsRtlDissectName Name =
     (let path = (if Name \<noteq> [] \<and> hd Name = BACKSLASH then tl Name else Name)
      in (takeWhile (\<lambda>c. c \<noteq> BACKSLASH) path, tl (dropWhile (\<lambda>c. c \<noteq> BACKSLASH) path)))"
proof (cases Name)
  case (Cons c cs)
  let ?n = "length (takeWhile (\<lambda>c. c \<noteq> BACKSLASH) cs)"
  have cs: "take ?n cs = takeWhile (\<lambda>c. c \<noteq> BACKSLASH) cs" "drop ?n cs = dropWhile (\<lambda>c. c \<noteq> BACKSLASH) cs"
    by (simp_all only: takeWhile_eq_take[symmetric] dropWhile_eq_drop[symmetric])
  have rest: "(if ?n < length cs then drop (Suc ?n) cs else []) = tl (dropWhile (\<lambda>c. c \<noteq> BACKSLASH) cs)"
    by (simp add: cs(2)[symmetric] drop_Suc tl_drop)
  show ?thesis
    using rest cs(1) by (auto simp: FsRtlDissectName_def Cons dissect_loop_position Let_def)
qed (simp add: FsRtlDissectName_def)

end
