(* ===== verification/Ke_DeviceQueue.thy ===== *)
theory Ke_DeviceQueue
  imports NT_Prelude "HOL-Library.Multiset"
begin

text \<open>
  Device queues (\<open>ntoskrnl/ke/devqueue.c\<close>). A queue is the list of the addresses of its entries, the
  busy flag, and the memory of the entries. Every function runs under the lock of the queue, so it
  is one step. \<^const>\<open>None\<close> stands for a damaged list: an entry linked a second time, an entry
  unlinked that is not in the list, or a walk past the end of the list.
\<close>

section \<open>Data and operations\<close>

record KDEVICE_QUEUE_ENTRY =
  de_SortKey :: ULONG
  de_Inserted :: bool

record KDEVICE_QUEUE =
  dq_DeviceListHead :: "nat list"
  dq_Busy :: bool
  dq_Entries :: "nat \<Rightarrow> KDEVICE_QUEUE_ENTRY"

definition set_Inserted :: "nat \<Rightarrow> bool \<Rightarrow> KDEVICE_QUEUE \<Rightarrow> KDEVICE_QUEUE" where
  "set_Inserted e b q = q\<lparr>dq_Entries := (dq_Entries q)(e := (dq_Entries q e)\<lparr>de_Inserted := b\<rparr>)\<rparr>"

definition set_SortKey :: "nat \<Rightarrow> ULONG \<Rightarrow> KDEVICE_QUEUE \<Rightarrow> KDEVICE_QUEUE" where
  "set_SortKey e k q = q\<lparr>dq_Entries := (dq_Entries q)(e := (dq_Entries q e)\<lparr>de_SortKey := k\<rparr>)\<rparr>"

definition KeInitializeDeviceQueue :: "KDEVICE_QUEUE \<Rightarrow> KDEVICE_QUEUE" where
  "KeInitializeDeviceQueue DeviceQueue = DeviceQueue\<lparr>dq_DeviceListHead := [], dq_Busy := False\<rparr>"

definition KeInsertDeviceQueue :: "KDEVICE_QUEUE \<Rightarrow> nat \<Rightarrow> (bool \<times> KDEVICE_QUEUE) option" where
  "KeInsertDeviceQueue DeviceQueue DeviceQueueEntry =
     (if \<not> dq_Busy DeviceQueue then
        Some (False, set_Inserted DeviceQueueEntry False (DeviceQueue\<lparr>dq_Busy := True\<rparr>))
      else if DeviceQueueEntry \<in> set (dq_DeviceListHead DeviceQueue) then None
      else
        Some (True, set_Inserted DeviceQueueEntry True
          (DeviceQueue\<lparr>dq_DeviceListHead := dq_DeviceListHead DeviceQueue @ [DeviceQueueEntry]\<rparr>)))"

text \<open>The loop of the insertion by key: in front of the first entry with a greater key.\<close>

fun insert_by_key :: "(nat \<Rightarrow> KDEVICE_QUEUE_ENTRY) \<Rightarrow> nat \<Rightarrow> ULONG \<Rightarrow> nat list \<Rightarrow> nat list option" where
  "insert_by_key m e SortKey [] = None"
| "insert_by_key m e SortKey (c # cs) =
     (if SortKey \<ge> de_SortKey (m c) then map_option ((#) c) (insert_by_key m e SortKey cs) else Some (e # c # cs))"

definition KeInsertByKeyDeviceQueue :: "KDEVICE_QUEUE \<Rightarrow> nat \<Rightarrow> ULONG \<Rightarrow> (bool \<times> KDEVICE_QUEUE) option" where
  "KeInsertByKeyDeviceQueue DeviceQueue DeviceQueueEntry SortKey =
     (let q = set_SortKey DeviceQueueEntry SortKey DeviceQueue; l = dq_DeviceListHead q in
      if \<not> dq_Busy q then Some (False, q\<lparr>dq_Busy := True\<rparr>)
      else if DeviceQueueEntry \<in> set l then None
      else if l \<noteq> [] \<and> SortKey < de_SortKey (dq_Entries q (last l)) then
        map_option (\<lambda>l. (True, q\<lparr>dq_DeviceListHead := l\<rparr>)) (insert_by_key (dq_Entries q) DeviceQueueEntry SortKey l)
      else Some (True, q\<lparr>dq_DeviceListHead := l @ [DeviceQueueEntry]\<rparr>))"

definition KeRemoveDeviceQueue :: "KDEVICE_QUEUE \<Rightarrow> nat option \<times> KDEVICE_QUEUE" where
  "KeRemoveDeviceQueue DeviceQueue =
     (case dq_DeviceListHead DeviceQueue of
        [] \<Rightarrow> (None, DeviceQueue\<lparr>dq_Busy := False\<rparr>)
      | e # es \<Rightarrow> (Some e, set_Inserted e False (DeviceQueue\<lparr>dq_DeviceListHead := es\<rparr>)))"

text \<open>The loop of the removal by key: the first entry whose key is not below the given one.\<close>

fun find_key :: "(nat \<Rightarrow> KDEVICE_QUEUE_ENTRY) \<Rightarrow> ULONG \<Rightarrow> nat list \<Rightarrow> nat option" where
  "find_key m SortKey [] = None"
| "find_key m SortKey (c # cs) = (if SortKey \<le> de_SortKey (m c) then Some c else find_key m SortKey cs)"

definition unlink_by_key :: "KDEVICE_QUEUE \<Rightarrow> ULONG \<Rightarrow> (nat option \<times> KDEVICE_QUEUE) option" where
  "unlink_by_key q SortKey =
     (let l = dq_DeviceListHead q in do {
        e \<leftarrow> (if de_SortKey (dq_Entries q (last l)) \<le> SortKey then Some (hd l) else find_key (dq_Entries q) SortKey l);
        Some (Some e, set_Inserted e False (q\<lparr>dq_DeviceListHead := remove1 e l\<rparr>)) })"

definition KeRemoveByKeyDeviceQueue :: "KDEVICE_QUEUE \<Rightarrow> ULONG \<Rightarrow> (nat option \<times> KDEVICE_QUEUE) option" where
  "KeRemoveByKeyDeviceQueue DeviceQueue SortKey =
     (if dq_DeviceListHead DeviceQueue = [] then Some (None, DeviceQueue\<lparr>dq_Busy := False\<rparr>)
      else unlink_by_key DeviceQueue SortKey)"

definition KeRemoveByKeyDeviceQueueIfBusy :: "KDEVICE_QUEUE \<Rightarrow> ULONG \<Rightarrow> (nat option \<times> KDEVICE_QUEUE) option" where
  "KeRemoveByKeyDeviceQueueIfBusy DeviceQueue SortKey =
     (if \<not> dq_Busy DeviceQueue \<or> dq_DeviceListHead DeviceQueue = [] then Some (None, DeviceQueue\<lparr>dq_Busy := False\<rparr>)
      else unlink_by_key DeviceQueue SortKey)"

definition KeRemoveEntryDeviceQueue :: "KDEVICE_QUEUE \<Rightarrow> nat \<Rightarrow> (bool \<times> KDEVICE_QUEUE) option" where
  "KeRemoveEntryDeviceQueue DeviceQueue DeviceQueueEntry =
     (if de_Inserted (dq_Entries DeviceQueue DeviceQueueEntry) then
        (if DeviceQueueEntry \<in> set (dq_DeviceListHead DeviceQueue) then
           Some (True, set_Inserted DeviceQueueEntry False
             (DeviceQueue\<lparr>dq_DeviceListHead := remove1 DeviceQueueEntry (dq_DeviceListHead DeviceQueue)\<rparr>))
         else None)
      else Some (False, DeviceQueue))"

section \<open>The contract of a request queue\<close>

text \<open>
  What the I/O manager relies on. An insertion into an idle queue hands the request back, to be
  started at once; a removal from a busy queue hands out the next request, or makes the queue idle.
\<close>

locale request_queue =
  fixes insert :: "'q \<Rightarrow> 'e \<Rightarrow> (bool \<times> 'q) option"
    and remove :: "'q \<Rightarrow> ('e option \<times> 'q) option"
    and ok :: "'q \<Rightarrow> bool"
    and busy :: "'q \<Rightarrow> bool"
    and contents :: "'q \<Rightarrow> 'e list"
  assumes idle_empty: "ok q \<Longrightarrow> \<not> busy q \<Longrightarrow> contents q = []"
    and distinct_contents: "ok q \<Longrightarrow> distinct (contents q)"
    and insert_law: "ok q \<Longrightarrow> e \<notin> set (contents q) \<Longrightarrow>
      \<exists>q'. insert q e = Some (busy q, q') \<and> ok q' \<and> busy q' \<and>
        mset (contents q') = (if busy q then add_mset e (mset (contents q)) else mset (contents q))"
    and remove_law: "ok q \<Longrightarrow> busy q \<Longrightarrow>
      \<exists>r q'. remove q = Some (r, q') \<and> ok q' \<and> busy q' = (r \<noteq> None) \<and>
        mset (contents q) = (case r of None \<Rightarrow> {#} | Some e \<Rightarrow> {#e#}) + mset (contents q')"
begin

text \<open>Each request is either started or waiting, and none is both.\<close>

lemma inserted:
  assumes "ok q" "e \<notin> set (contents q)"
  obtains q' where "insert q e = Some (busy q, q')" "ok q'" "busy q'" "busy q \<longrightarrow> mset (contents q') = add_mset e (mset (contents q))"
    "\<not> busy q \<longrightarrow> contents q' = []"
proof -
  obtain q' where "insert q e = Some (busy q, q')" "ok q'" "busy q'"
    "mset (contents q') = (if busy q then add_mset e (mset (contents q)) else mset (contents q))"
    using insert_law[OF assms] by blast
  then show thesis
    using idle_empty[OF assms(1)] by (intro that[of q']) (simp_all split: if_splits)
qed

lemma removed:
  assumes "ok q" "busy q"
  obtains (idle) q' where "remove q = Some (None, q')" "ok q'" "\<not> busy q'" "contents q = []" "contents q' = []"
  | (request) e q' where "remove q = Some (Some e, q')" "ok q'" "busy q'" "mset (contents q) = add_mset e (mset (contents q'))"
    "e \<notin> set (contents q')"
proof -
  obtain r q' where r: "remove q = Some (r, q')" "ok q'" "busy q' = (r \<noteq> None)"
    "mset (contents q) = (case r of None \<Rightarrow> {#} | Some e \<Rightarrow> {#e#}) + mset (contents q')"
    using remove_law[OF assms] by blast
  show thesis
  proof (cases r)
    case None
    then show thesis
      using r idle_empty[OF r(2)] by (intro idle[of q']) simp_all
  next
    case (Some e)
    then have m: "mset (contents q) = mset (e # contents q')"
      using r(4) by simp
    then have "e \<notin> set (contents q')"
      using distinct_contents[OF assms(1)] mset_eq_imp_distinct_iff[OF m] by simp
    then show thesis
      using r Some m by (intro request[of e q']) simp_all
  qed
qed

end

section \<open>The device queue fulfils the contract\<close>

definition dq_ok :: "KDEVICE_QUEUE \<Rightarrow> bool" where
  "dq_ok q = (distinct (dq_DeviceListHead q) \<and> (\<not> dq_Busy q \<longrightarrow> dq_DeviceListHead q = []) \<and>
     (\<forall>e. de_Inserted (dq_Entries q e) \<longrightarrow> e \<in> set (dq_DeviceListHead q)))"

lemma set_Inserted_simps [simp]:
  "dq_DeviceListHead (set_Inserted e b q) = dq_DeviceListHead q" "dq_Busy (set_Inserted e b q) = dq_Busy q"
  "de_Inserted (dq_Entries (set_Inserted e b q) x) = (if x = e then b else de_Inserted (dq_Entries q x))"
  "de_SortKey (dq_Entries (set_Inserted e b q) x) = de_SortKey (dq_Entries q x)"
  by (simp_all add: set_Inserted_def)

lemma set_SortKey_simps [simp]:
  "dq_DeviceListHead (set_SortKey e k q) = dq_DeviceListHead q" "dq_Busy (set_SortKey e k q) = dq_Busy q"
  "de_Inserted (dq_Entries (set_SortKey e k q) x) = de_Inserted (dq_Entries q x)"
  "de_SortKey (dq_Entries (set_SortKey e k q) x) = (if x = e then k else de_SortKey (dq_Entries q x))"
  by (simp_all add: set_SortKey_def)

lemma insert_by_key_parts:
  assumes "l \<noteq> []" "k < de_SortKey (m (last l))"
  shows "\<exists>as bs. l = as @ bs \<and> insert_by_key m e k l = Some (as @ e # bs) \<and>
    (\<forall>a \<in> set as. de_SortKey (m a) \<le> k) \<and> bs \<noteq> [] \<and> k < de_SortKey (m (hd bs))"
  using assms
proof (induction l)
  case (Cons c cs)
  show ?case
  proof (cases "de_SortKey (m c) \<le> k")
    case True
    then obtain as bs where "cs = as @ bs" "insert_by_key m e k cs = Some (as @ e # bs)"
      "\<forall>a \<in> set as. de_SortKey (m a) \<le> k" "bs \<noteq> []" "k < de_SortKey (m (hd bs))"
      using Cons by (cases "cs = []") auto
    then show ?thesis
      using True by (intro exI[of _ "c # as"] exI[of _ bs]) simp
  next
    case False
    then show ?thesis
      by (intro exI[of _ "[]"] exI[of _ "c # cs"]) simp
  qed
qed simp

lemma find_key_parts:
  assumes "l \<noteq> []" "k < de_SortKey (m (last l))"
  shows "\<exists>as e bs. l = as @ e # bs \<and> find_key m k l = Some e \<and> (\<forall>a \<in> set as. de_SortKey (m a) < k) \<and> k \<le> de_SortKey (m e)"
  using assms
proof (induction l)
  case (Cons c cs)
  show ?case
  proof (cases "k \<le> de_SortKey (m c)")
    case True
    then show ?thesis
      by (intro exI[of _ "[]"] exI[of _ c] exI[of _ cs]) simp
  next
    case False
    then obtain as e bs where "cs = as @ e # bs" "find_key m k cs = Some e" "\<forall>a \<in> set as. de_SortKey (m a) < k" "k \<le> de_SortKey (m e)"
      using Cons by (cases "cs = []") auto
    then show ?thesis
      using False by (intro exI[of _ "c # as"] exI[of _ e] exI[of _ bs]) simp
  qed
qed simp

lemma inserted_by_key:
  assumes "dq_ok q" "dq_Busy q" "e \<notin> set (dq_DeviceListHead q)"
  obtains as bs q' where "KeInsertByKeyDeviceQueue q e k = Some (True, q')" "dq_ok q'" "dq_Busy q'" "dq_DeviceListHead q = as @ bs"
    "dq_DeviceListHead q' = as @ e # bs" "dq_Entries q' = dq_Entries (set_SortKey e k q)"
    "(\<forall>a \<in> set as. de_SortKey (dq_Entries q a) \<le> k) \<and> bs \<noteq> [] \<and> k < de_SortKey (dq_Entries q (hd bs)) \<or>
     bs = [] \<and> (as \<noteq> [] \<longrightarrow> de_SortKey (dq_Entries q (last as)) \<le> k)"
proof -
  let ?l = "dq_DeviceListHead q" and ?m = "dq_Entries (set_SortKey e k q)"
  have key: "de_SortKey (?m x) = de_SortKey (dq_Entries q x)" if "x \<in> set ?l" for x
    using assms(3) that by auto
  show thesis
  proof (cases "?l \<noteq> [] \<and> k < de_SortKey (?m (last ?l))")
    case True
    obtain as bs where p: "?l = as @ bs" "insert_by_key ?m e k ?l = Some (as @ e # bs)"
      "\<forall>a \<in> set as. de_SortKey (?m a) \<le> k" "bs \<noteq> []" "k < de_SortKey (?m (hd bs))"
      using insert_by_key_parts[of ?l k ?m e] True by blast
    show thesis
    proof (rule that[of "set_SortKey e k q\<lparr>dq_DeviceListHead := as @ e # bs\<rparr>" as bs])
      show "KeInsertByKeyDeviceQueue q e k = Some (True, set_SortKey e k q\<lparr>dq_DeviceListHead := as @ e # bs\<rparr>)"
        using assms(2,3) True p(2) by (simp add: KeInsertByKeyDeviceQueue_def Let_def)
    qed (use assms p key in \<open>auto simp: dq_ok_def\<close>)
  next
    case False
    show thesis
    proof (rule that[of "set_SortKey e k q\<lparr>dq_DeviceListHead := ?l @ [e]\<rparr>" ?l "[]"])
      show "KeInsertByKeyDeviceQueue q e k = Some (True, set_SortKey e k q\<lparr>dq_DeviceListHead := ?l @ [e]\<rparr>)"
        using assms(2,3) False by (auto simp: KeInsertByKeyDeviceQueue_def Let_def)
    qed (use assms False key in \<open>auto simp: dq_ok_def\<close>)
  qed
qed

lemma unlinked_by_key:
  assumes "dq_ok q" "dq_DeviceListHead q \<noteq> []"
  obtains e q' where "unlink_by_key q k = Some (Some e, q')" "dq_ok q'" "dq_Busy q' = dq_Busy q" "e \<in> set (dq_DeviceListHead q)"
    "dq_DeviceListHead q' = remove1 e (dq_DeviceListHead q)"
    "if de_SortKey (dq_Entries q (last (dq_DeviceListHead q))) \<le> k then e = hd (dq_DeviceListHead q)
     else find_key (dq_Entries q) k (dq_DeviceListHead q) = Some e"
proof -
  let ?l = "dq_DeviceListHead q" and ?m = "dq_Entries q"
  obtain e where e: "(if de_SortKey (?m (last ?l)) \<le> k then Some (hd ?l) else find_key ?m k ?l) = Some e" "e \<in> set ?l"
    using assms(2) find_key_parts[of ?l k ?m] by (cases "de_SortKey (?m (last ?l)) \<le> k") force+
  show thesis
  proof (rule that[of e "set_Inserted e False (q\<lparr>dq_DeviceListHead := remove1 e ?l\<rparr>)"])
    show "unlink_by_key q k = Some (Some e, set_Inserted e False (q\<lparr>dq_DeviceListHead := remove1 e ?l\<rparr>))"
      using e(1) by (simp add: unlink_by_key_def Let_def)
    show "if de_SortKey (?m (last ?l)) \<le> k then e = hd ?l else find_key ?m k ?l = Some e"
      using e(1) by (auto split: if_splits)
  qed (use assms e in \<open>auto simp: dq_ok_def\<close>)
qed

lemma fifo_insert_ok: "dq_ok q \<Longrightarrow> e \<notin> set (dq_DeviceListHead q) \<Longrightarrow> KeInsertDeviceQueue q e = Some (s, q') \<Longrightarrow> dq_ok q'"
  by (auto simp: KeInsertDeviceQueue_def dq_ok_def split: if_splits)

lemma key_insert_ok: "dq_ok q \<Longrightarrow> \<not> dq_Busy q \<Longrightarrow> e \<notin> set (dq_DeviceListHead q) \<Longrightarrow> dq_ok (set_SortKey e k q\<lparr>dq_Busy := True\<rparr>)"
  by (auto simp: dq_ok_def)

lemma fifo_remove_ok: "dq_ok q \<Longrightarrow> KeRemoveDeviceQueue q = (r, q') \<Longrightarrow> dq_ok q'"
  by (auto simp: KeRemoveDeviceQueue_def dq_ok_def split: list.splits if_splits)

interpretation fifo: request_queue KeInsertDeviceQueue "\<lambda>q. Some (KeRemoveDeviceQueue q)" dq_ok dq_Busy dq_DeviceListHead
proof unfold_locales
  fix q e
  assume q: "dq_ok q" "e \<notin> set (dq_DeviceListHead q)"
  then show "\<exists>q'. KeInsertDeviceQueue q e = Some (dq_Busy q, q') \<and> dq_ok q' \<and> dq_Busy q' \<and>
      mset (dq_DeviceListHead q') = (if dq_Busy q then add_mset e (mset (dq_DeviceListHead q)) else mset (dq_DeviceListHead q))"
    using fifo_insert_ok[of q e] by (cases "dq_Busy q") (simp_all add: KeInsertDeviceQueue_def)
next
  fix q
  assume "dq_ok q" "dq_Busy q"
  then show "\<exists>r q'. Some (KeRemoveDeviceQueue q) = Some (r, q') \<and> dq_ok q' \<and> dq_Busy q' = (r \<noteq> None) \<and>
      mset (dq_DeviceListHead q) = (case r of None \<Rightarrow> {#} | Some e \<Rightarrow> {#e#}) + mset (dq_DeviceListHead q')"
    using fifo_remove_ok[of q] by (cases "dq_DeviceListHead q") (simp_all add: KeRemoveDeviceQueue_def)
qed (simp_all add: dq_ok_def)

interpretation keyed: request_queue "\<lambda>q e. KeInsertByKeyDeviceQueue q e k" "\<lambda>q. KeRemoveByKeyDeviceQueue q k" dq_ok dq_Busy dq_DeviceListHead
  for k
proof unfold_locales
  fix q e
  assume q: "dq_ok q" "e \<notin> set (dq_DeviceListHead q)"
  show "\<exists>q'. KeInsertByKeyDeviceQueue q e k = Some (dq_Busy q, q') \<and> dq_ok q' \<and> dq_Busy q' \<and>
      mset (dq_DeviceListHead q') = (if dq_Busy q then add_mset e (mset (dq_DeviceListHead q)) else mset (dq_DeviceListHead q))"
  proof (cases "dq_Busy q")
    case True
    show ?thesis
      by (rule inserted_by_key[OF q(1) True q(2), of k]) (simp add: True)
  next
    case False
    then show ?thesis
      using key_insert_ok[OF q(1) False q(2), of k] by (simp add: KeInsertByKeyDeviceQueue_def Let_def)
  qed
next
  fix q
  assume q: "dq_ok q" "dq_Busy q"
  show "\<exists>r q'. KeRemoveByKeyDeviceQueue q k = Some (r, q') \<and> dq_ok q' \<and> dq_Busy q' = (r \<noteq> None) \<and>
      mset (dq_DeviceListHead q) = (case r of None \<Rightarrow> {#} | Some e \<Rightarrow> {#e#}) + mset (dq_DeviceListHead q')"
  proof (cases "dq_DeviceListHead q = []")
    case True
    then show ?thesis
      using q fifo_remove_ok[of q] by (simp add: KeRemoveByKeyDeviceQueue_def KeRemoveDeviceQueue_def)
  next
    case False
    show ?thesis
      by (rule unlinked_by_key[OF q(1) False, of k]) (simp add: q(2) False KeRemoveByKeyDeviceQueue_def)
  qed
qed (simp_all add: dq_ok_def)

text \<open>
  An insertion by key does not mark the entry as inserted, so that the removal of this entry reports
  that it is not in the queue and leaves it there.
\<close>

lemma keyed_entry_stays:
  assumes "dq_ok q" "dq_Busy q" "e \<notin> set (dq_DeviceListHead q)" "KeInsertByKeyDeviceQueue q e k = Some (True, q')"
  shows "e \<in> set (dq_DeviceListHead q') \<and> KeRemoveEntryDeviceQueue q' e = Some (False, q')"
proof (rule inserted_by_key[OF assms(1-3), of k])
  fix as bs q''
  assume "KeInsertByKeyDeviceQueue q e k = Some (True, q'')" "dq_DeviceListHead q'' = as @ e # bs" "dq_Entries q'' = dq_Entries (set_SortKey e k q)"
  then show ?thesis
    using assms by (auto simp: KeRemoveEntryDeviceQueue_def dq_ok_def)
qed

section \<open>Order by key\<close>

abbreviation keys :: "KDEVICE_QUEUE \<Rightarrow> nat list" where
  "keys q \<equiv> map (\<lambda>e. de_SortKey (dq_Entries q e)) (dq_DeviceListHead q)"

lemma sorted_map_ends:
  assumes "sorted (map f l)" "x \<in> set l"
  shows "f (hd l) \<le> f x" "f x \<le> f (last l)"
  using assms by (induction l) auto

lemma KeInsertByKeyDeviceQueue_sorted:
  assumes "dq_ok q" "dq_Busy q" "e \<notin> set (dq_DeviceListHead q)" "sorted (keys q)"
  obtains as bs q' where "KeInsertByKeyDeviceQueue q e k = Some (True, q')" "dq_DeviceListHead q = as @ bs" "dq_DeviceListHead q' = as @ e # bs"
    "\<forall>a \<in> set as. de_SortKey (dq_Entries q a) \<le> k" "\<forall>b \<in> set bs. k < de_SortKey (dq_Entries q b)" "sorted (keys q')"
proof (rule inserted_by_key[OF assms(1-3), of k])
  let ?k = "\<lambda>e. de_SortKey (dq_Entries q e)"
  fix as bs q'
  assume q': "KeInsertByKeyDeviceQueue q e k = Some (True, q')" "dq_DeviceListHead q = as @ bs" "dq_DeviceListHead q' = as @ e # bs"
    "dq_Entries q' = dq_Entries (set_SortKey e k q)"
    and c: "(\<forall>a \<in> set as. ?k a \<le> k) \<and> bs \<noteq> [] \<and> k < ?k (hd bs) \<or> bs = [] \<and> (as \<noteq> [] \<longrightarrow> ?k (last as) \<le> k)"
  have srt: "sorted (map ?k as)" "sorted (map ?k bs)"
    using assms(4) q'(2) by (simp_all add: sorted_append)
  have as: "\<forall>a \<in> set as. ?k a \<le> k"
  proof (cases "as = []")
    case False
    then show ?thesis
      using c sorted_map_ends(2)[OF srt(1)] by fastforce
  qed simp
  have bs: "\<forall>b \<in> set bs. k < ?k b"
    using c srt(2) by (cases bs) fastforce+
  have "map (\<lambda>x. de_SortKey (dq_Entries q' x)) as = map ?k as" "map (\<lambda>x. de_SortKey (dq_Entries q' x)) bs = map ?k bs"
    using assms(3) q'(2,4) by auto
  then have "keys q' = map ?k as @ k # map ?k bs"
    using q'(3,4) by simp
  then have "sorted (keys q')"
    using srt as bs by (fastforce simp: sorted_append)
  then show thesis
    using that q' as bs by blast
qed

text \<open>What a removal by key takes from a queue that is ordered by key.\<close>

lemma removed_by_key:
  assumes "dq_ok q" "sorted (keys q)" "dq_DeviceListHead q \<noteq> []"
  shows "\<exists>e q'. KeRemoveByKeyDeviceQueue q k = Some (Some e, q') \<and> e \<in> set (dq_DeviceListHead q) \<and>
    dq_DeviceListHead q' = remove1 e (dq_DeviceListHead q) \<and> sorted (keys q') \<and>
    (let key = (\<lambda>x. de_SortKey (dq_Entries q x)); l = set (dq_DeviceListHead q) in
     if \<exists>x \<in> l. k < key x then k \<le> key e \<and> (\<forall>x \<in> l. k \<le> key x \<longrightarrow> key e \<le> key x) else (\<forall>x \<in> l. key e \<le> key x))"
proof -
  let ?l = "dq_DeviceListHead q" and ?k = "\<lambda>x. de_SortKey (dq_Entries q x)"
  obtain e q' where e: "unlink_by_key q k = Some (Some e, q')" "e \<in> set ?l" "dq_DeviceListHead q' = remove1 e ?l"
    "if ?k (last ?l) \<le> k then e = hd ?l else find_key (dq_Entries q) k ?l = Some e"
    by (rule unlinked_by_key[OF assms(1,3)])
  have ends: "?k (hd ?l) \<le> ?k x \<and> ?k x \<le> ?k (last ?l)" if "x \<in> set ?l" for x
    using sorted_map_ends[OF assms(2) that] by simp
  have "dq_Entries q' = dq_Entries (set_Inserted e False q)"
    using e(1) by (auto simp: unlink_by_key_def Let_def set_Inserted_def split: bind_splits)
  then have "keys q' = map ?k (remove1 e ?l)"
    using e(3) by simp
  then have srt: "sorted (keys q')"
    using assms(2) by (simp add: sorted_map_remove1)
  have "if \<exists>x \<in> set ?l. k < ?k x then k \<le> ?k e \<and> (\<forall>x \<in> set ?l. k \<le> ?k x \<longrightarrow> ?k e \<le> ?k x) else (\<forall>x \<in> set ?l. ?k e \<le> ?k x)"
  proof (cases "?k (last ?l) \<le> k")
    case True
    then show ?thesis
      using e(4) ends by (auto dest!: ends)
  next
    case False
    obtain as e' bs where p: "?l = as @ e' # bs" "find_key (dq_Entries q) k ?l = Some e'" "\<forall>a \<in> set as. ?k a < k" "k \<le> ?k e'"
      using find_key_parts[of ?l k "dq_Entries q"] assms(3) False by auto
    have "\<exists>x \<in> set ?l. k < ?k x"
      using False assms(3) by (intro bexI[of _ "last ?l"]) simp_all
    moreover have "e' = e" "\<forall>b \<in> set bs. ?k e' \<le> ?k b"
      using p(1,2) e(4) False assms(2) by (simp_all add: sorted_append)
    ultimately show ?thesis
      using p by auto
  qed
  then show ?thesis
    using e(1-3) srt assms(3) by (simp add: KeRemoveByKeyDeviceQueue_def)
qed

text \<open>
  C21. A removal by key from a queue that is ordered by key, for a key that is not the greatest one in
  the queue, is the step of an elevator: the entry with the least key that is not below the given
  key is taken, or, if all keys are below it, the one with the least key of all. The queue loses this
  entry only, and stays ordered.
\<close>

theorem KeRemoveByKeyDeviceQueue_elevator:
  assumes "dq_ok q" "sorted (keys q)" "dq_DeviceListHead q \<noteq> []" "de_SortKey (dq_Entries q (last (dq_DeviceListHead q))) \<noteq> k"
  shows "\<exists>e q'. KeRemoveByKeyDeviceQueue q k = Some (Some e, q') \<and> e \<in> set (dq_DeviceListHead q) \<and>
    dq_DeviceListHead q' = remove1 e (dq_DeviceListHead q) \<and> sorted (keys q') \<and>
    (let key = (\<lambda>x. de_SortKey (dq_Entries q x)); l = set (dq_DeviceListHead q) in
     if \<exists>x \<in> l. k \<le> key x then k \<le> key e \<and> (\<forall>x \<in> l. k \<le> key x \<longrightarrow> key e \<le> key x) else (\<forall>x \<in> l. key e \<le> key x))"
proof -
  let ?l = "dq_DeviceListHead q" and ?k = "\<lambda>x. de_SortKey (dq_Entries q x)"
  have "(\<exists>x \<in> set ?l. k < ?k x) = (\<exists>x \<in> set ?l. k \<le> ?k x)"
  proof
    assume "\<exists>x \<in> set ?l. k \<le> ?k x"
    then obtain x where "x \<in> set ?l" "k \<le> ?k x"
      by blast
    then have "k < ?k (last ?l)"
      using sorted_map_ends[OF assms(2)] assms(4) by fastforce
    then show "\<exists>x \<in> set ?l. k < ?k x"
      using assms(3) by (intro bexI[of _ "last ?l"]) simp_all
  qed (use less_imp_le in blast)
  then show ?thesis
    using removed_by_key[OF assms(1-3), of k] unfolding Let_def by simp
qed

definition disk :: KDEVICE_QUEUE where
  "disk = \<lparr>dq_DeviceListHead = [3, 1, 2], dq_Busy = True,
     dq_Entries = (\<lambda>e. \<lparr>de_SortKey = (if e = 3 then 10 else if e = 1 then 20 else 30), de_Inserted = False\<rparr>)\<rparr>"

lemma disk_ok: "dq_ok disk" "sorted (keys disk)" "dq_DeviceListHead disk \<noteq> []"
  by (simp_all add: disk_def dq_ok_def)

theorem KeRemoveByKeyDeviceQueue_elevator_witness:
  "(\<exists>q'. KeRemoveByKeyDeviceQueue disk 15 = Some (Some 1, q') \<and> sorted (keys q')) \<and>
   (\<exists>q'. KeRemoveByKeyDeviceQueue disk 31 = Some (Some 3, q') \<and> sorted (keys q'))"
proof -
  have r: "map_option fst (KeRemoveByKeyDeviceQueue disk 15) = Some (Some 1)" "map_option fst (KeRemoveByKeyDeviceQueue disk 31) = Some (Some 3)"
    "de_SortKey (dq_Entries disk (last (dq_DeviceListHead disk))) = 30"
    by (simp_all add: disk_def KeRemoveByKeyDeviceQueue_def unlink_by_key_def Let_def)
  then show ?thesis
    using KeRemoveByKeyDeviceQueue_elevator[OF disk_ok, of 15] KeRemoveByKeyDeviceQueue_elevator[OF disk_ok, of 31] by auto
qed

text \<open>
  C22. A removal by the greatest key of the queue takes the entry with the least key of all, so that,
  if not all keys are the same, the entry that has exactly the given key is passed over.
  The comment in the source speaks of a key that is greater than the last key.
\<close>

theorem KeRemoveByKeyDeviceQueue_last_key:
  assumes "dq_ok q" "sorted (keys q)" "dq_DeviceListHead q \<noteq> []" "de_SortKey (dq_Entries q (last (dq_DeviceListHead q))) = k"
  shows "\<exists>e q'. KeRemoveByKeyDeviceQueue q k = Some (Some e, q') \<and> dq_DeviceListHead q' = remove1 e (dq_DeviceListHead q) \<and>
    (\<forall>x \<in> set (dq_DeviceListHead q). de_SortKey (dq_Entries q e) \<le> de_SortKey (dq_Entries q x)) \<and>
    (de_SortKey (dq_Entries q (hd (dq_DeviceListHead q))) < k \<longrightarrow>
       (\<exists>x \<in> set (dq_DeviceListHead q'). de_SortKey (dq_Entries q x) = k \<and> de_SortKey (dq_Entries q e) < k))"
proof -
  let ?l = "dq_DeviceListHead q" and ?k = "\<lambda>x. de_SortKey (dq_Entries q x)"
  have "\<not> (\<exists>x \<in> set ?l. k < ?k x)"
    using sorted_map_ends[OF assms(2)] assms(4) by fastforce
  then obtain e q' where e: "KeRemoveByKeyDeviceQueue q k = Some (Some e, q')" "dq_DeviceListHead q' = remove1 e ?l" "\<forall>x \<in> set ?l. ?k e \<le> ?k x"
    using removed_by_key[OF assms(1-3), of k] unfolding Let_def by auto
  have "last ?l \<in> set (dq_DeviceListHead q') \<and> ?k e < k" if "?k (hd ?l) < k"
  proof -
    have "?k e < k"
      using e(3)[rule_format, of "hd ?l"] that assms(3) by simp
    moreover from this have "last ?l \<noteq> e"
      using assms(4) by auto
    ultimately show ?thesis
      using assms(3) e(2) by (simp add: in_set_remove1)
  qed
  then show ?thesis
    using e assms(4) by blast
qed

theorem KeRemoveByKeyDeviceQueue_last_key_witness:
  "\<exists>q'. KeRemoveByKeyDeviceQueue disk 30 = Some (Some 3, q') \<and> 2 \<in> set (dq_DeviceListHead q')"
proof -
  have r: "map_option fst (KeRemoveByKeyDeviceQueue disk 30) = Some (Some 3)" "de_SortKey (dq_Entries disk (last (dq_DeviceListHead disk))) = 30"
    "dq_DeviceListHead disk = [3, 1, 2]"
    by (simp_all add: disk_def KeRemoveByKeyDeviceQueue_def unlink_by_key_def Let_def)
  then show ?thesis
    using KeRemoveByKeyDeviceQueue_last_key[OF disk_ok r(2)] by auto
qed

end
