(* ===== verification/Io_StartPacket.thy ===== *)
theory Io_StartPacket
  imports Ke_DeviceQueue
begin

text \<open>
  Starting requests of a device one at a time (\<open>ntoskrnl/io/iomgr/device.c\<close>, \<open>IoCancelIrp\<close> of
  \<open>irp.c\<close>), on top of the device queues. An IRP is a number, which is also the address of its queue
  entry. The start routine and the cancel routines belong to the driver: a call of one is recorded
  in the state. Outside of deferred mode a call of the start routine is the last thing an
  operation does, so what the routine does counts as later operations. In deferred mode it is
  called in a loop; then the calls of \<open>IoStartNextPacket\<close> and \<open>IoStartNextPacketByKey\<close> that it makes
  before it returns are a parameter.
\<close>

section \<open>Data\<close>

datatype DOE_SIO = DOE_SIO_NO_KEY | DOE_SIO_WITH_KEY | DOE_SIO_CANCELABLE | DOE_SIO_DEFERRED | DOE_SIO_NO_CANCEL

record IRP =
  ir_Cancel :: bool
  ir_CancelRoutine :: "nat option"
  ir_CurrentLocation :: int
  ir_StackCount :: int

record DEVICE_OBJECT =
  do_DeviceQueue :: KDEVICE_QUEUE
  do_CurrentIrp :: "nat option"
  do_StartIoFlags :: "DOE_SIO set"
  do_StartIoCount :: int
  do_StartIoKey :: ULONG
  do_Irps :: "nat \<Rightarrow> IRP"
  do_Started :: "nat list"
  do_Cancelled :: "(nat \<times> nat) list"

text \<open>A call of the start routine: cancelable or not, with a key or without.\<close>

type_synonym next_call = "bool \<times> ULONG option"

abbreviation (input) "PACKET_FLAGS \<equiv> {DOE_SIO_WITH_KEY, DOE_SIO_NO_KEY, DOE_SIO_CANCELABLE}"

definition set_CancelRoutine :: "nat \<Rightarrow> nat option \<Rightarrow> DEVICE_OBJECT \<Rightarrow> DEVICE_OBJECT" where
  "set_CancelRoutine irp r d = d\<lparr>do_Irps := (do_Irps d)(irp := (do_Irps d irp)\<lparr>ir_CancelRoutine := r\<rparr>)\<rparr>"

section \<open>Operations\<close>

definition IoSetStartIoAttributes :: "bool \<Rightarrow> bool \<Rightarrow> DEVICE_OBJECT \<Rightarrow> DEVICE_OBJECT" where
  "IoSetStartIoAttributes DeferredStartIo NonCancelable d =
     d\<lparr>do_StartIoFlags := do_StartIoFlags d \<union> (if DeferredStartIo then {DOE_SIO_DEFERRED} else {}) \<union>
        (if NonCancelable then {DOE_SIO_NO_CANCEL} else {})\<rparr>"

definition start_packet :: "bool \<Rightarrow> nat \<Rightarrow> DEVICE_OBJECT \<Rightarrow> DEVICE_OBJECT" where
  "start_packet Cancelable Irp d =
     (let d = d\<lparr>do_CurrentIrp := Some Irp\<rparr>;
          d = (if Cancelable \<and> DOE_SIO_NO_CANCEL \<in> do_StartIoFlags d then set_CancelRoutine Irp None d else d)
      in d\<lparr>do_Started := do_Started d @ [Irp]\<rparr>)"

definition IopStartNextPacketByKey :: "bool \<Rightarrow> ULONG \<Rightarrow> DEVICE_OBJECT \<Rightarrow> DEVICE_OBJECT option" where
  "IopStartNextPacketByKey Cancelable Key d =
     do {
       (e, q) \<leftarrow> KeRemoveByKeyDeviceQueue (do_DeviceQueue d) Key;
       let d = d\<lparr>do_CurrentIrp := None, do_DeviceQueue := q\<rparr>;
       Some (case e of None \<Rightarrow> d | Some Irp \<Rightarrow> start_packet Cancelable Irp d)
     }"

definition IopStartNextPacket :: "bool \<Rightarrow> DEVICE_OBJECT \<Rightarrow> DEVICE_OBJECT" where
  "IopStartNextPacket Cancelable d =
     (case KeRemoveDeviceQueue (do_DeviceQueue d) of (e, q) \<Rightarrow>
        let d = d\<lparr>do_CurrentIrp := None, do_DeviceQueue := q\<rparr>
        in case e of None \<Rightarrow> d | Some Irp \<Rightarrow> start_packet Cancelable Irp d)"

definition call_key :: "next_call \<Rightarrow> ULONG" where
  "call_key c = (case snd c of None \<Rightarrow> 0 | Some k \<Rightarrow> k)"

definition call_flags :: "next_call \<Rightarrow> DOE_SIO set" where
  "call_flags c = (case snd c of None \<Rightarrow> {DOE_SIO_NO_KEY} | Some k \<Rightarrow> {DOE_SIO_WITH_KEY}) \<union> (if fst c then {DOE_SIO_CANCELABLE} else {})"

definition save_call :: "ULONG \<Rightarrow> DOE_SIO set \<Rightarrow> DEVICE_OBJECT \<Rightarrow> DEVICE_OBJECT" where
  "save_call Key Flags d = d\<lparr>do_StartIoFlags := do_StartIoFlags d \<union> Flags, do_StartIoKey := Key\<rparr>"

text \<open>
  One packet of the loop. While the start routine runs, the count is positive, so that a call it
  makes is only saved.
\<close>

definition one_packet :: "(nat \<Rightarrow> next_call list) \<Rightarrow> ULONG \<Rightarrow> DOE_SIO set \<Rightarrow> DEVICE_OBJECT \<Rightarrow> DEVICE_OBJECT option" where
  "one_packet calls CurrentKey Flags d =
     (let d = d\<lparr>do_StartIoFlags := do_StartIoFlags d - PACKET_FLAGS, do_StartIoKey := 0\<rparr> in
      if Flags \<inter> {DOE_SIO_WITH_KEY, DOE_SIO_NO_KEY} = {} then Some d
      else do {
        d \<leftarrow> (if DOE_SIO_WITH_KEY \<in> Flags then IopStartNextPacketByKey (DOE_SIO_CANCELABLE \<in> Flags) CurrentKey d
              else Some (IopStartNextPacket (DOE_SIO_CANCELABLE \<in> Flags) d));
        Some (case do_CurrentIrp d of None \<Rightarrow> d | Some Irp \<Rightarrow> fold (\<lambda>c. save_call (call_key c) (call_flags c)) (calls Irp) d) })"

text \<open>The loop decides with the flags of the call, not with those it has read in the last round.\<close>

partial_function (option) packet_loop ::
  "(nat \<Rightarrow> next_call list) \<Rightarrow> DOE_SIO set \<Rightarrow> ULONG \<Rightarrow> DOE_SIO set \<Rightarrow> DEVICE_OBJECT \<Rightarrow> DEVICE_OBJECT option" where
  "packet_loop calls Flags CurrentKey CurrentFlags d =
     do {
       let d = d\<lparr>do_StartIoCount := do_StartIoCount d + 1\<rparr>;
       d \<leftarrow> (if do_StartIoCount d > 1 then Some (save_call CurrentKey CurrentFlags d) else one_packet calls CurrentKey Flags d);
       let d = d\<lparr>do_StartIoCount := do_StartIoCount d - 1\<rparr>;
       if do_StartIoCount d = 0 then
         let CurrentFlags = do_StartIoFlags d \<inter> PACKET_FLAGS in
         if CurrentFlags \<inter> {DOE_SIO_WITH_KEY, DOE_SIO_NO_KEY} = {} then Some d
         else packet_loop calls Flags (do_StartIoKey d) CurrentFlags d
       else Some d
     }"

declare packet_loop.simps [code]

definition IopStartNextPacketByKeyEx :: "(nat \<Rightarrow> next_call list) \<Rightarrow> ULONG \<Rightarrow> DOE_SIO set \<Rightarrow> DEVICE_OBJECT \<Rightarrow> DEVICE_OBJECT option" where
  "IopStartNextPacketByKeyEx calls Key Flags d = packet_loop calls Flags Key Flags d"

definition IoStartNextPacketByKey :: "(nat \<Rightarrow> next_call list) \<Rightarrow> bool \<Rightarrow> ULONG \<Rightarrow> DEVICE_OBJECT \<Rightarrow> DEVICE_OBJECT option" where
  "IoStartNextPacketByKey calls Cancelable Key d =
     (if DOE_SIO_DEFERRED \<in> do_StartIoFlags d then IopStartNextPacketByKeyEx calls Key (call_flags (Cancelable, Some Key)) d
      else IopStartNextPacketByKey Cancelable Key d)"

definition IoStartNextPacket :: "(nat \<Rightarrow> next_call list) \<Rightarrow> bool \<Rightarrow> DEVICE_OBJECT \<Rightarrow> DEVICE_OBJECT option" where
  "IoStartNextPacket calls Cancelable d =
     (if DOE_SIO_DEFERRED \<in> do_StartIoFlags d then IopStartNextPacketByKeyEx calls 0 (call_flags (Cancelable, None)) d
      else Some (IopStartNextPacket Cancelable d))"

definition IoStartPacket :: "nat \<Rightarrow> ULONG option \<Rightarrow> nat option \<Rightarrow> DEVICE_OBJECT \<Rightarrow> DEVICE_OBJECT option" where
  "IoStartPacket Irp Key CancelFunction d =
     (let d = (if CancelFunction \<noteq> None then set_CancelRoutine Irp CancelFunction d else d) in
      do {
        (Stat, q) \<leftarrow> (case Key of Some k \<Rightarrow> KeInsertByKeyDeviceQueue (do_DeviceQueue d) Irp k | None \<Rightarrow> KeInsertDeviceQueue (do_DeviceQueue d) Irp);
        let d = d\<lparr>do_DeviceQueue := q\<rparr>;
        Some (if \<not> Stat then start_packet (CancelFunction \<noteq> None) Irp d
              else case CancelFunction of
                  Some r \<Rightarrow>
                    if ir_Cancel (do_Irps d Irp) then
                      let d = set_CancelRoutine Irp None d in d\<lparr>do_Cancelled := do_Cancelled d @ [(r, Irp)]\<rparr>
                    else d
                | None \<Rightarrow> d)
      })"

text \<open>\<^const>\<open>None\<close> is the bug check for an IRP that is completed already.\<close>

definition IoCancelIrp :: "nat \<Rightarrow> DEVICE_OBJECT \<Rightarrow> (bool \<times> DEVICE_OBJECT) option" where
  "IoCancelIrp Irp d =
     (let CancelRoutine = ir_CancelRoutine (do_Irps d Irp);
          d = set_CancelRoutine Irp None (d\<lparr>do_Irps := (do_Irps d)(Irp := (do_Irps d Irp)\<lparr>ir_Cancel := True\<rparr>)\<rparr>)
      in case CancelRoutine of
          None \<Rightarrow> Some (False, d)
        | Some r \<Rightarrow>
            if ir_CurrentLocation (do_Irps d Irp) > ir_StackCount (do_Irps d Irp) + 1 then None
            else Some (True, d\<lparr>do_Cancelled := do_Cancelled d @ [(r, Irp)]\<rparr>))"

section \<open>Requests are started one after the other\<close>

text \<open>
  \<open>M\<close> are the requests submitted and not withdrawn. If the queue is used without keys, \<open>S\<close> are the
  same requests in the order of submission.
\<close>

definition io_core :: "nat multiset \<Rightarrow> nat list option \<Rightarrow> DEVICE_OBJECT \<Rightarrow> bool" where
  "io_core M S d =
     (dq_ok (do_DeviceQueue d) \<and> dq_Busy (do_DeviceQueue d) = (do_CurrentIrp d \<noteq> None) \<and>
      (\<forall>irp. do_CurrentIrp d = Some irp \<longrightarrow> do_Started d \<noteq> [] \<and> last (do_Started d) = irp \<and> irp \<notin> set (dq_DeviceListHead (do_DeviceQueue d))) \<and>
      mset (do_Started d) + mset (dq_DeviceListHead (do_DeviceQueue d)) = M \<and>
      (\<forall>s. S = Some s \<longrightarrow> do_Started d @ dq_DeviceListHead (do_DeviceQueue d) = s))"

lemma set_CancelRoutine_simps [simp]:
  "do_DeviceQueue (set_CancelRoutine irp r d) = do_DeviceQueue d" "do_CurrentIrp (set_CancelRoutine irp r d) = do_CurrentIrp d"
  "do_StartIoFlags (set_CancelRoutine irp r d) = do_StartIoFlags d" "do_StartIoCount (set_CancelRoutine irp r d) = do_StartIoCount d"
  "do_StartIoKey (set_CancelRoutine irp r d) = do_StartIoKey d" "do_Started (set_CancelRoutine irp r d) = do_Started d"
  by (simp_all add: set_CancelRoutine_def)

lemma start_packet_simps [simp]:
  "do_DeviceQueue (start_packet c irp d) = do_DeviceQueue d" "do_CurrentIrp (start_packet c irp d) = Some irp"
  "do_StartIoFlags (start_packet c irp d) = do_StartIoFlags d" "do_StartIoCount (start_packet c irp d) = do_StartIoCount d"
  "do_StartIoKey (start_packet c irp d) = do_StartIoKey d" "do_Started (start_packet c irp d) = do_Started d @ [irp]"
  by (simp_all add: start_packet_def Let_def)

lemma save_call_simps [simp]:
  "do_DeviceQueue (save_call k F d) = do_DeviceQueue d" "do_CurrentIrp (save_call k F d) = do_CurrentIrp d"
  "do_StartIoCount (save_call k F d) = do_StartIoCount d" "do_Started (save_call k F d) = do_Started d"
  by (simp_all add: save_call_def)

lemma io_core_cong:
  "do_DeviceQueue d' = do_DeviceQueue d \<Longrightarrow> do_CurrentIrp d' = do_CurrentIrp d \<Longrightarrow> do_Started d' = do_Started d \<Longrightarrow> io_core M S d' = io_core M S d"
  by (simp add: io_core_def)

text \<open>What every start of a next packet leaves behind.\<close>

definition next_ok :: "nat multiset \<Rightarrow> nat list option \<Rightarrow> DEVICE_OBJECT \<Rightarrow> DEVICE_OBJECT \<Rightarrow> bool" where
  "next_ok M S d d' =
     (io_core M S d' \<and> do_StartIoFlags d' = do_StartIoFlags d \<and> do_StartIoCount d' = do_StartIoCount d \<and>
      (do_CurrentIrp d' = None \<or>
       length (dq_DeviceListHead (do_DeviceQueue d')) < length (dq_DeviceListHead (do_DeviceQueue d))))"

lemma IopStartNextPacket_ok:
  assumes "io_core M S d" "do_CurrentIrp d \<noteq> None"
  shows "next_ok M S d (IopStartNextPacket c d)"
proof -
  have q: "dq_ok (do_DeviceQueue d)" "dq_Busy (do_DeviceQueue d)"
    using assms by (simp_all add: io_core_def)
  from q show ?thesis
  proof (cases rule: fifo.removed)
    case (idle q')
    then show ?thesis
      using assms by (simp add: next_ok_def io_core_def IopStartNextPacket_def)
  next
    case (request e q')
    have "dq_DeviceListHead (do_DeviceQueue d) = e # dq_DeviceListHead q'"
      using request(1) by (auto simp: KeRemoveDeviceQueue_def split: list.splits)
    then show ?thesis
      using assms request by (simp add: next_ok_def io_core_def IopStartNextPacket_def)
  qed
qed

lemma IopStartNextPacketByKey_ok:
  assumes "io_core M None d" "do_CurrentIrp d \<noteq> None"
  obtains d' where "IopStartNextPacketByKey c k d = Some d'" "next_ok M None d d'"
proof -
  have q: "dq_ok (do_DeviceQueue d)" "dq_Busy (do_DeviceQueue d)"
    using assms by (simp_all add: io_core_def)
  from q show thesis
  proof (cases rule: keyed.removed[of _ k])
    case (idle q')
    then have "IopStartNextPacketByKey c k d = Some (d\<lparr>do_CurrentIrp := None, do_DeviceQueue := q'\<rparr>)"
      by (simp add: IopStartNextPacketByKey_def)
    moreover have "next_ok M None d (d\<lparr>do_CurrentIrp := None, do_DeviceQueue := q'\<rparr>)"
      using assms idle by (simp add: next_ok_def io_core_def)
    ultimately show thesis
      by (rule that)
  next
    case (request e q')
    then have "length (dq_DeviceListHead q') < length (dq_DeviceListHead (do_DeviceQueue d))"
      by (metis size_mset size_add_mset lessI)
    then have "next_ok M None d (start_packet c e (d\<lparr>do_CurrentIrp := None, do_DeviceQueue := q'\<rparr>))"
      using assms request by (simp add: next_ok_def io_core_def)
    moreover have "IopStartNextPacketByKey c k d = Some (start_packet c e (d\<lparr>do_CurrentIrp := None, do_DeviceQueue := q'\<rparr>))"
      using request(1) by (simp add: IopStartNextPacketByKey_def)
    ultimately show thesis
      using that by blast
  qed
qed

lemma fold_save_call [simp]:
  "do_DeviceQueue (fold (\<lambda>c. save_call (call_key c) (call_flags c)) cs d) = do_DeviceQueue d"
  "do_CurrentIrp (fold (\<lambda>c. save_call (call_key c) (call_flags c)) cs d) = do_CurrentIrp d"
  "do_StartIoCount (fold (\<lambda>c. save_call (call_key c) (call_flags c)) cs d) = do_StartIoCount d"
  "do_Started (fold (\<lambda>c. save_call (call_key c) (call_flags c)) cs d) = do_Started d"
  by (induction cs arbitrary: d) simp_all

lemma one_packet_ok:
  assumes "io_core M S d" "do_CurrentIrp d \<noteq> None" "Flags \<inter> {DOE_SIO_WITH_KEY, DOE_SIO_NO_KEY} \<noteq> {}" "S \<noteq> None \<Longrightarrow> DOE_SIO_WITH_KEY \<notin> Flags"
  obtains d' where "one_packet calls k Flags d = Some d'" "io_core M S d'" "do_StartIoCount d' = do_StartIoCount d"
    "do_CurrentIrp d' = None \<Longrightarrow> do_StartIoFlags d' \<inter> PACKET_FLAGS = {}"
    "do_CurrentIrp d' \<noteq> None \<Longrightarrow> length (dq_DeviceListHead (do_DeviceQueue d')) < length (dq_DeviceListHead (do_DeviceQueue d))"
proof -
  define e where "e = d\<lparr>do_StartIoFlags := do_StartIoFlags d - PACKET_FLAGS, do_StartIoKey := 0\<rparr>"
  have e: "io_core M S e" "do_CurrentIrp e \<noteq> None" "do_StartIoFlags e \<inter> PACKET_FLAGS = {}" "do_StartIoCount e = do_StartIoCount d"
    "do_DeviceQueue e = do_DeviceQueue d"
    using assms(1,2) by (auto simp: e_def io_core_def)
  obtain x where x: "(if DOE_SIO_WITH_KEY \<in> Flags then IopStartNextPacketByKey (DOE_SIO_CANCELABLE \<in> Flags) k e
              else Some (IopStartNextPacket (DOE_SIO_CANCELABLE \<in> Flags) e)) = Some x" "next_ok M S e x"
  proof (cases "DOE_SIO_WITH_KEY \<in> Flags")
    case True
    then have S: "S = None"
      using assms(4) by blast
    show thesis
      using IopStartNextPacketByKey_ok[OF e(1)[unfolded S] e(2)] True S that by metis
  qed (use IopStartNextPacket_ok[OF e(1,2)] that in simp)
  define d' where "d' = (case do_CurrentIrp x of None \<Rightarrow> x | Some Irp \<Rightarrow> fold (\<lambda>c. save_call (call_key c) (call_flags c)) (calls Irp) x)"
  have d': "do_DeviceQueue d' = do_DeviceQueue x" "do_CurrentIrp d' = do_CurrentIrp x" "do_Started d' = do_Started x"
    "do_StartIoCount d' = do_StartIoCount x" "do_CurrentIrp x = None \<Longrightarrow> d' = x"
    by (simp_all add: d'_def split: option.split)
  show thesis
  proof (rule that)
    show "one_packet calls k Flags d = Some d'"
      unfolding one_packet_def Let_def e_def[symmetric] using assms(3) x(1) by (cases "DOE_SIO_WITH_KEY \<in> Flags") (simp_all add: d'_def)
    show "io_core M S d'"
      using x(2) io_core_cong[OF d'(1-3)] by (simp add: next_ok_def)
    show "do_StartIoCount d' = do_StartIoCount d"
      using x(2) d'(4) e(4) by (simp add: next_ok_def)
    show "do_StartIoFlags d' \<inter> PACKET_FLAGS = {}" if "do_CurrentIrp d' = None"
      using x(2) d'(2,5) e(3) that by (simp add: next_ok_def)
    show "length (dq_DeviceListHead (do_DeviceQueue d')) < length (dq_DeviceListHead (do_DeviceQueue d))" if "do_CurrentIrp d' \<noteq> None"
      using x(2) d'(1,2) e(5) that by (auto simp: next_ok_def)
  qed
qed

text \<open>The loop ends because every round with another one after it takes a request out of the queue.\<close>

lemma packet_loop_ok:
  assumes "io_core M S d" "do_CurrentIrp d \<noteq> None" "do_StartIoCount d = 0" "Flags \<inter> {DOE_SIO_WITH_KEY, DOE_SIO_NO_KEY} \<noteq> {}"
    "S \<noteq> None \<Longrightarrow> DOE_SIO_WITH_KEY \<notin> Flags"
  shows "\<exists>d'. packet_loop calls Flags k F d = Some d' \<and> io_core M S d' \<and> do_StartIoCount d' = 0"
  using assms
proof (induction "length (dq_DeviceListHead (do_DeviceQueue d))" arbitrary: d k F rule: less_induct)
  case less
  let ?d = "d\<lparr>do_StartIoCount := 1\<rparr>"
  have "io_core M S ?d" "do_CurrentIrp ?d \<noteq> None"
    using less.prems(1,2) by (simp_all add: io_core_def)
  then obtain x where x: "one_packet calls k Flags ?d = Some x" "io_core M S x" "do_StartIoCount x = 1"
    "do_CurrentIrp x = None \<Longrightarrow> do_StartIoFlags x \<inter> PACKET_FLAGS = {}"
    "do_CurrentIrp x \<noteq> None \<Longrightarrow> length (dq_DeviceListHead (do_DeviceQueue x)) < length (dq_DeviceListHead (do_DeviceQueue d))"
    using one_packet_ok[of M S ?d Flags calls k] less.prems(4,5) by auto
  let ?x = "x\<lparr>do_StartIoCount := 0\<rparr>"
  have core: "io_core M S ?x"
    using x(2) by (simp add: io_core_def)
  have loop: "packet_loop calls Flags k F d =
      (if do_StartIoFlags x \<inter> PACKET_FLAGS \<inter> {DOE_SIO_WITH_KEY, DOE_SIO_NO_KEY} = {} then Some ?x
       else packet_loop calls Flags (do_StartIoKey x) (do_StartIoFlags x \<inter> PACKET_FLAGS) ?x)"
    using less.prems(3) x(1,3) by (subst packet_loop.simps) (simp add: Let_def)
  show ?case
  proof (cases "do_StartIoFlags x \<inter> PACKET_FLAGS \<inter> {DOE_SIO_WITH_KEY, DOE_SIO_NO_KEY} = {}")
    case True
    then show ?thesis
      using loop core by simp
  next
    case False
    then have "do_CurrentIrp x \<noteq> None"
      using x(4) by auto
    then have "\<exists>d'. packet_loop calls Flags (do_StartIoKey x) (do_StartIoFlags x \<inter> PACKET_FLAGS) ?x = Some d' \<and> io_core M S d' \<and> do_StartIoCount d' = 0"
      using x(5) core less.prems(4,5) by (intro less.hyps) simp_all
    then show ?thesis
      unfolding loop if_not_P[OF False] .
  qed
qed

lemma IoStartNextPacket_ok:
  assumes "io_core M S d" "do_CurrentIrp d \<noteq> None" "do_StartIoCount d = 0"
  shows "\<exists>d'. IoStartNextPacket calls c d = Some d' \<and> io_core M S d' \<and> do_StartIoCount d' = 0"
proof (cases "DOE_SIO_DEFERRED \<in> do_StartIoFlags d")
  case True
  show ?thesis
    using packet_loop_ok[OF assms, of "call_flags (c, None)"] True
    by (simp add: IoStartNextPacket_def IopStartNextPacketByKeyEx_def call_flags_def)
next
  case False
  then show ?thesis
    using IopStartNextPacket_ok[OF assms(1,2), of c] assms(3) by (simp add: IoStartNextPacket_def next_ok_def)
qed

lemma IoStartNextPacketByKey_ok:
  assumes "io_core M None d" "do_CurrentIrp d \<noteq> None" "do_StartIoCount d = 0"
  shows "\<exists>d'. IoStartNextPacketByKey calls c k d = Some d' \<and> io_core M None d' \<and> do_StartIoCount d' = 0"
proof (cases "DOE_SIO_DEFERRED \<in> do_StartIoFlags d")
  case True
  show ?thesis
    using packet_loop_ok[OF assms, of "call_flags (c, Some k)"] True
    by (simp add: IoStartNextPacketByKey_def IopStartNextPacketByKeyEx_def call_flags_def)
next
  case False
  obtain d' where "IopStartNextPacketByKey c k d = Some d'" "next_ok M None d d'"
    by (rule IopStartNextPacketByKey_ok[OF assms(1,2)])
  then show ?thesis
    using False assms(3) by (simp add: IoStartNextPacketByKey_def next_ok_def)
qed

text \<open>Handing a request to the queue, with a key or without.\<close>

lemma packet_inserted:
  assumes "dq_ok q" "irp \<notin> set (dq_DeviceListHead q)"
  obtains q' where "(case Key of Some k \<Rightarrow> KeInsertByKeyDeviceQueue q irp k | None \<Rightarrow> KeInsertDeviceQueue q irp) = Some (dq_Busy q, q')"
    "dq_ok q'" "dq_Busy q'" "mset (dq_DeviceListHead q') = mset (dq_DeviceListHead q) + (if dq_Busy q then {#irp#} else {#})"
    "Key = None \<longrightarrow> dq_DeviceListHead q' = dq_DeviceListHead q @ (if dq_Busy q then [irp] else [])"
proof (cases Key)
  case None
  obtain q' where q': "KeInsertDeviceQueue q irp = Some (dq_Busy q, q')" "dq_ok q'" "dq_Busy q'"
    by (rule fifo.inserted[OF assms])
  then have "dq_DeviceListHead q' = dq_DeviceListHead q @ (if dq_Busy q then [irp] else [])"
    using assms(2) by (auto simp: KeInsertDeviceQueue_def split: if_splits)
  then show thesis
    using that[of q'] q' None by simp
next
  case (Some k)
  obtain q' where q': "KeInsertByKeyDeviceQueue q irp k = Some (dq_Busy q, q')" "dq_ok q'" "dq_Busy q'"
    "dq_Busy q \<longrightarrow> mset (dq_DeviceListHead q') = add_mset irp (mset (dq_DeviceListHead q))" "\<not> dq_Busy q \<longrightarrow> dq_DeviceListHead q' = []"
    by (rule keyed.inserted[OF assms, where k = k])
  then show thesis
    using that[of q'] Some fifo.idle_empty[OF assms(1)] by simp
qed

lemma IoStartPacket_ok:
  assumes "io_core M S d" "irp \<notin> set (dq_DeviceListHead (do_DeviceQueue d))" "do_CurrentIrp d \<noteq> Some irp" "S \<noteq> None \<Longrightarrow> Key = None"
  shows "\<exists>d'. IoStartPacket irp Key r d = Some d' \<and> io_core (add_mset irp M) (map_option (\<lambda>s. s @ [irp]) S) d' \<and> do_StartIoCount d' = do_StartIoCount d"
proof -
  let ?q = "do_DeviceQueue d"
  have q: "dq_ok ?q" "dq_Busy ?q = (do_CurrentIrp d \<noteq> None)"
    using assms(1) by (simp_all add: io_core_def)
  obtain q' where q': "(case Key of Some k \<Rightarrow> KeInsertByKeyDeviceQueue ?q irp k | None \<Rightarrow> KeInsertDeviceQueue ?q irp) = Some (dq_Busy ?q, q')"
    "dq_ok q'" "dq_Busy q'" "mset (dq_DeviceListHead q') = mset (dq_DeviceListHead ?q) + (if dq_Busy ?q then {#irp#} else {#})"
    "Key = None \<longrightarrow> dq_DeviceListHead q' = dq_DeviceListHead ?q @ (if dq_Busy ?q then [irp] else [])"
    by (rule packet_inserted[OF q(1) assms(2), where Key = Key])
  have "\<exists>d'. IoStartPacket irp Key r d = Some d' \<and> do_DeviceQueue d' = q' \<and> do_StartIoCount d' = do_StartIoCount d \<and>
      do_CurrentIrp d' = (if dq_Busy ?q then do_CurrentIrp d else Some irp) \<and> do_Started d' = do_Started d @ (if dq_Busy ?q then [] else [irp])"
    using q'(1) by (cases "dq_Busy ?q"; cases r; cases Key) (simp_all add: IoStartPacket_def Let_def)
  then obtain d' where d': "IoStartPacket irp Key r d = Some d'" "do_DeviceQueue d' = q'" "do_StartIoCount d' = do_StartIoCount d"
    "do_CurrentIrp d' = (if dq_Busy ?q then do_CurrentIrp d else Some irp)" "do_Started d' = do_Started d @ (if dq_Busy ?q then [] else [irp])"
    by blast
  have S: "do_Started d @ dq_DeviceListHead ?q = s" if "S = Some s" for s
    using assms(1) that by (simp add: io_core_def)
  have M: "mset (do_Started d) + mset (dq_DeviceListHead ?q) = M"
    using assms(1) by (simp add: io_core_def)
  have "io_core (add_mset irp M) (map_option (\<lambda>s. s @ [irp]) S) d'"
  proof (cases "dq_Busy ?q")
    case True
    then have "set (dq_DeviceListHead q') = insert irp (set (dq_DeviceListHead ?q))"
      using q'(4) mset_eq_setD[of "dq_DeviceListHead q'" "irp # dq_DeviceListHead ?q"] by simp
    then show ?thesis
      using assms(1,3,4) True d' q' S M q(2) by (auto simp: io_core_def)
  next
    case False
    then have "dq_DeviceListHead ?q = []" "dq_DeviceListHead q' = []"
      using fifo.idle_empty[OF q(1)] q'(4) by simp_all
    then show ?thesis
      using assms(4) False d' q' S M by (auto simp: io_core_def)
  qed
  then show ?thesis
    using d'(1,3) by blast
qed

section \<open>All operations of a device\<close>

text \<open>
  \<open>b\<close> says that the queue is used without keys, and that no request is withdrawn. A driver asks for
  the next packet when it has a current one; a request that is waiting or current is not submitted
  again; a cancel routine may take a waiting request out of the queue.
\<close>

definition new_device :: "KDEVICE_QUEUE \<Rightarrow> (nat \<Rightarrow> IRP) \<Rightarrow> DEVICE_OBJECT" where
  "new_device q irps = \<lparr>do_DeviceQueue = KeInitializeDeviceQueue q, do_CurrentIrp = None, do_StartIoFlags = {}, do_StartIoCount = 0, do_StartIoKey = 0,
     do_Irps = irps, do_Started = [], do_Cancelled = []\<rparr>"

inductive io_reachable :: "bool \<Rightarrow> (nat \<Rightarrow> next_call list) \<Rightarrow> nat list \<Rightarrow> nat list \<Rightarrow> DEVICE_OBJECT \<Rightarrow> bool" for b calls where
  init: "(\<And>e. \<not> de_Inserted (dq_Entries q e)) \<Longrightarrow> io_reachable b calls [] [] (new_device q irps)"
| attributes: "io_reachable b calls sub wd d \<Longrightarrow> io_reachable b calls sub wd (IoSetStartIoAttributes x y d)"
| start: "io_reachable b calls sub wd d \<Longrightarrow> irp \<notin> set (dq_DeviceListHead (do_DeviceQueue d)) \<Longrightarrow> do_CurrentIrp d \<noteq> Some irp \<Longrightarrow>
    (b \<Longrightarrow> Key = None) \<Longrightarrow> IoStartPacket irp Key r d = Some d' \<Longrightarrow> io_reachable b calls (sub @ [irp]) wd d'"
| next_packet: "io_reachable b calls sub wd d \<Longrightarrow> do_CurrentIrp d \<noteq> None \<Longrightarrow> IoStartNextPacket calls c d = Some d' \<Longrightarrow> io_reachable b calls sub wd d'"
| next_by_key: "io_reachable b calls sub wd d \<Longrightarrow> do_CurrentIrp d \<noteq> None \<Longrightarrow> \<not> b \<Longrightarrow> IoStartNextPacketByKey calls c k d = Some d' \<Longrightarrow>
    io_reachable b calls sub wd d'"
| cancel: "io_reachable b calls sub wd d \<Longrightarrow> IoCancelIrp irp d = Some (x, d') \<Longrightarrow> io_reachable b calls sub wd d'"
| withdraw: "io_reachable b calls sub wd d \<Longrightarrow> \<not> b \<Longrightarrow> KeRemoveEntryDeviceQueue (do_DeviceQueue d) irp = Some (True, q) \<Longrightarrow>
    io_reachable b calls sub (wd @ [irp]) (d\<lparr>do_DeviceQueue := q\<rparr>)"

definition io_inv :: "bool \<Rightarrow> nat list \<Rightarrow> nat list \<Rightarrow> DEVICE_OBJECT \<Rightarrow> bool" where
  "io_inv b sub wd d = (do_StartIoCount d = 0 \<and> (\<exists>M. io_core M (if b then Some sub else None) d \<and> M + mset wd = mset sub))"

lemma IoCancelIrp_frame:
  assumes "IoCancelIrp irp d = Some (x, d')"
  shows "do_DeviceQueue d' = do_DeviceQueue d" "do_CurrentIrp d' = do_CurrentIrp d" "do_Started d' = do_Started d" "do_StartIoCount d' = do_StartIoCount d"
  using assms by (auto simp: IoCancelIrp_def Let_def split: option.splits if_splits)

lemma withdraw_ok:
  assumes "io_core M None d" "KeRemoveEntryDeviceQueue (do_DeviceQueue d) irp = Some (True, q)"
  obtains M' where "io_core M' None (d\<lparr>do_DeviceQueue := q\<rparr>)" "M = add_mset irp M'"
proof -
  let ?l = "dq_DeviceListHead (do_DeviceQueue d)"
  have q: "irp \<in> set ?l" "q = set_Inserted irp False (do_DeviceQueue d\<lparr>dq_DeviceListHead := remove1 irp ?l\<rparr>)"
    using assms(2) by (auto simp: KeRemoveEntryDeviceQueue_def split: if_splits)
  have ok: "dq_ok q"
    using assms(1) q by (auto simp: dq_ok_def io_core_def split: if_splits)
  show thesis
  proof (rule that)
    show "io_core (mset (do_Started d) + mset (remove1 irp ?l)) None (d\<lparr>do_DeviceQueue := q\<rparr>)"
      using assms(1) ok q(2) by (auto simp: io_core_def dest: notin_set_remove1)
    have "irp \<in># M"
      using assms(1) q(1) by (auto simp: io_core_def)
    then show "M = add_mset irp (mset (do_Started d) + mset (remove1 irp ?l))"
      using assms(1) q(1) by (simp add: io_core_def)
  qed
qed

lemma io_reachable_inv:
  assumes "io_reachable b calls sub wd d"
  shows "io_inv b sub wd d"
  using assms
proof induction
  case (init q irps)
  then show ?case
    by (simp add: io_inv_def io_core_def new_device_def KeInitializeDeviceQueue_def dq_ok_def)
next
  case (attributes sub wd d x y)
  then show ?case
    by (simp add: io_inv_def io_core_def IoSetStartIoAttributes_def)
next
  case (start sub wd d irp Key r d')
  obtain M where M: "io_core M (if b then Some sub else None) d" "M + mset wd = mset sub" "do_StartIoCount d = 0"
    using start.IH by (auto simp: io_inv_def)
  have "\<exists>d'. IoStartPacket irp Key r d = Some d' \<and> io_core (add_mset irp M) (map_option (\<lambda>s. s @ [irp]) (if b then Some sub else None)) d' \<and>
      do_StartIoCount d' = do_StartIoCount d"
    by (rule IoStartPacket_ok[OF M(1) start.hyps(2,3)]) (use start.hyps(4) in \<open>simp split: if_splits\<close>)
  then show ?case
    using start.hyps(5) M(2,3) by (auto simp: io_inv_def intro!: exI[of _ "add_mset irp M"] split: if_splits)
next
  case (next_packet sub wd d c d')
  then show ?case
    using IoStartNextPacket_ok[of _ "if b then Some sub else None" d calls c] by (fastforce simp: io_inv_def)
next
  case (next_by_key sub wd d c k d')
  then show ?case
    using IoStartNextPacketByKey_ok[of _ d calls c k] by (fastforce simp: io_inv_def)
next
  case (cancel sub wd d irp x d')
  then show ?case
    using IoCancelIrp_frame[OF cancel.hyps(2)] io_core_cong[of d' d] by (simp add: io_inv_def)
next
  case (withdraw sub wd d irp q)
  then obtain M where M: "io_core M None d" "M + mset wd = mset sub" "do_StartIoCount d = 0"
    by (auto simp: io_inv_def)
  obtain M' where "io_core M' None (d\<lparr>do_DeviceQueue := q\<rparr>)" "M = add_mset irp M'"
    by (rule withdraw_ok[OF M(1) withdraw.hyps(3)])
  then show ?case
    using M(2,3) withdraw.hyps(2) by (auto simp: io_inv_def)
qed

section \<open>Properties\<close>

text \<open>
  C4: the requests of a device are served one at a time and none is lost. Whatever sequence of
  submissions, cancellations and calls for the next packet has happened, in deferred mode or not:
  the requests submitted are those started, those waiting and those withdrawn; the current request
  is the one started last and is not waiting; without a current one nothing is waiting; and if no
  keys are used and no request is withdrawn, requests start in the order of submission.
\<close>

theorem io_requests_accounted:
  assumes "io_reachable b calls sub wd d"
  shows "mset sub = mset (do_Started d) + mset (dq_DeviceListHead (do_DeviceQueue d)) + mset wd \<and>
    (case do_CurrentIrp d of
       None \<Rightarrow> dq_DeviceListHead (do_DeviceQueue d) = []
     | Some irp \<Rightarrow> do_Started d \<noteq> [] \<and> last (do_Started d) = irp \<and> irp \<notin> set (dq_DeviceListHead (do_DeviceQueue d))) \<and>
    (b \<longrightarrow> do_Started d @ dq_DeviceListHead (do_DeviceQueue d) = sub)"
proof -
  obtain M where M: "io_core M (if b then Some sub else None) d" "M + mset wd = mset sub"
    using io_reachable_inv[OF assms] by (auto simp: io_inv_def)
  have "dq_DeviceListHead (do_DeviceQueue d) = []" if "do_CurrentIrp d = None"
    using M(1) that by (intro fifo.idle_empty) (simp_all add: io_core_def)
  then show ?thesis
    using M by (auto simp: io_core_def split: option.split)
qed

text \<open>Three requests; the first is current when deferred mode is set, and the start of the second asks for the next.\<close>

definition eager :: "nat \<Rightarrow> next_call list" where
  "eager irp = (if irp = 2 then [(False, None)] else [])"

definition idle_device :: DEVICE_OBJECT where
  "idle_device = new_device \<lparr>dq_DeviceListHead = [], dq_Busy = False, dq_Entries = (\<lambda>_. \<lparr>de_SortKey = 0, de_Inserted = False\<rparr>)\<rparr>
     (\<lambda>_. \<lparr>ir_Cancel = False, ir_CancelRoutine = None, ir_CurrentLocation = 1, ir_StackCount = 1\<rparr>)"

definition submit :: "nat \<Rightarrow> ULONG option \<Rightarrow> DEVICE_OBJECT \<Rightarrow> DEVICE_OBJECT" where
  "submit irp k d = the (IoStartPacket irp k None d)"

definition loaded :: DEVICE_OBJECT where
  "loaded = IoSetStartIoAttributes True False (submit 3 None (submit 2 None (submit 1 None idle_device)))"

lemma loaded_reachable: "io_reachable True eager [1, 2, 3] [] loaded"
proof -
  note ops = submit_def idle_device_def new_device_def IoStartPacket_def KeInitializeDeviceQueue_def KeInsertDeviceQueue_def start_packet_def
    set_Inserted_def Let_def
  have r0: "io_reachable True eager [] [] idle_device"
    unfolding idle_device_def by (rule io_reachable.init) simp
  have r1: "io_reachable True eager ([] @ [1]) [] (submit 1 None idle_device)"
    by (rule io_reachable.start[OF r0, where Key = None and r = None]) (simp_all add: ops)
  have r2: "io_reachable True eager (([] @ [1]) @ [2]) [] (submit 2 None (submit 1 None idle_device))"
    by (rule io_reachable.start[OF r1, where Key = None and r = None]) (simp_all add: ops)
  have "io_reachable True eager ((([] @ [1]) @ [2]) @ [3]) [] (submit 3 None (submit 2 None (submit 1 None idle_device)))"
    by (rule io_reachable.start[OF r2, where Key = None and r = None]) (simp_all add: ops)
  then show ?thesis
    unfolding loaded_def by (auto intro: io_reachable.attributes)
qed

lemma loaded_view: "do_CurrentIrp loaded = Some 1" "dq_DeviceListHead (do_DeviceQueue loaded) = [2, 3]" "do_Started loaded = [1]"
  by code_simp+

theorem io_requests_accounted_witness:
  "\<exists>d. IoStartNextPacket eager False loaded = Some d \<and> do_Started d = [1, 2, 3] \<and> io_reachable True eager [1, 2, 3] [] d \<and>
       do_Started d @ dq_DeviceListHead (do_DeviceQueue d) = [1, 2, 3]"
proof -
  have s: "map_option do_Started (IoStartNextPacket eager False loaded) = Some [1, 2, 3]"
    by code_simp
  then obtain d where d: "IoStartNextPacket eager False loaded = Some d" "do_Started d = [1, 2, 3]"
    by auto
  have r: "io_reachable True eager [1, 2, 3] [] d"
    by (rule io_reachable.next_packet[OF loaded_reachable _ d(1)]) (simp add: loaded_view)
  show ?thesis
    using io_requests_accounted[OF r] d r by auto
qed

text \<open>
  C20: submitting a request and asking for the next packet return in every state of a device that
  can be reached, with a key or without; in deferred mode the loop that serves the calls of the
  start routine ends, whatever calls the routine makes.
\<close>

theorem start_packet_returns:
  assumes "io_reachable b calls sub wd d"
  shows "(do_CurrentIrp d \<noteq> None \<longrightarrow> (\<exists>d'. IoStartNextPacket calls c d = Some d') \<and> (\<exists>d'. IoStartNextPacketByKey calls c k d = Some d')) \<and>
    (irp \<notin> set (dq_DeviceListHead (do_DeviceQueue d)) \<longrightarrow> do_CurrentIrp d \<noteq> Some irp \<longrightarrow> (\<exists>d'. IoStartPacket irp Key r d = Some d'))"
proof -
  obtain M where M: "io_core M (if b then Some sub else None) d" "do_StartIoCount d = 0"
    using io_reachable_inv[OF assms] by (auto simp: io_inv_def)
  then have "io_core M None d"
    by (simp add: io_core_def)
  then show ?thesis
    using M(2) IoStartNextPacket_ok[of M None d calls c] IoStartNextPacketByKey_ok[of M d calls c k] IoStartPacket_ok[of M None d irp Key r]
    by blast
qed

theorem start_packet_returns_witness:
  "(\<exists>d. IoStartNextPacket eager True loaded = Some d) \<and> (\<exists>d. IoStartPacket 4 (Some 7) None loaded = Some d)"
  using start_packet_returns[OF loaded_reachable, of True 0 4 "Some 7" None] by (simp add: loaded_view)

text \<open>
  In deferred mode the key of a call that the start routine makes is lost: the loop starts the first
  request of the queue although the routine has asked for the one from key 8 on.
\<close>

definition keyed_device :: DEVICE_OBJECT where
  "keyed_device = IoSetStartIoAttributes True False
     (submit 4 (Some 9) (submit 3 (Some 7) (submit 2 (Some 5) (submit 1 None idle_device))))"

lemma deferred_start_loses_key:
  "map_option do_Started (IoStartNextPacket (\<lambda>irp. if irp = 2 then [(False, Some 8)] else []) False keyed_device) = Some [1, 2, 3]"
  "map_option do_Started (Option.bind (IoStartNextPacket (\<lambda>irp. []) False keyed_device) (IoStartNextPacketByKey (\<lambda>irp. []) False 8)) = Some [1, 2, 4]"
  by code_simp+

end
