(* ===== verification/Ke_Types.thy ===== *)
theory Ke_Types
  imports NT_Prelude
begin

text \<open>
  The dispatcher database of the kernel: dispatcher objects, threads, wait blocks
  (\<open>sdk/include/ndk/ketypes.h\<close>, \<open>sdk/include/xdk/ketypes.h\<close>) and the routines of
  \<open>ntoskrnl/include/internal/ke_x.h\<close> and \<open>ntoskrnl/ke/wait.c\<close> that satisfy a wait and
  unlink a thread.

  A dispatcher object is named by its address \<open>Obj n\<close>; the timer that is embedded in thread
  \<open>t\<close> is \<open>TimerOf t\<close>. Every operation runs under the dispatcher lock and is one function on
  the state. A doubly linked list is the list of its entries; \<open>InsertTailList\<close> appends,
  \<open>RemoveEntryList\<close> removes the entry from the list it is in. Where the code raises an
  exception, the operation returns \<^const>\<open>Inl\<close> of the status.
\<close>

section \<open>Objects, wait blocks and threads\<close>

text \<open>The kinds of objects a thread can wait for; the other values mark control objects.\<close>

datatype KOBJECTS = EventNotificationObject | EventSynchronizationObject | MutantObject | ProcessObject
  | QueueObject | SemaphoreObject | ThreadObject | GateObject | TimerNotificationObject | TimerSynchronizationObject

fun KOBJECTS_value :: "KOBJECTS \<Rightarrow> int" where
  "KOBJECTS_value EventNotificationObject = 0"
| "KOBJECTS_value EventSynchronizationObject = 1"
| "KOBJECTS_value MutantObject = 2"
| "KOBJECTS_value ProcessObject = 3"
| "KOBJECTS_value QueueObject = 4"
| "KOBJECTS_value SemaphoreObject = 5"
| "KOBJECTS_value ThreadObject = 6"
| "KOBJECTS_value GateObject = 7"
| "KOBJECTS_value TimerNotificationObject = 8"
| "KOBJECTS_value TimerSynchronizationObject = 9"

datatype WAIT_TYPE = WaitAll | WaitAny
datatype KPROCESSOR_MODE = KernelMode | UserMode
datatype KTHREAD_STATE = Initialized | Ready | Running | Standby | Terminated | Waiting | Transition | DeferredReady | GateWait
datatype ADJUST_REASON = AdjustNone | AdjustUnwait | AdjustBoost

type_synonym tid = nat

datatype oid = Obj nat | TimerOf tid

text \<open>The wait blocks of a thread are told apart by their place in the array; the timer has its own.\<close>

datatype slot = Slot nat | TimerSlot

record KWAIT_BLOCK =
  wb_Thread :: tid
  wb_Slot :: slot
  wb_Object :: oid
  wb_WaitKey :: int
  wb_WaitType :: WAIT_TYPE

text \<open>
  The header and the fields of the object that embeds it: owner, abandoned flag and
  \<open>ApcDisable\<close> of a mutant, limit of a semaphore, the flags, due time, period and presence of a DPC
  of a timer, the entry list, thread list and thread counts of a queue. The last field is an
  auxiliary one that no operation reads: it records that \<open>KeRundownQueue\<close> has run on a queue
  since it was initialised.
\<close>

record KOBJECT =
  ob_Type :: KOBJECTS
  ob_SignalState :: int
  ob_WaitList :: "KWAIT_BLOCK list"
  ob_OwnerThread :: "tid option"
  ob_Abandoned :: bool
  ob_ApcDisable :: bool
  ob_Limit :: int
  ob_Inserted :: bool
  ob_Absolute :: bool
  ob_Hand :: nat
  ob_DueTime :: int
  ob_Period :: int
  ob_Dpc :: bool
  ob_EntryList :: "int list"
  ob_ThreadList :: "tid list"
  ob_CurrentCount :: nat
  ob_MaximumCount :: nat
  ob_RunDown :: bool

record KTHREAD =
  th_State :: KTHREAD_STATE
  th_WaitStatus :: int
  th_WaitBlockList :: "KWAIT_BLOCK list"
  th_WaitNext :: bool
  th_WaitIrql :: nat
  th_WaitMode :: KPROCESSOR_MODE
  th_WaitReason :: nat
  th_Alertable :: bool
  th_Alerted :: "KPROCESSOR_MODE \<Rightarrow> bool"
  th_KernelApcPending :: bool
  th_UserApcPending :: bool
  th_ApcList :: "KPROCESSOR_MODE \<Rightarrow> nat list"
  th_ApcStateIndex :: nat
  th_SavedApcList :: "KPROCESSOR_MODE \<Rightarrow> nat list"
  th_SavedKernelApcPending :: bool
  th_SavedUserApcPending :: bool
  th_KernelApcInProgress :: bool
  th_ApcQueueable :: bool
  th_SpecialApcDisable :: bool
  th_KernelApcDisable :: int
  th_MutantList :: "oid list"
  th_Queue :: "oid option"
  th_Priority :: int
  th_BasePriority :: int
  th_PriorityDecrement :: int
  th_AdjustIncrement :: int
  th_AdjustReason :: ADJUST_REASON

text \<open>
  An APC object: its thread, mode and environment, whether it has a normal routine, and whether
  its kernel routine is the one that ends the thread. A thread has one list of APCs for each
  mode in the environment it is in (\<open>ApcState\<close>), and one in the other environment
  (\<open>SavedApcState\<close>).
\<close>

record KAPC =
  ap_Thread :: tid
  ap_ApcMode :: KPROCESSOR_MODE
  ap_ApcStateIndex :: nat
  ap_NormalRoutine :: bool
  ap_ExitRoutine :: bool
  ap_Inserted :: bool

text \<open>
  The database. The timer table has a list of timers and the time of the first one for each
  of its slots. \<open>KeMaximumIncrement\<close> is the clock increment the kernel was booted with, the
  same for the life of the system.
\<close>

record KSTATE =
  ks_Objects :: "oid \<Rightarrow> KOBJECT"
  ks_Threads :: "tid \<Rightarrow> KTHREAD"
  ks_Apcs :: "nat \<Rightarrow> KAPC"
  ks_TimerTable :: "nat \<Rightarrow> oid list"
  ks_TimerTime :: "nat \<Rightarrow> int"
  ks_KeMaximumIncrement :: nat

text \<open>What the clock shows when an operation reads it.\<close>

record KCLOCK =
  ck_SystemTime :: int
  ck_InterruptTime :: int

definition upd_object :: "oid \<Rightarrow> (KOBJECT \<Rightarrow> KOBJECT) \<Rightarrow> KSTATE \<Rightarrow> KSTATE" where
  "upd_object x f ks = ks\<lparr>ks_Objects := (ks_Objects ks)(x := f (ks_Objects ks x))\<rparr>"

definition upd_thread :: "tid \<Rightarrow> (KTHREAD \<Rightarrow> KTHREAD) \<Rightarrow> KSTATE \<Rightarrow> KSTATE" where
  "upd_thread t f ks = ks\<lparr>ks_Threads := (ks_Threads ks)(t := f (ks_Threads ks t))\<rparr>"

definition set_signal :: "oid \<Rightarrow> int \<Rightarrow> KSTATE \<Rightarrow> KSTATE" where
  "set_signal x s = upd_object x (\<lambda>ob. ob\<lparr>ob_SignalState := s\<rparr>)"

lemma ks_Objects_upd_object [simp]:
  "ks_Objects (upd_object x f ks) = (ks_Objects ks)(x := f (ks_Objects ks x))"
  by (simp add: upd_object_def)

lemma upd_object_frame [simp]:
  "ks_Threads (upd_object x f ks) = ks_Threads ks"
  "ks_TimerTable (upd_object x f ks) = ks_TimerTable ks"
  "ks_TimerTime (upd_object x f ks) = ks_TimerTime ks"
  "ks_KeMaximumIncrement (upd_object x f ks) = ks_KeMaximumIncrement ks"
  by (simp_all add: upd_object_def)

lemma ks_Threads_upd_thread [simp]:
  "ks_Threads (upd_thread t f ks) = (ks_Threads ks)(t := f (ks_Threads ks t))"
  by (simp add: upd_thread_def)

lemma upd_thread_frame [simp]:
  "ks_Objects (upd_thread t f ks) = ks_Objects ks"
  "ks_TimerTable (upd_thread t f ks) = ks_TimerTable ks"
  "ks_TimerTime (upd_thread t f ks) = ks_TimerTime ks"
  "ks_KeMaximumIncrement (upd_thread t f ks) = ks_KeMaximumIncrement ks"
  by (simp_all add: upd_thread_def)

lemma set_signal_simps [simp]:
  "ks_Objects (set_signal x s ks) = (ks_Objects ks)(x := (ks_Objects ks x)\<lparr>ob_SignalState := s\<rparr>)"
  "ks_Threads (set_signal x s ks) = ks_Threads ks"
  "ks_TimerTable (set_signal x s ks) = ks_TimerTable ks"
  "ks_TimerTime (set_signal x s ks) = ks_TimerTime ks"
  "ks_KeMaximumIncrement (set_signal x s ks) = ks_KeMaximumIncrement ks"
  by (simp_all add: set_signal_def)

abbreviation (input) "STATUS_SUCCESS \<equiv> (0 :: int)"
abbreviation (input) "STATUS_WAIT_0 \<equiv> (0 :: int)"
abbreviation (input) "STATUS_ABANDONED \<equiv> (0x80 :: int)"
abbreviation (input) "STATUS_USER_APC \<equiv> (0xC0 :: int)"
abbreviation (input) "STATUS_KERNEL_APC \<equiv> (0x100 :: int)"
abbreviation (input) "STATUS_ALERTED \<equiv> (0x101 :: int)"
abbreviation (input) "STATUS_TIMEOUT \<equiv> (0x102 :: int)"
abbreviation (input) "STATUS_MUTANT_NOT_OWNED \<equiv> (0xC0000046 :: int)"
abbreviation (input) "STATUS_SEMAPHORE_LIMIT_EXCEEDED \<equiv> (0xC0000047 :: int)"
abbreviation (input) "STATUS_MUTANT_LIMIT_EXCEEDED \<equiv> (0xC0000191 :: int)"
abbreviation (input) "MINLONG \<equiv> (- 2147483648 :: int)"
abbreviation (input) "APC_LEVEL \<equiv> (1 :: nat)"
abbreviation (input) "Executive \<equiv> (0 :: nat)"
abbreviation (input) "DelayExecution \<equiv> (4 :: nat)"
abbreviation (input) "WrQueue \<equiv> (15 :: nat)"
abbreviation (input) "TIMER_TABLE_SIZE \<equiv> (512 :: nat)"
abbreviation (input) "LOW_REALTIME_PRIORITY \<equiv> (16 :: int)"

definition s8 :: "int \<Rightarrow> int" where
  "s8 x = (x + 128) mod 256 - 128"

definition u64 :: "int \<Rightarrow> int" where
  "u64 x = x mod 18446744073709551616"

section \<open>Satisfying a wait\<close>

definition KiSatisfyMutantWait :: "oid \<Rightarrow> tid \<Rightarrow> KSTATE \<Rightarrow> KSTATE" where
  "KiSatisfyMutantWait x t ks =
     (let ks = set_signal x (s32 (ob_SignalState (ks_Objects ks x) - 1)) ks;
          ob = ks_Objects ks x
      in if ob_SignalState ob = 0 then
           let ks = upd_object x (\<lambda>ob. ob\<lparr>ob_OwnerThread := Some t\<rparr>) ks;
               ks = upd_thread t (\<lambda>th. th\<lparr>th_KernelApcDisable :=
                      s16 (th_KernelApcDisable th - (if ob_ApcDisable ob then 1 else 0))\<rparr>) ks;
               ks = (if ob_Abandoned ob then
                       upd_thread t (\<lambda>th. th\<lparr>th_WaitStatus := STATUS_ABANDONED\<rparr>)
                         (upd_object x (\<lambda>ob. ob\<lparr>ob_Abandoned := False\<rparr>) ks)
                     else ks)
           in upd_thread t (\<lambda>th. th\<lparr>th_MutantList := th_MutantList th @ [x]\<rparr>) ks
         else ks)"

definition KiSatisfyNonMutantWait :: "oid \<Rightarrow> KSTATE \<Rightarrow> KSTATE" where
  "KiSatisfyNonMutantWait x ks =
     (let ob = ks_Objects ks x
      in if KOBJECTS_value (ob_Type ob) AND 7 = KOBJECTS_value EventSynchronizationObject then set_signal x 0 ks
         else if ob_Type ob = SemaphoreObject then set_signal x (s32 (ob_SignalState ob - 1)) ks
         else ks)"

definition KiSatisfyObjectWait :: "oid \<Rightarrow> tid \<Rightarrow> KSTATE \<Rightarrow> KSTATE" where
  "KiSatisfyObjectWait x t ks =
     (if ob_Type (ks_Objects ks x) = MutantObject then KiSatisfyMutantWait x t ks
      else KiSatisfyNonMutantWait x ks)"

end
