(* ===== verification/Ke_Timer.thy ===== *)
theory Ke_Timer
  imports Ke_Types
begin

text \<open>
  The timer table: due times, insertion and removal of a timer
  (\<open>ntoskrnl/include/internal/ke_x.h\<close>, \<open>ntoskrnl/ke/timerobj.c\<close>), and its invariant. A slot
  of the table is a list of timers in the order of their due times; the time of the slot is
  what the clock interrupt compares with the interrupt time, so it must not lie after the due
  time of a timer in the slot.
\<close>

section \<open>Due times\<close>

definition KiComputeTimerTableIndex :: "KSTATE \<Rightarrow> int \<Rightarrow> nat" where
  "KiComputeTimerTableIndex ks DueTime = nat (DueTime div int (ks_KeMaximumIncrement ks)) mod TIMER_TABLE_SIZE"

definition KiComputeDueTime :: "KCLOCK \<Rightarrow> oid \<Rightarrow> int \<Rightarrow> KSTATE \<Rightarrow> bool \<times> KSTATE" where
  "KiComputeDueTime c x DueTime ks =
     (let DifferenceTime = s64 (ck_SystemTime c - DueTime) in
      if DueTime \<ge> 0 \<and> DifferenceTime \<ge> 0 then
        (False, upd_object x (\<lambda>ob. ob\<lparr>ob_Absolute := True, ob_SignalState := 1, ob_Hand := 0, ob_DueTime := 0\<rparr>) ks)
      else
        let Due = u64 (ck_InterruptTime c - (if DueTime \<ge> 0 then DifferenceTime else DueTime));
            Hand = KiComputeTimerTableIndex ks Due
        in (True, upd_object x (\<lambda>ob. ob\<lparr>ob_Absolute := (DueTime \<ge> 0), ob_DueTime := Due,
                     ob_Hand := Hand mod 256, ob_Inserted := True\<rparr>) ks))"

definition KxSetTimerForThreadWait :: "KCLOCK \<Rightarrow> oid \<Rightarrow> int \<Rightarrow> KSTATE \<Rightarrow> KSTATE" where
  "KxSetTimerForThreadWait c x Interval ks =
     (let TimeDifference = s64 (ck_SystemTime c - Interval) in
      if Interval \<ge> 0 \<and> TimeDifference \<ge> 0 then
        upd_object x (\<lambda>ob. ob\<lparr>ob_Absolute := True, ob_DueTime := 0, ob_Hand := 0\<rparr>) ks
      else
        let Due = u64 (ck_InterruptTime c - (if Interval \<ge> 0 then TimeDifference else Interval))
        in upd_object x (\<lambda>ob. ob\<lparr>ob_Absolute := (Interval \<ge> 0), ob_DueTime := Due,
             ob_Hand := KiComputeTimerTableIndex ks Due mod 256\<rparr>) ks)"

definition KiRecalculateDueTime :: "KCLOCK \<Rightarrow> int \<Rightarrow> int \<Rightarrow> int" where
  "KiRecalculateDueTime c OriginalDueTime DueTime =
     (if OriginalDueTime \<ge> 0 then OriginalDueTime else s64 (ck_InterruptTime c - DueTime))"

section \<open>Insertion and removal\<close>

definition due :: "KSTATE \<Rightarrow> oid \<Rightarrow> int" where
  "due ks x = ob_DueTime (ks_Objects ks x)"

text \<open>
  The scan runs backwards from the end of the slot's list to the first timer that is not due
  later. The time of the slot is set, and expiry checked, when the timer becomes the first.
\<close>

definition KiInsertTimerTable :: "KCLOCK \<Rightarrow> oid \<Rightarrow> nat \<Rightarrow> KSTATE \<Rightarrow> bool \<times> KSTATE" where
  "KiInsertTimerTable c x Hand ks =
     (let ks = (if ob_Period (ks_Objects ks x) = 0 then set_signal x 0 ks else ks);
          DueTime = due ks x;
          later = (\<lambda>y. \<not> DueTime \<ge> due ks y);
          back = rev (ks_TimerTable ks Hand);
          before = rev (dropWhile later back);
          after = rev (takeWhile later back);
          ks = ks\<lparr>ks_TimerTable := (ks_TimerTable ks)(Hand := before @ x # after)\<rparr>
      in if before = []
         then (s64 DueTime \<le> ck_InterruptTime c, ks\<lparr>ks_TimerTime := (ks_TimerTime ks)(Hand := DueTime)\<rparr>)
         else (False, ks))"

text \<open>
  \<open>RemoveEntryList\<close> unlinks the timer from the list that holds it, and says whether that list
  is empty now. The table entry that is looked at afterwards is the one of the \<open>Hand\<close> byte in
  the header of the timer.
\<close>

definition RemoveTimerListEntry :: "oid \<Rightarrow> KSTATE \<Rightarrow> bool \<times> KSTATE" where
  "RemoveTimerListEntry x ks =
     (case find (\<lambda>h. x \<in> set (ks_TimerTable ks h)) [0..<TIMER_TABLE_SIZE] of
        None \<Rightarrow> (False, ks)
      | Some h \<Rightarrow>
          let xs = remove1 x (ks_TimerTable ks h)
          in (xs = [], ks\<lparr>ks_TimerTable := (ks_TimerTable ks)(h := xs)\<rparr>))"

definition KiRemoveEntryTimer :: "oid \<Rightarrow> KSTATE \<Rightarrow> KSTATE" where
  "KiRemoveEntryTimer x ks =
     (let Hand = ob_Hand (ks_Objects ks x);
          (empty, ks) = RemoveTimerListEntry x ks
      in if empty \<and> ks_TimerTable ks Hand = []
         then ks\<lparr>ks_TimerTime := (ks_TimerTime ks)(Hand := 0xFFFFFFFF * 0x100000000 + ks_TimerTime ks Hand mod 0x100000000)\<rparr>
         else ks)"

definition KxRemoveTreeTimer :: "oid \<Rightarrow> KSTATE \<Rightarrow> KSTATE" where
  "KxRemoveTreeTimer x ks = KiRemoveEntryTimer x (upd_object x (\<lambda>ob. ob\<lparr>ob_Inserted := False\<rparr>) ks)"

definition KiInsertTreeTimer :: "KCLOCK \<Rightarrow> KCLOCK \<Rightarrow> oid \<Rightarrow> int \<Rightarrow> KSTATE \<Rightarrow> bool \<times> KSTATE" where
  "KiInsertTreeTimer c c' x Interval ks =
     (case KiComputeDueTime c x Interval ks of
        (False, ks) \<Rightarrow> (False, ks)
      | (True, ks) \<Rightarrow>
          (case KiInsertTimerTable c' x (KiComputeTimerTableIndex ks (due ks x)) ks of
             (True, ks) \<Rightarrow> (False, upd_object x (\<lambda>ob. ob\<lparr>ob_Inserted := False\<rparr>) (KiRemoveEntryTimer x ks))
           | (False, ks) \<Rightarrow> (True, ks)))"

text \<open>
  The loop \<open>while (!KiInsertTreeTimer(Timer, Interval));\<close> reads the clock twice in each round;
  the readings are the argument. It is still running when they are used up.
\<close>

fun insert_tree_timer_loop :: "(KCLOCK \<times> KCLOCK) list \<Rightarrow> oid \<Rightarrow> int \<Rightarrow> KSTATE \<Rightarrow> KSTATE option" where
  "insert_tree_timer_loop [] x Interval ks = None"
| "insert_tree_timer_loop ((c, c') # cs) x Interval ks =
     (case KiInsertTreeTimer c c' x Interval ks of
        (True, ks) \<Rightarrow> Some ks
      | (False, ks) \<Rightarrow> insert_tree_timer_loop cs x Interval ks)"

definition KiCheckForTimerExpiration :: "nat \<Rightarrow> int \<Rightarrow> KSTATE \<Rightarrow> bool" where
  "KiCheckForTimerExpiration TickCount InterruptTime ks =
     (ks_TimerTime ks (TickCount mod TIMER_TABLE_SIZE) \<le> InterruptTime)"

section \<open>The invariant of the table\<close>

text \<open>
  Every slot is sorted by due time and holds each timer once, in the slot of its due time; the
  time of the slot is no later than the due time of any of its timers. The timers in the table
  are the inserted ones, except for those of \<open>E\<close>, which are just being inserted or removed.
\<close>

definition slot_of :: "KSTATE \<Rightarrow> oid \<Rightarrow> nat" where
  "slot_of ks x = KiComputeTimerTableIndex ks (due ks x)"

definition is_timer :: "KOBJECTS \<Rightarrow> bool" where
  "is_timer k = (k = TimerNotificationObject \<or> k = TimerSynchronizationObject)"

definition timer_ok :: "oid set \<Rightarrow> KSTATE \<Rightarrow> bool" where
  "timer_ok E ks =
     ((\<forall>h. sorted (map (due ks) (ks_TimerTable ks h)) \<and> distinct (ks_TimerTable ks h)) \<and>
      (\<forall>h. \<forall>x \<in> set (ks_TimerTable ks h). x \<notin> E \<and> ob_Inserted (ks_Objects ks x) \<and> h = slot_of ks x
             \<and> ob_Hand (ks_Objects ks x) = h mod 256 \<and> ks_TimerTime ks h \<le> due ks x \<and> is_timer (ob_Type (ks_Objects ks x))) \<and>
      (\<forall>x. ob_Inserted (ks_Objects ks x) \<longrightarrow> x \<notin> E \<longrightarrow> x \<in> set (ks_TimerTable ks (slot_of ks x))))"

lemma timer_okD:
  assumes "timer_ok E ks"
  shows "sorted (map (due ks) (ks_TimerTable ks h))" "distinct (ks_TimerTable ks h)"
    "x \<in> set (ks_TimerTable ks h) \<Longrightarrow> x \<notin> E"
    "x \<in> set (ks_TimerTable ks h) \<Longrightarrow> ob_Inserted (ks_Objects ks x)"
    "x \<in> set (ks_TimerTable ks h) \<Longrightarrow> h = slot_of ks x"
    "x \<in> set (ks_TimerTable ks h) \<Longrightarrow> ks_TimerTime ks h \<le> due ks x"
    "ob_Inserted (ks_Objects ks x) \<Longrightarrow> x \<notin> E \<Longrightarrow> x \<in> set (ks_TimerTable ks (slot_of ks x))"
    "x \<in> set (ks_TimerTable ks h) \<Longrightarrow> ob_Hand (ks_Objects ks x) = h mod 256"
    "x \<in> set (ks_TimerTable ks h) \<Longrightarrow> is_timer (ob_Type (ks_Objects ks x))"
  using assms unfolding timer_ok_def by blast+

lemma timer_okI:
  assumes "\<And>h. sorted (map (due ks) (ks_TimerTable ks h))" "\<And>h. distinct (ks_TimerTable ks h)"
    "\<And>h x. x \<in> set (ks_TimerTable ks h) \<Longrightarrow>
       x \<notin> E \<and> ob_Inserted (ks_Objects ks x) \<and> h = slot_of ks x \<and> ob_Hand (ks_Objects ks x) = h mod 256
       \<and> ks_TimerTime ks h \<le> due ks x \<and> is_timer (ob_Type (ks_Objects ks x))"
    "\<And>x. ob_Inserted (ks_Objects ks x) \<Longrightarrow> x \<notin> E \<Longrightarrow> x \<in> set (ks_TimerTable ks (slot_of ks x))"
  shows "timer_ok E ks"
  using assms unfolding timer_ok_def by blast

text \<open>The invariant looks at the type, the due time, the hand and the inserted flag of an object only.\<close>

lemma timer_ok_cong:
  assumes "ks_TimerTable ks' = ks_TimerTable ks" "ks_TimerTime ks' = ks_TimerTime ks"
    "ks_KeMaximumIncrement ks' = ks_KeMaximumIncrement ks"
    "\<And>x. ob_DueTime (ks_Objects ks' x) = ob_DueTime (ks_Objects ks x)"
    "\<And>x. ob_Inserted (ks_Objects ks' x) = ob_Inserted (ks_Objects ks x)"
    "\<And>x. ob_Hand (ks_Objects ks' x) = ob_Hand (ks_Objects ks x)"
    "\<And>x. ob_Type (ks_Objects ks' x) = ob_Type (ks_Objects ks x)"
  shows "timer_ok E ks' = timer_ok E ks"
proof -
  have due: "due ks' = due ks"
    by (simp add: due_def fun_eq_iff assms)
  moreover have "slot_of ks' = slot_of ks"
    by (simp add: slot_of_def fun_eq_iff KiComputeTimerTableIndex_def due assms)
  ultimately show ?thesis
    by (simp add: timer_ok_def assms)
qed

lemma slot_of_less: "slot_of ks x < 512"
  by (simp add: slot_of_def KiComputeTimerTableIndex_def)

lemma find_unique_slot:
  assumes "P h" "\<And>j. P j \<Longrightarrow> j = h" "h < n"
  shows "find P [0..<n] = Some h"
proof (cases "find P [0..<n]")
  case None
  then show ?thesis
    using assms by (auto simp: find_None_iff)
next
  case (Some j)
  then have "P j"
    by (auto simp: find_Some_iff)
  then show ?thesis
    using Some assms by simp
qed

lemma RemoveTimerListEntry_present:
  assumes "timer_ok E ks" "x \<in> set (ks_TimerTable ks h)"
  shows "RemoveTimerListEntry x ks =
    (remove1 x (ks_TimerTable ks h) = [], ks\<lparr>ks_TimerTable := (ks_TimerTable ks)(h := remove1 x (ks_TimerTable ks h))\<rparr>)"
proof -
  have h: "h = slot_of ks x"
    using assms by (rule timer_okD)
  have "find (\<lambda>h. x \<in> set (ks_TimerTable ks h)) [0..<512] = Some h"
  proof (rule find_unique_slot)
    show "j = h" if "x \<in> set (ks_TimerTable ks j)" for j
      using timer_okD(5)[OF assms(1) that] h by simp
  qed (use assms(2) slot_of_less h in simp_all)
  then show ?thesis
    by (simp add: RemoveTimerListEntry_def Let_def)
qed

text \<open>A timer on the way in or out can be changed at will.\<close>

lemma timer_ok_exempt:
  assumes "timer_ok E ks" "x \<in> E"
  shows "timer_ok E (upd_object x f ks)"
proof (rule timer_okI)
  let ?ks = "upd_object x f ks"
  have due: "due ?ks y = due ks y" and slot: "slot_of ?ks y = slot_of ks y" if "y \<noteq> x" for y
    using that by (simp_all add: due_def slot_of_def KiComputeTimerTableIndex_def)
  have ne: "y \<noteq> x" if "y \<in> set (ks_TimerTable ks h)" for y h
    using timer_okD(3)[OF assms(1) that] assms(2) by blast
  fix h
  have eq: "map (due ?ks) (ks_TimerTable ks h) = map (due ks) (ks_TimerTable ks h)"
    using ne due by auto
  show "sorted (map (due ?ks) (ks_TimerTable ?ks h))"
    unfolding upd_object_frame eq by (rule timer_okD(1)[OF assms(1)])
  show "distinct (ks_TimerTable ?ks h)"
    using timer_okD(2)[OF assms(1)] by simp
  fix y
  show "y \<notin> E \<and> ob_Inserted (ks_Objects ?ks y) \<and> h = slot_of ?ks y \<and>
      ob_Hand (ks_Objects ?ks y) = h mod 256 \<and> ks_TimerTime ?ks h \<le> due ?ks y \<and> is_timer (ob_Type (ks_Objects ?ks y))"
    if "y \<in> set (ks_TimerTable ?ks h)"
    using that ne[of y h] timer_okD(3-6,8,9)[OF assms(1), of y h] by (simp add: due slot)
  show "ob_Inserted (ks_Objects ?ks y) \<Longrightarrow> y \<notin> E \<Longrightarrow> y \<in> set (ks_TimerTable ?ks (slot_of ?ks y))"
    using timer_okD(7)[OF assms(1), of y] assms(2) by (cases "y = x") (simp_all add: slot)
qed

lemma timer_ok_add: "timer_ok E ks \<Longrightarrow> \<not> ob_Inserted (ks_Objects ks x) \<Longrightarrow> timer_ok (insert x E) ks"
  unfolding timer_ok_def by blast

lemma timer_ok_drop: "timer_ok (insert x E) ks \<Longrightarrow> \<not> ob_Inserted (ks_Objects ks x) \<Longrightarrow> timer_ok E ks"
  unfolding timer_ok_def by blast

subsection \<open>Removal\<close>

lemma KiRemoveEntryTimer_simps [simp]:
  "ks_Objects (KiRemoveEntryTimer x ks) = ks_Objects ks"
  "ks_Threads (KiRemoveEntryTimer x ks) = ks_Threads ks"
  "ks_KeMaximumIncrement (KiRemoveEntryTimer x ks) = ks_KeMaximumIncrement ks"
  by (simp_all add: KiRemoveEntryTimer_def RemoveTimerListEntry_def Let_def split: option.split prod.split)

lemma KiRemoveEntryTimer_due [simp]:
  "due (KiRemoveEntryTimer x ks) = due ks" "slot_of (KiRemoveEntryTimer x ks) = slot_of ks"
  by (simp_all add: due_def slot_of_def KiComputeTimerTableIndex_def fun_eq_iff)

lemma KiRemoveEntryTimer_table:
  assumes "timer_ok E ks" "x \<in> set (ks_TimerTable ks h)"
  shows "ks_TimerTable (KiRemoveEntryTimer x ks) = (ks_TimerTable ks)(h := remove1 x (ks_TimerTable ks h))"
    "ks_TimerTime (KiRemoveEntryTimer x ks) =
       (if remove1 x (ks_TimerTable ks h) = [] \<and> ks_TimerTable (KiRemoveEntryTimer x ks) (h mod 256) = []
        then (ks_TimerTime ks)(h mod 256 := 0xFFFFFFFF * 0x100000000 + ks_TimerTime ks (h mod 256) mod 0x100000000)
        else ks_TimerTime ks)"
  using timer_okD(8)[OF assms]
  by (simp_all add: KiRemoveEntryTimer_def RemoveTimerListEntry_present[OF assms] Let_def)

lemma KiRemoveEntryTimer_ok:
  assumes ok: "timer_ok E ks" and x: "x \<in> set (ks_TimerTable ks h)"
  shows "timer_ok (insert x E) (KiRemoveEntryTimer x ks)"
proof (rule timer_okI)
  fix j
  let ?ks = "KiRemoveEntryTimer x ks"
  note tbl = KiRemoveEntryTimer_table[OF ok x]
  have h: "h = slot_of ks x"
    using ok x by (rule timer_okD)
  have sub: "set (ks_TimerTable ?ks j) = set (ks_TimerTable ks j) - {x}" for j
    using timer_okD(2,5)[OF ok] h by (auto simp: tbl set_remove1_eq)
  show "sorted (map (due ?ks) (ks_TimerTable ?ks j))"
    using timer_okD(1,2)[OF ok] by (simp add: tbl distinct_remove1_removeAll removeAll_filter_not_eq sorted_filter)
  show "distinct (ks_TimerTable ?ks j)"
    using timer_okD(2)[OF ok] by (simp add: tbl distinct_remove1)
  fix y
  have "ks_TimerTime ?ks j = ks_TimerTime ks j" if "y \<in> set (ks_TimerTable ?ks j)"
    using that by (auto simp: tbl(2))
  then show "y \<in> set (ks_TimerTable ?ks j) \<Longrightarrow>
    y \<notin> insert x E \<and> ob_Inserted (ks_Objects ?ks y) \<and> j = slot_of ?ks y \<and>
    ob_Hand (ks_Objects ?ks y) = j mod 256 \<and> ks_TimerTime ?ks j \<le> due ?ks y \<and> is_timer (ob_Type (ks_Objects ?ks y))"
    using timer_okD(3-6,8,9)[OF ok, of y j] sub by simp
  show "ob_Inserted (ks_Objects ?ks y) \<Longrightarrow> y \<notin> insert x E \<Longrightarrow> y \<in> set (ks_TimerTable ?ks (slot_of ?ks y))"
    using timer_okD[OF ok] sub by auto
qed

lemma KxRemoveTreeTimer_simps [simp]:
  "ks_Objects (KxRemoveTreeTimer x ks) = (ks_Objects ks)(x := (ks_Objects ks x)\<lparr>ob_Inserted := False\<rparr>)"
  "ks_Threads (KxRemoveTreeTimer x ks) = ks_Threads ks"
  "ks_KeMaximumIncrement (KxRemoveTreeTimer x ks) = ks_KeMaximumIncrement ks"
  by (simp_all add: KxRemoveTreeTimer_def)

lemma KxRemoveTreeTimer_commute:
  "KxRemoveTreeTimer x ks = upd_object x (\<lambda>ob. ob\<lparr>ob_Inserted := False\<rparr>) (KiRemoveEntryTimer x ks)"
  by (simp add: KxRemoveTreeTimer_def KiRemoveEntryTimer_def RemoveTimerListEntry_def Let_def upd_object_def
      split: option.split prod.split)

lemma KxRemoveTreeTimer_ok:
  assumes "timer_ok E ks" "ob_Inserted (ks_Objects ks x)" "x \<notin> E"
  shows "timer_ok E (KxRemoveTreeTimer x ks)"
proof -
  have "timer_ok (insert x E) (KxRemoveTreeTimer x ks)"
    unfolding KxRemoveTreeTimer_commute
    by (intro timer_ok_exempt KiRemoveEntryTimer_ok[OF assms(1) timer_okD(7)[OF assms]]) simp
  then show ?thesis
    by (rule timer_ok_drop) simp
qed

subsection \<open>Insertion\<close>

lemma KiInsertTimerTable_simps [simp]:
  "ks_Objects (snd (KiInsertTimerTable c x h ks)) =
     (ks_Objects ks)(x := (ks_Objects ks x)\<lparr>ob_SignalState :=
        (if ob_Period (ks_Objects ks x) = 0 then 0 else ob_SignalState (ks_Objects ks x))\<rparr>)"
  "ks_Threads (snd (KiInsertTimerTable c x h ks)) = ks_Threads ks"
  "ks_KeMaximumIncrement (snd (KiInsertTimerTable c x h ks)) = ks_KeMaximumIncrement ks"
  by (simp_all add: KiInsertTimerTable_def Let_def)

lemma set_signal_due [simp]: "due (set_signal x s ks) = due ks"
  by (simp add: due_def fun_eq_iff)

lemma KiInsertTimerTable_due [simp]:
  "due (snd (KiInsertTimerTable c x h ks)) = due ks"
  "slot_of (snd (KiInsertTimerTable c x h ks)) = slot_of ks"
  by (simp_all add: due_def slot_of_def KiComputeTimerTableIndex_def fun_eq_iff)

lemma KiInsertTimerTable_table:
  obtains before after where
    "ks_TimerTable ks h = before @ after"
    "ks_TimerTable (snd (KiInsertTimerTable c x h ks)) = (ks_TimerTable ks)(h := before @ x # after)"
    "\<And>y. y \<in> set after \<Longrightarrow> due ks x < due ks y"
    "before \<noteq> [] \<Longrightarrow> due ks (last before) \<le> due ks x"
    "ks_TimerTime (snd (KiInsertTimerTable c x h ks)) =
       (if before = [] then (ks_TimerTime ks)(h := due ks x) else ks_TimerTime ks)"
    "fst (KiInsertTimerTable c x h ks) = (before = [] \<and> s64 (due ks x) \<le> ck_InterruptTime c)"
proof -
  define later where "later y = (due ks x < due ks y)" for y
  define before where "before = rev (dropWhile later (rev (ks_TimerTable ks h)))"
  define after where "after = rev (takeWhile later (rev (ks_TimerTable ks h)))"
  have "rev (before @ after) = rev (ks_TimerTable ks h)"
    by (simp add: before_def after_def)
  then have split: "ks_TimerTable ks h = before @ after"
    unfolding rev_is_rev_conv by (rule sym)
  have gt: "due ks x < due ks y" if "y \<in> set after" for y
    using that by (auto simp: after_def later_def dest: set_takeWhileD)
  have le: "due ks (last before) \<le> due ks x" if "before \<noteq> []"
    using that hd_dropWhile[of later "rev (ks_TimerTable ks h)"] by (simp add: before_def last_rev later_def)
  have later: "(\<lambda>y. \<not> due ks y \<le> due ks x) = later"
    by (auto simp: later_def)
  define ks1 where "ks1 = (if ob_Period (ks_Objects ks x) = 0 then set_signal x 0 ks else ks)"
  have ks1: "due ks1 = due ks" "ks_TimerTable ks1 = ks_TimerTable ks" "ks_TimerTime ks1 = ks_TimerTime ks"
    by (simp_all add: ks1_def)
  have eq: "KiInsertTimerTable c x h ks =
    (let ks' = ks1\<lparr>ks_TimerTable := (ks_TimerTable ks1)(h := before @ x # after)\<rparr>
     in if before = [] then (s64 (due ks x) \<le> ck_InterruptTime c, ks'\<lparr>ks_TimerTime := (ks_TimerTime ks')(h := due ks x)\<rparr>)
        else (False, ks'))"
    unfolding KiInsertTimerTable_def ks1_def[symmetric] Let_def ks1 later before_def[symmetric] after_def[symmetric] ..
  show ?thesis
    by (rule that[OF split _ gt le]) (simp_all add: eq Let_def ks1)
qed

lemma KiInsertTimerTable_ok:
  assumes ok: "timer_ok E ks" and x: "x \<in> E" "ob_Inserted (ks_Objects ks x)"
    and hand: "ob_Hand (ks_Objects ks x) = slot_of ks x mod 256" and timer: "is_timer (ob_Type (ks_Objects ks x))"
  shows "timer_ok (E - {x}) (snd (KiInsertTimerTable c x (slot_of ks x) ks))"
proof -
  let ?h = "slot_of ks x"
  let ?ks = "snd (KiInsertTimerTable c x ?h ks)"
  obtain before after where split: "ks_TimerTable ks ?h = before @ after"
    and tbl: "ks_TimerTable ?ks = (ks_TimerTable ks)(?h := before @ x # after)"
    and gt: "\<And>y. y \<in> set after \<Longrightarrow> due ks x < due ks y"
    and le: "before \<noteq> [] \<Longrightarrow> due ks (last before) \<le> due ks x"
    and time: "ks_TimerTime ?ks = (if before = [] then (ks_TimerTime ks)(?h := due ks x) else ks_TimerTime ks)"
    by (rule KiInsertTimerTable_table[of ks ?h c x]) blast
  have sorted: "sorted (map (due ks) (before @ after))" and dist: "distinct (before @ after)"
    using timer_okD(1,2)[OF ok, of ?h] by (simp_all add: split)
  have before: "due ks y \<le> due ks x" if y: "y \<in> set before" for y
  proof -
    obtain ys z where zs: "before = ys @ [z]"
      using y by (cases before rule: rev_cases) auto
    then have "due ks y \<le> due ks z"
      using sorted y by (auto simp: sorted_append)
    then show ?thesis
      using le zs by simp
  qed
  have new: "x \<notin> set (before @ after)"
    using timer_okD(3)[OF ok, of x ?h] x by (auto simp: split)
  show ?thesis
  proof (rule timer_okI)
    fix j
    show "sorted (map (due ?ks) (ks_TimerTable ?ks j))"
      using timer_okD(1)[OF ok, of j] sorted before gt by (auto simp: tbl sorted_append order.strict_implies_order)
    show "distinct (ks_TimerTable ?ks j)"
      using timer_okD(2)[OF ok, of j] dist new by (auto simp: tbl)
    fix y
    show "y \<notin> E - {x} \<and> ob_Inserted (ks_Objects ?ks y) \<and> j = slot_of ?ks y \<and>
        ob_Hand (ks_Objects ?ks y) = j mod 256 \<and> ks_TimerTime ?ks j \<le> due ?ks y \<and> is_timer (ob_Type (ks_Objects ?ks y))"
      if "y \<in> set (ks_TimerTable ?ks j)"
    proof (cases "y = x")
      case True
      moreover have "j = ?h"
        using that timer_okD(5)[OF ok, of y j] True by (auto simp: tbl split: if_splits)
      moreover have "ks_TimerTime ks ?h \<le> due ks x" if "before \<noteq> []"
        using timer_okD(6)[OF ok, of "last before" ?h] le that split by simp
      ultimately show ?thesis
        using x hand timer by (simp add: time)
    next
      case False
      then have y: "y \<in> set (ks_TimerTable ks j)"
        using that split by (auto simp: tbl split: if_splits)
      have "ks_TimerTime ?ks j \<le> due ks y"
        using timer_okD(6)[OF ok y] gt[of y] y split by (auto simp: time)
      then show ?thesis
        using False timer_okD(3-5,8,9)[OF ok y] by simp
    qed
    show "ob_Inserted (ks_Objects ?ks y) \<Longrightarrow> y \<notin> E - {x} \<Longrightarrow> y \<in> set (ks_TimerTable ?ks (slot_of ?ks y))"
      using timer_okD(7)[OF ok, of y] split by (cases "y = x") (auto simp: tbl)
  qed
qed

section \<open>Properties\<close>

text \<open>
  The clock interrupt never misses a timer: when the slot of an inserted timer is looked at
  after its due time, the expiry routine is requested.
\<close>

lemma inserted_timer_not_missed:
  assumes "timer_ok {} ks" "ob_Inserted (ks_Objects ks x)" "due ks x \<le> InterruptTime"
    "TickCount mod 512 = slot_of ks x"
  shows "KiCheckForTimerExpiration TickCount InterruptTime ks"
proof -
  have "x \<in> set (ks_TimerTable ks (slot_of ks x))"
    using timer_okD(7)[OF assms(1,2)] by simp
  then show ?thesis
    using timer_okD(6)[OF assms(1)] assms(3,4) by (force simp: KiCheckForTimerExpiration_def)
qed

text \<open>
  The effect of a removal on the time of the slot depends on whether the number of the slot
  fits into the \<open>Hand\<close> byte of the timer.
\<close>

lemma KxRemoveTreeTimer_only:
  assumes ok: "timer_ok {} ks" and x: "ks_TimerTable ks h = [x]"
  shows "ks_TimerTable (KxRemoveTreeTimer x ks) h = []"
    "h < 256 \<Longrightarrow> ks_TimerTime (KxRemoveTreeTimer x ks) h \<ge> 0xFFFFFFFF00000000"
    "h \<ge> 256 \<Longrightarrow> ks_TimerTime (KxRemoveTreeTimer x ks) h = ks_TimerTime ks h"
proof -
  have "x \<in> set (ks_TimerTable ks h)"
    by (simp add: x)
  note tbl = KiRemoveEntryTimer_table[OF ok this]
  show "ks_TimerTable (KxRemoveTreeTimer x ks) h = []"
    by (simp add: KxRemoveTreeTimer_commute tbl x)
  show "h < 256 \<Longrightarrow> ks_TimerTime (KxRemoveTreeTimer x ks) h \<ge> 0xFFFFFFFF00000000"
    by (simp add: KxRemoveTreeTimer_commute tbl x)
  show "h \<ge> 256 \<Longrightarrow> ks_TimerTime (KxRemoveTreeTimer x ks) h = ks_TimerTime ks h"
    using mod_less_divisor[of 256 h] by (auto simp: KxRemoveTreeTimer_commute tbl(2) x)
qed

end
