(* ===== verification/Ke_Wait.thy ===== *)
theory Ke_Wait
  imports Ke_Timer
begin

text \<open>
  Waiting and waking (\<open>ntoskrnl/ke/wait.c\<close>, \<open>ntoskrnl/include/internal/ke_x.h\<close>). A pass of a
  wait function is the body of its loop, from the set-up of the wait blocks to the point where
  the thread gives up the processor or the function is left; \<open>wait_resume\<close> is the rest of the
  body, which runs when the thread is back.
\<close>

section \<open>Unwaiting a thread\<close>

definition RemoveWaitBlock :: "KWAIT_BLOCK \<Rightarrow> KSTATE \<Rightarrow> KSTATE" where
  "RemoveWaitBlock b = upd_object (wb_Object b) (\<lambda>ob. ob\<lparr>ob_WaitList := remove1 b (ob_WaitList ob)\<rparr>)"

definition KiUnlinkThread :: "tid \<Rightarrow> int \<Rightarrow> KSTATE \<Rightarrow> KSTATE" where
  "KiUnlinkThread t WaitStatus ks =
     (let ks = upd_thread t (\<lambda>th. th\<lparr>th_WaitStatus := th_WaitStatus th OR WaitStatus\<rparr>) ks;
          ks = fold RemoveWaitBlock (th_WaitBlockList (ks_Threads ks t)) ks;
          ks = (if ob_Inserted (ks_Objects ks (TimerOf t)) then KxRemoveTreeTimer (TimerOf t) ks else ks)
      in case th_Queue (ks_Threads ks t) of
           None \<Rightarrow> ks
         | Some q \<Rightarrow> upd_object q (\<lambda>ob. ob\<lparr>ob_CurrentCount := u32_add (ob_CurrentCount ob) 1\<rparr>) ks)"

text \<open>
  \<open>KiReadyThread\<close> hands the thread to the scheduler; which ready thread runs when is left
  open.
\<close>

definition KiReadyThread :: "tid \<Rightarrow> KSTATE \<Rightarrow> KSTATE" where
  "KiReadyThread t = upd_thread t (\<lambda>th. th\<lparr>th_State := DeferredReady\<rparr>)"

definition KiUnwaitThread :: "tid \<Rightarrow> int \<Rightarrow> int \<Rightarrow> KSTATE \<Rightarrow> KSTATE" where
  "KiUnwaitThread t WaitStatus Increment ks =
     (let ks = KiUnlinkThread t WaitStatus ks;
          ks = upd_thread t (\<lambda>th. th\<lparr>th_AdjustIncrement := s8 Increment, th_AdjustReason := AdjustUnwait\<rparr>) ks
      in KiReadyThread t ks)"

section \<open>Waking the waiters of an object\<close>

definition wait_test_step :: "oid \<Rightarrow> int \<Rightarrow> KWAIT_BLOCK \<Rightarrow> KSTATE \<Rightarrow> KSTATE" where
  "wait_test_step x Increment b ks =
     (if wb_WaitType b = WaitAny
      then KiUnwaitThread (wb_Thread b) (wb_WaitKey b) Increment (KiSatisfyObjectWait x (wb_Thread b) ks)
      else KiUnwaitThread (wb_Thread b) STATUS_KERNEL_APC Increment ks)"

partial_function (option) KiWaitTest :: "oid \<Rightarrow> int \<Rightarrow> KSTATE \<Rightarrow> KSTATE option" where
  "KiWaitTest x Increment ks =
     (case ob_WaitList (ks_Objects ks x) of
        [] \<Rightarrow> Some ks
      | b # bs \<Rightarrow>
          if ob_SignalState (ks_Objects ks x) > 0
          then KiWaitTest x Increment (wait_test_step x Increment b ks)
          else Some ks)"

partial_function (option) KxUnwaitThread :: "oid \<Rightarrow> int \<Rightarrow> KSTATE \<Rightarrow> KSTATE option" where
  "KxUnwaitThread x Increment ks =
     (case ob_WaitList (ks_Objects ks x) of
        [] \<Rightarrow> Some ks
      | b # bs \<Rightarrow>
          KxUnwaitThread x Increment
            (KiUnwaitThread (wb_Thread b)
              (if wb_WaitType b = WaitAny then wb_WaitKey b else STATUS_KERNEL_APC) Increment ks))"

partial_function (option) KxUnwaitThreadForEvent :: "oid \<Rightarrow> int \<Rightarrow> KSTATE \<Rightarrow> KSTATE option" where
  "KxUnwaitThreadForEvent x Increment ks =
     (case ob_WaitList (ks_Objects ks x) of
        [] \<Rightarrow> Some ks
      | b # bs \<Rightarrow>
          if wb_WaitType b = WaitAny
          then Some (KiUnwaitThread (wb_Thread b) (wb_WaitKey b) Increment (set_signal x 0 ks))
          else KxUnwaitThreadForEvent x Increment (KiUnwaitThread (wb_Thread b) STATUS_KERNEL_APC Increment ks))"

declare KiWaitTest.simps [code]
declare KxUnwaitThread.simps [code]
declare KxUnwaitThreadForEvent.simps [code]

text \<open>The count of the threads of a queue that are running.\<close>

definition count_up :: "oid \<Rightarrow> KSTATE \<Rightarrow> KSTATE" where
  "count_up q = upd_object q (\<lambda>ob. ob\<lparr>ob_CurrentCount := u32_add (ob_CurrentCount ob) 1\<rparr>)"

definition count_down :: "oid \<Rightarrow> KSTATE \<Rightarrow> KSTATE" where
  "count_down q = upd_object q (\<lambda>ob. ob\<lparr>ob_CurrentCount := u32_sub (ob_CurrentCount ob) 1\<rparr>)"

text \<open>A thread that has a queue and starts to wait lets another thread of the queue run.\<close>

definition KiActivateWaiterQueue :: "oid \<Rightarrow> KSTATE \<Rightarrow> KSTATE" where
  "KiActivateWaiterQueue q ks =
     (let ks = count_down q ks;
          ob = ks_Objects ks q
      in if ob_CurrentCount ob < ob_MaximumCount ob then
           (case (ob_EntryList ob, rev (ob_WaitList ob)) of
              (e # es, b # bs) \<Rightarrow>
                KiUnwaitThread (wb_Thread b) e 0
                  (upd_object q (\<lambda>ob. ob\<lparr>ob_EntryList := es, ob_SignalState := s32 (ob_SignalState ob - 1)\<rparr>) ks)
            | _ \<Rightarrow> ks)
         else ks)"

section \<open>Timer expiry\<close>

text \<open>
  The result says whether a DPC was queued, for which an interrupt is requested. Readings of
  the clock for the loop that re-inserts a periodic timer are passed in.
\<close>

definition KiSignalTimer :: "(KCLOCK \<times> KCLOCK) list \<Rightarrow> oid \<Rightarrow> KSTATE \<Rightarrow> (bool \<times> KSTATE) option" where
  "KiSignalTimer cs x ks =
     do {
       let Dpc = ob_Dpc (ks_Objects ks x);
       let Period = ob_Period (ks_Objects ks x);
       let ks = upd_object x (\<lambda>ob. ob\<lparr>ob_Inserted := False, ob_SignalState := 1\<rparr>) ks;
       ks \<leftarrow> (if ob_WaitList (ks_Objects ks x) = [] then Some ks
              else if ob_Type (ks_Objects ks x) = TimerNotificationObject then KxUnwaitThread x 0 ks
              else KxUnwaitThreadForEvent x 0 ks);
       ks \<leftarrow> (if Period = 0 then Some ks else insert_tree_timer_loop cs x (Period * - 10000) ks);
       Some (Dpc, ks)
     }"

definition KiCompleteTimer :: "(KCLOCK \<times> KCLOCK) list \<Rightarrow> oid \<Rightarrow> KSTATE \<Rightarrow> (bool \<times> KSTATE) option" where
  "KiCompleteTimer cs x ks = KiSignalTimer cs x (KiRemoveEntryTimer x ks)"

definition KxInsertTimer :: "KCLOCK \<Rightarrow> (KCLOCK \<times> KCLOCK) list \<Rightarrow> oid \<Rightarrow> KSTATE \<Rightarrow> KSTATE option" where
  "KxInsertTimer c cs x ks =
     (case KiInsertTimerTable c x (KiComputeTimerTableIndex ks (due ks x)) ks of
        (True, ks) \<Rightarrow> map_option snd (KiCompleteTimer cs x ks)
      | (False, ks) \<Rightarrow> Some ks)"

section \<open>Alerts and pending APCs\<close>

definition KiCheckAlertability :: "tid \<Rightarrow> bool \<Rightarrow> KPROCESSOR_MODE \<Rightarrow> KSTATE \<Rightarrow> int \<times> KSTATE" where
  "KiCheckAlertability t Alertable WaitMode ks =
     (let th = ks_Threads ks t in
      if Alertable then
        if th_Alerted th WaitMode then
          (STATUS_ALERTED, upd_thread t (\<lambda>th. th\<lparr>th_Alerted := (th_Alerted th)(WaitMode := False)\<rparr>) ks)
        else if WaitMode \<noteq> KernelMode \<and> th_ApcList th UserMode \<noteq> [] then
          (STATUS_USER_APC, upd_thread t (\<lambda>th. th\<lparr>th_UserApcPending := True\<rparr>) ks)
        else if th_Alerted th KernelMode then
          (STATUS_ALERTED, upd_thread t (\<lambda>th. th\<lparr>th_Alerted := (th_Alerted th)(KernelMode := False)\<rparr>) ks)
        else (STATUS_WAIT_0, ks)
      else if WaitMode \<noteq> KernelMode \<and> th_UserApcPending th then (STATUS_USER_APC, ks)
      else (STATUS_WAIT_0, ks))"

definition kernel_apc_deliverable :: "KTHREAD \<Rightarrow> bool" where
  "kernel_apc_deliverable th =
     (th_KernelApcPending th \<and> \<not> th_SpecialApcDisable th \<and> th_WaitIrql th < APC_LEVEL)"

section \<open>Setting up a wait\<close>

definition timer_block :: "tid \<Rightarrow> KWAIT_BLOCK" where
  "timer_block t = \<lparr>wb_Thread = t, wb_Slot = TimerSlot, wb_Object = TimerOf t,
                    wb_WaitKey = STATUS_TIMEOUT, wb_WaitType = WaitAny\<rparr>"

definition object_block :: "tid \<Rightarrow> nat \<Rightarrow> oid \<Rightarrow> WAIT_TYPE \<Rightarrow> KWAIT_BLOCK" where
  "object_block t i x wt = \<lparr>wb_Thread = t, wb_Slot = Slot i, wb_Object = x,
                            wb_WaitKey = int i mod 65536, wb_WaitType = wt\<rparr>"

definition set_wait :: "tid \<Rightarrow> KWAIT_BLOCK list \<Rightarrow> bool \<Rightarrow> KPROCESSOR_MODE \<Rightarrow> nat \<Rightarrow> KSTATE \<Rightarrow> KSTATE" where
  "set_wait t bs Alertable WaitMode WaitReason =
     upd_thread t (\<lambda>th. th\<lparr>th_WaitBlockList := bs, th_WaitStatus := STATUS_WAIT_0, th_Alertable := Alertable,
                           th_WaitMode := WaitMode, th_WaitReason := WaitReason\<rparr>)"

definition set_timer_list :: "tid \<Rightarrow> KWAIT_BLOCK list \<Rightarrow> KSTATE \<Rightarrow> KSTATE" where
  "set_timer_list t bs = upd_object (TimerOf t) (\<lambda>ob. ob\<lparr>ob_WaitList := bs\<rparr>)"

definition KxSingleThreadWait ::
  "tid \<Rightarrow> oid \<Rightarrow> nat \<Rightarrow> KPROCESSOR_MODE \<Rightarrow> bool \<Rightarrow> int option \<Rightarrow> KCLOCK \<Rightarrow> KSTATE \<Rightarrow> KSTATE" where
  "KxSingleThreadWait t x WaitReason WaitMode Alertable Timeout c ks =
     (let b = object_block t 0 x WaitAny in
      case Timeout of
        Some to \<Rightarrow> set_timer_list t [timer_block t]
                    (KxSetTimerForThreadWait c (TimerOf t) to
                      (set_wait t [b, timer_block t] Alertable WaitMode WaitReason ks))
      | None \<Rightarrow> set_wait t [b] Alertable WaitMode WaitReason ks)"

definition KxQueueThreadWait ::
  "tid \<Rightarrow> oid \<Rightarrow> KPROCESSOR_MODE \<Rightarrow> int option \<Rightarrow> KCLOCK \<Rightarrow> KSTATE \<Rightarrow> KSTATE" where
  "KxQueueThreadWait t q WaitMode Timeout c ks =
     (let b = object_block t 0 q WaitAny in
      case Timeout of
        Some to \<Rightarrow> set_timer_list t [timer_block t]
                    (KxSetTimerForThreadWait c (TimerOf t) to
                      (set_wait t [b, timer_block t] False WaitMode WrQueue ks))
      | None \<Rightarrow> set_wait t [b] False WaitMode WrQueue ks)"

definition KxDelayThreadWait ::
  "tid \<Rightarrow> KPROCESSOR_MODE \<Rightarrow> bool \<Rightarrow> int \<Rightarrow> KCLOCK \<Rightarrow> KSTATE \<Rightarrow> KSTATE" where
  "KxDelayThreadWait t WaitMode Alertable Interval c ks =
     set_timer_list t [timer_block t]
       (KxSetTimerForThreadWait c (TimerOf t) Interval
         (set_wait t [timer_block t] Alertable WaitMode DelayExecution ks))"

text \<open>The timer block is linked into the ring of a multiple wait when the thread blocks.\<close>

definition KxMultiThreadWait ::
  "tid \<Rightarrow> oid list \<Rightarrow> WAIT_TYPE \<Rightarrow> nat \<Rightarrow> KPROCESSOR_MODE \<Rightarrow> bool \<Rightarrow> int option \<Rightarrow> KCLOCK \<Rightarrow> KSTATE \<Rightarrow> KSTATE" where
  "KxMultiThreadWait t xs WaitType WaitReason WaitMode Alertable Timeout c ks =
     (let bs = map (\<lambda>i. object_block t i (xs ! i) WaitType) [0..<length xs];
          ks = set_wait t bs Alertable WaitMode WaitReason ks
      in case Timeout of
           Some to \<Rightarrow> set_timer_list t [] (KxSetTimerForThreadWait c (TimerOf t) to ks)
         | None \<Rightarrow> ks)"

section \<open>The wait functions\<close>

text \<open>
  The start of a wait: after an operation that was asked to keep the dispatcher lock for the
  wait that follows, the interrupt level was saved by that operation.
\<close>

definition begin_wait :: "tid \<Rightarrow> nat \<Rightarrow> KSTATE \<Rightarrow> KSTATE" where
  "begin_wait t Irql =
     upd_thread t (\<lambda>th. if th_WaitNext th then th\<lparr>th_WaitNext := False\<rparr> else th\<lparr>th_WaitIrql := Irql\<rparr>)"

text \<open>
  How a pass ends: with a status, with an exception, with a bug check, with the thread
  switched out, or with the dispatcher lock released for a kernel APC, after which the loop
  makes another pass.
\<close>

datatype wait_result = Returned int | Raised int | BugCheck | Blocked | KernelApc

definition insert_wait_block :: "KWAIT_BLOCK \<Rightarrow> KSTATE \<Rightarrow> KSTATE" where
  "insert_wait_block b = upd_object (wb_Object b) (\<lambda>ob. ob\<lparr>ob_WaitList := ob_WaitList ob @ [b]\<rparr>)"

text \<open>
  The end of a pass that blocks, the same in all wait functions: the queue of the thread is
  told, the thread is waiting, and its timer, if it has a time-out, goes into the table.
\<close>

definition KiBlockThread :: "tid \<Rightarrow> bool \<Rightarrow> KCLOCK \<Rightarrow> KSTATE \<Rightarrow> KSTATE option" where
  "KiBlockThread t timed c ks =
     (let ks = upd_thread t (\<lambda>th. th\<lparr>th_State := Waiting\<rparr>) ks
      in if timed then KxInsertTimer c [] (TimerOf t) ks else Some ks)"

definition activate_queue :: "tid \<Rightarrow> KSTATE \<Rightarrow> KSTATE" where
  "activate_queue t ks =
     (case th_Queue (ks_Threads ks t) of None \<Rightarrow> ks | Some q \<Rightarrow> KiActivateWaiterQueue q ks)"

definition timer_expired :: "tid \<Rightarrow> KCLOCK \<Rightarrow> KSTATE \<Rightarrow> bool" where
  "timer_expired t c ks = (u64 (ck_InterruptTime c) \<ge> due ks (TimerOf t))"

definition activate_timer :: "tid \<Rightarrow> KSTATE \<Rightarrow> KSTATE" where
  "activate_timer t = upd_object (TimerOf t) (\<lambda>ob. ob\<lparr>ob_Inserted := True\<rparr>)"

definition KeWaitForSingleObject ::
  "tid \<Rightarrow> nat \<Rightarrow> oid \<Rightarrow> nat \<Rightarrow> KPROCESSOR_MODE \<Rightarrow> bool \<Rightarrow> int option \<Rightarrow> KCLOCK \<Rightarrow> KCLOCK \<Rightarrow> KCLOCK \<Rightarrow> KSTATE
   \<Rightarrow> (wait_result \<times> KSTATE) option" where
  "KeWaitForSingleObject t Irql x WaitReason WaitMode Alertable Timeout c1 c2 c3 ks =
     (let ks = begin_wait t Irql ks;
          ks = KxSingleThreadWait t x WaitReason WaitMode Alertable Timeout c1 ks;
          ob = ks_Objects ks x
      in if kernel_apc_deliverable (ks_Threads ks t) then Some (KernelApc, ks)
         else if ob_Type ob = MutantObject \<and> (ob_SignalState ob > 0 \<or> ob_OwnerThread ob = Some t) then
           if ob_SignalState ob \<noteq> MINLONG
           then let ks = KiSatisfyMutantWait x t ks in Some (Returned (th_WaitStatus (ks_Threads ks t)), ks)
           else Some (Raised STATUS_MUTANT_LIMIT_EXCEEDED, ks)
         else if ob_Type ob \<noteq> MutantObject \<and> ob_SignalState ob > 0
         then Some (Returned STATUS_WAIT_0, KiSatisfyNonMutantWait x ks)
         else case KiCheckAlertability t Alertable WaitMode ks of (WaitStatus, ks) \<Rightarrow>
           if WaitStatus \<noteq> STATUS_WAIT_0 then Some (Returned WaitStatus, ks)
           else if Timeout \<noteq> None \<and> timer_expired t c2 ks then Some (Returned STATUS_TIMEOUT, ks)
           else
             let ks = (if Timeout \<noteq> None then activate_timer t ks else ks);
                 ks = insert_wait_block (object_block t 0 x WaitAny) ks;
                 ks = activate_queue t ks
             in map_option (Pair Blocked) (KiBlockThread t (Timeout \<noteq> None) c3 ks))"

text \<open>
  The first loop of a wait for any object: the first signalled object satisfies it.
\<close>

fun wait_any_scan :: "tid \<Rightarrow> nat \<Rightarrow> oid list \<Rightarrow> KSTATE \<Rightarrow> (wait_result \<times> KSTATE) option" where
  "wait_any_scan t Index [] ks = None"
| "wait_any_scan t Index (x # xs) ks =
     (let ob = ks_Objects ks x in
      if ob_Type ob = MutantObject \<and> (ob_SignalState ob > 0 \<or> ob_OwnerThread ob = Some t) then
        if ob_SignalState ob \<noteq> MINLONG
        then let ks = KiSatisfyMutantWait x t ks
             in Some (Returned (th_WaitStatus (ks_Threads ks t) OR int Index), ks)
        else Some (Raised STATUS_MUTANT_LIMIT_EXCEEDED, ks)
      else if ob_Type ob \<noteq> MutantObject \<and> ob_SignalState ob > 0
      then Some (Returned (int Index), KiSatisfyNonMutantWait x ks)
      else wait_any_scan t (Index + 1) xs ks)"

text \<open>
  The loop of a wait for all objects: an exception, an object that is not signalled, or all
  of them signalled.
\<close>

fun wait_all_scan :: "tid \<Rightarrow> oid list \<Rightarrow> KSTATE \<Rightarrow> int + bool" where
  "wait_all_scan t [] ks = Inr True"
| "wait_all_scan t (x # xs) ks =
     (let ob = ks_Objects ks x in
      if ob_Type ob = MutantObject then
        if ob_OwnerThread ob = Some t \<and> ob_SignalState ob = MINLONG then Inl STATUS_MUTANT_LIMIT_EXCEEDED
        else if ob_SignalState ob \<le> 0 \<and> ob_OwnerThread ob \<noteq> Some t then Inr False
        else wait_all_scan t xs ks
      else if ob_SignalState ob \<le> 0 then Inr False
      else wait_all_scan t xs ks)"

definition wait_scan :: "tid \<Rightarrow> WAIT_TYPE \<Rightarrow> oid list \<Rightarrow> KSTATE \<Rightarrow> (wait_result \<times> KSTATE) option" where
  "wait_scan t WaitType xs ks =
     (if WaitType = WaitAny then wait_any_scan t 0 xs ks
      else case wait_all_scan t xs ks of
             Inl e \<Rightarrow> Some (Raised e, ks)
           | Inr False \<Rightarrow> None
           | Inr True \<Rightarrow>
               let ks = fold (\<lambda>b. KiSatisfyObjectWait (wb_Object b) t) (th_WaitBlockList (ks_Threads ks t)) ks
               in Some (Returned (th_WaitStatus (ks_Threads ks t)), ks))"

definition KeWaitForMultipleObjects ::
  "tid \<Rightarrow> nat \<Rightarrow> oid list \<Rightarrow> WAIT_TYPE \<Rightarrow> nat \<Rightarrow> KPROCESSOR_MODE \<Rightarrow> bool \<Rightarrow> int option \<Rightarrow> bool \<Rightarrow>
   KCLOCK \<Rightarrow> KCLOCK \<Rightarrow> KCLOCK \<Rightarrow> KSTATE \<Rightarrow> (wait_result \<times> KSTATE) option" where
  "KeWaitForMultipleObjects t Irql xs WaitType WaitReason WaitMode Alertable Timeout own_blocks c1 c2 c3 ks =
     (if length xs > (if own_blocks then 64 else 3) then Some (BugCheck, ks)
      else
        let ks = begin_wait t Irql ks;
            ks = KxMultiThreadWait t xs WaitType WaitReason WaitMode Alertable Timeout c1 ks
        in if kernel_apc_deliverable (ks_Threads ks t) then Some (KernelApc, ks)
           else case wait_scan t WaitType xs ks of
             Some r \<Rightarrow> Some r
           | None \<Rightarrow>
             (case KiCheckAlertability t Alertable WaitMode ks of (WaitStatus, ks) \<Rightarrow>
                if WaitStatus \<noteq> STATUS_WAIT_0 then Some (Returned WaitStatus, ks)
                else if Timeout \<noteq> None \<and> timer_expired t c2 ks then Some (Returned STATUS_TIMEOUT, ks)
                else
                  let ks = (if Timeout \<noteq> None
                            then upd_thread t (\<lambda>th. th\<lparr>th_WaitBlockList := th_WaitBlockList th @ [timer_block t]\<rparr>)
                                   (activate_timer t ks)
                            else ks);
                      ks = fold insert_wait_block (th_WaitBlockList (ks_Threads ks t)) ks;
                      ks = activate_queue t ks
                  in map_option (Pair Blocked) (KiBlockThread t (Timeout \<noteq> None) c3 ks)))"

text \<open>
  The answer \<^const>\<open>None\<close> in the first place stands for \<open>NtYieldExecution\<close>, which gives the
  rest of the time slice away.
\<close>

definition KeDelayExecutionThread ::
  "tid \<Rightarrow> nat \<Rightarrow> KPROCESSOR_MODE \<Rightarrow> bool \<Rightarrow> int \<Rightarrow> KCLOCK \<Rightarrow> KCLOCK \<Rightarrow> KCLOCK \<Rightarrow> KSTATE
   \<Rightarrow> (wait_result option \<times> KSTATE) option" where
  "KeDelayExecutionThread t Irql WaitMode Alertable Interval c1 c2 c3 ks =
     (if Interval = 0 \<and> WaitMode \<noteq> KernelMode \<and> \<not> Alertable \<and> \<not> th_UserApcPending (ks_Threads ks t)
      then Some (None, ks)
      else
        let ks = begin_wait t Irql ks;
            ks = KxDelayThreadWait t WaitMode Alertable Interval c1 ks
        in if kernel_apc_deliverable (ks_Threads ks t) then Some (Some KernelApc, ks)
           else case KiCheckAlertability t Alertable WaitMode ks of (WaitStatus, ks) \<Rightarrow>
             if WaitStatus \<noteq> STATUS_WAIT_0 then Some (Some (Returned WaitStatus), ks)
             else if timer_expired t c2 ks
             then Some (if Interval = 0 then None else Some (Returned STATUS_SUCCESS), ks)
             else map_option (Pair (Some Blocked)) (KiBlockThread t True c3 (activate_queue t (activate_timer t ks))))"

text \<open>
  The thread is back from \<open>KiSwapThread\<close>: the wait is over with a status, or it was
  interrupted and another pass is made with the time-out that is left.
\<close>

definition wait_resume :: "tid \<Rightarrow> int option \<Rightarrow> int \<Rightarrow> KCLOCK \<Rightarrow> KSTATE \<Rightarrow> int + int option" where
  "wait_resume t OriginalDueTime DueTime c ks =
     (if th_WaitStatus (ks_Threads ks t) \<noteq> STATUS_KERNEL_APC then Inl (th_WaitStatus (ks_Threads ks t))
      else Inr (map_option (\<lambda>d. KiRecalculateDueTime c d DueTime) OriginalDueTime))"

end
