(* ===== verification/Ke_Objects.thy ===== *)
theory Ke_Objects
  imports Ke_Wait
begin

text \<open>
  The operations on events, mutants, semaphores, timers, queues and the alert state of a
  thread (\<open>ntoskrnl/ke/eventobj.c\<close>, \<open>mutex.c\<close>, \<open>semphobj.c\<close>, \<open>timerobj.c\<close>, \<open>queue.c\<close>,
  \<open>thrdobj.c\<close>). The first argument of an operation that looks at the current thread is that
  thread. An operation with the flag \<open>Wait\<close> keeps the dispatcher lock for the wait that
  follows and saves the interrupt level \<open>OldIrql\<close>.
\<close>

definition finish :: "tid \<Rightarrow> bool \<Rightarrow> nat \<Rightarrow> KSTATE \<Rightarrow> KSTATE" where
  "finish cur Wait OldIrql ks =
     (if Wait then upd_thread cur (\<lambda>th. th\<lparr>th_WaitNext := True, th_WaitIrql := OldIrql\<rparr>) ks else ks)"

section \<open>Events\<close>

definition KeInitializeEvent :: "oid \<Rightarrow> KOBJECTS \<Rightarrow> bool \<Rightarrow> KSTATE \<Rightarrow> KSTATE" where
  "KeInitializeEvent x Type State =
     upd_object x (\<lambda>ob. ob\<lparr>ob_Type := Type, ob_SignalState := (if State then 1 else 0), ob_WaitList := []\<rparr>)"

definition KeInitializeEventPair :: "oid \<Rightarrow> oid \<Rightarrow> KSTATE \<Rightarrow> KSTATE" where
  "KeInitializeEventPair low high ks =
     KeInitializeEvent high EventSynchronizationObject False (KeInitializeEvent low EventSynchronizationObject False ks)"

definition KeClearEvent :: "oid \<Rightarrow> KSTATE \<Rightarrow> KSTATE" where
  "KeClearEvent x = set_signal x 0"

definition KeReadStateEvent :: "oid \<Rightarrow> KSTATE \<Rightarrow> int" where
  "KeReadStateEvent x ks = ob_SignalState (ks_Objects ks x)"

definition KeResetEvent :: "oid \<Rightarrow> KSTATE \<Rightarrow> int \<times> KSTATE" where
  "KeResetEvent x ks = (ob_SignalState (ks_Objects ks x), set_signal x 0 ks)"

definition KePulseEvent :: "tid \<Rightarrow> oid \<Rightarrow> int \<Rightarrow> bool \<Rightarrow> nat \<Rightarrow> KSTATE \<Rightarrow> (int \<times> KSTATE) option" where
  "KePulseEvent cur x Increment Wait OldIrql ks =
     do {
       let PreviousState = ob_SignalState (ks_Objects ks x);
       ks \<leftarrow> (if PreviousState = 0 \<and> ob_WaitList (ks_Objects ks x) \<noteq> []
              then KiWaitTest x Increment (set_signal x 1 ks) else Some ks);
       Some (PreviousState, finish cur Wait OldIrql (set_signal x 0 ks))
     }"

definition KeSetEvent :: "tid \<Rightarrow> oid \<Rightarrow> int \<Rightarrow> bool \<Rightarrow> nat \<Rightarrow> KSTATE \<Rightarrow> (int \<times> KSTATE) option" where
  "KeSetEvent cur x Increment Wait OldIrql ks =
     (if ob_Type (ks_Objects ks x) = EventNotificationObject \<and> ob_SignalState (ks_Objects ks x) = 1 \<and> \<not> Wait
      then Some (1, ks)
      else do {
        let PreviousState = ob_SignalState (ks_Objects ks x);
        let ks = set_signal x 1 ks;
        ks \<leftarrow> (if PreviousState = 0 \<and> ob_WaitList (ks_Objects ks x) \<noteq> [] then
                 if ob_Type (ks_Objects ks x) = EventNotificationObject then KxUnwaitThread x Increment ks
                 else KxUnwaitThreadForEvent x Increment ks
               else Some ks);
        Some (PreviousState, finish cur Wait OldIrql ks)
      })"

definition KiComputeNewPriority :: "'a KTHREAD_scheme \<Rightarrow> int \<Rightarrow> int \<times> 'a KTHREAD_scheme" where
  "KiComputeNewPriority th Adjustment =
     (if th_Priority th < LOW_REALTIME_PRIORITY then
        let Priority = s8 (th_Priority th - (th_PriorityDecrement th + Adjustment))
        in (if Priority < th_BasePriority th then th_BasePriority th else Priority,
            th\<lparr>th_PriorityDecrement := 0\<rparr>)
      else (th_Priority th, th))"

text \<open>The thread that was woken is the first component of the result.\<close>

definition KeSetEventBoostPriority :: "tid \<Rightarrow> oid \<Rightarrow> KSTATE \<Rightarrow> (tid option \<times> KSTATE) option" where
  "KeSetEventBoostPriority cur x ks =
     (case ob_WaitList (ks_Objects ks x) of
        [] \<Rightarrow> Some (None, set_signal x 1 ks)
      | b # bs \<Rightarrow>
          if wb_WaitType b = WaitAll then
            map_option (Pair None) (KxUnwaitThreadForEvent x 1 (set_signal x 1 ks))
          else
            let t = wb_Thread b;
                (p, th) = KiComputeNewPriority (ks_Threads ks cur) 0;
                ks = upd_thread cur (\<lambda>_. th\<lparr>th_Priority := p\<rparr>) ks;
                ks = KiUnlinkThread t STATUS_SUCCESS ks;
                ks = upd_thread t (\<lambda>th. th\<lparr>th_AdjustIncrement := th_Priority (ks_Threads ks cur),
                                           th_AdjustReason := AdjustBoost\<rparr>) ks
            in Some (Some t, KiReadyThread t ks))"

section \<open>Mutants\<close>

definition KeInitializeMutant :: "tid \<Rightarrow> oid \<Rightarrow> bool \<Rightarrow> KSTATE \<Rightarrow> KSTATE" where
  "KeInitializeMutant cur x InitialOwner ks =
     (let ks = (if InitialOwner then
                  upd_thread cur (\<lambda>th. th\<lparr>th_MutantList := th_MutantList th @ [x]\<rparr>)
                    (upd_object x (\<lambda>ob. ob\<lparr>ob_OwnerThread := Some cur\<rparr>) ks)
                else upd_object x (\<lambda>ob. ob\<lparr>ob_OwnerThread := None\<rparr>) ks)
      in upd_object x (\<lambda>ob. ob\<lparr>ob_Type := MutantObject, ob_SignalState := (if InitialOwner then 0 else 1),
                               ob_WaitList := [], ob_Abandoned := False, ob_ApcDisable := False\<rparr>) ks)"

definition KeInitializeMutex :: "oid \<Rightarrow> nat \<Rightarrow> KSTATE \<Rightarrow> KSTATE" where
  "KeInitializeMutex x Level =
     upd_object x (\<lambda>ob. ob\<lparr>ob_Type := MutantObject, ob_SignalState := 1, ob_WaitList := [],
                           ob_OwnerThread := None, ob_Abandoned := False, ob_ApcDisable := True\<rparr>)"

definition KeReadStateMutant :: "oid \<Rightarrow> KSTATE \<Rightarrow> int" where
  "KeReadStateMutant x ks = ob_SignalState (ks_Objects ks x)"

text \<open>The list entry of a mutant is in the list of the thread that owns it.\<close>

definition RemoveMutantListEntry :: "oid \<Rightarrow> KSTATE \<Rightarrow> KSTATE" where
  "RemoveMutantListEntry x ks =
     (case ob_OwnerThread (ks_Objects ks x) of
        None \<Rightarrow> ks
      | Some t \<Rightarrow> upd_thread t (\<lambda>th. th\<lparr>th_MutantList := remove1 x (th_MutantList th)\<rparr>) ks)"

text \<open>Kernel APCs are counted enabled again; the delivery of one that is pending is left out.\<close>

definition KeLeaveCriticalRegion :: "tid \<Rightarrow> KSTATE \<Rightarrow> KSTATE" where
  "KeLeaveCriticalRegion cur = upd_thread cur (\<lambda>th. th\<lparr>th_KernelApcDisable := s16 (th_KernelApcDisable th + 1)\<rparr>)"

definition KeReleaseMutant ::
  "tid \<Rightarrow> oid \<Rightarrow> int \<Rightarrow> bool \<Rightarrow> bool \<Rightarrow> nat \<Rightarrow> KSTATE \<Rightarrow> (int + int \<times> KSTATE) option" where
  "KeReleaseMutant cur x Increment Abandon Wait OldIrql ks =
     (let PreviousState = ob_SignalState (ks_Objects ks x) in
      if \<not> Abandon \<and> ob_OwnerThread (ks_Objects ks x) \<noteq> Some cur
      then Some (Inl (if ob_Abandoned (ks_Objects ks x) then STATUS_ABANDONED else STATUS_MUTANT_NOT_OWNED))
      else
        let ks = (if \<not> Abandon then set_signal x (s32 (PreviousState + 1)) ks
                  else upd_object x (\<lambda>ob. ob\<lparr>ob_SignalState := 1, ob_Abandoned := True\<rparr>) ks);
            single = (ob_SignalState (ks_Objects ks x) = 1);
            EnableApc = (single \<and> PreviousState \<le> 0 \<and> ob_ApcDisable (ks_Objects ks x))
        in do {
          ks \<leftarrow> (if single then
                   let ks = (if PreviousState \<le> 0 then RemoveMutantListEntry x ks else ks);
                       ks = upd_object x (\<lambda>ob. ob\<lparr>ob_OwnerThread := None\<rparr>) ks
                   in if ob_WaitList (ks_Objects ks x) \<noteq> [] then KiWaitTest x Increment ks else Some ks
                 else Some ks);
          let ks = finish cur Wait OldIrql ks;
          Some (Inr (PreviousState, if EnableApc then KeLeaveCriticalRegion cur ks else ks))
        })"

definition KeReleaseMutex :: "tid \<Rightarrow> oid \<Rightarrow> bool \<Rightarrow> nat \<Rightarrow> KSTATE \<Rightarrow> (int + int \<times> KSTATE) option" where
  "KeReleaseMutex cur x Wait OldIrql ks = KeReleaseMutant cur x 1 False Wait OldIrql ks"

section \<open>Semaphores\<close>

definition KeInitializeSemaphore :: "oid \<Rightarrow> int \<Rightarrow> int \<Rightarrow> KSTATE \<Rightarrow> KSTATE" where
  "KeInitializeSemaphore x Count Limit =
     upd_object x (\<lambda>ob. ob\<lparr>ob_Type := SemaphoreObject, ob_SignalState := Count, ob_WaitList := [], ob_Limit := Limit\<rparr>)"

definition KeReadStateSemaphore :: "oid \<Rightarrow> KSTATE \<Rightarrow> int" where
  "KeReadStateSemaphore x ks = ob_SignalState (ks_Objects ks x)"

definition KeReleaseSemaphore ::
  "tid \<Rightarrow> oid \<Rightarrow> int \<Rightarrow> int \<Rightarrow> bool \<Rightarrow> nat \<Rightarrow> KSTATE \<Rightarrow> (int + int \<times> KSTATE) option" where
  "KeReleaseSemaphore cur x Increment Adjustment Wait OldIrql ks =
     (let InitialState = ob_SignalState (ks_Objects ks x);
          State = s32 (InitialState + Adjustment)
      in if ob_Limit (ks_Objects ks x) < State \<or> InitialState > State
         then Some (Inl STATUS_SEMAPHORE_LIMIT_EXCEEDED)
         else do {
           let ks = set_signal x State ks;
           ks \<leftarrow> (if InitialState = 0 \<and> ob_WaitList (ks_Objects ks x) \<noteq> [] then KiWaitTest x Increment ks else Some ks);
           Some (Inr (InitialState, finish cur Wait OldIrql ks))
         })"

section \<open>Timers\<close>

definition KeInitializeTimerEx :: "oid \<Rightarrow> KOBJECTS \<Rightarrow> KSTATE \<Rightarrow> KSTATE" where
  "KeInitializeTimerEx x Type =
     upd_object x (\<lambda>ob. ob\<lparr>ob_Type := Type, ob_Hand := 10, ob_Inserted := False, ob_SignalState := 0,
                           ob_WaitList := [], ob_DueTime := 0, ob_Period := 0\<rparr>)"

definition KeInitializeTimer :: "oid \<Rightarrow> KSTATE \<Rightarrow> KSTATE" where
  "KeInitializeTimer x = KeInitializeTimerEx x TimerNotificationObject"

definition KeReadStateTimer :: "oid \<Rightarrow> KSTATE \<Rightarrow> bool" where
  "KeReadStateTimer x ks = (ob_SignalState (ks_Objects ks x) \<noteq> 0)"

definition KeCancelTimer :: "oid \<Rightarrow> KSTATE \<Rightarrow> bool \<times> KSTATE" where
  "KeCancelTimer x ks =
     (let Inserted = ob_Inserted (ks_Objects ks x)
      in (Inserted, if Inserted then KxRemoveTreeTimer x ks else ks))"

definition KeSetTimerEx ::
  "KCLOCK \<Rightarrow> KCLOCK \<Rightarrow> (KCLOCK \<times> KCLOCK) list \<Rightarrow> oid \<Rightarrow> int \<Rightarrow> int \<Rightarrow> bool \<Rightarrow> KSTATE \<Rightarrow> (bool \<times> KSTATE) option" where
  "KeSetTimerEx c c' cs x DueTime Period Dpc ks =
     (let (Inserted, ks) = KeCancelTimer x ks;
          ks = upd_object x (\<lambda>ob. ob\<lparr>ob_Dpc := Dpc, ob_Period := Period\<rparr>) ks
      in case KiComputeDueTime c x DueTime ks of
           (False, ks) \<Rightarrow> map_option (\<lambda>r. (Inserted, snd r)) (KiSignalTimer cs x ks)
         | (True, ks) \<Rightarrow> map_option (Pair Inserted) (KxInsertTimer c' cs x (set_signal x 0 ks)))"

definition KeSetTimer ::
  "KCLOCK \<Rightarrow> KCLOCK \<Rightarrow> (KCLOCK \<times> KCLOCK) list \<Rightarrow> oid \<Rightarrow> int \<Rightarrow> bool \<Rightarrow> KSTATE \<Rightarrow> (bool \<times> KSTATE) option" where
  "KeSetTimer c c' cs x DueTime Dpc ks = KeSetTimerEx c c' cs x DueTime 0 Dpc ks"

section \<open>Queues\<close>

definition KeInitializeQueue :: "nat \<Rightarrow> oid \<Rightarrow> nat \<Rightarrow> KSTATE \<Rightarrow> KSTATE" where
  "KeInitializeQueue KeNumberProcessors q Count =
     upd_object q (\<lambda>ob. ob\<lparr>ob_Type := QueueObject, ob_SignalState := 0, ob_WaitList := [], ob_EntryList := [],
                           ob_ThreadList := [], ob_CurrentCount := 0,
                           ob_MaximumCount := (if Count = 0 then KeNumberProcessors else Count), ob_RunDown := False\<rparr>)"

definition KeReadStateQueue :: "oid \<Rightarrow> KSTATE \<Rightarrow> int" where
  "KeReadStateQueue q ks = ob_SignalState (ks_Objects ks q)"

definition KiInsertQueue :: "tid \<Rightarrow> oid \<Rightarrow> int \<Rightarrow> bool \<Rightarrow> KSTATE \<Rightarrow> int \<times> KSTATE" where
  "KiInsertQueue cur q Entry Head ks =
     (let ob = ks_Objects ks q; th = ks_Threads ks cur; InitialState = ob_SignalState ob in
      if ob_CurrentCount ob < ob_MaximumCount ob \<and> ob_WaitList ob \<noteq> []
         \<and> (th_Queue th \<noteq> Some q \<or> th_WaitReason th \<noteq> WrQueue) then
        let b = last (ob_WaitList ob); t = wb_Thread b;
            ks = upd_object q (\<lambda>ob. ob\<lparr>ob_WaitList := butlast (ob_WaitList ob)\<rparr>) ks;
            ks = upd_thread t (\<lambda>th. th\<lparr>th_WaitStatus := Entry\<rparr>) ks;
            ks = upd_object q (\<lambda>ob. ob\<lparr>ob_CurrentCount := u32_add (ob_CurrentCount ob) 1\<rparr>) ks;
            ks = upd_thread t (\<lambda>th. th\<lparr>th_WaitReason := 0\<rparr>) ks;
            ks = (if ob_Inserted (ks_Objects ks (TimerOf t)) then KxRemoveTreeTimer (TimerOf t) ks else ks)
        in (InitialState, KiReadyThread t ks)
      else
        (InitialState,
         upd_object q (\<lambda>ob. ob\<lparr>ob_SignalState := s32 (ob_SignalState ob + 1),
           ob_EntryList := (if Head then Entry # ob_EntryList ob else ob_EntryList ob @ [Entry])\<rparr>) ks))"

definition KeInsertHeadQueue :: "tid \<Rightarrow> oid \<Rightarrow> int \<Rightarrow> KSTATE \<Rightarrow> int \<times> KSTATE" where
  "KeInsertHeadQueue cur q Entry ks = KiInsertQueue cur q Entry True ks"

definition KeInsertQueue :: "tid \<Rightarrow> oid \<Rightarrow> int \<Rightarrow> KSTATE \<Rightarrow> int \<times> KSTATE" where
  "KeInsertQueue cur q Entry ks = KiInsertQueue cur q Entry False ks"

text \<open>
  A round of the loop of \<open>KeRemoveQueue\<close>, with the count of the thread already taken down.
\<close>

definition remove_queue_round ::
  "tid \<Rightarrow> oid \<Rightarrow> KPROCESSOR_MODE \<Rightarrow> bool \<Rightarrow> KCLOCK \<Rightarrow> KCLOCK \<Rightarrow> KSTATE \<Rightarrow> (wait_result \<times> KSTATE) option" where
  "remove_queue_round t q WaitMode timed c2 c3 ks =
     (let ob = ks_Objects ks q in
      if ob_CurrentCount ob < ob_MaximumCount ob \<and> ob_EntryList ob \<noteq> [] then
        Some (Returned (hd (ob_EntryList ob)),
          upd_object q (\<lambda>ob. ob\<lparr>ob_SignalState := s32 (ob_SignalState ob - 1), ob_EntryList := tl (ob_EntryList ob)\<rparr>)
            (count_up q ks))
      else if kernel_apc_deliverable (ks_Threads ks t) then Some (KernelApc, count_up q ks)
      else if WaitMode \<noteq> KernelMode \<and> th_UserApcPending (ks_Threads ks t)
      then Some (Returned STATUS_USER_APC, count_up q ks)
      else if timed \<and> timer_expired t c2 ks then Some (Returned STATUS_TIMEOUT, count_up q ks)
      else
        let ks = (if timed then activate_timer t ks else ks);
            ks = insert_wait_block (object_block t 0 q WaitAny) ks
        in map_option (Pair Blocked) (KiBlockThread t timed c3 ks))"

definition KeRemoveQueue ::
  "tid \<Rightarrow> nat \<Rightarrow> oid \<Rightarrow> KPROCESSOR_MODE \<Rightarrow> int option \<Rightarrow> KCLOCK \<Rightarrow> KCLOCK \<Rightarrow> KCLOCK \<Rightarrow> KSTATE
   \<Rightarrow> (wait_result \<times> KSTATE) option" where
  "KeRemoveQueue t Irql q WaitMode Timeout c1 c2 c3 ks =
     (let ks = begin_wait t Irql ks;
          ks = KxQueueThreadWait t q WaitMode Timeout c1 ks;
          PreviousQueue = th_Queue (ks_Threads ks t);
          ks = upd_thread t (\<lambda>th. th\<lparr>th_Queue := Some q\<rparr>) ks;
          ks = (if PreviousQueue \<noteq> Some q then
                  let ks = (case PreviousQueue of
                              None \<Rightarrow> ks
                            | Some p \<Rightarrow> KiActivateWaiterQueue p
                                (upd_object p (\<lambda>ob. ob\<lparr>ob_ThreadList := remove1 t (ob_ThreadList ob)\<rparr>) ks))
                  in upd_object q (\<lambda>ob. ob\<lparr>ob_ThreadList := ob_ThreadList ob @ [t]\<rparr>) ks
                else count_down q ks)
      in remove_queue_round t q WaitMode (Timeout \<noteq> None) c2 c3 ks)"

text \<open>
  Another round, after a kernel APC or an interrupted wait: the wait reason was reset when
  the thread came back from a wait.
\<close>

definition KeRemoveQueue_again ::
  "tid \<Rightarrow> nat \<Rightarrow> oid \<Rightarrow> KPROCESSOR_MODE \<Rightarrow> int option \<Rightarrow> KCLOCK \<Rightarrow> KCLOCK \<Rightarrow> KCLOCK \<Rightarrow> KSTATE
   \<Rightarrow> (wait_result \<times> KSTATE) option" where
  "KeRemoveQueue_again t Irql q WaitMode Timeout c1 c2 c3 ks =
     (let ks = upd_thread t (\<lambda>th. th\<lparr>th_WaitIrql := Irql\<rparr>) ks;
          ks = KxQueueThreadWait t q WaitMode Timeout c1 ks
      in remove_queue_round t q WaitMode (Timeout \<noteq> None) c2 c3 (count_down q ks))"

definition KeRemoveQueue_resume :: "tid \<Rightarrow> KSTATE \<Rightarrow> KSTATE" where
  "KeRemoveQueue_resume t = upd_thread t (\<lambda>th. th\<lparr>th_WaitReason := 0\<rparr>)"

text \<open>
  The head of the entry list is unlinked from the ring of its entries, which is returned; the
  head itself keeps its links. The thread counts stay as they are. The auxiliary mark of the queue is set.
\<close>

definition KeRundownQueue :: "oid \<Rightarrow> KSTATE \<Rightarrow> int list \<times> KSTATE" where
  "KeRundownQueue q ks =
     (let ts = ob_ThreadList (ks_Objects ks q);
          ks' = fold (\<lambda>t. upd_thread t (\<lambda>th. th\<lparr>th_Queue := None\<rparr>)) ts ks
      in (ob_EntryList (ks_Objects ks q), upd_object q (\<lambda>ob. ob\<lparr>ob_ThreadList := [], ob_RunDown := True\<rparr>) ks'))"

section \<open>Alerts\<close>

fun mode_le :: "KPROCESSOR_MODE \<Rightarrow> KPROCESSOR_MODE \<Rightarrow> bool" where
  "mode_le UserMode KernelMode = False"
| "mode_le _ _ = True"

definition KeAlertThread :: "tid \<Rightarrow> KPROCESSOR_MODE \<Rightarrow> KSTATE \<Rightarrow> bool \<times> KSTATE" where
  "KeAlertThread t AlertMode ks =
     (let th = ks_Threads ks t; PreviousState = th_Alerted th AlertMode
      in (PreviousState,
          if PreviousState then ks
          else if th_State th = Waiting \<and> th_Alertable th \<and> mode_le AlertMode (th_WaitMode th)
          then KiUnwaitThread t STATUS_ALERTED 2 ks
          else upd_thread t (\<lambda>th. th\<lparr>th_Alerted := (th_Alerted th)(AlertMode := True)\<rparr>) ks))"

definition KeTestAlertThread :: "tid \<Rightarrow> KPROCESSOR_MODE \<Rightarrow> KSTATE \<Rightarrow> bool \<times> KSTATE" where
  "KeTestAlertThread cur AlertMode ks =
     (let th = ks_Threads ks cur; OldState = th_Alerted th AlertMode
      in (OldState,
          if OldState then upd_thread cur (\<lambda>th. th\<lparr>th_Alerted := (th_Alerted th)(AlertMode := False)\<rparr>) ks
          else if AlertMode \<noteq> KernelMode \<and> th_ApcList th UserMode \<noteq> []
          then upd_thread cur (\<lambda>th. th\<lparr>th_UserApcPending := True\<rparr>) ks
          else ks))"

section \<open>The start of the system\<close>

text \<open>
  The memory of the objects is zero, threads are as \<open>KeInitThread\<close> leaves them, the timers of
  the threads are initialised, and the timer table is empty.
\<close>

definition blank_object :: KOBJECT where
  "blank_object = \<lparr>ob_Type = EventNotificationObject, ob_SignalState = 0, ob_WaitList = [], ob_OwnerThread = None,
     ob_Abandoned = False, ob_ApcDisable = False, ob_Limit = 0, ob_Inserted = False, ob_Absolute = False, ob_Hand = 0,
     ob_DueTime = 0, ob_Period = 0, ob_Dpc = False, ob_EntryList = [], ob_ThreadList = [], ob_CurrentCount = 0,
     ob_MaximumCount = 0, ob_RunDown = False\<rparr>"

definition new_thread :: KTHREAD where
  "new_thread = \<lparr>th_State = Initialized, th_WaitStatus = 0, th_WaitBlockList = [], th_WaitNext = False, th_WaitIrql = 0,
     th_WaitMode = KernelMode, th_WaitReason = 0, th_Alertable = False, th_Alerted = (\<lambda>_. False),
     th_KernelApcPending = False, th_UserApcPending = False, th_ApcList = (\<lambda>_. []), th_ApcStateIndex = 0,
     th_SavedApcList = (\<lambda>_. []), th_SavedKernelApcPending = False, th_SavedUserApcPending = False,
     th_KernelApcInProgress = False, th_ApcQueueable = True, th_SpecialApcDisable = False, th_KernelApcDisable = 0,
     th_MutantList = [], th_Queue = None, th_Priority = 0, th_BasePriority = 0, th_PriorityDecrement = 0,
     th_AdjustIncrement = 0, th_AdjustReason = AdjustNone\<rparr>"

definition blank_apc :: KAPC where
  "blank_apc = \<lparr>ap_Thread = 0, ap_ApcMode = KernelMode, ap_ApcStateIndex = 0, ap_NormalRoutine = False,
     ap_ExitRoutine = False, ap_Inserted = False\<rparr>"

definition KiInitSystem :: "nat \<Rightarrow> KSTATE" where
  "KiInitSystem MaximumIncrement =
     \<lparr>ks_Objects = case_oid (\<lambda>n. blank_object) (\<lambda>t. blank_object\<lparr>ob_Type := TimerNotificationObject, ob_Hand := 10\<rparr>),
      ks_Threads = (\<lambda>_. new_thread), ks_Apcs = (\<lambda>_. blank_apc), ks_TimerTable = (\<lambda>_. []),
      ks_TimerTime = (\<lambda>_. 0xFFFFFFFF00000000), ks_KeMaximumIncrement = MaximumIncrement\<rparr>"

end
