(* ===== verification/Ke_Scheduler.thy ===== *)
theory Ke_Scheduler
  imports Ke_Objects Rtl_Bitmap
begin

text \<open>
  The scheduler of a processor (\<open>ntoskrnl/ke/thrdschd.c\<close>, \<open>KiExitDispatcher\<close> of \<open>wait.c\<close>,
  \<open>KiQuantumEnd\<close> of \<open>dpc.c\<close>, the priority functions of \<open>thrdobj.c\<close> and the inline routines of
  \<open>include/internal/ke_x.h\<close>), in the configuration for one processor: a thread that is made
  ready is handed to \<open>KiDeferredReadyThread\<close> at once, and affinities play no role. An operation
  that switches contexts ends, in the model, at the switch.
\<close>

section \<open>The state of the scheduler\<close>

text \<open>The fields of a thread that only the scheduler looks at.\<close>

record SCHED_THREAD = KTHREAD +
  th_Quantum :: int
  th_QuantumReset :: int
  th_DisableBoost :: bool
  th_Preempted :: bool
  th_WaitTime :: nat
  th_Saturation :: int

text \<open>What the scheduler reads of the process of a thread.\<close>

record KPROCESS =
  kp_BasePriority :: int
  kp_QuantumReset :: int
  kp_DisableBoost :: bool
  kp_DisableQuantum :: bool
  kp_Foreground :: bool

record KPRCB =
  sc_Threads :: "tid \<Rightarrow> SCHED_THREAD"
  sc_Process :: "tid \<Rightarrow> KPROCESS"
  sc_DispatcherReadyList :: "nat \<Rightarrow> tid list"
  sc_ReadySummary :: "32 word"
  sc_NextThread :: "tid option"
  sc_CurrentThread :: tid
  sc_IdleThread :: tid
  sc_KiIdleSummary :: bool
  sc_QuantumEnd :: bool
  sc_PsPrioritySeparation :: int

definition upd_sched :: "tid \<Rightarrow> (SCHED_THREAD \<Rightarrow> SCHED_THREAD) \<Rightarrow> KPRCB \<Rightarrow> KPRCB" where
  "upd_sched t f sc = sc\<lparr>sc_Threads := (sc_Threads sc)(t := f (sc_Threads sc t))\<rparr>"

lemma sc_Threads_upd_sched [simp]: "sc_Threads (upd_sched t f sc) = (sc_Threads sc)(t := f (sc_Threads sc t))"
  by (simp add: upd_sched_def)

lemma upd_sched_frame [simp]:
  "sc_Process (upd_sched t f sc) = sc_Process sc"
  "sc_DispatcherReadyList (upd_sched t f sc) = sc_DispatcherReadyList sc"
  "sc_ReadySummary (upd_sched t f sc) = sc_ReadySummary sc"
  "sc_NextThread (upd_sched t f sc) = sc_NextThread sc"
  "sc_CurrentThread (upd_sched t f sc) = sc_CurrentThread sc"
  "sc_IdleThread (upd_sched t f sc) = sc_IdleThread sc"
  "sc_KiIdleSummary (upd_sched t f sc) = sc_KiIdleSummary sc"
  "sc_QuantumEnd (upd_sched t f sc) = sc_QuantumEnd sc"
  "sc_PsPrioritySeparation (upd_sched t f sc) = sc_PsPrioritySeparation sc"
  by (simp_all add: upd_sched_def)

abbreviation (input) "LOW_PRIORITY \<equiv> (0 :: int)"
abbreviation (input) "HIGH_PRIORITY \<equiv> (31 :: int)"
abbreviation (input) "MAX_QUANTUM \<equiv> (0x7F :: int)"
abbreviation (input) "CLOCK_QUANTUM_DECREMENT \<equiv> (3 :: int)"
abbreviation (input) "DISPATCH_LEVEL \<equiv> (2 :: nat)"
abbreviation (input) "WrDispatchInt \<equiv> (31 :: nat)"
abbreviation (input) "WrQuantumEnd \<equiv> (30 :: nat)"
abbreviation (input) "WrYieldExecution \<equiv> (33 :: nat)"

definition PRIORITY_MASK :: "nat \<Rightarrow> 32 word" where
  "PRIORITY_MASK p = push_bit p 1"

section \<open>The ready lists\<close>

text \<open>\<open>RemoveEntryList\<close> says whether the list is empty now; then the bit of the list is reset.\<close>

definition RemoveReadyThread :: "nat \<Rightarrow> tid \<Rightarrow> KPRCB \<Rightarrow> KPRCB" where
  "RemoveReadyThread p t sc =
     (let ts = remove1 t (sc_DispatcherReadyList sc p);
          sc = sc\<lparr>sc_DispatcherReadyList := (sc_DispatcherReadyList sc)(p := ts)\<rparr>
      in if ts = [] then sc\<lparr>sc_ReadySummary := sc_ReadySummary sc XOR PRIORITY_MASK p\<rparr> else sc)"

text \<open>A thread that was preempted goes to the front of its list.\<close>

definition InsertReadyThread :: "nat \<Rightarrow> bool \<Rightarrow> tid \<Rightarrow> KPRCB \<Rightarrow> KPRCB" where
  "InsertReadyThread TickCount Preempted t sc =
     (let Priority = nat (th_Priority (sc_Threads sc t));
          sc = upd_sched t (\<lambda>th. th\<lparr>th_State := Ready, th_WaitTime := TickCount\<rparr>) sc;
          ts = sc_DispatcherReadyList sc Priority
      in sc\<lparr>sc_DispatcherReadyList := (sc_DispatcherReadyList sc)(Priority := if Preempted then t # ts else ts @ [t]),
            sc_ReadySummary := sc_ReadySummary sc OR PRIORITY_MASK Priority\<rparr>)"

definition KxQueueReadyThread :: "nat \<Rightarrow> tid \<Rightarrow> KPRCB \<Rightarrow> KPRCB" where
  "KxQueueReadyThread TickCount t sc =
     InsertReadyThread TickCount (th_Preempted (sc_Threads sc t)) t (upd_sched t (\<lambda>th. th\<lparr>th_Preempted := False\<rparr>) sc)"

text \<open>An \<open>ASSERT\<close> says that the list of a priority with a set bit is not empty.\<close>

definition KiSelectReadyThread :: "nat \<Rightarrow> KPRCB \<Rightarrow> tid option \<times> KPRCB" where
  "KiSelectReadyThread Priority sc =
     (case BitScanReverse (drop_bit Priority (sc_ReadySummary sc)) of
        None \<Rightarrow> (None, sc)
      | Some h \<Rightarrow>
          let HighPriority = h + Priority in
          (case sc_DispatcherReadyList sc HighPriority of
             [] \<Rightarrow> (None, sc)
           | t # ts \<Rightarrow> (Some t, RemoveReadyThread HighPriority t sc)))"

section \<open>Making a thread ready\<close>

definition adjust_boost :: "SCHED_THREAD \<Rightarrow> SCHED_THREAD" where
  "adjust_boost th =
     (let th = (if th_Priority th \<le> th_AdjustIncrement th \<and> th_Priority th < LOW_REALTIME_PRIORITY - 3 \<and> \<not> th_DisableBoost th
                then let OldPriority = min (th_AdjustIncrement th + 1) (LOW_REALTIME_PRIORITY - 3)
                     in th\<lparr>th_PriorityDecrement := s8 (th_PriorityDecrement th + (s8 OldPriority - th_Priority th)),
                           th_Priority := s8 OldPriority\<rparr>
                else th);
          th = (if th_Quantum th < 4 then th\<lparr>th_Quantum := 4\<rparr> else th)
      in th\<lparr>th_Quantum := s8 (th_Quantum th - 1), th_AdjustReason := AdjustNone\<rparr>)"

definition new_priority :: "SCHED_THREAD \<Rightarrow> int \<Rightarrow> SCHED_THREAD" where
  "new_priority th Adjustment = (case KiComputeNewPriority th Adjustment of (p, th) \<Rightarrow> th\<lparr>th_Priority := p\<rparr>)"

definition unwait_quantum :: "SCHED_THREAD \<Rightarrow> SCHED_THREAD" where
  "unwait_quantum th =
     (if th_BasePriority th \<ge> LOW_REALTIME_PRIORITY - 2 then th\<lparr>th_Quantum := th_QuantumReset th\<rparr>
      else
        let th = (if th_PriorityDecrement th = 0 \<and> th_AdjustIncrement th \<noteq> 0 then th\<lparr>th_Quantum := th_QuantumReset th\<rparr> else th)
        in if th_WaitStatus th \<noteq> STATUS_KERNEL_APC then
             let th = th\<lparr>th_Quantum := s8 (th_Quantum th - 1)\<rparr>
             in if th_Quantum th \<le> 0 then new_priority (th\<lparr>th_Quantum := th_QuantumReset th\<rparr>) 1 else th
           else th)"

definition unwait_boost :: "KPROCESS \<Rightarrow> int \<Rightarrow> SCHED_THREAD \<Rightarrow> SCHED_THREAD" where
  "unwait_boost kp PsPrioritySeparation th =
     (if th_PriorityDecrement th = 0 \<and> \<not> th_DisableBoost th then
        let OldPriority = th_BasePriority th + th_AdjustIncrement th + (if kp_Foreground kp then PsPrioritySeparation else 0)
        in if OldPriority > th_Priority th then
             let OldPriority = (if OldPriority \<ge> LOW_REALTIME_PRIORITY then LOW_REALTIME_PRIORITY - 1 else OldPriority);
                 th = (if OldPriority > th_BasePriority th + th_AdjustIncrement th
                       then th\<lparr>th_PriorityDecrement := s8 (s8 OldPriority - th_BasePriority th - th_AdjustIncrement th)\<rparr> else th)
             in th\<lparr>th_Priority := s8 OldPriority\<rparr>
           else th
      else th)"

definition adjust_unwait :: "KPROCESS \<Rightarrow> int \<Rightarrow> SCHED_THREAD \<Rightarrow> SCHED_THREAD" where
  "adjust_unwait kp PsPrioritySeparation th =
     (if th_Priority th < LOW_REALTIME_PRIORITY then unwait_boost kp PsPrioritySeparation (unwait_quantum th)
      else th\<lparr>th_Quantum := th_QuantumReset th\<rparr>)\<lparr>th_AdjustReason := AdjustNone\<rparr>"

definition adjust_thread :: "tid \<Rightarrow> KPRCB \<Rightarrow> KPRCB" where
  "adjust_thread t sc =
     (case th_AdjustReason (sc_Threads sc t) of
        AdjustBoost \<Rightarrow> upd_sched t adjust_boost sc
      | AdjustUnwait \<Rightarrow> upd_sched t (adjust_unwait (sc_Process sc t) (sc_PsPrioritySeparation sc)) sc
      | AdjustNone \<Rightarrow> sc)"

definition set_standby :: "tid \<Rightarrow> KPRCB \<Rightarrow> KPRCB" where
  "set_standby t sc = (upd_sched t (\<lambda>th. th\<lparr>th_State := Standby\<rparr>) sc)\<lparr>sc_NextThread := Some t\<rparr>"

partial_function (option) KiDeferredReadyThread :: "nat \<Rightarrow> tid \<Rightarrow> KPRCB \<Rightarrow> KPRCB option" where
  "KiDeferredReadyThread TickCount t sc =
     (let sc = adjust_thread t sc;
          Preempted = th_Preempted (sc_Threads sc t);
          OldPriority = th_Priority (sc_Threads sc t);
          sc = upd_sched t (\<lambda>th. th\<lparr>th_Preempted := False\<rparr>) sc
      in if sc_KiIdleSummary sc then Some (set_standby t (sc\<lparr>sc_KiIdleSummary := False\<rparr>))
         else case sc_NextThread sc of
             Some n \<Rightarrow>
               if OldPriority > th_Priority (sc_Threads sc n) then
                 let sc = upd_sched n (\<lambda>th. th\<lparr>th_Preempted := True\<rparr>) sc;
                     sc = set_standby t sc;
                     sc = upd_sched n (\<lambda>th. th\<lparr>th_State := DeferredReady\<rparr>) sc
                 in KiDeferredReadyThread TickCount n sc
               else Some (InsertReadyThread TickCount Preempted t sc)
           | None \<Rightarrow>
               let n = sc_CurrentThread sc in
               if OldPriority > th_Priority (sc_Threads sc n) then
                 let sc = (if th_State (sc_Threads sc n) = Running then upd_sched n (\<lambda>th. th\<lparr>th_Preempted := True\<rparr>) sc else sc)
                 in Some (set_standby t sc)
               else Some (InsertReadyThread TickCount Preempted t sc))"

declare KiDeferredReadyThread.simps [code]

definition KiInsertDeferredReadyList :: "nat \<Rightarrow> tid \<Rightarrow> KPRCB \<Rightarrow> KPRCB option" where
  "KiInsertDeferredReadyList TickCount t sc = KiDeferredReadyThread TickCount t (upd_sched t (\<lambda>th. th\<lparr>th_State := DeferredReady\<rparr>) sc)"

section \<open>Switching threads\<close>

definition switch_to :: "tid \<Rightarrow> KPRCB \<Rightarrow> KPRCB" where
  "switch_to n sc = upd_sched n (\<lambda>th. th\<lparr>th_State := Running\<rparr>) (sc\<lparr>sc_CurrentThread := n\<rparr>)"

definition KiSwapThread :: "KPRCB \<Rightarrow> KPRCB" where
  "KiSwapThread sc =
     (case sc_NextThread sc of
        Some n \<Rightarrow> switch_to n (sc\<lparr>sc_NextThread := None\<rparr>)
      | None \<Rightarrow>
          (case KiSelectReadyThread 0 sc of
             (Some n, sc) \<Rightarrow> switch_to n sc
           | (None, sc) \<Rightarrow> switch_to (sc_IdleThread sc) (sc\<lparr>sc_KiIdleSummary := True\<rparr>)))"

text \<open>The current thread makes way for the next one.\<close>

definition switch_from :: "nat \<Rightarrow> (SCHED_THREAD \<Rightarrow> SCHED_THREAD) \<Rightarrow> KPRCB \<Rightarrow> KPRCB" where
  "switch_from TickCount f sc =
     (case sc_NextThread sc of
        None \<Rightarrow> sc
      | Some n \<Rightarrow>
          let t = sc_CurrentThread sc
          in KxQueueReadyThread TickCount t (upd_sched t f (switch_to n (sc\<lparr>sc_NextThread := None\<rparr>))))"

definition KiExitDispatcher :: "nat \<Rightarrow> nat \<Rightarrow> KPRCB \<Rightarrow> KPRCB" where
  "KiExitDispatcher TickCount OldIrql sc =
     (if OldIrql \<ge> DISPATCH_LEVEL then sc else switch_from TickCount (\<lambda>th. th\<lparr>th_WaitIrql := OldIrql\<rparr>) sc)"

definition select_next :: "nat \<Rightarrow> KPRCB \<Rightarrow> KPRCB" where
  "select_next Priority sc = (case KiSelectReadyThread Priority sc of (None, sc) \<Rightarrow> sc | (Some n, sc) \<Rightarrow> set_standby n sc)"

section \<open>Quantum\<close>

text \<open>The end of the quantum of the current thread: a new quantum, and a thread of the same priority may run.\<close>

definition renew_quantum :: "tid \<Rightarrow> KPRCB \<Rightarrow> KPRCB" where
  "renew_quantum t sc =
     (let sc = upd_sched t (\<lambda>th. new_priority (th\<lparr>th_Quantum := th_QuantumReset th\<rparr>) 1) sc
      in if sc_NextThread sc = None then select_next (nat (th_Priority (sc_Threads sc t))) sc
         else upd_sched t (\<lambda>th. th\<lparr>th_Preempted := False\<rparr>) sc)"

definition KiAdjustQuantumThread :: "nat \<Rightarrow> tid \<Rightarrow> KPRCB \<Rightarrow> KPRCB" where
  "KiAdjustQuantumThread TickCount t sc =
     (let th = sc_Threads sc t;
          sc = (if th_Priority th < LOW_REALTIME_PRIORITY \<and> th_BasePriority th < LOW_REALTIME_PRIORITY - 2 then
                  let sc = upd_sched t (\<lambda>th. th\<lparr>th_Quantum := s8 (th_Quantum th - 1)\<rparr>) sc
                  in if th_Quantum (sc_Threads sc t) \<le> 0 then renew_quantum t sc else sc
                else sc)
      in KiExitDispatcher TickCount (th_WaitIrql (sc_Threads sc t)) sc)"

definition KiQuantumEnd :: "nat \<Rightarrow> KPRCB \<Rightarrow> KPRCB" where
  "KiQuantumEnd TickCount sc =
     (let t = sc_CurrentThread sc;
          sc = (if th_Quantum (sc_Threads sc t) \<le> 0 then
                  if th_Priority (sc_Threads sc t) \<ge> LOW_REALTIME_PRIORITY \<and> kp_DisableQuantum (sc_Process sc t)
                  then upd_sched t (\<lambda>th. th\<lparr>th_Quantum := MAX_QUANTUM\<rparr>) sc
                  else renew_quantum t sc
                else sc)
      in switch_from TickCount (\<lambda>th. th\<lparr>th_WaitReason := WrQuantumEnd, th_WaitIrql := APC_LEVEL\<rparr>) sc)"

definition KeUpdateRunTime :: "KPRCB \<Rightarrow> KPRCB" where
  "KeUpdateRunTime sc =
     (let t = sc_CurrentThread sc;
          sc = upd_sched t (\<lambda>th. th\<lparr>th_Quantum := s8 (th_Quantum th - CLOCK_QUANTUM_DECREMENT)\<rparr>) sc
      in if th_Quantum (sc_Threads sc t) \<le> 0 \<and> t \<noteq> sc_IdleThread sc then sc\<lparr>sc_QuantumEnd := True\<rparr> else sc)"

definition KiDispatchInterrupt :: "nat \<Rightarrow> KPRCB \<Rightarrow> KPRCB" where
  "KiDispatchInterrupt TickCount sc =
     (if sc_QuantumEnd sc then KiQuantumEnd TickCount (sc\<lparr>sc_QuantumEnd := False\<rparr>)
      else switch_from TickCount (\<lambda>th. th\<lparr>th_WaitReason := WrDispatchInt\<rparr>) sc)"

text \<open>One round of the idle loop. The idle thread is never queued.\<close>

definition KiIdleLoop :: "KPRCB \<Rightarrow> KPRCB" where
  "KiIdleLoop sc = (case sc_NextThread sc of None \<Rightarrow> sc | Some n \<Rightarrow> switch_to n (sc\<lparr>sc_NextThread := None\<rparr>))"

definition NtYieldExecution :: "nat \<Rightarrow> KPRCB \<Rightarrow> bool \<times> KPRCB" where
  "NtYieldExecution TickCount sc =
     (if sc_ReadySummary sc = 0 then (False, sc)
      else
        let t = sc_CurrentThread sc;
            sc = (if sc_NextThread sc = None then (case KiSelectReadyThread 1 sc of (n, sc) \<Rightarrow> sc\<lparr>sc_NextThread := n\<rparr>) else sc)
        in if sc_NextThread sc = None then (False, sc)
           else
             let sc = upd_sched t (\<lambda>th. new_priority (th\<lparr>th_Quantum := th_QuantumReset th\<rparr>) 1) sc
             in (True, switch_from TickCount (\<lambda>th. th\<lparr>th_WaitReason := WrYieldExecution, th_WaitIrql := APC_LEVEL\<rparr>) sc))"

section \<open>Priorities\<close>

text \<open>
  The function starts over when the state of the thread has changed under its hands, which on
  one processor does not happen; if the thread is not where its state says, it never returns.
\<close>

definition KiSetPriorityThread :: "nat \<Rightarrow> tid \<Rightarrow> int \<Rightarrow> KPRCB \<Rightarrow> KPRCB option" where
  "KiSetPriorityThread TickCount t Priority sc =
     (let OldPriority = th_Priority (sc_Threads sc t);
          set = upd_sched t (\<lambda>th. th\<lparr>th_Priority := s8 Priority\<rparr>)
      in if OldPriority = Priority then Some sc
         else case th_State (sc_Threads sc t) of
             Ready \<Rightarrow> KiInsertDeferredReadyList TickCount t (set (RemoveReadyThread (nat OldPriority) t sc))
           | Standby \<Rightarrow>
               if sc_NextThread sc \<noteq> Some t then None
               else if Priority < OldPriority then
                 (case KiSelectReadyThread (nat (Priority + 1)) (set sc) of
                    (None, sc) \<Rightarrow> Some sc
                  | (Some n, sc) \<Rightarrow> KiInsertDeferredReadyList TickCount t (set_standby n sc))
               else Some (set sc)
           | Running \<Rightarrow>
               if sc_CurrentThread sc \<noteq> t then None
               else if Priority < OldPriority \<and> sc_NextThread sc = None then Some (select_next (nat (Priority + 1)) (set sc))
               else Some (set sc)
           | DeferredReady \<Rightarrow> Some sc
           | _ \<Rightarrow> Some (set sc))"

definition KeSetPriorityThread :: "nat \<Rightarrow> tid \<Rightarrow> int \<Rightarrow> KPRCB \<Rightarrow> (int \<times> KPRCB) option" where
  "KeSetPriorityThread TickCount t Priority sc =
     (let OldPriority = th_Priority (sc_Threads sc t);
          sc = upd_sched t (\<lambda>th. th\<lparr>th_PriorityDecrement := 0\<rparr>) sc
      in if Priority \<noteq> OldPriority then
           let sc = upd_sched t (\<lambda>th. th\<lparr>th_Quantum := th_QuantumReset th\<rparr>) sc;
               Priority = (if th_BasePriority (sc_Threads sc t) \<noteq> 0 \<and> Priority = 0 then 1 else Priority)
           in map_option (Pair OldPriority) (KiSetPriorityThread TickCount t Priority sc)
         else Some (OldPriority, sc))"

definition KeBoostPriorityThread :: "nat \<Rightarrow> tid \<Rightarrow> int \<Rightarrow> KPRCB \<Rightarrow> KPRCB option" where
  "KeBoostPriorityThread TickCount t Increment sc =
     (let th = sc_Threads sc t; Priority = s32 (th_BasePriority th + Increment)
      in if th_Priority th < LOW_REALTIME_PRIORITY \<and> th_PriorityDecrement th = 0 \<and> Priority > th_Priority th then
           KiSetPriorityThread TickCount t (if Priority \<ge> LOW_REALTIME_PRIORITY then LOW_REALTIME_PRIORITY - 1 else Priority)
             (upd_sched t (\<lambda>th. th\<lparr>th_Quantum := th_QuantumReset th\<rparr>) sc)
         else Some sc)"

definition base_increment :: "KPROCESS \<Rightarrow> SCHED_THREAD \<Rightarrow> int" where
  "base_increment kp th = (if th_Saturation th \<noteq> 0 then 16 * th_Saturation th else th_BasePriority th - kp_BasePriority kp)"

definition KeQueryBasePriorityThread :: "tid \<Rightarrow> KPRCB \<Rightarrow> int" where
  "KeQueryBasePriorityThread t sc = base_increment (sc_Process sc t) (sc_Threads sc t)"

text \<open>The new base priority, the new priority, and the thread with its new saturation and decrement.\<close>

definition base_priority :: "KPROCESS \<Rightarrow> int \<Rightarrow> SCHED_THREAD \<Rightarrow> int \<times> int \<times> SCHED_THREAD" where
  "base_priority kp Increment th =
     (let OldBasePriority = th_BasePriority th;
          th = th\<lparr>th_Saturation := (if \<bar>Increment\<bar> \<ge> 16 then if Increment > 0 then 1 else -1 else 0)\<rparr>;
          BasePriority = s32 (kp_BasePriority kp + Increment)
      in if kp_BasePriority kp \<ge> LOW_REALTIME_PRIORITY then
           let BasePriority = (if BasePriority < LOW_REALTIME_PRIORITY then LOW_REALTIME_PRIORITY else BasePriority);
               BasePriority = (if BasePriority > HIGH_PRIORITY then HIGH_PRIORITY else BasePriority)
           in (BasePriority, BasePriority, th)
         else
           let BasePriority = (if BasePriority \<ge> LOW_REALTIME_PRIORITY then LOW_REALTIME_PRIORITY - 1 else BasePriority);
               BasePriority = (if BasePriority \<le> LOW_PRIORITY then 1 else BasePriority)
           in if th_Saturation th \<noteq> 0 then (BasePriority, BasePriority, th)
              else case KiComputeNewPriority th 0 of (p, th) \<Rightarrow>
                let Priority = p + (BasePriority - OldBasePriority)
                in (BasePriority, if Priority \<ge> LOW_REALTIME_PRIORITY then LOW_REALTIME_PRIORITY - 1
                                  else if Priority \<le> LOW_PRIORITY then 1 else Priority, th))"

definition KeSetBasePriorityThread :: "nat \<Rightarrow> tid \<Rightarrow> int \<Rightarrow> KPRCB \<Rightarrow> (int \<times> KPRCB) option" where
  "KeSetBasePriorityThread TickCount t Increment sc =
     (let OldIncrement = base_increment (sc_Process sc t) (sc_Threads sc t)
      in case base_priority (sc_Process sc t) Increment (sc_Threads sc t) of (BasePriority, Priority, th) \<Rightarrow>
           let sc = upd_sched t (\<lambda>_. th\<lparr>th_BasePriority := s8 BasePriority, th_PriorityDecrement := 0\<rparr>) sc
           in if Priority \<noteq> th_Priority (sc_Threads sc t)
              then map_option (Pair OldIncrement)
                     (KiSetPriorityThread TickCount t Priority (upd_sched t (\<lambda>th. th\<lparr>th_Quantum := th_QuantumReset th\<rparr>) sc))
              else Some (OldIncrement, sc))"

definition KeSetDisableBoostThread :: "tid \<Rightarrow> bool \<Rightarrow> KPRCB \<Rightarrow> bool \<times> KPRCB" where
  "KeSetDisableBoostThread t Disable sc =
     (th_DisableBoost (sc_Threads sc t), upd_sched t (\<lambda>th. th\<lparr>th_DisableBoost := Disable\<rparr>) sc)"

definition KeStartThread :: "tid \<Rightarrow> KPRCB \<Rightarrow> KPRCB" where
  "KeStartThread t sc =
     (let kp = sc_Process sc t
      in upd_sched t (\<lambda>th. th\<lparr>th_DisableBoost := kp_DisableBoost kp, th_Quantum := kp_QuantumReset kp, th_QuantumReset := kp_QuantumReset kp,
           th_Priority := kp_BasePriority kp, th_BasePriority := kp_BasePriority kp\<rparr>) sc)"

end
