(* ===== verification/Ke_Ready.thy ===== *)
theory Ke_Ready
  imports Ke_Scheduler
begin

text \<open>
  The ready lists of a processor are exact, and a processor runs a thread of the highest
  priority: the invariants of the scheduler, and that its operations keep them and return.
\<close>

section \<open>Ready lists\<close>

abbreviation sst :: "KPRCB \<Rightarrow> tid \<Rightarrow> KTHREAD_STATE" where
  "sst sc t \<equiv> th_State (sc_Threads sc t)"

abbreviation pri :: "KPRCB \<Rightarrow> tid \<Rightarrow> int" where
  "pri sc t \<equiv> th_Priority (sc_Threads sc t)"

abbreviation rl :: "KPRCB \<Rightarrow> nat \<Rightarrow> tid list" where
  "rl sc \<equiv> sc_DispatcherReadyList sc"

text \<open>
  The list of a priority has exactly the threads of that priority that are ready, apart from
  those of a set \<open>X\<close> that an operation has in its hands; the summary has a bit for each list that
  is not empty.
\<close>

definition lists_ok :: "tid set \<Rightarrow> KPRCB \<Rightarrow> bool" where
  "lists_ok X sc =
     ((\<forall>p. distinct (rl sc p) \<and> (\<forall>t. t \<in> set (rl sc p) \<longleftrightarrow> sst sc t = Ready \<and> pri sc t = int p \<and> t \<notin> X)) \<and>
      (\<forall>p<32. bit (sc_ReadySummary sc) p \<longleftrightarrow> rl sc p \<noteq> []))"

lemma lists_okD:
  assumes "lists_ok X sc"
  shows "distinct (rl sc p)" "t \<in> set (rl sc p) \<longleftrightarrow> sst sc t = Ready \<and> pri sc t = int p \<and> t \<notin> X"
    "p < 32 \<Longrightarrow> bit (sc_ReadySummary sc) p \<longleftrightarrow> rl sc p \<noteq> []"
  using assms by (auto simp: lists_ok_def)

lemma lists_ok_cong:
  assumes "lists_ok X sc" "sc_DispatcherReadyList sc' = sc_DispatcherReadyList sc" "sc_ReadySummary sc' = sc_ReadySummary sc"
    "\<And>t. (sst sc' t = Ready \<and> t \<notin> Y) \<longleftrightarrow> (sst sc t = Ready \<and> t \<notin> X)" "\<And>t. sst sc t = Ready \<Longrightarrow> t \<notin> X \<Longrightarrow> pri sc' t = pri sc t"
  shows "lists_ok Y sc'"
  using assms unfolding lists_ok_def by metis

lemma lists_ok_upd:
  assumes "lists_ok X sc"
    "sst sc t = Ready \<and> t \<notin> X \<Longrightarrow> th_State (f (sc_Threads sc t)) = Ready \<and> th_Priority (f (sc_Threads sc t)) = pri sc t \<and> t \<notin> Y"
    "\<not> (sst sc t = Ready \<and> t \<notin> X) \<Longrightarrow> th_State (f (sc_Threads sc t)) \<noteq> Ready \<or> t \<in> Y" "X - {t} = Y - {t}"
  shows "lists_ok Y (upd_sched t f sc)"
  by (rule lists_ok_cong[OF assms(1)]) (use assms(2-) in \<open>auto split: if_splits\<close>)

lemma bit_PRIORITY_MASK: "q < 32 \<Longrightarrow> bit (PRIORITY_MASK p) q \<longleftrightarrow> q = p"
  by (auto simp: PRIORITY_MASK_def bit_simps)

lemma RemoveReadyThread_simps [simp]:
  "sc_Threads (RemoveReadyThread p t sc) = sc_Threads sc"
  "sc_Process (RemoveReadyThread p t sc) = sc_Process sc"
  "sc_NextThread (RemoveReadyThread p t sc) = sc_NextThread sc"
  "sc_CurrentThread (RemoveReadyThread p t sc) = sc_CurrentThread sc"
  "sc_IdleThread (RemoveReadyThread p t sc) = sc_IdleThread sc"
  "sc_KiIdleSummary (RemoveReadyThread p t sc) = sc_KiIdleSummary sc"
  "sc_PsPrioritySeparation (RemoveReadyThread p t sc) = sc_PsPrioritySeparation sc"
  "sc_DispatcherReadyList (RemoveReadyThread p t sc) = (rl sc)(p := remove1 t (rl sc p))"
  by (simp_all add: RemoveReadyThread_def Let_def)

lemma RemoveReadyThread_summary:
  "sc_ReadySummary (RemoveReadyThread p t sc) =
     (if remove1 t (rl sc p) = [] then sc_ReadySummary sc XOR PRIORITY_MASK p else sc_ReadySummary sc)"
  by (simp add: RemoveReadyThread_def Let_def)

lemma RemoveReadyThread_ok:
  assumes "lists_ok X sc" "t \<in> set (rl sc p)" "p < 32"
  shows "lists_ok (insert t X) (RemoveReadyThread p t sc)"
proof -
  have "rl sc p \<noteq> []"
    using assms(2) by auto
  then have "bit (sc_ReadySummary (RemoveReadyThread p t sc)) q \<longleftrightarrow> rl (RemoveReadyThread p t sc) q \<noteq> []" if "q < 32" for q
    using lists_okD(3)[OF assms(1) that] that
    by (cases "q = p"; cases "remove1 t (rl sc p) = []") (simp_all add: RemoveReadyThread_summary bit_xor_iff bit_PRIORITY_MASK)
  moreover have "u \<in> set (rl (RemoveReadyThread p t sc) q) \<longleftrightarrow> sst sc u = Ready \<and> pri sc u = int q \<and> u \<notin> insert t X" for u q
    using lists_okD(1)[OF assms(1), of q] lists_okD(2)[OF assms(1), of u q] lists_okD(2)[OF assms(1), of t p] assms(2)
    by (cases "q = p"; cases "u = t") (simp_all add: set_remove1_eq)
  ultimately show ?thesis
    using lists_okD(1)[OF assms(1)] by (simp add: lists_ok_def distinct_remove1)
qed

lemma InsertReadyThread_simps [simp]:
  "sc_Threads (InsertReadyThread k b t sc) = (sc_Threads sc)(t := (sc_Threads sc t)\<lparr>th_State := Ready, th_WaitTime := k\<rparr>)"
  "sc_Process (InsertReadyThread k b t sc) = sc_Process sc"
  "sc_NextThread (InsertReadyThread k b t sc) = sc_NextThread sc"
  "sc_CurrentThread (InsertReadyThread k b t sc) = sc_CurrentThread sc"
  "sc_IdleThread (InsertReadyThread k b t sc) = sc_IdleThread sc"
  "sc_KiIdleSummary (InsertReadyThread k b t sc) = sc_KiIdleSummary sc"
  "sc_PsPrioritySeparation (InsertReadyThread k b t sc) = sc_PsPrioritySeparation sc"
  by (simp_all add: InsertReadyThread_def Let_def)

lemma InsertReadyThread_ok:
  assumes "lists_ok {} sc" "sst sc t \<noteq> Ready" "0 \<le> pri sc t" "pri sc t < 32"
  shows "lists_ok {} (InsertReadyThread k b t sc)"
proof -
  let ?sc = "InsertReadyThread k b t sc"
  have rl: "rl ?sc q = (if int q = pri sc t then if b then t # rl sc q else rl sc q @ [t] else rl sc q)" for q
    using assms(3) by (auto simp: InsertReadyThread_def Let_def)
  have "bit (sc_ReadySummary ?sc) q \<longleftrightarrow> rl ?sc q \<noteq> []" if "q < 32" for q
    using lists_okD(3)[OF assms(1) that] that assms(3) by (auto simp: rl InsertReadyThread_def Let_def bit_or_iff bit_PRIORITY_MASK)
  moreover have "distinct (rl ?sc q)" for q
    using lists_okD(1,2)[OF assms(1)] assms(2) by (auto simp: rl)
  moreover have "u \<in> set (rl ?sc q) \<longleftrightarrow> sst ?sc u = Ready \<and> pri ?sc u = int q" for u q
    using lists_okD(2)[OF assms(1), of u q] assms(2) by (auto simp: rl)
  ultimately show ?thesis
    by (simp add: lists_ok_def)
qed

text \<open>The selection takes the first thread of the highest list that is not empty.\<close>

lemma KiSelectReadyThread_cases:
  assumes "lists_ok X sc" "\<And>t. 0 \<le> pri sc t \<and> pri sc t < 32"
  obtains (none) "KiSelectReadyThread p sc = (None, sc)" "\<And>q. p \<le> q \<Longrightarrow> rl sc q = []"
  | (some) t h where "KiSelectReadyThread p sc = (Some t, RemoveReadyThread h t sc)" "p \<le> h" "h < 32" "t \<in> set (rl sc h)" "hd (rl sc h) = t"
      "\<And>q. h < q \<Longrightarrow> rl sc q = []"
proof (cases "drop_bit p (sc_ReadySummary sc) = 0")
  have high: "rl sc q = []" if "\<not> q < 32" for q
  proof (rule ccontr)
    assume "rl sc q \<noteq> []"
    then have "hd (rl sc q) \<in> set (rl sc q)"
      by simp
    then have "pri sc (hd (rl sc q)) = int q"
      using lists_okD(2)[OF assms(1)] by blast
    then show False
      using assms(2)[of "hd (rl sc q)"] that by simp
  qed
  {
    case True
    have "rl sc q = []" if "p \<le> q" for q
    proof (cases "q < 32")
      case q: True
      have "bit (drop_bit p (sc_ReadySummary sc)) (q - p) \<longleftrightarrow> bit (sc_ReadySummary sc) q"
        using that by (simp add: bit_drop_bit_eq)
      then show ?thesis
        using True lists_okD(3)[OF assms(1) q] by simp
    qed (rule high)
    then show thesis
      using none True by (simp add: KiSelectReadyThread_def)
  next
    case False
    then obtain k where k: "BitScanReverse (drop_bit p (sc_ReadySummary sc)) = Some k" "k < 32" "bit (drop_bit p (sc_ReadySummary sc)) k"
      "\<forall>j. k < j \<and> j < 32 \<longrightarrow> \<not> bit (drop_bit p (sc_ReadySummary sc)) j"
      using BitScanReverse_spec by blast
    have b: "bit (sc_ReadySummary sc) (k + p)"
      using k(3) by (simp add: bit_drop_bit_eq add.commute)
    then have h: "k + p < 32"
      using bit_imp_le_length[OF b] by simp
    then obtain t ts where t: "rl sc (k + p) = t # ts"
      using b lists_okD(3)[OF assms(1) h] by (auto simp: neq_Nil_conv)
    have "rl sc q = []" if "k + p < q" for q
    proof (cases "q < 32")
      case q: True
      have "bit (drop_bit p (sc_ReadySummary sc)) (q - p) \<longleftrightarrow> bit (sc_ReadySummary sc) q"
        using that by (simp add: bit_drop_bit_eq)
      moreover have "k < q - p \<and> q - p < 32"
        using that q by auto
      ultimately show ?thesis
        using k(4) lists_okD(3)[OF assms(1) q] by blast
    qed (rule high)
    then show thesis
      using some[of t "k + p"] h t k(1) by (simp add: KiSelectReadyThread_def Let_def)
  }
qed

section \<open>The invariant\<close>

text \<open>Priorities lie in their range, and a boost that is to be taken back is not larger than the priority.\<close>

definition sane :: "SCHED_THREAD \<Rightarrow> bool" where
  "sane th = (0 \<le> th_Priority th \<and> th_Priority th < 32 \<and> 0 \<le> th_BasePriority th \<and> th_BasePriority th < 32 \<and>
     0 \<le> th_PriorityDecrement th \<and> th_PriorityDecrement th \<le> th_Priority th)"

definition settled :: "SCHED_THREAD \<Rightarrow> bool" where
  "settled th = (if th_AdjustReason th = AdjustNone then True
     else 0 \<le> th_AdjustIncrement th \<and> th_AdjustIncrement th < 128 \<and> th_State th \<notin> {Ready, Standby, Running})"

definition core_ok :: "tid set \<Rightarrow> KPRCB \<Rightarrow> bool" where
  "core_ok X sc =
     (lists_ok X sc \<and> (\<forall>t. sane (sc_Threads sc t) \<and> settled (sc_Threads sc t)) \<and>
      sst sc (sc_IdleThread sc) = Running \<and> pri sc (sc_IdleThread sc) = 0 \<and> 0 \<le> sc_PsPrioritySeparation sc \<and>
      (\<forall>t. 0 \<le> kp_BasePriority (sc_Process sc t) \<and> kp_BasePriority (sc_Process sc t) < 32) \<and>
      (\<forall>t. sst sc t = Standby \<longleftrightarrow> sc_NextThread sc = Some t) \<and>
      (sc_KiIdleSummary sc \<longleftrightarrow> sc_CurrentThread sc = sc_IdleThread sc \<and> sc_NextThread sc = None) \<and>
      (sc_KiIdleSummary sc \<longrightarrow> (\<forall>t. sst sc t \<noteq> Ready)))"

definition sched_ok :: "KPRCB \<Rightarrow> bool" where
  "sched_ok sc = (core_ok {} sc \<and> (\<forall>t. t \<noteq> sc_IdleThread sc \<longrightarrow> (sst sc t = Running \<longleftrightarrow> sc_CurrentThread sc = t)))"

text \<open>
  The thread that runs next is of the highest priority: no thread that is ready has a higher one,
  and the next thread does not have a lower one than the current thread. The priority of a thread
  is not below its base priority.
\<close>

definition top_thread :: "KPRCB \<Rightarrow> tid" where
  "top_thread sc = (case sc_NextThread sc of None \<Rightarrow> sc_CurrentThread sc | Some n \<Rightarrow> n)"

definition based :: "KPRCB \<Rightarrow> bool" where
  "based sc = (\<forall>t. th_BasePriority (sc_Threads sc t) \<le> pri sc t)"

definition prio_ok :: "KPRCB \<Rightarrow> bool" where
  "prio_ok sc = ((\<forall>t. sst sc t = Ready \<longrightarrow> pri sc t \<le> pri sc (top_thread sc)) \<and> pri sc (sc_CurrentThread sc) \<le> pri sc (top_thread sc) \<and> based sc)"

lemma core_okD:
  assumes "core_ok X sc"
  shows "lists_ok X sc" "sane (sc_Threads sc t)" "settled (sc_Threads sc t)" "sst sc (sc_IdleThread sc) = Running"
    "pri sc (sc_IdleThread sc) = 0" "0 \<le> sc_PsPrioritySeparation sc"
    "0 \<le> kp_BasePriority (sc_Process sc t) \<and> kp_BasePriority (sc_Process sc t) < 32"
    "sst sc t = Standby \<longleftrightarrow> sc_NextThread sc = Some t"
    "sc_KiIdleSummary sc \<longleftrightarrow> sc_CurrentThread sc = sc_IdleThread sc \<and> sc_NextThread sc = None"
    "sc_KiIdleSummary sc \<Longrightarrow> sst sc t \<noteq> Ready" "0 \<le> pri sc t \<and> pri sc t < 32"
  using assms by (auto simp: core_ok_def sane_def)

text \<open>A change of fields that the invariant does not look at.\<close>

lemma core_ok_upd:
  assumes "core_ok X sc" "sane (f (sc_Threads sc t))" "settled (f (sc_Threads sc t))"
    "th_State (f (sc_Threads sc t)) = sst sc t \<or> {th_State (f (sc_Threads sc t)), sst sc t} \<inter> {Ready, Standby, Running} = {}"
    "sst sc t = Ready \<or> t = sc_IdleThread sc \<Longrightarrow> th_Priority (f (sc_Threads sc t)) = pri sc t"
  shows "core_ok X (upd_sched t f sc)"
proof -
  note D = core_okD[OF assms(1)]
  have "lists_ok X (upd_sched t f sc)"
    by (rule lists_ok_upd[OF D(1)]) (use assms(4,5) in auto)
  moreover have "sst (upd_sched t f sc) u = s \<longleftrightarrow> sst sc u = s" if "s \<in> {Ready, Standby, Running}" for u s
    using assms(4) that by (cases "u = t") auto
  then have "sst (upd_sched t f sc) u = Ready \<longleftrightarrow> sst sc u = Ready" "sst (upd_sched t f sc) u = Standby \<longleftrightarrow> sst sc u = Standby"
    "sst (upd_sched t f sc) u = Running \<longleftrightarrow> sst sc u = Running" for u
    by simp_all
  moreover have "pri (upd_sched t f sc) (sc_IdleThread sc) = 0"
    using assms(5) D(4,5) by auto
  moreover have "sane (sc_Threads (upd_sched t f sc) u) \<and> settled (sc_Threads (upd_sched t f sc) u)" for u
    using assms(2,3) D(2,3) by simp
  ultimately show ?thesis
    using D(4,6-10) unfolding core_ok_def upd_sched_frame by blast
qed

lemma core_ok_frame:
  assumes "core_ok X sc"
  shows "core_ok X (sc\<lparr>sc_QuantumEnd := b\<rparr>)"
  using assms by (simp add: core_ok_def lists_ok_def)

text \<open>A thread in the hands of an operation: not in a list, and neither running nor next.\<close>

definition held :: "tid set \<Rightarrow> tid \<Rightarrow> KPRCB \<Rightarrow> bool" where
  "held X t sc = (th_AdjustReason (sc_Threads sc t) = AdjustNone \<and> t \<noteq> sc_IdleThread sc \<and> sst sc t \<noteq> Standby \<and>
     (X = {t} \<and> sst sc t = Ready \<or> X = {} \<and> sst sc t \<noteq> Ready))"

lemma lists_ok_held:
  assumes "lists_ok X sc" "held X t sc" "s \<noteq> Ready"
  shows "lists_ok {} (upd_sched t (\<lambda>th. th\<lparr>th_State := s\<rparr>) sc)"
  by (rule lists_ok_upd[OF assms(1)]) (use assms(2,3) in \<open>auto simp: held_def\<close>)

lemma sane_state [simp]:
  "sane (th\<lparr>th_State := s\<rparr>) = sane th" "sane (th\<lparr>th_Preempted := b\<rparr>) = sane th" "sane (th\<lparr>th_WaitTime := k\<rparr>) = sane th"
  "sane (th\<lparr>th_WaitIrql := k\<rparr>) = sane th" "sane (th\<lparr>th_WaitReason := k\<rparr>) = sane th" "sane (th\<lparr>th_Quantum := i\<rparr>) = sane th"
  "settled (th\<lparr>th_Preempted := b\<rparr>) = settled th" "settled (th\<lparr>th_WaitTime := k\<rparr>) = settled th"
  "settled (th\<lparr>th_WaitIrql := k\<rparr>) = settled th" "settled (th\<lparr>th_WaitReason := k\<rparr>) = settled th" "settled (th\<lparr>th_Quantum := i\<rparr>) = settled th"
  by (simp_all add: sane_def settled_def)

lemma settled_held [simp]: "th_AdjustReason th = AdjustNone \<Longrightarrow> settled (th\<lparr>th_State := s\<rparr>)"
  by (simp add: settled_def)

lemma set_standby_simps [simp]:
  "sc_Threads (set_standby t sc) = (sc_Threads sc)(t := (sc_Threads sc t)\<lparr>th_State := Standby\<rparr>)"
  "sc_Process (set_standby t sc) = sc_Process sc"
  "sc_NextThread (set_standby t sc) = Some t"
  "sc_CurrentThread (set_standby t sc) = sc_CurrentThread sc"
  "sc_IdleThread (set_standby t sc) = sc_IdleThread sc"
  "sc_KiIdleSummary (set_standby t sc) = sc_KiIdleSummary sc"
  "sc_PsPrioritySeparation (set_standby t sc) = sc_PsPrioritySeparation sc"
  by (simp_all add: set_standby_def)

lemma lists_ok_next [simp]:
  "lists_ok X (sc\<lparr>sc_NextThread := n\<rparr>) = lists_ok X sc" "lists_ok X (sc\<lparr>sc_KiIdleSummary := b\<rparr>) = lists_ok X sc"
  "lists_ok X (sc\<lparr>sc_CurrentThread := t\<rparr>) = lists_ok X sc"
  by (simp_all add: lists_ok_def)

lemma set_standby_core:
  assumes "core_ok X sc" "held X t sc" "sc_NextThread sc = None"
  shows "core_ok {} (set_standby t (sc\<lparr>sc_KiIdleSummary := False\<rparr>))"
proof -
  note D = core_okD[OF assms(1)]
  have "lists_ok {} (set_standby t (sc\<lparr>sc_KiIdleSummary := False\<rparr>))"
    using lists_ok_held[of X "sc\<lparr>sc_KiIdleSummary := False\<rparr>" t Standby] assms(2) D(1) by (simp add: set_standby_def held_def)
  then show ?thesis
    using assms(2,3) D by (auto simp: core_ok_def held_def)
qed

lemma InsertReadyThread_core:
  assumes "core_ok {} sc" "held {} t sc" "\<not> sc_KiIdleSummary sc"
  shows "core_ok {} (InsertReadyThread k b t sc)"
proof -
  note D = core_okD[OF assms(1)]
  have "lists_ok {} (InsertReadyThread k b t sc)"
    using assms(2) D(1,11) by (intro InsertReadyThread_ok) (auto simp: held_def)
  then show ?thesis
    using assms(2,3) D(2-9) by (auto simp: core_ok_def held_def)
qed

text \<open>The thread that was next gives way to one with a higher priority.\<close>

definition displace :: "tid \<Rightarrow> tid \<Rightarrow> KPRCB \<Rightarrow> KPRCB" where
  "displace n t sc =
     upd_sched n (\<lambda>th. th\<lparr>th_State := DeferredReady\<rparr>) (set_standby t (upd_sched n (\<lambda>th. th\<lparr>th_Preempted := True\<rparr>) sc))"

lemma displace_simps [simp]:
  "sc_Process (displace n t sc) = sc_Process sc" "sc_NextThread (displace n t sc) = Some t"
  "sc_CurrentThread (displace n t sc) = sc_CurrentThread sc" "sc_IdleThread (displace n t sc) = sc_IdleThread sc"
  "sc_KiIdleSummary (displace n t sc) = sc_KiIdleSummary sc" "sc_PsPrioritySeparation (displace n t sc) = sc_PsPrioritySeparation sc"
  "pri (displace n t sc) u = pri sc u" "th_AdjustReason (sc_Threads (displace n t sc) u) = th_AdjustReason (sc_Threads sc u)"
  "n \<noteq> t \<Longrightarrow> sst (displace n t sc) u = (if u = n then DeferredReady else if u = t then Standby else sst sc u)"
  by (simp_all add: displace_def)

lemma replace_next:
  assumes "core_ok X sc" "held X t sc" "sc_NextThread sc = Some n"
  shows "core_ok {} (upd_sched n (\<lambda>th. th\<lparr>th_State := DeferredReady\<rparr>) (set_standby t sc))" "n \<noteq> t" "n \<noteq> sc_IdleThread sc"
    "th_AdjustReason (sc_Threads sc n) = AdjustNone" "sst sc n = Standby"
proof -
  let ?sc = "upd_sched n (\<lambda>th. th\<lparr>th_State := DeferredReady\<rparr>) (set_standby t sc)"
  note D = core_okD[OF assms(1)]
  show n: "sst sc n = Standby" "n \<noteq> t" "n \<noteq> sc_IdleThread sc"
    using assms(2,3) D(4) D(8)[of n] by (auto simp: held_def)
  then show adj: "th_AdjustReason (sc_Threads sc n) = AdjustNone"
    using D(3)[of n] by (simp add: settled_def split: if_splits)
  have "lists_ok {} ?sc"
    by (rule lists_ok_cong[OF D(1)]) (use n assms(2) in \<open>auto simp: set_standby_def held_def split: if_splits\<close>)
  moreover have "sane (sc_Threads ?sc u) \<and> settled (sc_Threads ?sc u)" for u
    using D(2,3)[of u] D(2)[of n] D(2)[of t] adj assms(2) by (auto simp: held_def)
  moreover have "sst ?sc u = Standby \<longleftrightarrow> u = t" for u
    using n D(8)[of u] assms(3) by auto
  ultimately show "core_ok {} ?sc"
    using D(4-9) n assms(2,3) by (auto simp: core_ok_def held_def)
qed

lemma displace_core:
  assumes "core_ok {} sc" "held {} t sc" "sc_NextThread sc = Some n"
  shows "core_ok {} (displace n t sc)" "held {} n (displace n t sc)"
proof -
  let ?sc = "upd_sched n (\<lambda>th. th\<lparr>th_Preempted := True\<rparr>) sc"
  have "core_ok {} ?sc"
    using core_okD(2,3)[OF assms(1)] by (intro core_ok_upd[OF assms(1)]) simp_all
  moreover have "held {} t ?sc"
    using assms(2) by (auto simp: held_def)
  ultimately have R: "core_ok {} (displace n t sc)" "n \<noteq> t" "n \<noteq> sc_IdleThread sc" "th_AdjustReason (sc_Threads sc n) = AdjustNone"
    using replace_next[of "{}" ?sc t n] assms(3) by (simp_all add: displace_def)
  then show "core_ok {} (displace n t sc)" "held {} n (displace n t sc)"
    by (simp_all add: held_def)
qed

section \<open>Making a thread ready\<close>

lemma s8_small: "- 128 \<le> x \<Longrightarrow> x < 128 \<Longrightarrow> s8 x = x"
  by (simp add: s8_def)

lemma KiComputeNewPriority_sane:
  assumes "sane th" "0 \<le> a" "a \<le> 1"
  shows "sane (new_priority th a)" "th_State (new_priority th a) = th_State th" "th_AdjustReason (new_priority th a) = th_AdjustReason th"
    "th_BasePriority (new_priority th a) = th_BasePriority th" "th_AdjustIncrement (new_priority th a) = th_AdjustIncrement th"
    "th_Priority (new_priority th a) \<le> th_Priority th \<or> th_Priority (new_priority th a) \<le> th_BasePriority th"
    "th_Priority th < 16 \<Longrightarrow> th_Priority (new_priority th a) < 16 \<or> 16 \<le> th_BasePriority th"
    "th_Quantum (new_priority th a) = th_Quantum th" "th_Preempted (new_priority th a) = th_Preempted th"
  using assms by (auto simp: new_priority_def KiComputeNewPriority_def sane_def s8_small Let_def)

lemma adjust_boost_sane:
  assumes "sane th" "0 \<le> th_AdjustIncrement th" "th_AdjustIncrement th < 128"
  shows "sane (adjust_boost th)" "th_State (adjust_boost th) = th_State th" "th_AdjustReason (adjust_boost th) = AdjustNone"
  using assms by (auto simp: adjust_boost_def sane_def s8_small Let_def min_def)

lemma unwait_quantum_sane:
  assumes "sane th"
  shows "sane (unwait_quantum th)" "th_State (unwait_quantum th) = th_State th" "th_AdjustIncrement (unwait_quantum th) = th_AdjustIncrement th"
  using KiComputeNewPriority_sane[of "th\<lparr>th_Quantum := q\<rparr>" 1 for q] assms
  by (simp_all add: unwait_quantum_def Let_def)

lemma unwait_boost_sane:
  assumes "sane th" "0 \<le> th_AdjustIncrement th" "0 \<le> sep"
  shows "sane (unwait_boost kp sep th)" "th_State (unwait_boost kp sep th) = th_State th"
  using assms by (auto simp: unwait_boost_def sane_def s8_small Let_def)

lemma adjust_unwait_sane:
  assumes "sane th" "0 \<le> th_AdjustIncrement th" "0 \<le> sep"
  shows "sane (adjust_unwait kp sep th)" "th_State (adjust_unwait kp sep th) = th_State th" "th_AdjustReason (adjust_unwait kp sep th) = AdjustNone"
proof -
  have "sane (th\<lparr>th_AdjustReason := r\<rparr>) = sane th" for th :: SCHED_THREAD and r
    by (simp add: sane_def)
  then show "sane (adjust_unwait kp sep th)" "th_State (adjust_unwait kp sep th) = th_State th"
    using unwait_boost_sane[of "unwait_quantum th" sep kp] unwait_quantum_sane[OF assms(1)] assms by (auto simp: adjust_unwait_def)
  show "th_AdjustReason (adjust_unwait kp sep th) = AdjustNone"
    by (simp add: adjust_unwait_def)
qed

definition adjusted :: "tid \<Rightarrow> KPRCB \<Rightarrow> KPRCB" where
  "adjusted t sc = upd_sched t (\<lambda>th. th\<lparr>th_Preempted := False\<rparr>) (adjust_thread t sc)"

lemma adjusted_simps [simp]:
  "sc_Process (adjusted t sc) = sc_Process sc" "sc_NextThread (adjusted t sc) = sc_NextThread sc"
  "sc_CurrentThread (adjusted t sc) = sc_CurrentThread sc" "sc_IdleThread (adjusted t sc) = sc_IdleThread sc"
  "sc_KiIdleSummary (adjusted t sc) = sc_KiIdleSummary sc" "sc_PsPrioritySeparation (adjusted t sc) = sc_PsPrioritySeparation sc"
  "u \<noteq> t \<Longrightarrow> sc_Threads (adjusted t sc) u = sc_Threads sc u"
  by (simp_all add: adjusted_def adjust_thread_def split: ADJUST_REASON.split)

lemma adjusted_core:
  assumes "core_ok {} sc" "sst sc t = DeferredReady"
  shows "core_ok {} (adjusted t sc)" "held {} t (adjusted t sc)" "sst (adjusted t sc) u = sst sc u"
proof -
  note D = core_okD[OF assms(1)]
  have inc: "th_AdjustReason (sc_Threads sc t) \<noteq> AdjustNone \<Longrightarrow> 0 \<le> th_AdjustIncrement (sc_Threads sc t) \<and> th_AdjustIncrement (sc_Threads sc t) < 128"
    using D(3)[of t] by (simp add: settled_def)
  obtain f where f: "adjusted t sc = upd_sched t f sc" and th: "sane (f (sc_Threads sc t))" "th_State (f (sc_Threads sc t)) = DeferredReady"
    "th_AdjustReason (f (sc_Threads sc t)) = AdjustNone"
  proof (cases "th_AdjustReason (sc_Threads sc t)")
    case AdjustNone
    then show thesis
      using that[of "\<lambda>th. th\<lparr>th_Preempted := False\<rparr>"] D(2) assms(2) by (simp add: adjusted_def adjust_thread_def)
  next
    case AdjustUnwait
    then show thesis
      using that[of "\<lambda>th. (adjust_unwait (sc_Process sc t) (sc_PsPrioritySeparation sc) th)\<lparr>th_Preempted := False\<rparr>"]
        adjust_unwait_sane[OF D(2)[of t], of "sc_PsPrioritySeparation sc" "sc_Process sc t"] inc D(6) assms(2)
      by (simp add: adjusted_def adjust_thread_def upd_sched_def)
  next
    case AdjustBoost
    then show thesis
      using that[of "\<lambda>th. (adjust_boost th)\<lparr>th_Preempted := False\<rparr>"] adjust_boost_sane[OF D(2)[of t]] inc assms(2)
      by (simp add: adjusted_def adjust_thread_def upd_sched_def)
  qed
  have "settled (f (sc_Threads sc t))"
    using th(3) by (simp add: settled_def)
  then show "core_ok {} (adjusted t sc)"
    unfolding f using th assms(2) D(4) by (intro core_ok_upd[OF assms(1)]) auto
  show "held {} t (adjusted t sc)" "sst (adjusted t sc) u = sst sc u"
    using th assms(2) D(4) by (auto simp: f held_def)
qed

lemma KiDeferredReadyThread_unfold:
  "KiDeferredReadyThread k t sc =
     (let sc1 = adjusted t sc; b = th_Preempted (sc_Threads (adjust_thread t sc) t) in
      if sc_KiIdleSummary sc then Some (set_standby t (sc1\<lparr>sc_KiIdleSummary := False\<rparr>))
      else case sc_NextThread sc of
          Some n \<Rightarrow> if pri sc1 t > pri sc1 n then KiDeferredReadyThread k n (displace n t sc1) else Some (InsertReadyThread k b t sc1)
        | None \<Rightarrow>
            if pri sc1 t > pri sc1 (sc_CurrentThread sc)
            then Some (set_standby t (if sst sc1 (sc_CurrentThread sc) = Running
                         then upd_sched (sc_CurrentThread sc) (\<lambda>th. th\<lparr>th_Preempted := True\<rparr>) sc1 else sc1))
            else Some (InsertReadyThread k b t sc1))"
proof -
  have "th_Priority (sc_Threads (adjusted t sc) t) = th_Priority (sc_Threads (adjust_thread t sc) t)"
    by (simp add: adjusted_def)
  then show ?thesis
    unfolding KiDeferredReadyThread.simps[of k t sc] Let_def adjusted_def[symmetric] displace_def[symmetric]
    by (cases "sc_NextThread sc") simp_all
qed

text \<open>The result of making a thread ready: only that thread and the one that was next can change their states.\<close>

definition readied :: "tid \<Rightarrow> KPRCB \<Rightarrow> KPRCB \<Rightarrow> bool" where
  "readied t sc sc' =
     (core_ok {} sc' \<and> (prio_ok sc \<longrightarrow> prio_ok sc') \<and> sc_CurrentThread sc' = sc_CurrentThread sc \<and> sc_IdleThread sc' = sc_IdleThread sc \<and>
      (\<forall>u. sst sc' u = Running \<longleftrightarrow> sst sc u = Running) \<and> sst sc' t \<in> {Ready, Standby} \<and> (\<forall>u. u \<noteq> t \<longrightarrow> pri sc' u = pri sc u))"

lemma top_thread_simps: "sc_NextThread sc = None \<Longrightarrow> top_thread sc = sc_CurrentThread sc" "sc_NextThread sc = Some n \<Longrightarrow> top_thread sc = n"
  by (simp_all add: top_thread_def)

lemma based_simps [simp]:
  "based (InsertReadyThread k b t sc) = based sc" "based (set_standby t sc) = based sc" "based (sc\<lparr>sc_KiIdleSummary := b\<rparr>) = based sc"
  "based (sc\<lparr>sc_CurrentThread := c\<rparr>) = based sc" "based (sc\<lparr>sc_NextThread := n\<rparr>) = based sc" "based (RemoveReadyThread p t sc) = based sc"
  "based (displace m t sc) = based sc" "based (sc\<lparr>sc_QuantumEnd := b\<rparr>) = based sc"
  by (auto simp: based_def displace_def split: if_splits)

lemma based_upd:
  "based sc \<Longrightarrow> th_BasePriority (f (sc_Threads sc t)) \<le> th_Priority (f (sc_Threads sc t)) \<Longrightarrow> based (upd_sched t f sc)"
  by (simp add: based_def)

lemma based_upd_eq:
  "(\<And>th. th_BasePriority (f th) = th_BasePriority th) \<Longrightarrow> (\<And>th. th_Priority (f th) = th_Priority th) \<Longrightarrow> based (upd_sched t f sc) = based sc"
  by (auto simp: based_def split: if_splits)

lemma based_new_priority: "th_BasePriority (new_priority th a) = th_BasePriority th"
  "th_BasePriority th \<le> th_Priority th \<Longrightarrow> th_BasePriority th \<le> th_Priority (new_priority th a)"
  by (auto simp: new_priority_def KiComputeNewPriority_def Let_def)

lemma based_adjust:
  assumes "sane th" "0 \<le> th_AdjustIncrement th" "th_AdjustIncrement th < 128" "0 \<le> sep" "th_BasePriority th \<le> th_Priority th"
  shows "th_BasePriority (adjust_boost th) \<le> th_Priority (adjust_boost th)"
    "th_BasePriority (adjust_unwait kp sep th) \<le> th_Priority (adjust_unwait kp sep th)"
proof -
  show "th_BasePriority (adjust_boost th) \<le> th_Priority (adjust_boost th)"
    using assms by (auto simp: adjust_boost_def sane_def s8_small Let_def min_def)
  have q: "th_BasePriority (unwait_quantum th) \<le> th_Priority (unwait_quantum th)"
    using based_new_priority[of "th\<lparr>th_Quantum := q\<rparr>" 1 for q] assms(5) by (simp add: unwait_quantum_def Let_def)
  have r: "th_Priority (unwait_quantum th) < 16" if "th_Priority th < 16"
    using KiComputeNewPriority_sane(7)[of "th\<lparr>th_Quantum := q\<rparr>" 1 for q] that assms(1,5) by (auto simp: unwait_quantum_def Let_def)
  have "th_BasePriority (unwait_boost kp sep th) \<le> th_Priority (unwait_boost kp sep th)"
    if "sane th" "0 \<le> th_AdjustIncrement th" "th_BasePriority th \<le> th_Priority th" "th_Priority th < 16" for th :: SCHED_THREAD
    using that assms(4) by (auto simp: unwait_boost_def sane_def s8_small Let_def)
  then show "th_BasePriority (adjust_unwait kp sep th) \<le> th_Priority (adjust_unwait kp sep th)"
    using q r unwait_quantum_sane[OF assms(1)] assms by (simp add: adjust_unwait_def)
qed

lemma based_adjusted:
  assumes "core_ok {} sc" "based sc"
  shows "based (adjusted t sc)"
proof -
  note D = core_okD[OF assms(1)]
  have b: "th_BasePriority (sc_Threads sc t) \<le> pri sc t"
    using assms(2) by (simp add: based_def)
  have "based (adjust_thread t sc)"
    using based_adjust[OF D(2)[of t] _ _ D(6) b] D(3)[of t] assms(2)
    by (auto simp: adjust_thread_def settled_def split: ADJUST_REASON.split intro!: based_upd)
  then show ?thesis
    by (simp add: adjusted_def based_upd_eq)
qed

lemma readied_insert:
  assumes "core_ok {} sc" "held {} t sc" "\<not> sc_KiIdleSummary sc" "sst sc t \<noteq> Running" "pri sc t \<le> pri sc (top_thread sc)"
  shows "readied t sc (InsertReadyThread k b t sc)"
proof -
  have "prio_ok sc \<Longrightarrow> prio_ok (InsertReadyThread k b t sc)"
    using assms(5) by (auto simp: prio_ok_def top_thread_def split: option.splits)
  then show ?thesis
    using InsertReadyThread_core[OF assms(1-3)] assms(4) by (auto simp: readied_def)
qed

lemma readied_standby:
  assumes "core_ok {} sc" "held {} t sc" "sc_NextThread sc = None" "sst sc t \<noteq> Running" "sc_KiIdleSummary sc \<or> pri sc (sc_CurrentThread sc) < pri sc t"
  shows "readied t sc (set_standby t (sc\<lparr>sc_KiIdleSummary := False\<rparr>))"
proof -
  note D = core_okD[OF assms(1)]
  have "prio_ok (set_standby t (sc\<lparr>sc_KiIdleSummary := False\<rparr>))" if p: "prio_ok sc"
  proof -
    have "pri sc u \<le> pri sc t" if "sst sc u = Ready" for u
      using p assms(3,5) D(10)[of u] that by (auto simp: prio_ok_def top_thread_simps)
    moreover have "pri sc (sc_CurrentThread sc) \<le> pri sc t"
      using assms(5) D(5,9) D(11)[of t] by auto
    ultimately show ?thesis
      using p by (auto simp: prio_ok_def top_thread_simps)
  qed
  then show ?thesis
    using set_standby_core[OF assms(1-3)] assms(4) by (auto simp: readied_def)
qed

lemma readied_adjusted:
  assumes "core_ok {} sc" "sst sc t = DeferredReady" "sst sc (sc_CurrentThread sc) = Running" "readied t (adjusted t sc) sc'"
  shows "readied t sc sc'"
proof -
  have t: "t \<noteq> sc_CurrentThread sc" "sc_NextThread sc \<noteq> Some t"
    using assms(2,3) core_okD(8)[OF assms(1), of t] by auto
  have sst: "sst (adjusted t sc) u = sst sc u" for u
    by (rule adjusted_core(3)[OF assms(1,2)])
  have top: "top_thread (adjusted t sc) = top_thread sc" "pri (adjusted t sc) (top_thread sc) = pri sc (top_thread sc)"
    "pri (adjusted t sc) (sc_CurrentThread sc) = pri sc (sc_CurrentThread sc)"
    using t by (auto simp: top_thread_def split: option.split)
  have "pri (adjusted t sc) u = pri sc u" if "sst sc u = Ready" for u
    using that assms(2) by (cases "u = t") simp_all
  then have "prio_ok sc \<Longrightarrow> prio_ok (adjusted t sc)"
    using based_adjusted[OF assms(1)] by (simp add: prio_ok_def top sst)
  then show ?thesis
    using assms(4) sst by (simp add: readied_def)
qed

lemma KiDeferredReadyThread_settled:
  assumes "core_ok {} sc" "sst sc t = DeferredReady" "sst sc (sc_CurrentThread sc) = Running" "th_AdjustReason (sc_Threads sc t) = AdjustNone"
    "sc_NextThread sc = Some n" "pri sc t \<le> pri sc n"
  shows "\<exists>sc'. KiDeferredReadyThread k t sc = Some sc' \<and> readied t sc sc' \<and> sc_NextThread sc' = Some n \<and> pri sc' t = pri sc t"
proof -
  define sc1 where "sc1 = adjusted t sc"
  have sc1: "core_ok {} sc1" "held {} t sc1" "sst sc1 u = sst sc u" for u
    using adjusted_core[OF assms(1,2)] by (simp_all add: sc1_def)
  have eq: "sc1 = upd_sched t (\<lambda>th. th\<lparr>th_Preempted := False\<rparr>) sc"
    using assms(4) by (simp add: sc1_def adjusted_def adjust_thread_def)
  then have p: "pri sc1 u = pri sc u" for u
    by simp
  have ni: "\<not> sc_KiIdleSummary sc"
    using core_okD(9)[OF assms(1)] assms(5) by simp
  have "readied t sc1 (InsertReadyThread k b t sc1)" for b
    using sc1 assms(2,6) ni p by (intro readied_insert) (simp_all add: eq top_thread_def assms(5))
  then have "readied t sc (InsertReadyThread k b t sc1)" for b
    unfolding sc1_def by (rule readied_adjusted[OF assms(1-3)])
  then show ?thesis
    unfolding KiDeferredReadyThread_unfold[of k t sc] using ni assms(5,6) p by (simp add: Let_def sc1_def[symmetric]) (simp add: eq assms(5))
qed

lemma readied_preempted:
  assumes "readied t (upd_sched c (\<lambda>th. th\<lparr>th_Preempted := b\<rparr>) sc) sc'"
  shows "readied t sc sc'"
proof -
  let ?sc = "upd_sched c (\<lambda>th. th\<lparr>th_Preempted := b\<rparr>) sc"
  have th: "sst ?sc u = sst sc u" "pri ?sc u = pri sc u" for u
    by simp_all
  have "prio_ok ?sc = prio_ok sc"
    unfolding prio_ok_def top_thread_def th upd_sched_frame by (simp add: based_upd_eq)
  then show ?thesis
    using assms unfolding readied_def th by simp
qed

lemma readied_displaced:
  assumes "core_ok {} sc" "held {} t sc" "sst sc t \<noteq> Running" "sst sc (sc_CurrentThread sc) = Running" "sc_NextThread sc = Some n" "pri sc n < pri sc t"
    "readied n (displace n t sc) sc'" "sc_NextThread sc' = Some t" "pri sc' n = pri sc n"
  shows "readied t sc sc'"
proof -
  note D = core_okD[OF assms(1)]
  have n: "sst sc n = Standby" "n \<noteq> t" "n \<noteq> sc_CurrentThread sc"
    using assms(2,4,5) D(8)[of n] by (auto simp: held_def)
  have c: "core_ok {} sc'"
    using assms(7) by (simp add: readied_def)
  have "sst sc' u = Running \<longleftrightarrow> sst sc u = Running" for u
    using assms(7) n(1) assms(3) by (simp add: readied_def n(2))
  moreover have "sst sc' t = Standby"
    using core_okD(8)[OF c, of t] assms(8) by simp
  moreover have "pri sc' u = pri sc u" for u
    using assms(7,9) by (cases "u = n") (simp_all add: readied_def)
  moreover have "prio_ok (displace n t sc)" if "prio_ok sc"
    using that assms(5,6) by (auto simp: prio_ok_def top_thread_def n(2) split: if_splits)
  ultimately show ?thesis
    using assms(7) by (simp add: readied_def)
qed

lemma KiDeferredReadyThread_ok:
  assumes "core_ok {} sc" "sst sc t = DeferredReady" "sst sc (sc_CurrentThread sc) = Running"
  shows "\<exists>sc'. KiDeferredReadyThread k t sc = Some sc' \<and> readied t sc sc'"
proof -
  define sc1 where "sc1 = adjusted t sc"
  have sc1: "core_ok {} sc1" "held {} t sc1" "sst sc1 u = sst sc u" for u
    using adjusted_core[OF assms(1,2)] by (simp_all add: sc1_def)
  have frame: "sc_NextThread sc1 = sc_NextThread sc" "sc_CurrentThread sc1 = sc_CurrentThread sc" "sc_KiIdleSummary sc1 = sc_KiIdleSummary sc"
    by (simp_all add: sc1_def)
  note D = core_okD[OF sc1(1)]
  have *: "\<exists>sc'. KiDeferredReadyThread k t sc = Some sc' \<and> readied t sc1 sc'"
  proof (cases "sc_KiIdleSummary sc")
    case True
    then show ?thesis
      using readied_standby[OF sc1(1,2)] D(9) sc1(3) assms(2) by (simp add: KiDeferredReadyThread_unfold[of k t sc] Let_def sc1_def[symmetric] frame)
  next
    case ni: False
    show ?thesis
    proof (cases "sc_NextThread sc")
      case None
      let ?c = "sc_CurrentThread sc"
      have tc: "t \<noteq> ?c"
        using assms(2,3) by auto
      have "readied t sc1 (set_standby t (if sst sc1 ?c = Running then upd_sched ?c (\<lambda>th. th\<lparr>th_Preempted := True\<rparr>) sc1 else sc1))"
        if "pri sc1 ?c < pri sc1 t"
      proof (rule readied_preempted)
        let ?sc = "upd_sched ?c (\<lambda>th. th\<lparr>th_Preempted := True\<rparr>) sc1"
        have "core_ok {} ?sc" "held {} t ?sc"
          using sc1(2) D(2,3) by (auto intro!: core_ok_upd[OF sc1(1)] simp: held_def)
        moreover have "?sc\<lparr>sc_KiIdleSummary := False\<rparr> = ?sc"
          using ni frame(3) by (cases sc1) (simp add: upd_sched_def)
        ultimately show "readied t ?sc (set_standby t (if sst sc1 ?c = Running then ?sc else sc1))"
          using readied_standby[of ?sc t] that sc1(3) assms(2,3) None frame tc by simp
      qed
      moreover have "readied t sc1 (InsertReadyThread k b t sc1)" if "\<not> pri sc1 ?c < pri sc1 t" for b
        using that None ni frame sc1 assms(2) by (intro readied_insert) (simp_all add: top_thread_simps)
      ultimately show ?thesis
        using None ni by (simp add: KiDeferredReadyThread_unfold[of k t sc] Let_def sc1_def[symmetric])
    next
      case (Some n)
      have n: "sst sc1 n = Standby" "n \<noteq> t"
        using sc1(2) Some frame D(8)[of n] by (auto simp: held_def)
      show ?thesis
      proof (cases "pri sc1 n < pri sc1 t")
        case True
        define sc2 where "sc2 = displace n t sc1"
        have sc2: "core_ok {} sc2" "held {} n sc2"
          using displace_core[OF sc1(1,2)] Some frame by (simp_all add: sc2_def)
        have "sc_CurrentThread sc \<noteq> n" "sc_CurrentThread sc \<noteq> t"
          using n(1) assms(2,3) sc1(3) by auto
        then have "\<exists>sc'. KiDeferredReadyThread k n sc2 = Some sc' \<and> readied n sc2 sc' \<and> sc_NextThread sc' = Some t \<and> pri sc' n = pri sc2 n"
          using sc2 True n assms(3) sc1(3) frame by (intro KiDeferredReadyThread_settled) (simp_all add: sc2_def held_def)
        then show ?thesis
          using readied_displaced[OF sc1(1,2), of n] True Some frame sc1(3) assms(2,3) ni
          by (auto simp: KiDeferredReadyThread_unfold[of k t sc] Let_def sc1_def[symmetric] sc2_def)
      next
        case False
        have "readied t sc1 (InsertReadyThread k b t sc1)" for b
          using False Some ni frame sc1 assms(2) by (intro readied_insert) (simp_all add: top_thread_simps)
        then show ?thesis
          using False Some ni by (simp add: KiDeferredReadyThread_unfold[of k t sc] Let_def sc1_def[symmetric])
      qed
    qed
  qed
  then show ?thesis
    using readied_adjusted[OF assms] by (auto simp: sc1_def)
qed

section \<open>Switching threads\<close>

lemma switch_to_simps [simp]:
  "sc_Threads (switch_to n sc) = (sc_Threads sc)(n := (sc_Threads sc n)\<lparr>th_State := Running\<rparr>)"
  "sc_Process (switch_to n sc) = sc_Process sc" "sc_NextThread (switch_to n sc) = sc_NextThread sc"
  "sc_CurrentThread (switch_to n sc) = n" "sc_IdleThread (switch_to n sc) = sc_IdleThread sc"
  "sc_KiIdleSummary (switch_to n sc) = sc_KiIdleSummary sc" "sc_PsPrioritySeparation (switch_to n sc) = sc_PsPrioritySeparation sc"
  "based (switch_to n sc) = based sc"
  by (simp_all add: switch_to_def based_upd_eq)

lemma settled_none: "settled th \<Longrightarrow> th_State th \<in> {Ready, Standby, Running} \<Longrightarrow> th_AdjustReason th = AdjustNone"
  by (auto simp: settled_def split: if_splits)

lemma run_next:
  assumes "core_ok {} sc" "sc_NextThread sc = Some n"
  shows "core_ok {} (switch_to n (sc\<lparr>sc_NextThread := None\<rparr>))" "n \<noteq> sc_IdleThread sc" "sst sc n = Standby"
proof -
  note D = core_okD[OF assms(1)]
  show n: "sst sc n = Standby"
    using D(8)[of n] assms(2) by simp
  then show ni: "n \<noteq> sc_IdleThread sc"
    using D(4) by auto
  have "lists_ok {} (switch_to n (sc\<lparr>sc_NextThread := None\<rparr>))"
    unfolding switch_to_def by (rule lists_ok_upd) (use D(1) n in auto)
  moreover have "sane (sc_Threads (switch_to n (sc\<lparr>sc_NextThread := None\<rparr>)) u) \<and> settled (sc_Threads (switch_to n (sc\<lparr>sc_NextThread := None\<rparr>)) u)" for u
    using D(2,3)[of u] settled_none[OF D(3)[of n]] n by auto
  ultimately show "core_ok {} (switch_to n (sc\<lparr>sc_NextThread := None\<rparr>))"
    using D(4-9) n ni assms(2) by (auto simp: core_ok_def)
qed

lemma run_selected:
  assumes "core_ok {n} sc" "sst sc n = Ready" "sc_NextThread sc = None" "\<not> sc_KiIdleSummary sc"
  shows "core_ok {} (switch_to n sc)" "n \<noteq> sc_IdleThread sc"
proof -
  note D = core_okD[OF assms(1)]
  show ni: "n \<noteq> sc_IdleThread sc"
    using D(4) assms(2) by auto
  have "lists_ok {} (switch_to n sc)"
    unfolding switch_to_def by (rule lists_ok_upd) (use D(1) assms(2) in auto)
  moreover have "sane (sc_Threads (switch_to n sc) u) \<and> settled (sc_Threads (switch_to n sc) u)" for u
    using D(2,3)[of u] settled_none[OF D(3)[of n]] assms(2) by auto
  ultimately show "core_ok {} (switch_to n sc)"
    using D(4-9) ni assms(2-4) by (auto simp: core_ok_def)
qed

lemma run_idle:
  assumes "core_ok {} sc" "sc_NextThread sc = None" "\<And>t. sst sc t \<noteq> Ready"
  shows "core_ok {} (switch_to (sc_IdleThread sc) (sc\<lparr>sc_KiIdleSummary := True\<rparr>))"
proof -
  note D = core_okD[OF assms(1)]
  have eq: "(sc_Threads sc)(sc_IdleThread sc := (sc_Threads sc (sc_IdleThread sc))\<lparr>th_State := Running\<rparr>) = sc_Threads sc"
    using D(4) by (intro ext) (cases "sc_Threads sc (sc_IdleThread sc)", simp)
  have "lists_ok {} (switch_to (sc_IdleThread sc) (sc\<lparr>sc_KiIdleSummary := True\<rparr>))"
    unfolding switch_to_def by (rule lists_ok_upd) (use D(1,4) in auto)
  then show ?thesis
    using D(2-8) assms(2,3) by (simp add: core_ok_def eq)
qed

lemma selected_core:
  assumes "core_ok {} sc" "t \<in> set (rl sc h)" "h < 32"
  shows "core_ok {t} (RemoveReadyThread h t sc)" "sst sc t = Ready" "pri sc t = int h" "\<not> sc_KiIdleSummary sc"
proof -
  note D = core_okD[OF assms(1)]
  show t: "sst sc t = Ready" "pri sc t = int h"
    using lists_okD(2)[OF D(1), of t h] assms(2) by auto
  show "\<not> sc_KiIdleSummary sc"
    using D(10)[of t] t(1) by auto
  show "core_ok {t} (RemoveReadyThread h t sc)"
    using RemoveReadyThread_ok[OF D(1) assms(2,3)] assms(1) by (simp add: core_ok_def)
qed

text \<open>The ready threads below a list that is empty.\<close>

lemma ready_below:
  assumes "core_ok {} sc" "sst sc u = Ready" "\<And>q. h \<le> q \<Longrightarrow> rl sc q = []"
  shows "pri sc u < int h"
proof -
  have "u \<in> set (rl sc (nat (pri sc u)))"
    using lists_okD(2)[OF core_okD(1)[OF assms(1)], of u "nat (pri sc u)"] assms(2) core_okD(11)[OF assms(1), of u] by simp
  then show ?thesis
    using assms(3)[of "nat (pri sc u)"] by (metis empty_iff empty_set nat_less_iff core_okD(11)[OF assms(1)] not_le)
qed

lemma KiSwapThread_ok:
  assumes "core_ok {} sc" "sc_CurrentThread sc \<noteq> sc_IdleThread sc" "\<And>t. t \<noteq> sc_IdleThread sc \<Longrightarrow> sst sc t \<noteq> Running"
  shows "sched_ok (KiSwapThread sc)"
    "based sc \<Longrightarrow> (\<And>n t. sc_NextThread sc = Some n \<Longrightarrow> sst sc t = Ready \<Longrightarrow> pri sc t \<le> pri sc n) \<Longrightarrow> prio_ok (KiSwapThread sc)"
proof -
  note D = core_okD[OF assms(1)]
  have "sched_ok (KiSwapThread sc) \<and> (based sc \<longrightarrow>
    (\<forall>n t. sc_NextThread sc = Some n \<longrightarrow> sst sc t = Ready \<longrightarrow> pri sc t \<le> pri sc n) \<longrightarrow> prio_ok (KiSwapThread sc))"
  proof (cases "sc_NextThread sc")
    case (Some n)
    note R = run_next[OF assms(1) Some]
    show ?thesis
      using R assms(3) Some by (auto simp: KiSwapThread_def sched_ok_def prio_ok_def top_thread_simps)
  next
    case None
    have np: "\<And>t. 0 \<le> pri sc t \<and> pri sc t < 32"
      by (rule D(11))
    from D(1) np show ?thesis
    proof (cases rule: KiSelectReadyThread_cases[where p = 0])
      case none
      have "sst sc t \<noteq> Ready" for t
        using ready_below[OF assms(1), of t 0] none(2) D(11)[of t] by force
      then show ?thesis
        using run_idle[OF assms(1) None] none(1) None assms(3) by (auto simp: KiSwapThread_def sched_ok_def prio_ok_def top_thread_simps)
    next
      case (some t h)
      note S = selected_core[OF assms(1) some(4,3)]
      have "pri sc u \<le> int h" if "sst sc u = Ready" for u
        using ready_below[OF assms(1) that, of "Suc h"] some(6) by (simp add: Suc_le_eq)
      then show ?thesis
        using run_selected[OF S(1)] S(2-4) some(1) None assms(3) by (auto simp: KiSwapThread_def sched_ok_def prio_ok_def top_thread_simps)
    qed
  qed
  then show "sched_ok (KiSwapThread sc)"
    "based sc \<Longrightarrow> (\<And>n t. sc_NextThread sc = Some n \<Longrightarrow> sst sc t = Ready \<Longrightarrow> pri sc t \<le> pri sc n) \<Longrightarrow> prio_ok (KiSwapThread sc)"
    by blast+
qed

text \<open>The two invariants together; the second one only where a flag asks for it.\<close>

definition sched_inv :: "bool \<Rightarrow> KPRCB \<Rightarrow> bool" where
  "sched_inv orderly sc = (sched_ok sc \<and> (orderly \<longrightarrow> prio_ok sc))"

lemma sched_okD:
  assumes "sched_ok sc"
  shows "core_ok {} sc" "t \<noteq> sc_IdleThread sc \<Longrightarrow> sst sc t = Running \<longleftrightarrow> sc_CurrentThread sc = t" "sst sc (sc_CurrentThread sc) = Running"
  using assms core_okD(4)[of "{}" sc] by (auto simp: sched_ok_def) metis

definition harmless :: "(SCHED_THREAD \<Rightarrow> SCHED_THREAD) \<Rightarrow> bool" where
  "harmless f = (\<forall>th. th_State (f th) = th_State th \<and> th_Priority (f th) = th_Priority th \<and> th_BasePriority (f th) = th_BasePriority th \<and>
     th_AdjustReason (f th) = th_AdjustReason th \<and> sane (f th) = sane th \<and> settled (f th) = settled th)"

lemma harmlessD:
  assumes "harmless f"
  shows "th_State (f th) = th_State th" "th_Priority (f th) = th_Priority th" "th_BasePriority (f th) = th_BasePriority th"
    "th_AdjustReason (f th) = th_AdjustReason th" "sane (f th) = sane th" "settled (f th) = settled th"
  using assms by (auto simp: harmless_def)

lemma harmless_core:
  assumes "harmless f" "core_ok X sc"
  shows "core_ok X (upd_sched t f sc)"
  using harmlessD[OF assms(1)] core_okD(2,3)[OF assms(2)] by (intro core_ok_upd[OF assms(2)]) simp_all

lemma harmless_view:
  assumes "harmless f"
  shows "sst (upd_sched t f sc) u = sst sc u" "pri (upd_sched t f sc) u = pri sc u" "based (upd_sched t f sc) = based sc"
    "th_AdjustReason (sc_Threads (upd_sched t f sc) u) = th_AdjustReason (sc_Threads sc u)"
  using harmlessD[OF assms] by (auto simp: based_upd_eq)

lemma harmless_inv:
  assumes "harmless f" "sched_inv b sc"
  shows "sched_inv b (upd_sched t f sc)"
  using assms(2) harmless_core[OF assms(1), of "{}" sc t]
  unfolding sched_inv_def sched_ok_def prio_ok_def top_thread_def harmless_view[OF assms(1)] upd_sched_frame by simp

lemma queue_current:
  assumes "core_ok {} sc" "held {} t sc" "sst sc t = Running" "\<not> sc_KiIdleSummary sc" "n \<noteq> t" "sc_CurrentThread sc = n" "sc_NextThread sc = None"
    "\<And>u. u \<noteq> sc_IdleThread sc \<Longrightarrow> sst sc u = Running \<longleftrightarrow> u = n \<or> u = t" "harmless f"
    "b \<Longrightarrow> based sc" "\<And>u. b \<Longrightarrow> sst sc u = Ready \<or> u = t \<Longrightarrow> pri sc u \<le> pri sc n"
  shows "sched_inv b (KxQueueReadyThread k t (upd_sched t f sc))"
proof -
  let ?sc = "upd_sched t (\<lambda>th. th\<lparr>th_Preempted := False\<rparr>) (upd_sched t f sc)"
  have h: "harmless (\<lambda>th. th\<lparr>th_Preempted := False\<rparr>)"
    by (simp add: harmless_def)
  note V = harmless_view[OF h] harmless_view[OF assms(9)]
  have view: "sst ?sc u = sst sc u" "pri ?sc u = pri sc u" "based ?sc = based sc"
    "th_AdjustReason (sc_Threads ?sc u) = th_AdjustReason (sc_Threads sc u)" for u
    unfolding V by (rule refl)+
  have q: "KxQueueReadyThread k t (upd_sched t f sc) = InsertReadyThread k (th_Preempted (f (sc_Threads sc t))) t ?sc"
    by (simp add: KxQueueReadyThread_def)
  have "core_ok {} ?sc"
    by (rule harmless_core[OF h harmless_core[OF assms(9,1)]])
  moreover have "held {} t ?sc"
    using assms(2) unfolding held_def view upd_sched_frame .
  ultimately have core: "core_ok {} (InsertReadyThread k c t ?sc)" for c
    using assms(4) by (intro InsertReadyThread_core) simp_all
  have st: "sst (InsertReadyThread k c t ?sc) u = (if u = t then Ready else sst sc u)" "pri (InsertReadyThread k c t ?sc) u = pri sc u" for c u
    using harmlessD[OF assms(9)] by simp_all
  have t: "t \<noteq> sc_IdleThread sc"
    using assms(2) by (simp add: held_def)
  have "sched_ok (InsertReadyThread k c t ?sc)" for c
    unfolding sched_ok_def using core[of c] assms(3,5,6,8) t unfolding st InsertReadyThread_simps upd_sched_frame by auto
  moreover have "prio_ok (InsertReadyThread k c t ?sc)" if b for c
    unfolding prio_ok_def top_thread_def st based_simps view InsertReadyThread_simps(2-) upd_sched_frame
    using assms(5,6,7,10,11) that by auto
  ultimately show ?thesis
    by (simp add: sched_inv_def q)
qed

lemma switch_from_inv:
  assumes "sched_inv b sc" "sc_CurrentThread sc \<noteq> sc_IdleThread sc" "harmless f"
  shows "sched_inv b (switch_from k f sc)"
proof (cases "sc_NextThread sc")
  case None
  then show ?thesis
    using assms(1) by (simp add: switch_from_def)
next
  case (Some n)
  let ?t = "sc_CurrentThread sc" and ?sc = "switch_to n (sc\<lparr>sc_NextThread := None\<rparr>)"
  have ok: "sched_ok sc"
    using assms(1) by (simp add: sched_inv_def)
  note S = sched_okD[OF ok]
  note R = run_next[OF S(1) Some]
  have nt: "n \<noteq> ?t"
    using S(3) R(3) by auto
  have "th_AdjustReason (sc_Threads sc ?t) = AdjustNone"
    using settled_none[OF core_okD(3)[OF S(1)]] S(3) by simp
  then have "held {} ?t ?sc"
    using S(3) nt assms(2) by (simp add: held_def)
  moreover have "sst ?sc u = Running \<longleftrightarrow> u = n \<or> u = ?t" if "u \<noteq> sc_IdleThread ?sc" for u
    using S(2)[of u] that by auto
  moreover have "pri ?sc u \<le> pri ?sc n" if b "sst ?sc u = Ready \<or> u = ?t" for u
    using assms(1) that R(3) Some nt by (auto simp: sched_inv_def prio_ok_def top_thread_simps split: if_splits)
  moreover have "b \<Longrightarrow> based ?sc"
    using assms(1) by (simp add: sched_inv_def prio_ok_def)
  moreover have "\<not> sc_KiIdleSummary ?sc"
    using core_okD(9)[OF S(1)] Some by simp
  ultimately have "sched_inv b (KxQueueReadyThread k ?t (upd_sched ?t f ?sc))"
    using R(1) S(3) nt assms(3) by (intro queue_current[where n = n]) simp_all
  then show ?thesis
    by (simp add: switch_from_def Some Let_def)
qed

text \<open>Selecting a next thread while there is none.\<close>

lemma select_next_inv:
  assumes "sched_inv b sc" "sc_NextThread sc = None"
  shows "sched_ok (select_next p sc)"
    "based sc \<Longrightarrow> int p = pri sc (sc_CurrentThread sc) \<or> int p = pri sc (sc_CurrentThread sc) + 1 \<Longrightarrow> prio_ok (select_next p sc)"
proof -
  have ok: "sched_ok sc"
    using assms(1) by (simp add: sched_inv_def)
  note S = sched_okD[OF ok]
  note D = core_okD[OF S(1)]
  have np: "\<And>t. 0 \<le> pri sc t \<and> pri sc t < 32"
    by (rule D(11))
  have "sched_ok (select_next p sc) \<and> (based sc \<longrightarrow> int p = pri sc (sc_CurrentThread sc) \<or> int p = pri sc (sc_CurrentThread sc) + 1 \<longrightarrow>
    prio_ok (select_next p sc))"
    using D(1) np
  proof (cases rule: KiSelectReadyThread_cases[where p = p])
    case none
    have "pri sc u < int p" if "sst sc u = Ready" for u
      by (rule ready_below[OF S(1) that]) (rule none(2))
    then show ?thesis
      using ok none(1) assms(2) by (force simp: select_next_def prio_ok_def top_thread_simps)
  next
    case (some t h)
    note C = selected_core[OF S(1) some(4,3)]
    let ?sc = "RemoveReadyThread h t sc"
    have "th_AdjustReason (sc_Threads sc t) = AdjustNone"
      using settled_none[OF D(3)] C(2) by simp
    moreover have "t \<noteq> sc_IdleThread sc"
      using C(2) D(4) by auto
    ultimately have "core_ok {} (set_standby t (?sc\<lparr>sc_KiIdleSummary := False\<rparr>))"
      using C(1,2) assms(2) by (intro set_standby_core) (simp_all add: held_def)
    moreover have "?sc\<lparr>sc_KiIdleSummary := False\<rparr> = ?sc"
      using C(4) by (cases sc) (simp add: RemoveReadyThread_def Let_def)
    ultimately have core: "core_ok {} (set_standby t ?sc)"
      by simp
    have le: "pri sc u \<le> pri sc t" if "sst sc u = Ready" for u
      using ready_below[OF S(1) that, of "Suc h"] some(6) C(3) by (simp add: Suc_le_eq)
    have "sched_ok (set_standby t ?sc)"
      unfolding sched_ok_def using core S(2,3) C(2) by auto
    moreover have "prio_ok (set_standby t ?sc)"
      if "based sc" "int p = pri sc (sc_CurrentThread sc) \<or> int p = pri sc (sc_CurrentThread sc) + 1"
      using that le C(3) some(2) by (auto simp: prio_ok_def top_thread_simps)
    ultimately show ?thesis
      using some(1) by (simp add: select_next_def)
  qed
  then show "sched_ok (select_next p sc)"
    "based sc \<Longrightarrow> int p = pri sc (sc_CurrentThread sc) \<or> int p = pri sc (sc_CurrentThread sc) + 1 \<Longrightarrow> prio_ok (select_next p sc)"
    by blast+
qed

lemma select_next_current [simp]: "sc_CurrentThread (select_next p sc) = sc_CurrentThread sc" "sc_IdleThread (select_next p sc) = sc_IdleThread sc"
  by (auto simp: select_next_def KiSelectReadyThread_def Let_def split: option.split list.split)

text \<open>A change of the priority of the current thread.\<close>

lemma repriced_current:
  assumes "sched_ok sc" "t = sc_CurrentThread sc" "t \<noteq> sc_IdleThread sc" "sane (f (sc_Threads sc t))" "th_State (f (sc_Threads sc t)) = Running"
    "th_AdjustReason (f (sc_Threads sc t)) = AdjustNone"
  shows "sched_ok (upd_sched t f sc)"
proof -
  note S = sched_okD[OF assms(1)]
  have "core_ok {} (upd_sched t f sc)"
    using assms S(3) by (intro core_ok_upd[OF S(1)]) (auto simp: settled_def)
  then show ?thesis
    using S(2) assms(2,5) by (auto simp: sched_ok_def)
qed

lemma renew_quantum_inv:
  assumes "sched_inv b sc" "t = sc_CurrentThread sc" "t \<noteq> sc_IdleThread sc"
  shows "sched_inv b (renew_quantum t sc)" "sc_CurrentThread (renew_quantum t sc) = t" "sc_IdleThread (renew_quantum t sc) = sc_IdleThread sc"
proof -
  have ok: "sched_ok sc"
    using assms(1) by (simp add: sched_inv_def)
  note S = sched_okD[OF ok]
  define f where "f = (\<lambda>th. new_priority (th\<lparr>th_Quantum := th_QuantumReset th\<rparr>) 1)"
  define sc1 where "sc1 = upd_sched t f sc"
  have adj: "th_AdjustReason (sc_Threads sc t) = AdjustNone"
    using settled_none[OF core_okD(3)[OF S(1)]] S(3) assms(2) by simp
  note N = KiComputeNewPriority_sane[of "(sc_Threads sc t)\<lparr>th_Quantum := th_QuantumReset (sc_Threads sc t)\<rparr>" 1]
  have sane: "sane (sc_Threads sc t)"
    by (rule core_okD(2)[OF S(1)])
  then have ok1: "sched_ok sc1"
    unfolding sc1_def using N adj S(3) assms(2,3) by (intro repriced_current[OF ok]) (simp_all add: f_def)
  have frame: "sc_NextThread sc1 = sc_NextThread sc" "sc_CurrentThread sc1 = t" "sc_IdleThread sc1 = sc_IdleThread sc"
    by (simp_all add: sc1_def assms(2))
  have low: "based sc1 \<and> pri sc1 t \<le> pri sc t" if "based sc"
  proof
    show "based sc1"
      unfolding sc1_def using that based_new_priority(2)[of "(sc_Threads sc t)\<lparr>th_Quantum := th_QuantumReset (sc_Threads sc t)\<rparr>" 1] N(4) sane
      by (intro based_upd) (simp_all add: f_def based_def)
    show "pri sc1 t \<le> pri sc t"
      using N(6) sane that[unfolded based_def, rule_format, of t] by (auto simp: sc1_def f_def)
  qed
  have eq: "renew_quantum t sc = (if sc_NextThread sc = None then select_next (nat (pri sc1 t)) sc1
    else upd_sched t (\<lambda>th. th\<lparr>th_Preempted := False\<rparr>) sc1)"
    by (simp add: renew_quantum_def sc1_def f_def Let_def)
  show "sc_CurrentThread (renew_quantum t sc) = t" "sc_IdleThread (renew_quantum t sc) = sc_IdleThread sc"
    by (simp_all add: eq frame)
  show "sched_inv b (renew_quantum t sc)"
  proof (cases "sc_NextThread sc")
    case None
    have "sched_ok (select_next (nat (pri sc1 t)) sc1)" "based sc1 \<Longrightarrow> prio_ok (select_next (nat (pri sc1 t)) sc1)"
      using select_next_inv[of False sc1] ok1 None frame core_okD(11)[OF sched_okD(1)[OF ok1], of t] by (simp_all add: sched_inv_def)
    then show ?thesis
      using None low assms(1) by (auto simp: eq sched_inv_def prio_ok_def)
  next
    case (Some n)
    have "n \<noteq> t"
      using run_next(3)[OF S(1) Some] S(3) assms(2) by auto
    moreover have "sst sc1 u = Ready \<Longrightarrow> sst sc u = Ready \<and> pri sc1 u = pri sc u" for u
      using sched_okD(3)[OF ok1] frame S(3) assms(2) by (cases "u = t") (simp_all add: sc1_def)
    moreover have "pri sc1 n = pri sc n" if "n \<noteq> t"
      using that by (simp add: sc1_def)
    ultimately have "prio_ok sc \<Longrightarrow> prio_ok sc1"
      using low Some frame assms(2) by (auto simp: prio_ok_def top_thread_simps)
    then have "sched_inv b sc1"
      using ok1 assms(1) by (auto simp: sched_inv_def)
    then have "sched_inv b (upd_sched t (\<lambda>th. th\<lparr>th_Preempted := False\<rparr>) sc1)"
      by (intro harmless_inv) (simp_all add: harmless_def)
    then show ?thesis
      by (simp add: eq Some)
  qed
qed

section \<open>Quantum\<close>

lemma KiExitDispatcher_inv:
  assumes "sched_inv b sc" "sc_CurrentThread sc \<noteq> sc_IdleThread sc \<or> 2 \<le> irql"
  shows "sched_inv b (KiExitDispatcher k irql sc)"
  using assms switch_from_inv[OF assms(1)] by (auto simp: KiExitDispatcher_def harmless_def)

lemma KiAdjustQuantumThread_inv:
  assumes "sched_inv b sc" "t = sc_CurrentThread sc" "t \<noteq> sc_IdleThread sc"
  shows "sched_inv b (KiAdjustQuantumThread k t sc)"
proof -
  let ?sc = "upd_sched t (\<lambda>th. th\<lparr>th_Quantum := s8 (th_Quantum th - 1)\<rparr>) sc"
  have sc1: "sched_inv b ?sc"
    by (rule harmless_inv[OF _ assms(1)]) (simp add: harmless_def)
  note R = renew_quantum_inv[OF sc1]
  show ?thesis
    using R sc1 assms unfolding KiAdjustQuantumThread_def Let_def by (intro KiExitDispatcher_inv) simp_all
qed

lemma KiQuantumEnd_inv:
  assumes "sched_inv b sc" "sc_CurrentThread sc \<noteq> sc_IdleThread sc"
  shows "sched_inv b (KiQuantumEnd k sc)"
proof -
  have "sched_inv b (upd_sched (sc_CurrentThread sc) (\<lambda>th. th\<lparr>th_Quantum := MAX_QUANTUM\<rparr>) sc)"
    by (rule harmless_inv[OF _ assms(1)]) (simp add: harmless_def)
  then show ?thesis
    using renew_quantum_inv[OF assms(1)] assms unfolding KiQuantumEnd_def Let_def by (intro switch_from_inv) (simp_all add: harmless_def)
qed

lemma sched_inv_QuantumEnd [simp]: "sched_inv b (sc\<lparr>sc_QuantumEnd := q\<rparr>) = sched_inv b sc"
  by (cases "sc_NextThread sc") (simp_all add: sched_inv_def sched_ok_def core_ok_def lists_ok_def prio_ok_def top_thread_simps)

lemma KeUpdateRunTime_inv:
  assumes "sched_inv b sc"
  shows "sched_inv b (KeUpdateRunTime sc)"
proof -
  have "sched_inv b (upd_sched (sc_CurrentThread sc) (\<lambda>th. th\<lparr>th_Quantum := s8 (th_Quantum th - CLOCK_QUANTUM_DECREMENT)\<rparr>) sc)"
    by (rule harmless_inv[OF _ assms]) (simp add: harmless_def)
  then show ?thesis
    by (simp add: KeUpdateRunTime_def Let_def)
qed

lemma KiDispatchInterrupt_inv:
  assumes "sched_inv b sc" "sc_CurrentThread sc \<noteq> sc_IdleThread sc"
  shows "sched_inv b (KiDispatchInterrupt k sc)"
  using KiQuantumEnd_inv[of b "sc\<lparr>sc_QuantumEnd := False\<rparr>"] switch_from_inv[OF assms] assms
  by (simp add: KiDispatchInterrupt_def harmless_def)

lemma KiIdleLoop_inv:
  assumes "sched_inv b sc" "sc_CurrentThread sc = sc_IdleThread sc"
  shows "sched_inv b (KiIdleLoop sc)"
proof (cases "sc_NextThread sc")
  case (Some n)
  have ok: "sched_ok sc"
    using assms(1) by (simp add: sched_inv_def)
  note R = run_next[OF sched_okD(1)[OF ok] Some]
  show ?thesis
    using R assms sched_okD(2)[OF ok] Some
    by (auto simp: KiIdleLoop_def sched_inv_def sched_ok_def prio_ok_def top_thread_simps)
qed (use assms in \<open>simp add: KiIdleLoop_def\<close>)

lemma block_inv:
  assumes "sched_inv b sc" "sc_CurrentThread sc \<noteq> sc_IdleThread sc" "s \<in> {Waiting, GateWait, Terminated}"
  shows "sched_inv b (KiSwapThread (upd_sched (sc_CurrentThread sc) (\<lambda>th. th\<lparr>th_State := s\<rparr>) sc))"
proof -
  let ?c = "sc_CurrentThread sc"
  let ?sc = "upd_sched ?c (\<lambda>th. th\<lparr>th_State := s\<rparr>) sc"
  have ok: "sched_ok sc"
    using assms(1) by (simp add: sched_inv_def)
  note S = sched_okD[OF ok]
  note D = core_okD[OF S(1)]
  have "lists_ok {} ?sc"
    by (rule lists_ok_upd[OF D(1)]) (use S(3) assms(3) in auto)
  moreover have "sane (sc_Threads ?sc u) \<and> settled (sc_Threads ?sc u)" for u
    using D(2,3)[of u] settled_none[OF D(3)[of ?c]] S(3) by auto
  moreover have "sst ?sc u = Standby \<longleftrightarrow> sc_NextThread sc = Some u" for u
    using D(8)[of u] S(3) assms(3) by auto
  ultimately have core: "core_ok {} ?sc"
    using D(4-9) assms(2) by (auto simp: core_ok_def)
  have "sst ?sc t \<noteq> Running" if "t \<noteq> sc_IdleThread sc" for t
    using S(2)[OF that] assms(3) by auto
  then have "sched_ok (KiSwapThread ?sc)"
    using assms(2) by (intro KiSwapThread_ok(1)[OF core]) simp_all
  moreover have "prio_ok (KiSwapThread ?sc)" if b
  proof (rule KiSwapThread_ok(2)[OF core])
    show "based ?sc"
      using assms(1) that by (simp add: sched_inv_def prio_ok_def based_upd_eq)
    show "pri ?sc t \<le> pri ?sc n" if "sc_NextThread ?sc = Some n" "sst ?sc t = Ready" for n t
      using assms(1,3) \<open>b\<close> that by (auto simp: sched_inv_def prio_ok_def top_thread_simps split: if_splits)
  qed (use assms(2) \<open>\<And>t. t \<noteq> sc_IdleThread sc \<Longrightarrow> sst ?sc t \<noteq> Running\<close> in simp_all)
  ultimately show ?thesis
    by (simp add: sched_inv_def)
qed

section \<open>Priorities\<close>

lemma readied_inv:
  assumes "sched_ok sc" "readied t sc1 sc'" "sc_CurrentThread sc1 = sc_CurrentThread sc" "sc_IdleThread sc1 = sc_IdleThread sc"
    "\<And>u. sst sc1 u = Running \<longleftrightarrow> sst sc u = Running" "b \<Longrightarrow> prio_ok sc1"
  shows "sched_inv b sc'"
  using assms by (auto simp: readied_def sched_inv_def sched_ok_def)

lemma deferred_inv:
  assumes "sched_ok sc" "core_ok {} sc1" "sst sc1 t = DeferredReady" "sc_CurrentThread sc1 = sc_CurrentThread sc" "sc_IdleThread sc1 = sc_IdleThread sc"
    "\<And>u. sst sc1 u = Running \<longleftrightarrow> sst sc u = Running" "b \<Longrightarrow> prio_ok sc1"
  shows "\<exists>sc'. KiDeferredReadyThread k t sc1 = Some sc' \<and> sched_inv b sc'"
proof -
  have "sst sc1 (sc_CurrentThread sc1) = Running"
    using assms(4,6) sched_okD(3)[OF assms(1)] by simp
  then obtain sc' where "KiDeferredReadyThread k t sc1 = Some sc'" "readied t sc1 sc'"
    using KiDeferredReadyThread_ok[OF assms(2,3)] by blast
  then show ?thesis
    using readied_inv[OF assms(1) _ assms(4-7)] by blast
qed

lemma ready_inv:
  assumes "sched_inv b sc" "sst sc t \<in> {Initialized, Waiting, GateWait}" "0 \<le> i" "i < 128"
  shows "\<exists>sc'. KiInsertDeferredReadyList k t (upd_sched t (\<lambda>th. th\<lparr>th_WaitStatus := w, th_AdjustIncrement := i, th_AdjustReason := r\<rparr>) sc) = Some sc' \<and>
    sched_inv b sc'"
proof -
  let ?f = "\<lambda>th. th\<lparr>th_WaitStatus := w, th_AdjustIncrement := i, th_AdjustReason := r, th_State := DeferredReady\<rparr> :: SCHED_THREAD"
  let ?sc = "upd_sched t ?f sc"
  have ok: "sched_ok sc"
    using assms(1) by (simp add: sched_inv_def)
  note S = sched_okD[OF ok]
  have t: "t \<noteq> sc_IdleThread sc" "t \<noteq> sc_CurrentThread sc" "sc_NextThread sc \<noteq> Some t"
    using assms(2) core_okD(4)[OF S(1)] core_okD(8)[OF S(1), of t] S(3) by auto
  have "sane (?f (sc_Threads sc t))"
    using core_okD(2)[OF S(1), of t] by (simp add: sane_def)
  then have core: "core_ok {} ?sc"
    using assms(2-4) t by (intro core_ok_upd[OF S(1)]) (auto simp: settled_def)
  have "prio_ok ?sc" if b
    using assms(1) that t by (auto simp: sched_inv_def prio_ok_def top_thread_def based_upd_eq split: option.splits if_splits)
  then have "\<exists>sc'. KiDeferredReadyThread k t ?sc = Some sc' \<and> sched_inv b sc'"
    using core assms(2) by (intro deferred_inv[OF ok]) auto
  then show ?thesis
    by (simp add: KiInsertDeferredReadyList_def upd_sched_def)
qed

text \<open>
  When the priority of a thread can be set without an inversion: the thread is neither the one
  that runs nor the one that runs next, or no thread is next. (A thread on its way into the ready
  lists keeps its priority.)
\<close>

definition calm :: "tid \<Rightarrow> KPRCB \<Rightarrow> bool" where
  "calm t sc = ((sc_NextThread sc = None \<or> t \<noteq> sc_CurrentThread sc \<and> sc_NextThread sc \<noteq> Some t) \<and> sst sc t \<noteq> DeferredReady)"

definition prio_but :: "tid \<Rightarrow> KPRCB \<Rightarrow> bool" where
  "prio_but t sc = ((\<forall>u. sst sc u = Ready \<longrightarrow> pri sc u \<le> pri sc (top_thread sc)) \<and> pri sc (sc_CurrentThread sc) \<le> pri sc (top_thread sc) \<and>
     (\<forall>u. u \<noteq> t \<longrightarrow> th_BasePriority (sc_Threads sc u) \<le> pri sc u))"

lemma prio_but: "prio_ok sc = (prio_but t sc \<and> th_BasePriority (sc_Threads sc t) \<le> pri sc t)"
  by (auto simp: prio_ok_def prio_but_def based_def)

lemma KiSetPriorityThread_inv:
  assumes "sched_ok sc" "t \<noteq> sc_IdleThread sc" "0 \<le> p" "p < 32" "th_PriorityDecrement (sc_Threads sc t) = 0"
    "b \<Longrightarrow> calm t sc \<and> prio_but t sc \<and> th_BasePriority (sc_Threads sc t) \<le> p"
  shows "\<exists>sc'. KiSetPriorityThread k t p sc = Some sc' \<and> sched_inv b sc'"
proof (cases "pri sc t = p")
  case True
  then show ?thesis
    using assms(1,6) by (simp add: KiSetPriorityThread_def sched_inv_def prio_but[of sc t])
next
  case ne: False
  note ok = assms(1)
  note S = sched_okD[OF ok]
  note D = core_okD[OF S(1)]
  define f where "f = (\<lambda>th :: SCHED_THREAD. th\<lparr>th_Priority := s8 p\<rparr>)"
  define g where "g = (\<lambda>th :: SCHED_THREAD. th\<lparr>th_State := DeferredReady\<rparr>)"
  have f: "th_State (f th) = th_State th" "th_Priority (f th) = p" "th_BasePriority (f th) = th_BasePriority th"
    "th_AdjustReason (f th) = th_AdjustReason th" "settled (f th) = settled th" for th
    using assms(3,4) by (simp_all add: f_def s8_small settled_def)
  have fs: "sane (f (sc_Threads sc t))"
    using D(2)[of t] assms(3-5) by (simp add: f_def s8_small sane_def)
  have bas: "based (upd_sched t f sc1)" if b "sc_Threads sc1 = sc_Threads sc" for sc1
    using assms(6) that by (auto simp: f prio_but_def based_def)
  have set: "core_ok {} (upd_sched t f sc)" if "sst sc t \<noteq> Ready"
    using that fs D(3)[of t] assms(2) by (intro core_ok_upd[OF S(1)]) (simp_all add: f)
  have set_ok: "sched_ok (upd_sched t f sc)" if "sst sc t \<noteq> Ready"
    using set[OF that] S(2) by (auto simp: sched_ok_def f)
  have other: "sched_inv b (upd_sched t f sc)" if "sst sc t \<noteq> Ready" "b \<Longrightarrow> t \<noteq> sc_CurrentThread sc \<and> sc_NextThread sc \<noteq> Some t"
  proof -
    have "prio_ok (upd_sched t f sc)" if b
    proof -
      have "top_thread (upd_sched t f sc) = top_thread sc" "top_thread sc \<noteq> t"
        using \<open>b \<Longrightarrow> t \<noteq> sc_CurrentThread sc \<and> sc_NextThread sc \<noteq> Some t\<close> that by (auto simp: top_thread_def split: option.split)
      then show ?thesis
        using assms(6) that bas[OF that refl] \<open>sst sc t \<noteq> Ready\<close> \<open>b \<Longrightarrow> t \<noteq> sc_CurrentThread sc \<and> sc_NextThread sc \<noteq> Some t\<close>
        by (auto simp: prio_but_def prio_ok_def f)
    qed
    then show ?thesis
      using set_ok[OF that(1)] by (simp add: sched_inv_def)
  qed
  have outside: "sched_inv b (upd_sched t f sc)" if "sst sc t \<notin> {Ready, Standby, Running}"
    by (rule other) (use that S(3) D(8)[of t] in auto)
  note def = KiSetPriorityThread_def f_def[symmetric] g_def[symmetric] KiInsertDeferredReadyList_def Let_def
  show ?thesis
  proof (cases "sst sc t")
    case Ready
    let ?h = "nat (pri sc t)"
    let ?sc = "upd_sched t g (upd_sched t f (RemoveReadyThread ?h t sc))"
    have in_list: "t \<in> set (rl sc ?h)" "?h < 32"
      using lists_okD(2)[OF D(1), of t ?h] Ready D(11)[of t] by (simp_all add: nat_less_iff)
    note C = selected_core[OF S(1) in_list]
    have nt: "t \<noteq> sc_CurrentThread sc" "sc_NextThread sc \<noteq> Some t"
      using S(3) Ready D(8)[of t] by auto
    have "lists_ok {} ?sc"
      by (rule lists_ok_cong[OF core_okD(1)[OF C(1)]]) (auto simp: f g_def split: if_splits)
    moreover have "th_AdjustReason (sc_Threads sc t) = AdjustNone"
      using settled_none[OF D(3)[of t]] Ready by simp
    then have "sane (sc_Threads ?sc u) \<and> settled (sc_Threads ?sc u)" for u
      using D(2,3)[of u] fs by (auto simp: f g_def)
    moreover have "sst ?sc u = Standby \<longleftrightarrow> sc_NextThread sc = Some u" for u
      using D(8)[of u] nt(2) by (auto simp: f g_def)
    ultimately have core: "core_ok {} ?sc"
      using D(4-10) assms(2) by (auto simp: core_ok_def f g_def)
    have "prio_ok ?sc" if b
    proof -
      have "based (upd_sched t f (RemoveReadyThread ?h t sc))"
        by (rule bas[OF that]) simp
      then have "based ?sc"
        by (simp add: based_upd_eq g_def)
      then show ?thesis
        using assms(6) that nt by (auto simp: prio_but_def prio_ok_def top_thread_def f g_def split: option.splits if_splits)
    qed
    then have "\<exists>sc'. KiDeferredReadyThread k t ?sc = Some sc' \<and> sched_inv b sc'"
      using core Ready by (intro deferred_inv[OF ok]) (auto simp: f g_def)
    then show ?thesis
      using ne Ready by (simp add: def)
  next
    case Standby
    then have next_t: "sc_NextThread sc = Some t"
      using D(8)[of t] by simp
    then have nb: "\<not> b"
      using assms(6) by (auto simp: calm_def)
    let ?sc = "upd_sched t f sc"
    have core: "core_ok {} ?sc"
      using set Standby by simp
    have whole: "sched_inv b ?sc"
      using set_ok Standby nb by (simp add: sched_inv_def)
    show ?thesis
    proof (cases "p < pri sc t")
      case True
      from core_okD(1)[OF core] core_okD(11)[OF core] show ?thesis
      proof (cases rule: KiSelectReadyThread_cases[where p = "nat (p + 1)"])
        case none
        then show ?thesis
          using ne Standby next_t True whole by (simp add: def)
      next
        case (some n h)
        let ?sc1 = "RemoveReadyThread h n ?sc"
        note C = selected_core[OF core some(4,3)]
        have "n \<noteq> t" "sst sc n = Ready"
          using C(2) Standby by (auto simp: f split: if_splits)
        then have "held {n} n ?sc1"
          using C(2) settled_none[OF D(3)[of n]] D(4) by (auto simp: held_def)
        then have core2: "core_ok {} (upd_sched t g (set_standby n ?sc1))"
          using replace_next(1)[OF C(1), of n t] next_t by (simp add: g_def)
        have "\<exists>sc'. KiDeferredReadyThread k t (upd_sched t g (set_standby n ?sc1)) = Some sc' \<and> sched_inv b sc'"
          using core2 \<open>n \<noteq> t\<close> \<open>sst sc n = Ready\<close> Standby nb by (intro deferred_inv[OF ok]) (auto simp: f g_def)
        then show ?thesis
          using ne Standby next_t True some(1) by (simp add: def)
      qed
    next
      case False
      then show ?thesis
        using ne Standby next_t whole by (simp add: def)
    qed
  next
    case Running
    then have cur: "sc_CurrentThread sc = t"
      using S(2)[OF assms(2)] by simp
    show ?thesis
    proof (cases "sc_NextThread sc")
      case None
      have inv: "sched_inv False (upd_sched t f sc)"
        using set_ok Running by (simp add: sched_inv_def)
      have "sched_inv b (select_next (nat (p + 1)) (upd_sched t f sc))"
        using select_next_inv[OF inv, of "nat (p + 1)"] None bas[OF _ refl] assms(3) cur by (auto simp: sched_inv_def f)
      moreover have "sched_inv b (upd_sched t f sc)" if "\<not> p < pri sc t"
      proof -
        have "prio_ok (upd_sched t f sc)" if b
          using assms(6) that bas[OF that refl] None cur Running \<open>\<not> p < pri sc t\<close> by (auto simp: prio_but_def prio_ok_def top_thread_simps f)
        then show ?thesis
          using inv by (simp add: sched_inv_def)
      qed
      ultimately show ?thesis
        using ne Running cur None by (simp add: def)
    next
      case (Some n)
      then have "\<not> b"
        using assms(6) cur by (auto simp: calm_def)
      then have "sched_inv b (upd_sched t f sc)"
        using set_ok Running by (simp add: sched_inv_def)
      then show ?thesis
        using ne Running cur Some by (simp add: def)
    qed
  qed (use ne outside ok assms(6) in \<open>auto simp: def sched_inv_def calm_def\<close>)
qed

lemma decrement_inv:
  assumes "sched_inv b sc" "th_State (f (sc_Threads sc t)) = sst sc t" "th_Priority (f (sc_Threads sc t)) = pri sc t"
    "th_AdjustReason (f (sc_Threads sc t)) = th_AdjustReason (sc_Threads sc t)" "settled (f (sc_Threads sc t))" "sane (f (sc_Threads sc t))"
    "b \<Longrightarrow> th_BasePriority (f (sc_Threads sc t)) \<le> pri sc t"
  shows "sched_inv b (upd_sched t f sc)"
proof -
  have ok: "sched_ok sc"
    using assms(1) by (simp add: sched_inv_def)
  have "core_ok {} (upd_sched t f sc)"
    using assms by (intro core_ok_upd[OF sched_okD(1)[OF ok]]) simp_all
  moreover have "sst (upd_sched t f sc) u = sst sc u" "pri (upd_sched t f sc) u = pri sc u" for u
    using assms(2,3) by simp_all
  moreover have "b \<Longrightarrow> based (upd_sched t f sc)"
    using assms(1,3,7) by (intro based_upd) (simp_all add: sched_inv_def prio_ok_def)
  ultimately show ?thesis
    using assms(1) unfolding sched_inv_def sched_ok_def prio_ok_def top_thread_def upd_sched_frame by simp
qed

lemma KeSetPriorityThread_inv:
  assumes "sched_inv b sc" "t \<noteq> sc_IdleThread sc" "0 \<le> p" "p < 32" "b \<Longrightarrow> calm t sc \<and> th_BasePriority (sc_Threads sc t) \<le> p"
  shows "\<exists>r sc'. KeSetPriorityThread k t p sc = Some (r, sc') \<and> sched_inv b sc'"
proof -
  let ?sc = "upd_sched t (\<lambda>th. th\<lparr>th_PriorityDecrement := 0\<rparr>) sc"
  let ?q = "if th_BasePriority (sc_Threads sc t) \<noteq> 0 \<and> p = 0 then 1 else p"
  have ok: "sched_ok sc"
    using assms(1) by (simp add: sched_inv_def)
  note D = core_okD[OF sched_okD(1)[OF ok]]
  have 1: "sched_inv b ?sc"
    using assms(1) D(2,3)[of t] by (intro decrement_inv) (auto simp: sane_def settled_def sched_inv_def prio_ok_def based_def)
  have 2: "sched_inv b (upd_sched t (\<lambda>th. th\<lparr>th_Quantum := th_QuantumReset th\<rparr>) ?sc)"
    by (rule harmless_inv[OF _ 1]) (simp add: harmless_def sane_def settled_def)
  have "\<exists>sc'. KiSetPriorityThread k t ?q (upd_sched t (\<lambda>th. th\<lparr>th_Quantum := th_QuantumReset th\<rparr>) ?sc) = Some sc' \<and> sched_inv b sc'"
    using assms D(2)[of t] 2 by (intro KiSetPriorityThread_inv) (auto simp: calm_def sane_def sched_inv_def prio_but[of _ t])
  then show ?thesis
    using 1 by (auto simp: KeSetPriorityThread_def Let_def)
qed

lemma KeBoostPriorityThread_inv:
  assumes "sched_inv b sc" "t \<noteq> sc_IdleThread sc" "b \<Longrightarrow> calm t sc"
  shows "\<exists>sc'. KeBoostPriorityThread k t i sc = Some sc' \<and> sched_inv b sc'"
proof -
  have ok: "sched_ok sc"
    using assms(1) by (simp add: sched_inv_def)
  note D = core_okD[OF sched_okD(1)[OF ok]]
  let ?sc = "upd_sched t (\<lambda>th. th\<lparr>th_Quantum := th_QuantumReset th\<rparr>) sc"
  have 1: "sched_inv b ?sc"
    by (rule harmless_inv[OF _ assms(1)]) (simp add: harmless_def sane_def settled_def)
  have "\<exists>sc'. KiSetPriorityThread k t q ?sc = Some sc' \<and> sched_inv b sc'"
    if "pri sc t < q \<or> q = 15" "q < 16" "pri sc t < 16" "th_PriorityDecrement (sc_Threads sc t) = 0" for q
  proof (rule KiSetPriorityThread_inv)
    show "calm t ?sc \<and> prio_but t ?sc \<and> th_BasePriority (sc_Threads ?sc t) \<le> q" if b
      using 1 assms(3) \<open>b\<close> \<open>pri sc t < q \<or> q = 15\<close> \<open>pri sc t < 16\<close> by (auto simp: calm_def sched_inv_def prio_but[of _ t])
  qed (use 1 assms(2) that D(11)[of t] in \<open>auto simp: sched_inv_def\<close>)
  then show ?thesis
    using assms(1) by (auto simp: KeBoostPriorityThread_def Let_def)
qed

lemma KiComputeNewPriority_range:
  assumes "sane th" "KiComputeNewPriority th 0 = (p, th')"
  shows "0 \<le> p \<and> p < 32" "th_BasePriority th \<le> th_Priority th \<Longrightarrow> th_BasePriority th \<le> p" "th' = th \<or> th' = th\<lparr>th_PriorityDecrement := 0\<rparr>"
proof -
  have "s8 (th_Priority th - th_PriorityDecrement th) = th_Priority th - th_PriorityDecrement th"
    using assms(1) by (intro s8_small) (simp_all add: sane_def)
  then have "p = (if th_Priority th < 16 then max (th_BasePriority th) (th_Priority th - th_PriorityDecrement th) else th_Priority th)"
    "th' = (if th_Priority th < 16 then th\<lparr>th_PriorityDecrement := 0\<rparr> else th)"
    using assms(2) by (auto simp: KiComputeNewPriority_def Let_def max_def split: if_splits)
  then show "0 \<le> p \<and> p < 32" "th_BasePriority th \<le> th_Priority th \<Longrightarrow> th_BasePriority th \<le> p" "th' = th \<or> th' = th\<lparr>th_PriorityDecrement := 0\<rparr>"
    using assms(1) by (auto simp: sane_def)
qed

lemma base_priority_facts:
  assumes "sane th" "0 \<le> kp_BasePriority kp" "kp_BasePriority kp < 32" "base_priority kp i th = (bp, p, th')"
  shows "0 \<le> bp \<and> bp < 32 \<and> 0 \<le> p \<and> p < 32" "th_BasePriority th \<le> th_Priority th \<Longrightarrow> bp \<le> p"
    "th_State th' = th_State th" "th_Priority th' = th_Priority th" "th_AdjustReason th' = th_AdjustReason th"
    "th_AdjustIncrement th' = th_AdjustIncrement th"
proof -
  define s where "s = (if \<bar>i\<bar> \<ge> 16 then if i > 0 then 1 else -1 else (0 :: int))"
  define th0 where "th0 = th\<lparr>th_Saturation := s\<rparr>"
  define q where "q = s32 (kp_BasePriority kp + i)"
  obtain p0 th1 where c: "KiComputeNewPriority th0 0 = (p0, th1)"
    by fastforce
  have "sane th0"
    using assms(1) by (simp add: th0_def sane_def)
  note C = KiComputeNewPriority_range[OF this c]
  have eq: "base_priority kp i th =
    (if kp_BasePriority kp \<ge> 16 then (let b = (if q < 16 then 16 else if q > 31 then 31 else q) in (b, b, th0))
     else (let b = (if q \<ge> 16 then 15 else if q \<le> 0 then 1 else q); r = p0 + (b - th_BasePriority th)
           in if s \<noteq> 0 then (b, b, th0) else (b, if r \<ge> 16 then 15 else if r \<le> 0 then 1 else r, th1)))"
    by (simp add: base_priority_def Let_def s_def[symmetric] q_def[symmetric] th0_def[symmetric] c) (simp add: th0_def)
  show "0 \<le> bp \<and> bp < 32 \<and> 0 \<le> p \<and> p < 32"
    using assms(4) by (auto simp: eq Let_def split: if_splits)
  show "th_BasePriority th \<le> th_Priority th \<Longrightarrow> bp \<le> p"
    using assms(4) C(2) by (auto simp: eq Let_def th0_def split: if_splits)
  have "th' = th0 \<or> th' = th1"
    using assms(4) by (auto simp: eq Let_def split: if_splits)
  then show "th_State th' = th_State th" "th_Priority th' = th_Priority th" "th_AdjustReason th' = th_AdjustReason th"
    "th_AdjustIncrement th' = th_AdjustIncrement th"
    using C(3) by (auto simp: th0_def)
qed

lemma KeSetBasePriorityThread_inv:
  assumes "sched_inv b sc" "t \<noteq> sc_IdleThread sc" "b \<Longrightarrow> calm t sc"
  shows "\<exists>r sc'. KeSetBasePriorityThread k t i sc = Some (r, sc') \<and> sched_inv b sc'"
proof -
  have ok: "sched_ok sc"
    using assms(1) by (simp add: sched_inv_def)
  note D = core_okD[OF sched_okD(1)[OF ok]]
  obtain bp p th where bp: "base_priority (sc_Process sc t) i (sc_Threads sc t) = (bp, p, th)"
    using prod_cases3 by blast
  note B = base_priority_facts[OF D(2) conjunct1[OF D(7)] conjunct2[OF D(7)] bp]
  define f where "f = (\<lambda>_ :: SCHED_THREAD. th\<lparr>th_BasePriority := s8 bp, th_PriorityDecrement := 0\<rparr>)"
  define sc1 where "sc1 = upd_sched t (\<lambda>th. th\<lparr>th_Quantum := th_QuantumReset th\<rparr>) (upd_sched t f sc)"
  have f: "th_State (f x) = sst sc t" "th_Priority (f x) = pri sc t" "th_AdjustReason (f x) = th_AdjustReason (sc_Threads sc t)"
    "th_BasePriority (f x) = bp" "th_PriorityDecrement (f x) = 0" "settled (f x)" "sane (f x)" for x
    using B D(2,3)[of t] by (auto simp: f_def s8_small settled_def sane_def)
  have q: "harmless (\<lambda>th. th\<lparr>th_Quantum := th_QuantumReset th\<rparr>)"
    by (simp add: harmless_def sane_def settled_def)
  have set: "sched_inv (b \<and> bp \<le> pri sc t) (upd_sched t f sc)"
    using assms(1) f by (intro decrement_inv) (auto simp: sched_inv_def)
  have ok1: "sched_ok sc1"
    using harmless_inv[OF q set] by (simp add: sc1_def sched_inv_def)
  have "\<exists>sc'. KiSetPriorityThread k t p sc1 = Some sc' \<and> sched_inv b sc'"
  proof (rule KiSetPriorityThread_inv[OF ok1])
    show "calm t sc1 \<and> prio_but t sc1 \<and> th_BasePriority (sc_Threads sc1 t) \<le> p" if b
    proof -
      have frame: "sc_NextThread sc1 = sc_NextThread sc" "sc_CurrentThread sc1 = sc_CurrentThread sc"
        by (simp_all add: sc1_def)
      have view: "sst sc1 u = sst sc u" "pri sc1 u = pri sc u" "u \<noteq> t \<Longrightarrow> th_BasePriority (sc_Threads sc1 u) = th_BasePriority (sc_Threads sc u)" for u
        using f by (simp_all add: sc1_def)
      have "prio_but t sc1"
        using assms(1) that unfolding sched_inv_def prio_but[of _ t] prio_but_def top_thread_def view frame by (simp add: view)
      then show ?thesis
        using assms(3) that B(2) f assms(1) by (simp add: calm_def sc1_def sched_inv_def prio_but[of _ t])
    qed
  qed (use assms(2) B(1) f in \<open>simp_all add: sc1_def\<close>)
  moreover have "sched_inv b (upd_sched t f sc)" if "p = pri sc t"
    using set B(2) that assms(1) by (auto simp: sched_inv_def prio_but[of _ t])
  ultimately show ?thesis
    using f B(4) by (auto simp: KeSetBasePriorityThread_def bp Let_def f_def[symmetric] sc1_def)
qed

section \<open>Yielding and starting\<close>

lemma KeStartThread_inv:
  assumes "sched_inv b sc" "sst sc t = Initialized" "th_PriorityDecrement (sc_Threads sc t) = 0"
  shows "sched_inv b (KeStartThread t sc)"
proof -
  have ok: "sched_ok sc"
    using assms(1) by (simp add: sched_inv_def)
  note S = sched_okD[OF ok]
  note D = core_okD[OF S(1)]
  define kp where "kp = sc_Process sc t"
  let ?f = "\<lambda>th :: SCHED_THREAD. th\<lparr>th_DisableBoost := kp_DisableBoost kp, th_Quantum := kp_QuantumReset kp, th_QuantumReset := kp_QuantumReset kp,
    th_Priority := kp_BasePriority kp, th_BasePriority := kp_BasePriority kp\<rparr>"
  have eq: "KeStartThread t sc = upd_sched t ?f sc"
    by (simp add: KeStartThread_def kp_def Let_def)
  have t: "t \<noteq> sc_IdleThread sc" "t \<noteq> sc_CurrentThread sc" "sc_NextThread sc \<noteq> Some t"
    using assms(2) S(3) D(4) D(8)[of t] by auto
  have kp: "0 \<le> kp_BasePriority kp" "kp_BasePriority kp < 32"
    using D(7) by (simp_all add: kp_def)
  then have "core_ok {} (upd_sched t ?f sc)"
    using assms(2,3) D(3)[of t] t by (intro core_ok_upd[OF S(1)]) (auto simp: sane_def settled_def)
  moreover have "sst (upd_sched t ?f sc) u = sst sc u" for u
    by simp
  moreover have "prio_ok (upd_sched t ?f sc)" if b
    using assms that t by (auto simp: sched_inv_def prio_ok_def top_thread_def based_def split: option.splits)
  ultimately show ?thesis
    using S(2) unfolding eq sched_inv_def sched_ok_def upd_sched_frame by presburger
qed

lemma NtYieldExecution_ok:
  assumes "sched_ok sc" "sc_CurrentThread sc \<noteq> sc_IdleThread sc"
  shows "sched_ok (snd (NtYieldExecution k sc))"
proof -
  note S = sched_okD[OF assms(1)]
  note D = core_okD[OF S(1)]
  let ?t = "sc_CurrentThread sc"
  define f where "f = (\<lambda>th. new_priority (th\<lparr>th_Quantum := th_QuantumReset th\<rparr>) 1)"
  define g where "g = (\<lambda>th :: SCHED_THREAD. th\<lparr>th_WaitReason := WrYieldExecution, th_WaitIrql := APC_LEVEL\<rparr>)"
  have g: "harmless g"
    by (simp add: g_def harmless_def)
  have adj: "th_AdjustReason (sc_Threads sc ?t) = AdjustNone"
    using settled_none[OF D(3)] S(3) by simp
  note N = KiComputeNewPriority_sane[of "(sc_Threads sc ?t)\<lparr>th_Quantum := th_QuantumReset (sc_Threads sc ?t)\<rparr>" 1]
  have f: "sane (f (sc_Threads sc ?t))" "th_State (f (sc_Threads sc ?t)) = Running" "th_AdjustReason (f (sc_Threads sc ?t)) = AdjustNone"
    using N D(2) S(3) adj by (simp_all add: f_def)
  have given: "sched_ok (switch_from k g (upd_sched ?t f sc))"
  proof -
    have "sched_inv False (upd_sched ?t f sc)"
      using repriced_current[of sc ?t f] assms f by (simp add: sched_inv_def)
    then show ?thesis
      using switch_from_inv[of False "upd_sched ?t f sc" g k] assms(2) g by (simp add: sched_inv_def)
  qed
  have selected: "sched_ok (switch_from k g (upd_sched ?t f ((RemoveReadyThread h n sc)\<lparr>sc_NextThread := Some n\<rparr>)))"
    if n: "n \<in> set (rl sc h)" "h < 32" and none: "sc_NextThread sc = None" for n h
  proof -
    note C = selected_core[OF S(1) n]
    let ?sc = "switch_to n (upd_sched ?t f (RemoveReadyThread h n sc))"
    have nt: "n \<noteq> ?t"
      using C(2) S(3) by auto
    have "core_ok {n} (upd_sched ?t f (RemoveReadyThread h n sc))"
      using f S(3) assms(2) by (intro core_ok_upd[OF C(1)]) (auto simp: settled_def)
    note R = run_selected[OF this]
    have "core_ok {} ?sc"
      using R(1) C(2,4) nt none by simp
    moreover have "held {} ?t ?sc"
      using f nt assms(2) by (simp add: held_def)
    moreover have "sst ?sc u = Running \<longleftrightarrow> u = n \<or> u = ?t" if "u \<noteq> sc_IdleThread ?sc" for u
      using that S(2)[of u] f(2) by auto
    ultimately have "sched_inv False (KxQueueReadyThread k ?t (upd_sched ?t g ?sc))"
      using nt none C(4) f(2) g by (intro queue_current[where n = n]) simp_all
    moreover have "(upd_sched ?t f ((RemoveReadyThread h n sc)\<lparr>sc_NextThread := Some n\<rparr>))\<lparr>sc_NextThread := None\<rparr> =
      upd_sched ?t f (RemoveReadyThread h n sc)"
      using none by (cases sc) (simp add: upd_sched_def RemoveReadyThread_def Let_def)
    ultimately show ?thesis
      by (simp add: switch_from_def Let_def sched_inv_def)
  qed
  have same: "sc\<lparr>sc_NextThread := None\<rparr> = sc" if "sc_NextThread sc = None"
    using that by (cases sc) simp
  have eq: "snd (NtYieldExecution k sc) =
    (let sc1 = (if sc_NextThread sc = None then (case KiSelectReadyThread 1 sc of (n, sc) \<Rightarrow> sc\<lparr>sc_NextThread := n\<rparr>) else sc)
     in if sc_ReadySummary sc = 0 then sc else if sc_NextThread sc1 = None then sc1 else switch_from k g (upd_sched ?t f sc1))"
    unfolding NtYieldExecution_def Let_def f_def[symmetric] g_def[symmetric] by auto
  show ?thesis
  proof (cases "sc_NextThread sc")
    case None
    from D(1) D(11) show ?thesis
    proof (cases rule: KiSelectReadyThread_cases[where p = 1])
      case none
      show ?thesis
        unfolding eq Let_def none(1) using None assms(1) by (simp add: same[OF None])
    next
      case (some n h)
      show ?thesis
        unfolding eq Let_def some(1) using None assms(1) selected[OF some(4,3) None] by simp
    qed
  next
    case (Some n)
    show ?thesis
      unfolding eq Let_def using Some given assms(1) by simp
  qed
qed

text \<open>\<open>KeSetEventBoostPriority\<close> takes away what is left of the boost of the current thread.\<close>

lemma event_boost_inv:
  assumes "sched_inv b sc" "sc_CurrentThread sc \<noteq> sc_IdleThread sc" "b \<Longrightarrow> th_PriorityDecrement (sc_Threads sc (sc_CurrentThread sc)) = 0"
  shows "sched_inv b (upd_sched (sc_CurrentThread sc) (\<lambda>th. new_priority th 0) sc)"
proof -
  let ?t = "sc_CurrentThread sc" and ?sc = "upd_sched (sc_CurrentThread sc) (\<lambda>th. new_priority th 0) sc"
  have ok: "sched_ok sc"
    using assms(1) by (simp add: sched_inv_def)
  note S = sched_okD[OF ok]
  have sane: "sane (sc_Threads sc ?t)"
    by (rule core_okD(2)[OF S(1)])
  have "th_AdjustReason (sc_Threads sc ?t) = AdjustNone"
    using settled_none[OF core_okD(3)[OF S(1)]] S(3) by simp
  then have "sched_ok ?sc"
    using KiComputeNewPriority_sane[of "sc_Threads sc ?t" 0] sane S(3) assms(2) by (intro repriced_current[OF ok]) simp_all
  moreover have "prio_ok ?sc" if b
  proof -
    have prio: "prio_ok sc"
      using assms(1) that by (simp add: sched_inv_def)
    have "th_BasePriority (sc_Threads sc ?t) \<le> pri sc ?t"
      using prio by (simp add: prio_ok_def based_def)
    then have "new_priority (sc_Threads sc ?t) 0 = sc_Threads sc ?t"
      using assms(3)[OF that] sane by (cases "sc_Threads sc ?t") (simp add: new_priority_def KiComputeNewPriority_def sane_def s8_small Let_def)
    then have "?sc = sc"
      by (simp add: upd_sched_def)
    then show ?thesis
      using prio by simp
  qed
  ultimately show ?thesis
    by (simp add: sched_inv_def)
qed

section \<open>The system\<close>

text \<open>
  The steps of the scheduler. The flag is set for the steps that cannot invert priorities. Without
  it a thread may yield, which lets threads of a lower priority run first; the priority of the
  current thread or of the one chosen to run next may be changed while another one is chosen; a
  priority may be set below the base priority of its thread, which the end of the quantum raises
  again without looking at the thread chosen next; and \<open>KeSetEventBoostPriority\<close> may take away a
  boost of the current thread, which gives no other thread the processor. The thread that
  \<open>KeSetEventBoostPriority\<close> wakes is made ready by a step of its own. The idle thread runs at dispatch
  level, where it is not interrupted for another thread; it leaves the processor in its loop.
\<close>

inductive sched_step :: "bool \<Rightarrow> KPRCB \<Rightarrow> KPRCB \<Rightarrow> bool" where
  start: "sst sc t = Initialized \<Longrightarrow> th_PriorityDecrement (sc_Threads sc t) = 0 \<Longrightarrow> sched_step b sc (KeStartThread t sc)"
| ready: "sst sc t \<in> {Initialized, Waiting, GateWait} \<Longrightarrow> 0 \<le> i \<Longrightarrow> i < 128 \<Longrightarrow>
    KiInsertDeferredReadyList k t (upd_sched t (\<lambda>th. th\<lparr>th_WaitStatus := w, th_AdjustIncrement := i, th_AdjustReason := r\<rparr>) sc) = Some sc' \<Longrightarrow>
    sched_step b sc sc'"
| block: "sc_CurrentThread sc \<noteq> sc_IdleThread sc \<Longrightarrow> s \<in> {Waiting, GateWait, Terminated} \<Longrightarrow>
    sched_step b sc (KiSwapThread (upd_sched (sc_CurrentThread sc) (\<lambda>th. th\<lparr>th_State := s\<rparr>) sc))"
| exit_dispatcher: "sc_CurrentThread sc \<noteq> sc_IdleThread sc \<or> 2 \<le> q \<Longrightarrow> sched_step b sc (KiExitDispatcher k q sc)"
| adjust_quantum: "sc_CurrentThread sc \<noteq> sc_IdleThread sc \<Longrightarrow> sched_step b sc (KiAdjustQuantumThread k (sc_CurrentThread sc) sc)"
| tick: "sched_step b sc (KeUpdateRunTime sc)"
| dispatch_interrupt: "sc_CurrentThread sc \<noteq> sc_IdleThread sc \<Longrightarrow> sched_step b sc (KiDispatchInterrupt k sc)"
| idle: "sc_CurrentThread sc = sc_IdleThread sc \<Longrightarrow> sched_step b sc (KiIdleLoop sc)"
| disable_boost: "sched_step b sc (snd (KeSetDisableBoostThread t d sc))"
| set_priority: "t \<noteq> sc_IdleThread sc \<Longrightarrow> 0 \<le> p \<Longrightarrow> p \<le> HIGH_PRIORITY \<Longrightarrow>
    (b \<Longrightarrow> calm t sc \<and> th_BasePriority (sc_Threads sc t) \<le> p) \<Longrightarrow> KeSetPriorityThread k t p sc = Some (x, sc') \<Longrightarrow> sched_step b sc sc'"
| set_base_priority: "t \<noteq> sc_IdleThread sc \<Longrightarrow> (b \<Longrightarrow> calm t sc) \<Longrightarrow> KeSetBasePriorityThread k t i sc = Some (x, sc') \<Longrightarrow> sched_step b sc sc'"
| boost: "t \<noteq> sc_IdleThread sc \<Longrightarrow> (b \<Longrightarrow> calm t sc) \<Longrightarrow> KeBoostPriorityThread k t i sc = Some sc' \<Longrightarrow> sched_step b sc sc'"
| event_boost: "sc_CurrentThread sc \<noteq> sc_IdleThread sc \<Longrightarrow> (b \<Longrightarrow> th_PriorityDecrement (sc_Threads sc (sc_CurrentThread sc)) = 0) \<Longrightarrow>
    sched_step b sc (upd_sched (sc_CurrentThread sc) (\<lambda>th. new_priority th 0) sc)"
| yield: "sc_CurrentThread sc \<noteq> sc_IdleThread sc \<Longrightarrow> sched_step False sc (snd (NtYieldExecution k sc))"

text \<open>
  The processor after the initialisation of the kernel: the thread that did it is the idle thread,
  no other thread is started, and the processor is idle.
\<close>

definition sched_thread :: SCHED_THREAD where
  "sched_thread = KTHREAD.extend new_thread (SCHED_THREAD.fields 0 0 False False 0 0)"

definition KiInitializeKernel :: "(tid \<Rightarrow> KPROCESS) \<Rightarrow> int \<Rightarrow> KPRCB" where
  "KiInitializeKernel Process Separation =
     \<lparr>sc_Threads = (\<lambda>_. sched_thread)(0 := sched_thread\<lparr>th_State := Running, th_WaitIrql := DISPATCH_LEVEL\<rparr>), sc_Process = Process,
      sc_DispatcherReadyList = (\<lambda>_. []), sc_ReadySummary = 0, sc_NextThread = None, sc_CurrentThread = 0, sc_IdleThread = 0,
      sc_KiIdleSummary = True, sc_QuantumEnd = False, sc_PsPrioritySeparation = Separation\<rparr>"

inductive sched_reachable :: "bool \<Rightarrow> KPRCB \<Rightarrow> bool" for b where
  init: "(\<And>t. 0 \<le> kp_BasePriority (Process t) \<and> kp_BasePriority (Process t) \<le> HIGH_PRIORITY) \<Longrightarrow> 0 \<le> sep \<Longrightarrow>
    sched_reachable b (KiInitializeKernel Process sep)"
| step: "sched_reachable b sc \<Longrightarrow> sched_step b sc sc' \<Longrightarrow> sched_reachable b sc'"

lemma sched_thread_simps [simp]:
  "th_State sched_thread = Initialized" "th_Priority sched_thread = 0" "th_BasePriority sched_thread = 0" "th_PriorityDecrement sched_thread = 0"
  "th_AdjustReason sched_thread = AdjustNone" "th_Preempted sched_thread = False" "th_Quantum sched_thread = 0" "th_DisableBoost sched_thread = False"
  by (simp_all add: sched_thread_def KTHREAD.defs SCHED_THREAD.defs new_thread_def)

lemma sched_step_inv: "sched_step b sc sc' \<Longrightarrow> sched_inv b sc \<Longrightarrow> sched_inv b sc'"
proof (induction rule: sched_step.induct)
  case (ready sc t i k w r sc' b)
  then show ?case
    using ready_inv[of b sc t i k w r] by auto
next
  case (set_priority t sc p b k x sc')
  then show ?case
    using KeSetPriorityThread_inv[of b sc t p k] by auto
next
  case (set_base_priority t sc b k i x sc')
  then show ?case
    using KeSetBasePriorityThread_inv[of b sc t k i] by auto
next
  case (boost t sc b k i sc')
  then show ?case
    using KeBoostPriorityThread_inv[of b sc t k i] by auto
next
  case (disable_boost b sc t d)
  then show ?case
    using harmless_inv[of "\<lambda>th. th\<lparr>th_DisableBoost := d\<rparr>" b sc t] by (simp add: KeSetDisableBoostThread_def harmless_def sane_def settled_def)
next
  case (event_boost sc b)
  then show ?case
    by (rule event_boost_inv[rotated])
next
  case (yield sc k)
  then show ?case
    using NtYieldExecution_ok[of sc k] by (simp add: sched_inv_def)
qed (simp_all add: KeStartThread_inv block_inv KiExitDispatcher_inv KiAdjustQuantumThread_inv KeUpdateRunTime_inv KiDispatchInterrupt_inv KiIdleLoop_inv)

lemma sched_reachable_inv:
  assumes "sched_reachable b sc"
  shows "sched_inv b sc"
  using assms
proof induction
  case (init Process sep)
  have "lists_ok {} (KiInitializeKernel Process sep)"
    by (simp add: lists_ok_def KiInitializeKernel_def)
  moreover have "kp_BasePriority (Process t) < 32" for t
    using init(1)[of t] by simp
  ultimately show ?case
    using init
    by (auto simp: sched_inv_def sched_ok_def core_ok_def prio_ok_def based_def top_thread_def KiInitializeKernel_def sane_def settled_def)
next
  case (step sc sc')
  then show ?case
    using sched_step_inv by blast
qed

section \<open>Properties\<close>

text \<open>A processor whose thread 1 was made ready before thread 2, which has a higher priority.\<close>

definition demo_process :: "tid \<Rightarrow> KPROCESS" where
  "demo_process t = \<lparr>kp_BasePriority = (if t = 1 then 8 else 10), kp_QuantumReset = 6, kp_DisableBoost = False, kp_DisableQuantum = False,
     kp_Foreground = False\<rparr>"

definition wake :: "tid \<Rightarrow> KPRCB \<Rightarrow> KPRCB" where
  "wake t sc =
     (case KiInsertDeferredReadyList 0 t
        (upd_sched t (\<lambda>th. th\<lparr>th_WaitStatus := 0, th_AdjustIncrement := 0, th_AdjustReason := AdjustNone\<rparr>) sc) of
      None \<Rightarrow> sc | Some sc' \<Rightarrow> sc')"

definition busy :: KPRCB where
  "busy = wake 2 (wake 1 (KeStartThread 2 (KeStartThread 1 (KiInitializeKernel demo_process 0))))"

lemma busy_view: "sst busy 1 = Ready" "pri busy 1 = 8" "rl busy 8 = [1]" "sc_NextThread busy = Some 2" "pri busy 2 = 10"
  by code_simp+

lemma wake_reachable: "sched_reachable b sc \<Longrightarrow> sst sc t = Initialized \<Longrightarrow> sched_reachable b (wake t sc)"
  unfolding wake_def
  by (auto split: option.split intro!: sched_reachable.step[of b sc] sched_step.ready[where i = 0 and k = 0 and w = 0 and r = AdjustNone and t = t])

lemma busy_reachable: "sched_reachable b busy"
proof -
  let ?sc = "KeStartThread 2 (KeStartThread 1 (KiInitializeKernel demo_process 0))"
  have "sched_reachable b (KiInitializeKernel demo_process 0)"
    by (rule sched_reachable.init) (simp_all add: demo_process_def)
  then have "sched_reachable b (KeStartThread 1 (KiInitializeKernel demo_process 0))"
    by (rule sched_reachable.step[OF _ sched_step.start]) (simp_all add: KiInitializeKernel_def)
  then have sc: "sched_reachable b ?sc"
    by (rule sched_reachable.step[OF _ sched_step.start]) (simp_all add: KiInitializeKernel_def KeStartThread_def Let_def)
  have "sst ?sc 1 = Initialized" "sst (wake 1 ?sc) 2 = Initialized"
    by code_simp+
  then show ?thesis
    unfolding busy_def by (intro wake_reachable sc)
qed

text \<open>
  C2. The ready lists are exact: in every state of the scheduler, the list of a priority holds
  exactly the threads that are ready with that priority, once, and its bit in the summary is set
  exactly if it is not empty. Exactly the next thread is in standby, and exactly the current
  thread, besides the idle thread, is running.
\<close>

theorem ready_lists_exact:
  assumes "sched_reachable b sc"
  shows "distinct (sc_DispatcherReadyList sc p) \<and>
    (\<forall>t. t \<in> set (sc_DispatcherReadyList sc p) \<longleftrightarrow> th_State (sc_Threads sc t) = Ready \<and> th_Priority (sc_Threads sc t) = int p) \<and>
    (bit (sc_ReadySummary sc) p \<longleftrightarrow> sc_DispatcherReadyList sc p \<noteq> []) \<and>
    (\<forall>t. th_State (sc_Threads sc t) = Standby \<longleftrightarrow> sc_NextThread sc = Some t) \<and>
    (\<forall>t. t \<noteq> sc_IdleThread sc \<longrightarrow> (th_State (sc_Threads sc t) = Running \<longleftrightarrow> sc_CurrentThread sc = t))"
proof -
  have ok: "sched_ok sc"
    using sched_reachable_inv[OF assms] by (simp add: sched_inv_def)
  note S = sched_okD[OF ok]
  note D = core_okD[OF S(1)]
  have "bit (sc_ReadySummary sc) p \<longleftrightarrow> rl sc p \<noteq> []"
  proof (cases "p < 32")
    case False
    then have "t \<notin> set (rl sc p)" for t
      using lists_okD(2)[OF D(1), of t p] D(11)[of t] by auto
    then show ?thesis
      using False bit_imp_le_length[of "sc_ReadySummary sc" p] by (cases "rl sc p") auto
  qed (rule lists_okD(3)[OF D(1)])
  then show ?thesis
    using lists_okD(1,2)[OF D(1)] D(8) S(2) by blast
qed

theorem ready_lists_exact_witness:
  "sc_DispatcherReadyList busy 8 = [1] \<and> th_State (sc_Threads busy 1) = Ready \<and> bit (sc_ReadySummary busy) 8 \<and> th_State (sc_Threads busy 2) = Standby"
  using ready_lists_exact[OF busy_reachable, of 8] busy_view by auto

text \<open>
  C3. The processor runs a thread of the highest priority: as long as no thread yields, the priority
  of the current thread and of the next one is not changed while a next thread is chosen, nor that of a thread
  on its way into the ready lists, no priority is set below
  the base priority of its thread, and \<open>KeSetEventBoostPriority\<close> is called only by threads without a
  temporary boost, no ready thread has a higher priority than the thread that runs next, nor has
  the current thread; and the processor does not stay idle while a thread is ready.
\<close>

theorem highest_priority_runs:
  assumes "sched_reachable True sc"
  shows "(\<forall>t. th_State (sc_Threads sc t) = Ready \<or> t = sc_CurrentThread sc \<longrightarrow>
      th_Priority (sc_Threads sc t) \<le> th_Priority (sc_Threads sc (case sc_NextThread sc of None \<Rightarrow> sc_CurrentThread sc | Some n \<Rightarrow> n))) \<and>
    (sc_CurrentThread sc = sc_IdleThread sc \<longrightarrow> sc_NextThread sc = None \<longrightarrow> (\<forall>t. th_State (sc_Threads sc t) \<noteq> Ready))"
proof -
  have inv: "sched_ok sc" "prio_ok sc"
    using sched_reachable_inv[OF assms] by (simp_all add: sched_inv_def)
  then show ?thesis
    using core_okD(9,10)[OF sched_okD(1)[OF inv(1)]] by (auto simp: prio_ok_def top_thread_def)
qed

theorem highest_priority_runs_witness:
  "th_State (sc_Threads busy 1) = Ready \<and> sc_NextThread busy = Some 2 \<and> th_Priority (sc_Threads busy 1) \<le> th_Priority (sc_Threads busy 2)"
proof -
  have "th_State (sc_Threads busy 1) = Ready" "sc_NextThread busy = Some 2"
    by (rule busy_view)+
  then show ?thesis
    using highest_priority_runs[OF busy_reachable] by auto
qed

text \<open>
  C19. The operations that make a thread ready or change its priority return: the thread that was
  next and gives way is made ready in its turn without an end.
\<close>

theorem scheduler_operations_return:
  assumes "sched_reachable b sc" "t \<noteq> sc_IdleThread sc"
  shows "(th_State (sc_Threads sc t) \<in> {Initialized, Waiting, GateWait} \<longrightarrow> th_AdjustReason (sc_Threads sc t) = AdjustNone \<longrightarrow>
      KiInsertDeferredReadyList k t sc \<noteq> None) \<and>
    (0 \<le> p \<longrightarrow> p \<le> HIGH_PRIORITY \<longrightarrow> KeSetPriorityThread k t p sc \<noteq> None) \<and>
    KeSetBasePriorityThread k t i sc \<noteq> None \<and> KeBoostPriorityThread k t i sc \<noteq> None"
proof -
  have inv: "sched_inv False sc"
    using sched_reachable_inv[OF assms(1)] by (simp add: sched_inv_def)
  then have ok: "sched_ok sc"
    by (simp add: sched_inv_def)
  note S = sched_okD[OF ok]
  have "KiInsertDeferredReadyList k t sc \<noteq> None"
    if "th_State (sc_Threads sc t) \<in> {Initialized, Waiting, GateWait}" "th_AdjustReason (sc_Threads sc t) = AdjustNone"
  proof -
    let ?sc = "upd_sched t (\<lambda>th. th\<lparr>th_State := DeferredReady\<rparr>) sc"
    have "core_ok {} ?sc"
      using that core_okD(2)[OF S(1)] assms(2) by (intro core_ok_upd[OF S(1)]) auto
    then have "\<exists>sc'. KiDeferredReadyThread k t ?sc = Some sc' \<and> sched_inv False sc'"
      using that by (intro deferred_inv[OF ok]) auto
    then show ?thesis
      by (auto simp: KiInsertDeferredReadyList_def)
  qed
  moreover have "KeSetPriorityThread k t p sc \<noteq> None" if "0 \<le> p" "p \<le> HIGH_PRIORITY"
    using KeSetPriorityThread_inv[OF inv assms(2), of p k] that by auto
  ultimately show ?thesis
    using KeSetBasePriorityThread_inv[OF inv assms(2), of k i] KeBoostPriorityThread_inv[OF inv assms(2), of k i] by auto
qed

theorem scheduler_operations_return_witness:
  "KeSetPriorityThread 5 2 4 busy \<noteq> None \<and> KiInsertDeferredReadyList 5 3 busy \<noteq> None \<and> KeBoostPriorityThread 5 1 4 busy \<noteq> None"
proof -
  have "sc_IdleThread busy = 0" "th_State (sc_Threads busy 3) = Initialized" "th_AdjustReason (sc_Threads busy 3) = AdjustNone"
    by code_simp+
  then show ?thesis
    using scheduler_operations_return[OF busy_reachable, of 2 5 4 0] scheduler_operations_return[OF busy_reachable, of 3 5 4 0]
      scheduler_operations_return[OF busy_reachable, of 1 5 4 4] by simp
qed

end
