(* ===== verification/Ke_Links.thy ===== *)
theory Ke_Links
  imports Ke_Wait
begin

text \<open>
  The links between waiting threads and objects, the thread counts of the queues, and what
  satisfying a wait and unwaiting a thread do to them. The invariants are relative to a set
  \<open>W\<close> of waiting threads, which differs from the threads in the state \<open>Waiting\<close> only in the
  middle of an operation.
\<close>

abbreviation wl :: "KSTATE \<Rightarrow> oid \<Rightarrow> KWAIT_BLOCK list" where
  "wl ks x \<equiv> ob_WaitList (ks_Objects ks x)"

abbreviation bl :: "KSTATE \<Rightarrow> tid \<Rightarrow> KWAIT_BLOCK list" where
  "bl ks t \<equiv> th_WaitBlockList (ks_Threads ks t)"

abbreviation sig :: "KSTATE \<Rightarrow> oid \<Rightarrow> int" where
  "sig ks x \<equiv> ob_SignalState (ks_Objects ks x)"

abbreviation ty :: "KSTATE \<Rightarrow> oid \<Rightarrow> KOBJECTS" where
  "ty ks x \<equiv> ob_Type (ks_Objects ks x)"

abbreviation owner :: "KSTATE \<Rightarrow> oid \<Rightarrow> tid option" where
  "owner ks x \<equiv> ob_OwnerThread (ks_Objects ks x)"

abbreviation mutants :: "KSTATE \<Rightarrow> tid \<Rightarrow> oid list" where
  "mutants ks t \<equiv> th_MutantList (ks_Threads ks t)"

abbreviation queue :: "KSTATE \<Rightarrow> tid \<Rightarrow> oid option" where
  "queue ks t \<equiv> th_Queue (ks_Threads ks t)"

definition waiting :: "KSTATE \<Rightarrow> tid set" where
  "waiting ks = {t. th_State (ks_Threads ks t) = Waiting}"

lemma waiting_upd_object [simp]: "waiting (upd_object x f ks) = waiting ks"
  by (simp add: waiting_def)

lemma waiting_upd_thread:
  "th_State (f (ks_Threads ks t)) = th_State (ks_Threads ks t) \<Longrightarrow> waiting (upd_thread t f ks) = waiting ks"
  by (auto simp: waiting_def)

section \<open>What unwaiting a thread does\<close>

lemma fold_remove1_distinct:
  "distinct xs \<Longrightarrow> fold remove1 bs xs = filter (\<lambda>b. b \<notin> set bs) xs"
proof (induction bs arbitrary: xs)
  case (Cons b bs)
  then show ?case
    by (simp add: distinct_remove1_removeAll removeAll_filter_not_eq) (rule filter_cong, auto)
qed simp

lemma RemoveWaitBlock_frame [simp]:
  "ks_Threads (RemoveWaitBlock b ks) = ks_Threads ks"
  "ks_TimerTable (RemoveWaitBlock b ks) = ks_TimerTable ks"
  "ks_TimerTime (RemoveWaitBlock b ks) = ks_TimerTime ks"
  "ks_KeMaximumIncrement (RemoveWaitBlock b ks) = ks_KeMaximumIncrement ks"
  by (simp_all add: RemoveWaitBlock_def)

lemma fold_RemoveWaitBlock_frame [simp]:
  "ks_Threads (fold RemoveWaitBlock bs ks) = ks_Threads ks"
  "ks_TimerTable (fold RemoveWaitBlock bs ks) = ks_TimerTable ks"
  "ks_TimerTime (fold RemoveWaitBlock bs ks) = ks_TimerTime ks"
  "ks_KeMaximumIncrement (fold RemoveWaitBlock bs ks) = ks_KeMaximumIncrement ks"
  by (induction bs arbitrary: ks) simp_all

lemma fold_RemoveWaitBlock [simp]:
  "ks_Objects (fold RemoveWaitBlock bs ks) y =
     (ks_Objects ks y)\<lparr>ob_WaitList := fold remove1 [b \<leftarrow> bs. wb_Object b = y] (wl ks y)\<rparr>"
  by (induction bs arbitrary: ks) (simp_all add: RemoveWaitBlock_def)

lemma KiUnlinkThread_objects [simp]:
  "ks_Objects (KiUnlinkThread t s ks) y =
     (ks_Objects ks y)\<lparr>ob_WaitList := fold remove1 [b \<leftarrow> bl ks t. wb_Object b = y] (wl ks y),
       ob_Inserted := (y \<noteq> TimerOf t \<and> ob_Inserted (ks_Objects ks y)),
       ob_CurrentCount := (if queue ks t = Some y then u32_add (ob_CurrentCount (ks_Objects ks y)) 1
                           else ob_CurrentCount (ks_Objects ks y))\<rparr>"
  by (auto simp: KiUnlinkThread_def Let_def split: option.split)

lemma KiUnlinkThread_threads [simp]:
  "ks_Threads (KiUnlinkThread t s ks) =
     (ks_Threads ks)(t := (ks_Threads ks t)\<lparr>th_WaitStatus := th_WaitStatus (ks_Threads ks t) OR s\<rparr>)"
  "ks_KeMaximumIncrement (KiUnlinkThread t s ks) = ks_KeMaximumIncrement ks"
  by (auto simp: KiUnlinkThread_def Let_def split: option.split)

lemma KiUnlinkThread_timer_ok:
  assumes "timer_ok E ks" "ob_Inserted (ks_Objects ks (TimerOf t)) \<Longrightarrow> TimerOf t \<notin> E"
  shows "timer_ok E (KiUnlinkThread t s ks)"
proof -
  define ks0 where "ks0 = upd_thread t (\<lambda>th. th\<lparr>th_WaitStatus := th_WaitStatus th OR s\<rparr>) ks"
  define ks1 where "ks1 = fold RemoveWaitBlock (bl ks0 t) ks0"
  have ok1: "timer_ok E ks1"
    using assms(1) by (subst timer_ok_cong[of _ ks]) (simp_all add: ks1_def ks0_def)
  define ks2 where "ks2 = (if ob_Inserted (ks_Objects ks1 (TimerOf t)) then KxRemoveTreeTimer (TimerOf t) ks1 else ks1)"
  have ok2: "timer_ok E ks2"
    using ok1 assms(2) KxRemoveTreeTimer_ok[OF ok1] by (simp add: ks2_def ks1_def ks0_def)
  have "KiUnlinkThread t s ks = (case queue ks2 t of None \<Rightarrow> ks2
      | Some q \<Rightarrow> upd_object q (\<lambda>ob. ob\<lparr>ob_CurrentCount := u32_add (ob_CurrentCount ob) 1\<rparr>) ks2)"
    by (simp only: KiUnlinkThread_def ks2_def ks1_def ks0_def Let_def)
  then show ?thesis
    using ok2 by (auto split: option.split simp: timer_ok_cong[of "upd_object _ _ ks2" ks2])
qed

lemma KiUnwaitThread_objects [simp]:
  "ks_Objects (KiUnwaitThread t s i ks) = ks_Objects (KiUnlinkThread t s ks)"
  "ks_KeMaximumIncrement (KiUnwaitThread t s i ks) = ks_KeMaximumIncrement ks"
  by (simp_all add: KiUnwaitThread_def KiReadyThread_def Let_def)

lemma KiUnwaitThread_threads [simp]:
  "ks_Threads (KiUnwaitThread t s i ks) =
     (ks_Threads ks)(t := (ks_Threads ks t)\<lparr>th_WaitStatus := th_WaitStatus (ks_Threads ks t) OR s,
        th_AdjustIncrement := s8 i, th_AdjustReason := AdjustUnwait, th_State := DeferredReady\<rparr>)"
  by (simp add: KiUnwaitThread_def KiReadyThread_def Let_def)

lemma KiUnwaitThread_timer_ok:
  "timer_ok E ks \<Longrightarrow> (ob_Inserted (ks_Objects ks (TimerOf t)) \<Longrightarrow> TimerOf t \<notin> E) \<Longrightarrow>
   timer_ok E (KiUnwaitThread t s i ks)"
  by (subst timer_ok_cong[of _ "KiUnlinkThread t s ks"])
    (simp_all add: KiUnlinkThread_timer_ok, simp_all add: KiUnwaitThread_def KiReadyThread_def Let_def)

lemma waiting_KiUnwaitThread [simp]: "waiting (KiUnwaitThread t s i ks) = waiting ks - {t}"
  by (auto simp: waiting_def)

section \<open>The links\<close>

text \<open>
  The wait list of the timer of a thread is meaningful only while the thread waits with a
  time-out: it is set up anew for each such wait.
\<close>

fun live :: "tid set \<Rightarrow> KSTATE \<Rightarrow> oid \<Rightarrow> bool" where
  "live W ks (Obj n) = True"
| "live W ks (TimerOf t) = (t \<in> W \<and> timer_block t \<in> set (bl ks t))"

definition wl_ok :: "tid set \<Rightarrow> KSTATE \<Rightarrow> oid \<Rightarrow> bool" where
  "wl_ok W ks x = (\<forall>b \<in> set (wl ks x). wb_Thread b \<in> W \<and> b \<in> set (bl ks (wb_Thread b)) \<and> wb_Object b = x)"

definition bl_ok :: "KSTATE \<Rightarrow> tid \<Rightarrow> bool" where
  "bl_ok ks t =
     (\<forall>b \<in> set (bl ks t). wb_Thread b = t \<and> b \<in> set (wl ks (wb_Object b)) \<and>
        (\<forall>u. wb_Object b = TimerOf u \<longrightarrow> b = timer_block t) \<and>
        (ty ks (wb_Object b) = QueueObject \<longrightarrow>
           queue ks t = Some (wb_Object b) \<and> (\<forall>b' \<in> set (bl ks t). b' = b \<or> b' = timer_block t)))"

text \<open>
  A block is in the wait list of an object exactly if it is in the ring of a waiting thread;
  a thread that waits for a queue waits for nothing else, and it is a thread of the queue; the
  timer of a thread is inserted only if the thread waits with a time-out.
\<close>

definition links :: "tid set \<Rightarrow> KSTATE \<Rightarrow> bool" where
  "links W ks =
     ((\<forall>x. live W ks x \<longrightarrow> wl_ok W ks x) \<and> (\<forall>t \<in> W. bl_ok ks t) \<and> (\<forall>x. distinct (wl ks x)) \<and>
      (\<forall>t. ob_Inserted (ks_Objects ks (TimerOf t)) \<longrightarrow> live W ks (TimerOf t)))"

lemma linksD:
  assumes "links W ks"
  shows "live W ks x \<Longrightarrow> wl_ok W ks x" "t \<in> W \<Longrightarrow> bl_ok ks t" "distinct (wl ks x)"
    "ob_Inserted (ks_Objects ks (TimerOf t)) \<Longrightarrow> live W ks (TimerOf t)"
  using assms unfolding links_def by blast+

lemma wl_okD:
  assumes "wl_ok W ks x" "b \<in> set (wl ks x)"
  shows "wb_Thread b \<in> W" "b \<in> set (bl ks (wb_Thread b))" "wb_Object b = x"
  using assms unfolding wl_ok_def by blast+

lemma bl_okD:
  assumes "bl_ok ks t" "b \<in> set (bl ks t)"
  shows "wb_Thread b = t" "b \<in> set (wl ks (wb_Object b))" "wb_Object b = TimerOf u \<Longrightarrow> b = timer_block t"
    "ty ks (wb_Object b) = QueueObject \<Longrightarrow> queue ks t = Some (wb_Object b)"
    "ty ks (wb_Object b) = QueueObject \<Longrightarrow> b' \<in> set (bl ks t) \<Longrightarrow> b' = b \<or> b' = timer_block t"
  using assms unfolding bl_ok_def by blast+

text \<open>The links look at these parts of the state.\<close>

lemma links_cong:
  assumes "\<And>x. wl ks' x = wl ks x" "\<And>x. ty ks' x = ty ks x"
    "\<And>t. ob_Inserted (ks_Objects ks' (TimerOf t)) = ob_Inserted (ks_Objects ks (TimerOf t))"
    "\<And>t. t \<in> W \<Longrightarrow> bl ks' t = bl ks t" "\<And>t. t \<in> W \<Longrightarrow> queue ks' t = queue ks t"
  shows "links W ks' = links W ks"
proof -
  have "live W ks' x = live W ks x" for x
    using assms(4) by (cases x) auto
  moreover have "wl_ok W ks' x = wl_ok W ks x" for x
    using assms(4) by (auto simp: wl_ok_def assms(1))
  moreover have "bl_ok ks' t = bl_ok ks t" if "t \<in> W" for t
    by (simp add: bl_ok_def assms(1,2) assms(4,5)[OF that])
  ultimately show ?thesis
    by (simp add: links_def assms(1,3) del: live.simps)
qed

lemma links_uninserted:
  assumes "links W ks" "\<And>x. wl ks' x = wl ks x" "\<And>x. ty ks' x = ty ks x"
    "\<And>t. ob_Inserted (ks_Objects ks' (TimerOf t)) \<Longrightarrow> ob_Inserted (ks_Objects ks (TimerOf t))"
    "\<And>t. bl ks' t = bl ks t" "\<And>t. queue ks' t = queue ks t"
  shows "links W ks'"
proof -
  have "live W ks' x = live W ks x" for x
    by (cases x) (simp_all add: assms)
  then show ?thesis
    using assms(1,4) by (auto simp: links_def wl_ok_def bl_ok_def assms(2,3,5,6))
qed

subsection \<open>Unwaiting a thread\<close>

lemma KiUnwaitThread_wl:
  assumes "links W ks"
  shows "wl (KiUnwaitThread t s i ks) x = filter (\<lambda>b. \<not> (b \<in> set (bl ks t) \<and> wb_Object b = x)) (wl ks x)"
  using linksD(3)[OF assms, of x] by (simp add: fold_remove1_distinct)

lemma KiUnwaitThread_wl_ok:
  assumes "links W ks" "wl_ok W ks x"
  shows "wl_ok (W - {t}) (KiUnwaitThread t s i ks) x"
  using assms(2) unfolding wl_ok_def by (auto simp: KiUnwaitThread_wl[OF assms(1)] simp del: KiUnwaitThread_objects)

lemma KiUnwaitThread_links:
  assumes ok: "links W ks" and t: "t \<in> W"
  shows "links (W - {t}) (KiUnwaitThread t s i ks)"
proof -
  let ?ks = "KiUnwaitThread t s i ks"
  note wl = KiUnwaitThread_wl[OF ok]
  have live: "live W ks x" if "live (W - {t}) ?ks x" for x
    using that by (cases x) (auto split: if_splits)
  have "bl_ok ?ks u" if u: "u \<in> W" "u \<noteq> t" for u
    unfolding bl_ok_def
  proof (intro ballI conjI)
    fix b assume "b \<in> set (bl ?ks u)"
    then have b: "b \<in> set (bl ks u)"
      using u by simp
    note bD = bl_okD[OF linksD(2)[OF ok u(1)] b]
    show "wb_Thread b = u" "\<forall>v. wb_Object b = TimerOf v \<longrightarrow> b = timer_block u"
      using bD by blast+
    have "b \<notin> set (bl ks t)"
      using bl_okD(1)[OF linksD(2)[OF ok t]] bD(1) u by blast
    then show "b \<in> set (wl ?ks (wb_Object b))"
      using bD(2) by (simp add: wl del: KiUnwaitThread_objects)
    show "ty ?ks (wb_Object b) = QueueObject \<longrightarrow>
      queue ?ks u = Some (wb_Object b) \<and> (\<forall>b'\<in>set (bl ?ks u). b' = b \<or> b' = timer_block u)"
      using bD(4,5) u by simp
  qed
  moreover have "live (W - {t}) ?ks (TimerOf u)" if "ob_Inserted (ks_Objects ?ks (TimerOf u))" for u
    using that linksD(4)[OF ok, of u] by auto
  moreover have "distinct (wl ?ks x)" for x
    using linksD(3)[OF ok, of x] by (simp add: wl del: KiUnwaitThread_objects)
  ultimately show ?thesis
    using KiUnwaitThread_wl_ok[OF ok] linksD(1)[OF ok] live unfolding links_def by blast
qed

section \<open>Queues\<close>

text \<open>
  The threads of a queue are those whose queue it is, and the current count of the queue is
  the number of its threads that are not waiting.
\<close>

definition active :: "tid set \<Rightarrow> tid list \<Rightarrow> nat" where
  "active W ts = length [t \<leftarrow> ts. t \<notin> W]"

definition queue_ok :: "tid set \<Rightarrow> KSTATE \<Rightarrow> bool" where
  "queue_ok W ks =
     ((\<forall>q. ty ks q = QueueObject \<longrightarrow>
         distinct (ob_ThreadList (ks_Objects ks q)) \<and>
         (\<forall>t. t \<in> set (ob_ThreadList (ks_Objects ks q)) \<longleftrightarrow> queue ks t = Some q) \<and>
         (\<not> ob_RunDown (ks_Objects ks q) \<longrightarrow>
            ob_CurrentCount (ks_Objects ks q) = active W (ob_ThreadList (ks_Objects ks q)) mod 4294967296)) \<and>
      (\<forall>t q. queue ks t = Some q \<longrightarrow> ty ks q = QueueObject))"

lemma queue_okD:
  assumes "queue_ok W ks"
  shows "ty ks q = QueueObject \<Longrightarrow> distinct (ob_ThreadList (ks_Objects ks q))"
    "ty ks q = QueueObject \<Longrightarrow> t \<in> set (ob_ThreadList (ks_Objects ks q)) \<longleftrightarrow> queue ks t = Some q"
    "ty ks q = QueueObject \<Longrightarrow> \<not> ob_RunDown (ks_Objects ks q) \<Longrightarrow>
       ob_CurrentCount (ks_Objects ks q) = active W (ob_ThreadList (ks_Objects ks q)) mod 4294967296"
    "queue ks t = Some q \<Longrightarrow> ty ks q = QueueObject"
  using assms unfolding queue_ok_def by blast+

lemma queue_ok_cong:
  assumes "\<And>x. ty ks' x = ty ks x" "\<And>t. queue ks' t = queue ks t"
    "\<And>x. ty ks x = QueueObject \<Longrightarrow> ob_ThreadList (ks_Objects ks' x) = ob_ThreadList (ks_Objects ks x)"
    "\<And>x. ty ks x = QueueObject \<Longrightarrow> ob_CurrentCount (ks_Objects ks' x) = ob_CurrentCount (ks_Objects ks x)"
    "\<And>x. ty ks x = QueueObject \<Longrightarrow> ob_RunDown (ks_Objects ks' x) = ob_RunDown (ks_Objects ks x)"
  shows "queue_ok W ks' = queue_ok W ks"
  using assms by (auto simp: queue_ok_def)

lemma active_remove:
  assumes "distinct ts" "t \<in> set ts" "t \<in> W"
  shows "active (W - {t}) ts = Suc (active W ts)"
  using assms
proof (induction ts)
  case (Cons x ts)
  show ?case
  proof (cases "x = t")
    case True
    then have "[u \<leftarrow> ts. u \<notin> W - {t}] = [u \<leftarrow> ts. u \<notin> W]"
      using Cons.prems by (intro filter_cong) auto
    then show ?thesis
      using True Cons.prems by (simp add: active_def)
  next
    case False
    then show ?thesis
      using Cons by (auto simp: active_def)
  qed
qed simp

lemma active_absent: "t \<notin> set ts \<Longrightarrow> active (W - {t}) ts = active W ts"
  unfolding active_def by (rule arg_cong[where f = length], rule filter_cong) auto

lemma KiUnwaitThread_queue_ok:
  assumes ok: "queue_ok W ks" and t: "t \<in> W"
  shows "queue_ok (W - {t}) (KiUnwaitThread t s i ks)"
proof -
  let ?ks = "KiUnwaitThread t s i ks"
  have "ob_CurrentCount (ks_Objects ?ks q) = active (W - {t}) (ob_ThreadList (ks_Objects ks q)) mod 4294967296"
    if q: "ty ks q = QueueObject" "\<not> ob_RunDown (ks_Objects ks q)" for q
    using queue_okD(1,3)[OF ok q(1)] q(2) queue_okD(2)[OF ok q(1), of t] t
    by (cases "queue ks t = Some q")
      (simp_all add: active_remove active_absent u32_add_def mod_Suc_eq)
  then show ?thesis
    using ok by (auto simp: queue_ok_def simp del: Diff_iff)
qed

section \<open>Operations that leave the links alone\<close>

text \<open>
  Setting a signal state, satisfying a wait and recording a status leave the wait lists, the
  timers and the queues as they are.
\<close>

definition same_links :: "KSTATE \<Rightarrow> KSTATE \<Rightarrow> bool" where
  "same_links ks ks' =
     ((\<forall>x. wl ks' x = wl ks x \<and> ty ks' x = ty ks x \<and>
         ob_Inserted (ks_Objects ks' x) = ob_Inserted (ks_Objects ks x) \<and>
         ob_DueTime (ks_Objects ks' x) = ob_DueTime (ks_Objects ks x) \<and>
         ob_Hand (ks_Objects ks' x) = ob_Hand (ks_Objects ks x) \<and>
         ob_Period (ks_Objects ks' x) = ob_Period (ks_Objects ks x) \<and>
         ob_Limit (ks_Objects ks' x) = ob_Limit (ks_Objects ks x) \<and>
         ob_ThreadList (ks_Objects ks' x) = ob_ThreadList (ks_Objects ks x) \<and>
         ob_CurrentCount (ks_Objects ks' x) = ob_CurrentCount (ks_Objects ks x) \<and>
         ob_RunDown (ks_Objects ks' x) = ob_RunDown (ks_Objects ks x)) \<and>
      (\<forall>t. bl ks' t = bl ks t \<and> queue ks' t = queue ks t \<and> th_State (ks_Threads ks' t) = th_State (ks_Threads ks t)) \<and>
      ks_TimerTable ks' = ks_TimerTable ks \<and> ks_TimerTime ks' = ks_TimerTime ks \<and>
      ks_KeMaximumIncrement ks' = ks_KeMaximumIncrement ks)"

lemma same_links_refl [simp]: "same_links ks ks"
  by (simp add: same_links_def)

lemma same_links_trans: "same_links ks ks' \<Longrightarrow> same_links ks' ks'' \<Longrightarrow> same_links ks ks''"
  by (simp add: same_links_def)

lemma same_links_upd_thread:
  assumes "th_WaitBlockList (f (ks_Threads ks t)) = bl ks t" "th_Queue (f (ks_Threads ks t)) = queue ks t"
    "th_State (f (ks_Threads ks t)) = th_State (ks_Threads ks t)"
  shows "same_links ks (upd_thread t f ks)"
  by (simp add: same_links_def assms)

lemma same_links_set_signal [simp]: "same_links ks (set_signal x s ks)"
  by (simp add: same_links_def)

lemma same_links_inv:
  assumes "same_links ks ks'"
  shows "links W ks' = links W ks" "queue_ok W ks' = queue_ok W ks" "timer_ok E ks' = timer_ok E ks"
    "waiting ks' = waiting ks" "wl ks' y = wl ks y" "ty ks' y = ty ks y" "bl ks' t = bl ks t" "wl_ok W ks' x = wl_ok W ks x"
proof -
  show "links W ks' = links W ks"
    using assms by (intro links_cong) (simp_all add: same_links_def)
  show "queue_ok W ks' = queue_ok W ks"
    using assms by (intro queue_ok_cong) (simp_all add: same_links_def)
  show "timer_ok E ks' = timer_ok E ks"
    using assms by (intro timer_ok_cong) (simp_all add: same_links_def)
  show "waiting ks' = waiting ks" "wl ks' y = wl ks y" "ty ks' y = ty ks y" "bl ks' t = bl ks t" "wl_ok W ks' x = wl_ok W ks x"
    using assms by (simp_all add: same_links_def waiting_def wl_ok_def fun_eq_iff)
qed

subsection \<open>Satisfying a wait\<close>

lemma KOBJECTS_value_mask:
  "(KOBJECTS_value k AND 7 = 1) = (k = EventSynchronizationObject \<or> k = TimerSynchronizationObject)"
  by (cases k) simp_all

lemma KiSatisfyMutantWait_objects:
  "ks_Objects (KiSatisfyMutantWait x t ks) =
     (let ob = ks_Objects ks x; s = s32 (ob_SignalState ob - 1)
      in (ks_Objects ks)(x := ob\<lparr>ob_SignalState := s, ob_OwnerThread := (if s = 0 then Some t else ob_OwnerThread ob),
                                ob_Abandoned := (s \<noteq> 0 \<and> ob_Abandoned ob)\<rparr>))"
  by (simp add: KiSatisfyMutantWait_def Let_def fun_eq_iff)

lemma KiSatisfyMutantWait_threads:
  "ks_Threads (KiSatisfyMutantWait x t ks) =
     (let ob = ks_Objects ks x; th = ks_Threads ks t
      in if s32 (ob_SignalState ob - 1) = 0
         then (ks_Threads ks)(t := th\<lparr>th_KernelApcDisable := s16 (th_KernelApcDisable th - (if ob_ApcDisable ob then 1 else 0)),
                th_WaitStatus := (if ob_Abandoned ob then STATUS_ABANDONED else th_WaitStatus th),
                th_MutantList := th_MutantList th @ [x]\<rparr>)
         else ks_Threads ks)"
  by (simp add: KiSatisfyMutantWait_def Let_def fun_eq_iff)

lemma KiSatisfyMutantWait_same_links: "same_links ks (KiSatisfyMutantWait x t ks)"
  by (simp add: same_links_def KiSatisfyMutantWait_objects KiSatisfyMutantWait_threads Let_def)
    (simp add: KiSatisfyMutantWait_def Let_def)

lemma KiSatisfyNonMutantWait_same_links: "same_links ks (KiSatisfyNonMutantWait x ks)"
  by (simp add: KiSatisfyNonMutantWait_def Let_def)

lemma KiSatisfyObjectWait_same_links: "same_links ks (KiSatisfyObjectWait x t ks)"
  by (simp add: KiSatisfyObjectWait_def KiSatisfyMutantWait_same_links KiSatisfyNonMutantWait_same_links)

section \<open>Loops that wake the waiters of an object\<close>

text \<open>
  The three loops over the wait list of an object have the same shape. While the loop
  condition \<open>go\<close> holds, the thread of the first block is unwaited, after a preparation that
  leaves the links alone; after some blocks the loop is left.
\<close>

locale waker =
  fixes loop :: "oid \<Rightarrow> int \<Rightarrow> KSTATE \<Rightarrow> KSTATE option"
    and go :: "oid \<Rightarrow> KSTATE \<Rightarrow> bool"
    and again :: "KWAIT_BLOCK \<Rightarrow> bool"
    and prepare :: "oid \<Rightarrow> KWAIT_BLOCK \<Rightarrow> KSTATE \<Rightarrow> KSTATE"
    and status :: "KWAIT_BLOCK \<Rightarrow> int"
  assumes loop_eq: "loop x i ks =
      (case wl ks x of [] \<Rightarrow> Some ks
       | b # bs \<Rightarrow>
           if go x ks then
             let ks' = KiUnwaitThread (wb_Thread b) (status b) i (prepare x b ks)
             in if again b then loop x i ks' else Some ks'
           else Some ks)"
    and prepare_same_links: "same_links ks (prepare x b ks)"
begin

definition wake :: "oid \<Rightarrow> int \<Rightarrow> KWAIT_BLOCK \<Rightarrow> KSTATE \<Rightarrow> KSTATE" where
  "wake x i b ks = KiUnwaitThread (wb_Thread b) (status b) i (prepare x b ks)"

lemma wake_inv:
  assumes "links W ks" "wl_ok W ks x" "b \<in> set (wl ks x)"
  shows "links (W - {wb_Thread b}) (wake x i b ks)" "wl_ok (W - {wb_Thread b}) (wake x i b ks) x"
    "queue_ok W ks \<Longrightarrow> queue_ok (W - {wb_Thread b}) (wake x i b ks)"
    "waiting (wake x i b ks) = waiting ks - {wb_Thread b}"
    "length (wl (wake x i b ks) x) < length (wl ks x)"
proof -
  note same = same_links_inv[OF prepare_same_links[of ks x b]]
  note b = wl_okD[OF assms(2,3)]
  have links: "links W (prepare x b ks)"
    using assms(1) by (simp add: same)
  show "links (W - {wb_Thread b}) (wake x i b ks)"
    unfolding wake_def using links b(1) by (rule KiUnwaitThread_links)
  show "wl_ok (W - {wb_Thread b}) (wake x i b ks) x"
    unfolding wake_def using links assms(2) by (intro KiUnwaitThread_wl_ok) (simp_all add: same)
  show "queue_ok (W - {wb_Thread b}) (wake x i b ks)" if "queue_ok W ks"
    unfolding wake_def using that b(1) by (intro KiUnwaitThread_queue_ok) (simp_all add: same)
  show "waiting (wake x i b ks) = waiting ks - {wb_Thread b}"
    by (simp add: wake_def same)
  have "length (filter (\<lambda>b'. \<not> (b' \<in> set (bl ks (wb_Thread b)) \<and> wb_Object b' = x)) (wl ks x)) < length (wl ks x)"
    using b assms(3) by (intro length_filter_less[of b]) auto
  then show "length (wl (wake x i b ks) x) < length (wl ks x)"
    unfolding wake_def KiUnwaitThread_wl[OF links] by (simp add: same)
qed

text \<open>
  The loop ends, in a state with the links in order, and it keeps every property that each
  waking keeps.
\<close>

lemma loop_total:
  assumes "links W ks" "wl_ok W ks x" "I W ks"
    and step: "\<And>V ks b bs. links V ks \<Longrightarrow> wl_ok V ks x \<Longrightarrow> I V ks \<Longrightarrow> wl ks x = b # bs \<Longrightarrow> go x ks \<Longrightarrow>
       I (V - {wb_Thread b}) (wake x i b ks)"
  shows "\<exists>ks' V. loop x i ks = Some ks' \<and> V \<subseteq> W \<and> links V ks' \<and> I V ks' \<and> waiting ks' = waiting ks - (W - V)"
  using assms(1-3)
proof (induction "length (wl ks x)" arbitrary: ks W rule: less_induct)
  case less
  show ?case
  proof (cases "wl ks x")
    case Nil
    then show ?thesis
      using less.prems by (subst loop_eq) auto
  next
    case (Cons b bs)
    show ?thesis
    proof (cases "go x ks")
      case False
      then show ?thesis
        using less.prems Cons by (subst loop_eq) auto
    next
      case True
      let ?t = "wb_Thread b" and ?ks = "wake x i b ks"
      have b: "b \<in> set (wl ks x)"
        by (simp add: Cons)
      note inv = wake_inv[OF less.prems(1,2) b, of i]
      have t: "?t \<in> W"
        using wl_okD[OF less.prems(2) b] by simp
      have I: "I (W - {?t}) ?ks"
        using step less.prems Cons True by blast
      have eq: "loop x i ks = (if again b then loop x i ?ks else Some ?ks)"
        using Cons True by (subst loop_eq) (simp add: wake_def Let_def)
      show ?thesis
      proof (cases "again b")
        case True
        obtain ks' V where "loop x i ?ks = Some ks'" "V \<subseteq> W - {?t}" "links V ks'" "I V ks'"
          "waiting ks' = waiting ?ks - (W - {?t} - V)"
          using less.hyps[OF inv(5,1,2) I] by blast
        then show ?thesis
          using True inv(4) t by (intro exI[of _ ks'] exI[of _ V]) (auto simp: eq)
      next
        case False
        then show ?thesis
          using inv(1,4) I t by (intro exI[of _ ?ks] exI[of _ "W - {?t}"]) (auto simp: eq)
      qed
    qed
  qed
qed

text \<open>A property of the final state that holds when the loop is left.\<close>

lemma loop_exit:
  assumes "loop x i ks = Some ks'" "links W ks" "wl_ok W ks x"
    and nil: "\<And>V ks. wl ks x = [] \<Longrightarrow> R ks" and stop: "\<And>ks. \<not> go x ks \<Longrightarrow> R ks"
    and last: "\<And>b ks. go x ks \<Longrightarrow> \<not> again b \<Longrightarrow> R (wake x i b ks)"
  shows "R ks'"
  using assms(1-3)
proof (induction "length (wl ks x)" arbitrary: ks W rule: less_induct)
  case less
  show ?case
  proof (cases "wl ks x")
    case Nil
    then show ?thesis
      using less.prems(1) nil by (subst (asm) loop_eq) simp
  next
    case (Cons b bs)
    then have b: "b \<in> set (wl ks x)"
      by simp
    note inv = wake_inv[OF less.prems(2,3) b, of i]
    show ?thesis
      using less.prems(1) stop last less.hyps[OF inv(5) _ inv(1,2)]
      by (subst (asm) loop_eq) (auto simp: Cons Let_def wake_def[symmetric] split: if_splits)
  qed
qed

end

end
