(* ===== verification/Ke_Invariant.thy ===== *)
theory Ke_Invariant
  imports Ke_Links Ke_Objects
begin

text \<open>
  The invariant of the dispatcher database and the proof that the loops that wake waiters keep
  it.
\<close>

section \<open>The state of the objects\<close>

text \<open>
  A mutant is free exactly if its signal state is one, and it is in the list of the thread that
  owns it; the count of a semaphore lies between zero and its limit; events and timers are
  signalled or not. No timer has a negative period, and the timer of a thread is a
  notification timer without a period.
\<close>

definition mutant_ok :: "KSTATE \<Rightarrow> bool" where
  "mutant_ok ks =
     ((\<forall>x. ty ks x = MutantObject \<longrightarrow> sig ks x \<le> 1 \<and> MINLONG \<le> sig ks x \<and> (owner ks x = None \<longleftrightarrow> sig ks x = 1)) \<and>
      (\<forall>x t. x \<in> set (mutants ks t) \<longleftrightarrow> ty ks x = MutantObject \<and> owner ks x = Some t) \<and>
      (\<forall>t. distinct (mutants ks t)))"

definition two_state :: "KOBJECTS \<Rightarrow> bool" where
  "two_state k = (k \<in> {EventNotificationObject, EventSynchronizationObject, TimerNotificationObject, TimerSynchronizationObject})"

lemma is_timer_two_state: "is_timer k \<Longrightarrow> two_state k"
  by (auto simp: is_timer_def two_state_def)

definition signal_ok :: "KSTATE \<Rightarrow> bool" where
  "signal_ok ks =
     (\<forall>x. (ty ks x = SemaphoreObject \<longrightarrow>
             0 \<le> sig ks x \<and> sig ks x \<le> ob_Limit (ks_Objects ks x) \<and> ob_Limit (ks_Objects ks x) < 2147483648) \<and>
          (two_state (ty ks x) \<longrightarrow> sig ks x \<in> {0, 1}))"

definition timers_typed :: "KSTATE \<Rightarrow> bool" where
  "timers_typed ks =
     ((\<forall>t. ty ks (TimerOf t) = TimerNotificationObject \<and> ob_Period (ks_Objects ks (TimerOf t)) = 0) \<and>
      (\<forall>x. 0 \<le> ob_Period (ks_Objects ks x) \<and> ob_Period (ks_Objects ks x) < 2147483648))"

definition objects_ok :: "KSTATE \<Rightarrow> bool" where
  "objects_ok ks = (mutant_ok ks \<and> signal_ok ks \<and> timers_typed ks)"

lemma objects_ok_cong:
  assumes "\<And>x. ty ks' x = ty ks x" "\<And>x. sig ks' x = sig ks x" "\<And>x. owner ks' x = owner ks x"
    "\<And>x. ob_Limit (ks_Objects ks' x) = ob_Limit (ks_Objects ks x)"
    "\<And>x. ob_Period (ks_Objects ks' x) = ob_Period (ks_Objects ks x)"
    "\<And>t. mutants ks' t = mutants ks t"
  shows "objects_ok ks' = objects_ok ks"
  by (simp add: objects_ok_def mutant_ok_def signal_ok_def timers_typed_def assms)

lemma mutant_okD:
  assumes "mutant_ok ks"
  shows "ty ks x = MutantObject \<Longrightarrow> sig ks x \<le> 1" "ty ks x = MutantObject \<Longrightarrow> MINLONG \<le> sig ks x"
    "ty ks x = MutantObject \<Longrightarrow> owner ks x = None \<longleftrightarrow> sig ks x = 1"
    "x \<in> set (mutants ks t) \<longleftrightarrow> ty ks x = MutantObject \<and> owner ks x = Some t" "distinct (mutants ks t)"
  using assms unfolding mutant_ok_def by blast+

lemma signal_okD:
  assumes "signal_ok ks"
  shows "ty ks x = SemaphoreObject \<Longrightarrow> 0 \<le> sig ks x"
    "ty ks x = SemaphoreObject \<Longrightarrow> sig ks x \<le> ob_Limit (ks_Objects ks x)"
    "ty ks x = SemaphoreObject \<Longrightarrow> ob_Limit (ks_Objects ks x) < 2147483648"
    "two_state (ty ks x) \<Longrightarrow> sig ks x = 0 \<or> sig ks x = 1"
  using assms unfolding signal_ok_def by blast+

text \<open>A change of the signal state of an object that is not a mutant.\<close>

lemma objects_ok_set_signal:
  assumes "objects_ok ks" "ty ks x \<noteq> MutantObject" "two_state (ty ks x) \<Longrightarrow> s \<in> {0, 1}"
    "ty ks x = SemaphoreObject \<Longrightarrow> 0 \<le> s \<and> s \<le> ob_Limit (ks_Objects ks x)"
  shows "objects_ok (set_signal x s ks)"
  using assms by (auto simp: objects_ok_def mutant_ok_def signal_ok_def timers_typed_def)

lemma s32_id: "-2147483648 \<le> x \<Longrightarrow> x < 2147483648 \<Longrightarrow> s32 x = x"
  by (simp add: s32_def)

lemma KiSatisfyNonMutantWait_objects_ok:
  assumes "objects_ok ks" "ty ks x \<noteq> MutantObject" "sig ks x > 0"
  shows "objects_ok (KiSatisfyNonMutantWait x ks)"
proof (cases "ty ks x = SemaphoreObject")
  case True
  have "signal_ok ks"
    using assms by (simp add: objects_ok_def)
  note sem = signal_okD(1-3)[OF this True]
  then have "s32 (sig ks x - 1) = sig ks x - 1"
    by (intro s32_id) simp_all
  then have "KiSatisfyNonMutantWait x ks = set_signal x (sig ks x - 1) ks"
    using True by (simp add: KiSatisfyNonMutantWait_def KOBJECTS_value_mask)
  then show ?thesis
    using assms sem True by (auto intro!: objects_ok_set_signal simp: two_state_def)
next
  case False
  then show ?thesis
    using assms by (auto simp: KiSatisfyNonMutantWait_def KOBJECTS_value_mask Let_def intro!: objects_ok_set_signal)
qed

lemma KiSatisfyMutantWait_objects_ok:
  assumes ok: "objects_ok ks" and x: "ty ks x = MutantObject"
    and can: "sig ks x > 0 \<or> (owner ks x = Some t \<and> sig ks x \<noteq> MINLONG)"
  shows "objects_ok (KiSatisfyMutantWait x t ks)"
proof -
  have m: "mutant_ok ks"
    using ok by (simp add: objects_ok_def)
  note mD = mutant_okD[OF m]
  have s: "s32 (sig ks x - 1) = sig ks x - 1"
    using mD(1-3)[OF x] can by (intro s32_id) auto
  have own: "owner ks x = None" if "sig ks x - 1 = 0"
    using that mD(3)[OF x] by simp
  have own': "owner ks x \<noteq> None" if "sig ks x - 1 \<noteq> 0"
    using that mD(3)[OF x] by simp
  have "mutant_ok (KiSatisfyMutantWait x t ks)"
    unfolding mutant_ok_def
  proof (intro conjI allI impI)
    fix y u
    assume "ty (KiSatisfyMutantWait x t ks) y = MutantObject"
    then have y: "ty ks y = MutantObject"
      by (simp add: KiSatisfyMutantWait_objects Let_def split: if_splits)
    show "sig (KiSatisfyMutantWait x t ks) y \<le> 1" "MINLONG \<le> sig (KiSatisfyMutantWait x t ks) y"
      "(owner (KiSatisfyMutantWait x t ks) y = None) = (sig (KiSatisfyMutantWait x t ks) y = 1)"
      using mD(1-3)[OF y] mD(1,3)[OF x] can own own'
      by (auto simp: KiSatisfyMutantWait_objects Let_def s)
  next
    fix y u
    show "(y \<in> set (mutants (KiSatisfyMutantWait x t ks) u)) =
      (ty (KiSatisfyMutantWait x t ks) y = MutantObject \<and> owner (KiSatisfyMutantWait x t ks) y = Some u)"
      using mD(4)[of y u] x own by (auto simp: KiSatisfyMutantWait_objects KiSatisfyMutantWait_threads Let_def s)
    show "distinct (mutants (KiSatisfyMutantWait x t ks) u)"
      using mD(4)[of x u] mD(5)[of u] own by (auto simp: KiSatisfyMutantWait_threads Let_def s)
  qed
  moreover have "signal_ok (KiSatisfyMutantWait x t ks)" "timers_typed (KiSatisfyMutantWait x t ks)"
    using ok x by (auto simp: objects_ok_def signal_ok_def timers_typed_def KiSatisfyMutantWait_objects Let_def two_state_def)
  ultimately show ?thesis
    by (simp add: objects_ok_def)
qed

lemma KiUnwaitThread_objects_ok [simp]: "objects_ok (KiUnwaitThread t s i ks) = objects_ok ks"
  by (rule objects_ok_cong) simp_all

section \<open>The loops keep the invariant\<close>

definition core :: "tid set \<Rightarrow> KSTATE \<Rightarrow> bool" where
  "core W ks = (links W ks \<and> queue_ok W ks \<and> timer_ok {} ks \<and> objects_ok ks)"

text \<open>
  What waking the waiters of an object leaves alone. A thread that is still waiting afterwards
  has not become the owner of the object.
\<close>

definition woke :: "oid \<Rightarrow> KSTATE \<Rightarrow> tid set \<Rightarrow> KSTATE \<Rightarrow> bool" where
  "woke x ks V ks' =
     ((\<forall>y. ty ks' y = ty ks y) \<and> (\<forall>t. bl ks' t = bl ks t) \<and>
      (\<forall>y. y \<noteq> x \<longrightarrow> sig ks' y = sig ks y \<and> owner ks' y = owner ks y) \<and>
      (\<forall>t \<in> V. owner ks' x = Some t \<longrightarrow> owner ks x = Some t) \<and>
      (\<forall>y. ob_Period (ks_Objects ks' y) = ob_Period (ks_Objects ks y) \<and> ob_DueTime (ks_Objects ks' y) = ob_DueTime (ks_Objects ks y)) \<and>
      (\<forall>y. ob_Inserted (ks_Objects ks' y) \<longrightarrow> ob_Inserted (ks_Objects ks y)) \<and>
      ks_KeMaximumIncrement ks' = ks_KeMaximumIncrement ks)"

lemma woke_refl [simp]: "woke x ks V ks"
  by (simp add: woke_def)

lemma woke_trans: "woke x ks W ks' \<Longrightarrow> woke x ks' V ks'' \<Longrightarrow> V \<subseteq> W \<Longrightarrow> woke x ks V ks''"
  by (auto simp: woke_def)

text \<open>
  A loop for the objects of some kinds, whose preparation keeps the state of the objects in
  order, touches no other object and makes no one but the thread of the block an owner.
\<close>

locale object_waker = waker +
  fixes kind :: "KOBJECTS \<Rightarrow> bool"
  assumes prepare_objects: "objects_ok ks \<Longrightarrow> kind (ty ks x) \<Longrightarrow> go x ks \<Longrightarrow> objects_ok (prepare x b ks)"
    and prepare_other: "y \<noteq> x \<Longrightarrow> sig (prepare x b ks) y = sig ks y \<and> owner (prepare x b ks) y = owner ks y"
    and prepare_owner: "owner (prepare x b ks) x = owner ks x \<or> owner (prepare x b ks) x = Some (wb_Thread b)"
begin

lemma wake_core:
  assumes "core W ks" "wl_ok W ks x" "b \<in> set (wl ks x)" "kind (ty ks x)" "go x ks"
  shows "core (W - {wb_Thread b}) (wake x i b ks)"
proof -
  have ok: "links W ks" "queue_ok W ks" "timer_ok {} ks" "objects_ok ks"
    using assms(1) by (simp_all add: core_def)
  note same = same_links_inv[OF prepare_same_links[of ks x b]]
  have "timer_ok {} (wake x i b ks)"
    unfolding wake_def using ok by (intro KiUnwaitThread_timer_ok) (simp_all add: same)
  moreover have "objects_ok (wake x i b ks)"
    unfolding wake_def using prepare_objects[OF ok(4) assms(4,5)] by simp
  ultimately show ?thesis
    using wake_inv[OF ok(1) assms(2,3)] ok(2) by (simp add: core_def)
qed

lemma wake_woke: "woke x ks (W - {wb_Thread b}) (wake x i b ks)"
  using prepare_same_links[of ks x b] prepare_other[of _ x b ks] prepare_owner[of x b ks]
  by (auto simp: woke_def wake_def same_links_def)

lemma loop_core:
  assumes "core W ks" "wl_ok W ks x" "kind (ty ks x)"
  shows "\<exists>ks' V. loop x i ks = Some ks' \<and> V \<subseteq> W \<and> core V ks' \<and> woke x ks V ks' \<and> waiting ks' = waiting ks - (W - V)"
proof -
  have "\<exists>ks' V. loop x i ks = Some ks' \<and> V \<subseteq> W \<and> links V ks' \<and> (V \<subseteq> W \<and> core V ks' \<and> woke x ks V ks') \<and>
    waiting ks' = waiting ks - (W - V)"
  proof (rule loop_total)
    show "links W ks" "wl_ok W ks x" "W \<subseteq> W \<and> core W ks \<and> woke x ks W ks"
      using assms by (simp_all add: core_def)
    fix V ks1 b bs
    assume *: "links V ks1" "wl_ok V ks1 x" "V \<subseteq> W \<and> core V ks1 \<and> woke x ks V ks1" "wl ks1 x = b # bs" "go x ks1"
    then have b: "b \<in> set (wl ks1 x)" "kind (ty ks1 x)"
      using assms(3) by (simp_all add: woke_def)
    then have "core (V - {wb_Thread b}) (wake x i b ks1)"
      using * wake_core by blast
    moreover have "woke x ks (V - {wb_Thread b}) (wake x i b ks1)"
      using * wake_woke by (blast intro: woke_trans)
    ultimately show "V - {wb_Thread b} \<subseteq> W \<and> core (V - {wb_Thread b}) (wake x i b ks1) \<and>
      woke x ks (V - {wb_Thread b}) (wake x i b ks1)"
      using *(3) by blast
  qed
  then show ?thesis
    by blast
qed

end

interpretation wait_test: object_waker KiWaitTest "\<lambda>x ks. sig ks x > 0" "\<lambda>b. True"
  "\<lambda>x b ks. if wb_WaitType b = WaitAny then KiSatisfyObjectWait x (wb_Thread b) ks else ks"
  "\<lambda>b. if wb_WaitType b = WaitAny then wb_WaitKey b else STATUS_KERNEL_APC" "\<lambda>k. True"
proof (unfold_locales, goal_cases)
  case (1 x i ks)
  show ?case
    by (subst KiWaitTest.simps) (simp add: wait_test_step_def split: list.split)
next
  case (2 ks x b)
  then show ?case
    by (simp add: KiSatisfyObjectWait_same_links)
next
  case (3 ks x b)
  then show ?case
    by (auto simp: KiSatisfyObjectWait_def intro: KiSatisfyMutantWait_objects_ok KiSatisfyNonMutantWait_objects_ok)
next
  case (4 y x b ks)
  then show ?case
    by (simp add: KiSatisfyObjectWait_def KiSatisfyMutantWait_objects KiSatisfyNonMutantWait_def Let_def)
next
  case (5 x b ks)
  then show ?case
    by (simp add: KiSatisfyObjectWait_def KiSatisfyMutantWait_objects KiSatisfyNonMutantWait_def Let_def)
qed

interpretation unwait_all: object_waker KxUnwaitThread "\<lambda>x ks. True" "\<lambda>b. True" "\<lambda>x b ks. ks"
  "\<lambda>b. if wb_WaitType b = WaitAny then wb_WaitKey b else STATUS_KERNEL_APC" "\<lambda>k. True"
  by unfold_locales (subst KxUnwaitThread.simps, simp_all split: list.split)

interpretation unwait_event: object_waker KxUnwaitThreadForEvent "\<lambda>x ks. True" "\<lambda>b. wb_WaitType b \<noteq> WaitAny"
  "\<lambda>x b ks. if wb_WaitType b = WaitAny then set_signal x 0 ks else ks"
  "\<lambda>b. if wb_WaitType b = WaitAny then wb_WaitKey b else STATUS_KERNEL_APC" two_state
proof (unfold_locales, goal_cases)
  case (1 x i ks)
  show ?case
    by (subst KxUnwaitThreadForEvent.simps) (simp split: list.split)
next
  case (3 ks x b)
  then show ?case
    by (auto intro!: objects_ok_set_signal simp: two_state_def)
qed simp_all

section \<open>No wake-up is lost\<close>

text \<open>
  What a thread can take from an object, and when its wait is satisfied: one object of a wait
  for any, every object of a wait for all. The waits for a queue are those of \<open>KeRemoveQueue\<close>:
  its entries are handed out by \<open>KiInsertQueue\<close> and \<open>KiActivateWaiterQueue\<close>, not by its signal
  state, and the invariant says nothing about them.
\<close>

definition can_take :: "KSTATE \<Rightarrow> tid \<Rightarrow> oid \<Rightarrow> bool" where
  "can_take ks t x = (sig ks x > 0 \<or> (ty ks x = MutantObject \<and> owner ks x = Some t))"

definition offers :: "KSTATE \<Rightarrow> tid \<Rightarrow> oid \<Rightarrow> bool" where
  "offers ks t x = (ty ks x \<noteq> QueueObject \<and> can_take ks t x)"

definition object_blocks :: "KSTATE \<Rightarrow> tid \<Rightarrow> KWAIT_BLOCK list" where
  "object_blocks ks t = [b \<leftarrow> bl ks t. wb_Slot b \<noteq> TimerSlot]"

definition wait_satisfied :: "KSTATE \<Rightarrow> tid \<Rightarrow> bool" where
  "wait_satisfied ks t =
     ((\<exists>b \<in> set (object_blocks ks t). wb_WaitType b = WaitAny \<and> offers ks t (wb_Object b)) \<or>
      (object_blocks ks t \<noteq> [] \<and>
       (\<forall>b \<in> set (object_blocks ks t). wb_WaitType b = WaitAll \<and> offers ks t (wb_Object b))))"

definition blocked_ok :: "tid set \<Rightarrow> KSTATE \<Rightarrow> bool" where
  "blocked_ok W ks = (\<forall>t \<in> W. \<not> wait_satisfied ks t)"

lemma wait_satisfied_mono:
  assumes "wait_satisfied ks' t" "bl ks' t = bl ks t"
    "\<And>b. b \<in> set (bl ks t) \<Longrightarrow> wb_Slot b \<noteq> TimerSlot \<Longrightarrow> offers ks' t (wb_Object b) \<Longrightarrow> offers ks t (wb_Object b)"
  shows "wait_satisfied ks t"
proof -
  have eq: "object_blocks ks' t = object_blocks ks t"
    by (simp add: object_blocks_def assms(2))
  have "b \<in> set (object_blocks ks t) \<Longrightarrow> offers ks' t (wb_Object b) \<Longrightarrow> offers ks t (wb_Object b)" for b
    using assms(3) by (simp add: object_blocks_def)
  then show ?thesis
    using assms(1) unfolding wait_satisfied_def eq by blast
qed

lemma blocked_ok_mono:
  assumes "blocked_ok W ks" "V \<subseteq> W" "\<And>t. t \<in> V \<Longrightarrow> bl ks' t = bl ks t"
    "\<And>t b. t \<in> V \<Longrightarrow> b \<in> set (bl ks t) \<Longrightarrow> wb_Slot b \<noteq> TimerSlot \<Longrightarrow> offers ks' t (wb_Object b) \<Longrightarrow>
       offers ks t (wb_Object b)"
  shows "blocked_ok V ks'"
  unfolding blocked_ok_def
proof (intro ballI notI)
  fix t assume t: "t \<in> V" "wait_satisfied ks' t"
  then have "wait_satisfied ks t"
    using wait_satisfied_mono[OF t(2)] assms(3,4) by simp
  then show False
    using assms(1,2) t(1) by (auto simp: blocked_ok_def)
qed

lemma blocked_ok_cong:
  assumes "\<And>t. bl ks' t = bl ks t" "\<And>x. ty ks' x = ty ks x" "\<And>x. sig ks' x = sig ks x" "\<And>x. owner ks' x = owner ks x"
  shows "blocked_ok W ks' = blocked_ok W ks"
  by (simp add: blocked_ok_def wait_satisfied_def object_blocks_def offers_def can_take_def assms)

text \<open>
  The wake-up of the waiters of an object is complete when no waiter is left, the object is
  not signalled any more, or it was signalled before.
\<close>

lemma blocked_ok_woke:
  assumes "blocked_ok W ks" "V \<subseteq> W" "woke x ks V ks'" "links V ks'"
    "wl ks' x = [] \<or> sig ks' x \<le> 0 \<or> sig ks x > 0"
  shows "blocked_ok V ks'"
proof (rule blocked_ok_mono[OF assms(1,2)])
  fix t assume t: "t \<in> V"
  show bl: "bl ks' t = bl ks t"
    using assms(3) by (simp add: woke_def)
  fix b assume b: "b \<in> set (bl ks t)" and take: "offers ks' t (wb_Object b)"
  have "wl ks' (wb_Object b) \<noteq> []"
    using bl_okD(2)[OF linksD(2)[OF assms(4) t]] b bl by fastforce
  then show "offers ks t (wb_Object b)"
    using take assms(3,5) t by (cases "wb_Object b = x") (auto simp: offers_def can_take_def woke_def)
qed

definition inv_on :: "tid set \<Rightarrow> KSTATE \<Rightarrow> bool" where
  "inv_on W ks = (core W ks \<and> blocked_ok W ks)"

text \<open>The invariant of the dispatcher database.\<close>

definition ke_inv :: "KSTATE \<Rightarrow> bool" where
  "ke_inv ks = inv_on (waiting ks) ks"

lemma ke_invI: "inv_on W ks \<Longrightarrow> waiting ks = W \<Longrightarrow> ke_inv ks"
  by (simp add: ke_inv_def)

text \<open>Changes of a thread that no invariant looks at.\<close>

lemma inv_upd_thread:
  assumes "th_WaitBlockList (f (ks_Threads ks t)) = bl ks t" "th_Queue (f (ks_Threads ks t)) = queue ks t"
    "th_State (f (ks_Threads ks t)) = th_State (ks_Threads ks t)" "th_MutantList (f (ks_Threads ks t)) = mutants ks t"
  shows "inv_on W (upd_thread t f ks) = inv_on W ks" "waiting (upd_thread t f ks) = waiting ks"
    "core W (upd_thread t f ks) = core W ks"
proof -
  note same = same_links_inv[OF same_links_upd_thread[of f ks t, OF assms(1-3)]]
  have "objects_ok (upd_thread t f ks) = objects_ok ks"
    by (rule objects_ok_cong) (simp_all add: assms)
  moreover have "blocked_ok W (upd_thread t f ks) = blocked_ok W ks"
    by (rule blocked_ok_cong) (simp_all add: assms)
  ultimately show "inv_on W (upd_thread t f ks) = inv_on W ks" "waiting (upd_thread t f ks) = waiting ks"
    "core W (upd_thread t f ks) = core W ks"
    by (simp_all add: inv_on_def core_def same)
qed

lemma ke_inv_upd_thread:
  assumes "th_WaitBlockList (f (ks_Threads ks t)) = bl ks t" "th_Queue (f (ks_Threads ks t)) = queue ks t"
    "th_State (f (ks_Threads ks t)) = th_State (ks_Threads ks t)" "th_MutantList (f (ks_Threads ks t)) = mutants ks t"
  shows "ke_inv (upd_thread t f ks) = ke_inv ks"
  unfolding ke_inv_def inv_upd_thread(1,2)[of f ks t, OF assms] ..

lemma ke_inv_finish [simp]: "ke_inv (finish cur Wait OldIrql ks) = ke_inv ks"
  by (simp add: finish_def ke_inv_upd_thread)

lemma ke_inv_KeLeaveCriticalRegion [simp]: "ke_inv (KeLeaveCriticalRegion cur ks) = ke_inv ks"
  by (simp add: KeLeaveCriticalRegion_def ke_inv_upd_thread)

text \<open>A change of the state of one object, followed by the wake-up of its waiters.\<close>

lemma signal_and_wake:
  assumes inv: "ke_inv ks" and same: "same_links ks ks1" and ok: "objects_ok ks1"
    and woke1: "woke x ks (waiting ks) ks1"
    and loop: "V \<subseteq> waiting ks1" "core V ks'" "woke x ks1 V ks'" "waiting ks' = waiting ks1 - (waiting ks1 - V)"
    and exit: "wl ks' x = [] \<or> sig ks' x \<le> 0 \<or> sig ks x > 0"
  shows "ke_inv ks'"
proof -
  have W: "waiting ks1 = waiting ks"
    using same_links_inv(4)[OF same] .
  have V: "V \<subseteq> waiting ks" and W': "waiting ks' = V"
    using loop(1,4) W by auto
  have "blocked_ok (waiting ks) ks" and links: "links V ks'"
    using inv loop(2) by (simp_all add: ke_inv_def inv_on_def core_def)
  then have "blocked_ok V ks'"
    using blocked_ok_woke[OF _ V woke_trans[OF woke1 loop(3) V] links exit] by simp
  then show ?thesis
    using loop(2) W' by (simp add: ke_inv_def inv_on_def)
qed

lemma same_links_core:
  "core W ks \<Longrightarrow> same_links ks ks1 \<Longrightarrow> objects_ok ks1 \<Longrightarrow> core W ks1"
  by (simp add: core_def same_links_inv)

lemma ke_inv_quiet:
  assumes "ke_inv ks" "same_links ks ks1" "objects_ok ks1" "woke x ks (waiting ks) ks1"
    "wl ks x = [] \<or> sig ks1 x \<le> 0 \<or> sig ks x > 0"
  shows "ke_inv ks1"
  using assms same_links_inv[OF assms(2)]
  by (intro signal_and_wake[OF assms(1-4), of "waiting ks1"]) (auto simp: ke_inv_def inv_on_def intro: same_links_core)

end
