(* ===== verification/Ke_Signal.thy ===== *)
theory Ke_Signal
  imports Ke_Invariant
begin

text \<open>
  The operations that signal an object keep the invariant of the dispatcher database, and they
  return: the loops over the wait lists end.
\<close>

context object_waker
begin

lemma loop_ke:
  assumes "ke_inv ks" "same_links ks ks1" "objects_ok ks1" "woke x ks (waiting ks) ks1"
    "wl_ok (waiting ks) ks x" "kind (ty ks x)"
    "\<And>ks'. loop x i ks1 = Some ks' \<Longrightarrow> wl ks' x = [] \<or> sig ks' x \<le> 0 \<or> sig ks x > 0"
  shows "\<exists>ks'. loop x i ks1 = Some ks' \<and> ke_inv ks' \<and> woke x ks1 (waiting ks') ks' \<and> waiting ks' \<subseteq> waiting ks"
proof -
  note same = same_links_inv[OF assms(2)]
  have "core (waiting ks1) ks1"
    using assms(1) same_links_core[OF _ assms(2,3)] by (simp add: ke_inv_def inv_on_def same)
  moreover have "wl_ok (waiting ks1) ks1 x" "kind (ty ks1 x)"
    using assms(5,6) by (simp_all add: same)
  ultimately obtain ks' V where *: "loop x i ks1 = Some ks'" "V \<subseteq> waiting ks1" "core V ks'" "woke x ks1 V ks'"
      "waiting ks' = waiting ks1 - (waiting ks1 - V)"
    using loop_core by blast
  have "ke_inv ks'"
    by (rule signal_and_wake[OF assms(1-4) *(2-5) assms(7)[OF *(1)]])
  moreover have "waiting ks' = V"
    using *(2,5) by auto
  ultimately show ?thesis
    using *(1,2,4) same(4) by auto
qed

end

lemma KiWaitTest_exit:
  assumes "KiWaitTest x i ks = Some ks'" "links W ks" "wl_ok W ks x"
  shows "wl ks' x = [] \<or> sig ks' x \<le> 0"
  by (rule wait_test.loop_exit[OF assms]) auto

lemma KxUnwaitThread_exit:
  assumes "KxUnwaitThread x i ks = Some ks'" "links W ks" "wl_ok W ks x"
  shows "wl ks' x = []"
  by (rule unwait_all.loop_exit[OF assms]) auto

lemma KxUnwaitThreadForEvent_exit:
  assumes "KxUnwaitThreadForEvent x i ks = Some ks'" "links W ks" "wl_ok W ks x"
  shows "wl ks' x = [] \<or> sig ks' x = 0"
  by (rule unwait_event.loop_exit[OF assms]) (auto simp: unwait_event.wake_def)

lemma ke_inv_links:
  assumes "ke_inv ks"
  shows "links (waiting ks) ks" "queue_ok (waiting ks) ks" "timer_ok {} ks" "objects_ok ks" "blocked_ok (waiting ks) ks"
    "wl_ok (waiting ks) ks (Obj n)"
  using assms linksD(1)[of "waiting ks" ks "Obj n"] by (simp_all add: ke_inv_def inv_on_def core_def)

text \<open>The three loops, started after a change that leaves the links alone.\<close>

lemma KiWaitTest_ke:
  assumes "ke_inv ks" "same_links ks ks1" "objects_ok ks1" "woke x ks (waiting ks) ks1" "wl_ok (waiting ks) ks x"
  shows "\<exists>ks'. KiWaitTest x i ks1 = Some ks' \<and> ke_inv ks' \<and> (wl ks' x = [] \<or> sig ks' x \<le> 0) \<and>
    woke x ks1 (waiting ks') ks' \<and> waiting ks' \<subseteq> waiting ks"
proof -
  note same = same_links_inv[OF assms(2)]
  have exit: "wl ks' x = [] \<or> sig ks' x \<le> 0" if "KiWaitTest x i ks1 = Some ks'" for ks'
    using KiWaitTest_exit[OF that, of "waiting ks"] ke_inv_links(1)[OF assms(1)] assms(5) by (simp add: same)
  show ?thesis
    using wait_test.loop_ke[OF assms] exit by blast
qed

lemma KxUnwaitThread_ke:
  assumes "ke_inv ks" "same_links ks ks1" "objects_ok ks1" "woke x ks (waiting ks) ks1" "wl_ok (waiting ks) ks x"
  shows "\<exists>ks'. KxUnwaitThread x i ks1 = Some ks' \<and> ke_inv ks' \<and> wl ks' x = [] \<and>
    woke x ks1 (waiting ks') ks' \<and> waiting ks' \<subseteq> waiting ks"
proof -
  note same = same_links_inv[OF assms(2)]
  have exit: "wl ks' x = []" if "KxUnwaitThread x i ks1 = Some ks'" for ks'
    using KxUnwaitThread_exit[OF that, of "waiting ks"] ke_inv_links(1)[OF assms(1)] assms(5) by (simp add: same)
  show ?thesis
    using unwait_all.loop_ke[OF assms] exit by blast
qed

lemma KxUnwaitThreadForEvent_ke:
  assumes "ke_inv ks" "same_links ks ks1" "objects_ok ks1" "woke x ks (waiting ks) ks1" "wl_ok (waiting ks) ks x"
    "two_state (ty ks x)"
  shows "\<exists>ks'. KxUnwaitThreadForEvent x i ks1 = Some ks' \<and> ke_inv ks' \<and> (wl ks' x = [] \<or> sig ks' x = 0) \<and>
    woke x ks1 (waiting ks') ks' \<and> waiting ks' \<subseteq> waiting ks"
proof -
  note same = same_links_inv[OF assms(2)]
  have exit: "wl ks' x = [] \<or> sig ks' x = 0" if "KxUnwaitThreadForEvent x i ks1 = Some ks'" for ks'
    using KxUnwaitThreadForEvent_exit[OF that, of "waiting ks"] ke_inv_links(1)[OF assms(1)] assms(5) by (simp add: same)
  have "wl ks' x = [] \<or> sig ks' x \<le> 0 \<or> sig ks x > 0" if "KxUnwaitThreadForEvent x i ks1 = Some ks'" for ks'
    using exit[OF that] by auto
  then show ?thesis
    using unwait_event.loop_ke[OF assms] exit by blast
qed

lemma woke_set_signal [simp]: "woke x ks W (set_signal x s ks)"
  by (simp add: woke_def)

section \<open>Events\<close>

definition is_event :: "KOBJECTS \<Rightarrow> bool" where
  "is_event k = (k = EventNotificationObject \<or> k = EventSynchronizationObject)"

lemma is_event_two_state: "is_event k \<Longrightarrow> two_state k"
  by (auto simp: is_event_def two_state_def)

lemma event_set_signal:
  "objects_ok ks \<Longrightarrow> two_state (ty ks x) \<Longrightarrow> s = 0 \<or> s = 1 \<Longrightarrow> objects_ok (set_signal x s ks)"
  by (rule objects_ok_set_signal) (auto simp: two_state_def)

lemma reset_ke_inv:
  assumes "ke_inv ks" "two_state (ty ks x)"
  shows "ke_inv (set_signal x 0 ks)"
  using assms ke_inv_links(4)[OF assms(1)]
  by (intro ke_inv_quiet[OF assms(1) same_links_set_signal _ woke_set_signal]) (simp_all add: event_set_signal)

lemma KeSetEvent_ok:
  assumes inv: "ke_inv ks" and ev: "is_event (ty ks (Obj n))"
  shows "\<exists>ks'. KeSetEvent cur (Obj n) i Wait irql ks = Some (sig ks (Obj n), ks') \<and> ke_inv ks'"
proof -
  let ?x = "Obj n"
  have ev: "two_state (ty ks ?x)" and ty: "ty ks ?x \<noteq> EventNotificationObject \<Longrightarrow> ty ks ?x = EventSynchronizationObject"
    using ev by (auto simp: is_event_def two_state_def)
  have ok: "objects_ok (set_signal ?x 1 ks)"
    using ke_inv_links(4)[OF inv] ev by (simp add: event_set_signal)
  note args = inv same_links_set_signal ok woke_set_signal ke_inv_links(6)[OF inv]
  have sig: "sig ks ?x = 0 \<or> sig ks ?x = 1"
    using ke_inv_links(4)[OF inv] ev by (auto simp: objects_ok_def dest: signal_okD(4))
  consider (fast) "ty ks ?x = EventNotificationObject \<and> sig ks ?x = 1 \<and> \<not> Wait"
    | (quiet) "\<not> (ty ks ?x = EventNotificationObject \<and> sig ks ?x = 1 \<and> \<not> Wait)" "sig ks ?x \<noteq> 0 \<or> wl ks ?x = []"
    | (all) "sig ks ?x = 0" "wl ks ?x \<noteq> []" "ty ks ?x = EventNotificationObject"
    | (one) "sig ks ?x = 0" "wl ks ?x \<noteq> []" "ty ks ?x \<noteq> EventNotificationObject"
    by blast
  then show ?thesis
  proof cases
    case fast
    then show ?thesis
      using inv by (simp add: KeSetEvent_def)
  next
    case quiet
    have "ke_inv (set_signal ?x 1 ks)"
      using quiet(2) sig by (intro ke_inv_quiet[OF args(1-4)]) auto
    then show ?thesis
      using quiet by (auto simp: KeSetEvent_def)
  next
    case all
    then show ?thesis
      using KxUnwaitThread_ke[OF args, of i] by (auto simp: KeSetEvent_def)
  next
    case one
    then show ?thesis
      using KxUnwaitThreadForEvent_ke[OF args ev, of i] by (auto simp: KeSetEvent_def)
  qed
qed

lemma KePulseEvent_ok:
  assumes inv: "ke_inv ks" and ev: "is_event (ty ks (Obj n))"
  shows "\<exists>ks'. KePulseEvent cur (Obj n) i Wait irql ks = Some (sig ks (Obj n), ks') \<and> ke_inv ks'"
proof -
  let ?x = "Obj n"
  have ev: "two_state (ty ks ?x)"
    using ev by (rule is_event_two_state)
  have ok: "objects_ok (set_signal ?x 1 ks)"
    using ke_inv_links(4)[OF inv] ev by (simp add: event_set_signal)
  show ?thesis
  proof (cases "sig ks ?x = 0 \<and> wl ks ?x \<noteq> []")
    case True
    obtain ks' where "KiWaitTest ?x i (set_signal ?x 1 ks) = Some ks'" "ke_inv ks'" "woke ?x (set_signal ?x 1 ks) (waiting ks') ks'"
      using KiWaitTest_ke[OF inv same_links_set_signal ok woke_set_signal ke_inv_links(6)[OF inv]] by blast
    moreover from this have "two_state (ty ks' ?x)"
      using ev by (simp add: woke_def)
    ultimately show ?thesis
      using True by (simp add: KePulseEvent_def reset_ke_inv)
  next
    case False
    then show ?thesis
      using reset_ke_inv[OF inv ev] by (auto simp: KePulseEvent_def)
  qed
qed

text \<open>
  The boost of the priority of the thread that sets the event is invisible to the invariant;
  the first waiter, if it waits for any object, is woken with the event left as it is.
\<close>

lemma unwait_ke_inv:
  assumes inv: "ke_inv ks" and t: "t \<in> waiting ks"
  shows "ke_inv (KiUnwaitThread t s i ks)"
proof -
  let ?ks = "KiUnwaitThread t s i ks"
  have "core (waiting ks - {t}) ?ks"
    using ke_inv_links(1-4)[OF inv] t
    by (simp add: core_def KiUnwaitThread_links KiUnwaitThread_queue_ok KiUnwaitThread_timer_ok)
  moreover have "blocked_ok (waiting ks - {t}) ?ks"
    by (rule blocked_ok_mono[OF ke_inv_links(5)[OF inv]]) (auto simp: offers_def can_take_def)
  ultimately show ?thesis
    by (simp add: ke_inv_def inv_on_def)
qed

lemma KiComputeNewPriority_keeps:
  "th_WaitBlockList (snd (KiComputeNewPriority th a)) = th_WaitBlockList th"
  "th_Queue (snd (KiComputeNewPriority th a)) = th_Queue th"
  "th_State (snd (KiComputeNewPriority th a)) = th_State th"
  "th_MutantList (snd (KiComputeNewPriority th a)) = th_MutantList th"
  by (simp_all add: KiComputeNewPriority_def Let_def)

lemma ready_boost:
  "KiReadyThread t (upd_thread t (\<lambda>th. th\<lparr>th_AdjustIncrement := a, th_AdjustReason := r\<rparr>) (KiUnlinkThread t s ks)) =
   upd_thread t (\<lambda>th. th\<lparr>th_AdjustIncrement := a, th_AdjustReason := r\<rparr>) (KiUnwaitThread t s i ks)"
  by (cases "ks_Threads ks t") (simp add: KiUnwaitThread_def KiReadyThread_def upd_thread_def Let_def)

lemma KeSetEventBoostPriority_ok:
  assumes inv: "ke_inv ks" and ev: "ty ks (Obj n) = EventSynchronizationObject"
  shows "\<exists>r ks'. KeSetEventBoostPriority cur (Obj n) ks = Some (r, ks') \<and> ke_inv ks'"
proof -
  let ?x = "Obj n"
  have ok: "objects_ok (set_signal ?x 1 ks)"
    using ke_inv_links(4)[OF inv] ev by (simp add: event_set_signal two_state_def)
  note args = inv same_links_set_signal ok woke_set_signal ke_inv_links(6)[OF inv]
  show ?thesis
  proof (cases "wl ks ?x")
    case Nil
    then show ?thesis
      using ke_inv_quiet[OF args(1-4)] by (simp add: KeSetEventBoostPriority_def)
  next
    case (Cons b bs)
    let ?t = "wb_Thread b"
    show ?thesis
    proof (cases "wb_WaitType b = WaitAll")
      case True
      then show ?thesis
        using KxUnwaitThreadForEvent_ke[OF args, of 1] ev Cons by (auto simp: KeSetEventBoostPriority_def two_state_def)
    next
      case False
      have t: "?t \<in> waiting ks"
        using wl_okD(1)[OF ke_inv_links(6)[OF inv], of b n] Cons by simp
      obtain p th where p: "KiComputeNewPriority (ks_Threads ks cur) 0 = (p, th)"
        by fastforce
      define ks1 where "ks1 = upd_thread cur (\<lambda>_. th\<lparr>th_Priority := p\<rparr>) ks"
      note th = KiComputeNewPriority_keeps[of "ks_Threads ks cur" 0, unfolded p snd_conv]
      have "ke_inv ks1" "?t \<in> waiting ks1"
        unfolding ks1_def using th inv t by (simp_all add: ke_inv_upd_thread inv_upd_thread)
      then have "ke_inv (KiUnwaitThread ?t 0 0 ks1)"
        by (rule unwait_ke_inv)
      moreover have "KeSetEventBoostPriority cur ?x ks = Some (Some ?t, upd_thread ?t
          (\<lambda>th. th\<lparr>th_AdjustIncrement := th_Priority (ks_Threads (KiUnlinkThread ?t 0 ks1) cur), th_AdjustReason := AdjustBoost\<rparr>)
          (KiUnwaitThread ?t 0 0 ks1))"
        using Cons False
        by (simp add: KeSetEventBoostPriority_def p Let_def ks1_def[symmetric] ready_boost[where i = 0] del: KiUnlinkThread_threads)
      ultimately show ?thesis
        by (simp add: ke_inv_upd_thread)
    qed
  qed
qed

section \<open>Semaphores\<close>

lemma KeReleaseSemaphore_ok:
  assumes inv: "ke_inv ks" and sem: "ty ks (Obj n) = SemaphoreObject" and adj: "-2147483648 \<le> a" "a < 2147483648"
  shows "\<exists>r. KeReleaseSemaphore cur (Obj n) i a Wait irql ks = Some r \<and> (\<forall>p ks'. r = Inr (p, ks') \<longrightarrow> ke_inv ks')"
proof -
  let ?x = "Obj n" and ?s = "s32 (sig ks (Obj n) + a)"
  have "signal_ok ks"
    using ke_inv_links(4)[OF inv] by (simp add: objects_ok_def)
  note sD = signal_okD(1-3)[OF this sem]
  show ?thesis
  proof (cases "ob_Limit (ks_Objects ks ?x) < ?s \<or> sig ks ?x > ?s")
    case True
    then show ?thesis
      by (auto simp: KeReleaseSemaphore_def Let_def)
  next
    case False
    have ok: "objects_ok (set_signal ?x ?s ks)"
      using ke_inv_links(4)[OF inv] sem sD False by (intro objects_ok_set_signal) (auto simp: two_state_def)
    note args = inv same_links_set_signal ok woke_set_signal ke_inv_links(6)[OF inv]
    show ?thesis
    proof (cases "sig ks ?x = 0 \<and> wl ks ?x \<noteq> []")
      case True
      then show ?thesis
        using KiWaitTest_ke[OF args, of i] False by (auto simp: KeReleaseSemaphore_def Let_def)
    next
      case quiet: False
      have "ke_inv (set_signal ?x ?s ks)"
        using quiet sD(1) by (intro ke_inv_quiet[OF args(1-4)]) auto
      then show ?thesis
        using quiet False by (auto simp: KeReleaseSemaphore_def Let_def)
    qed
  qed
qed

section \<open>Mutants\<close>

text \<open>Giving up a mutant takes it out of the list of its owner and makes it free.\<close>

definition free_mutant :: "oid \<Rightarrow> bool \<Rightarrow> KSTATE \<Rightarrow> KSTATE" where
  "free_mutant x owned ks =
     upd_object x (\<lambda>ob. ob\<lparr>ob_OwnerThread := None\<rparr>) (if owned then RemoveMutantListEntry x ks else ks)"

lemma RemoveMutantListEntry_simps [simp]:
  "ks_Objects (RemoveMutantListEntry x ks) = ks_Objects ks"
  "mutants (RemoveMutantListEntry x ks) t = (if owner ks x = Some t then remove1 x (mutants ks t) else mutants ks t)"
  "same_links ks (RemoveMutantListEntry x ks)"
  by (auto simp: RemoveMutantListEntry_def same_links_upd_thread split: option.split)

lemma same_links_upd_object:
  assumes "ob_WaitList (f (ks_Objects ks x)) = wl ks x" "ob_Type (f (ks_Objects ks x)) = ty ks x"
    "ob_Inserted (f (ks_Objects ks x)) = ob_Inserted (ks_Objects ks x)"
    "ob_DueTime (f (ks_Objects ks x)) = ob_DueTime (ks_Objects ks x)"
    "ob_Hand (f (ks_Objects ks x)) = ob_Hand (ks_Objects ks x)"
    "ob_Period (f (ks_Objects ks x)) = ob_Period (ks_Objects ks x)"
    "ob_Limit (f (ks_Objects ks x)) = ob_Limit (ks_Objects ks x)"
    "ob_ThreadList (f (ks_Objects ks x)) = ob_ThreadList (ks_Objects ks x)"
    "ob_CurrentCount (f (ks_Objects ks x)) = ob_CurrentCount (ks_Objects ks x)"
    "ob_RunDown (f (ks_Objects ks x)) = ob_RunDown (ks_Objects ks x)"
  shows "same_links ks (upd_object x f ks)"
  using assms by (simp add: same_links_def)

lemma objects_ok_mutantI:
  assumes "objects_ok ks" "same_links ks ks'" "ty ks x = MutantObject" "\<And>y. y \<noteq> x \<Longrightarrow> sig ks' y = sig ks y" "mutant_ok ks'"
  shows "objects_ok ks'"
proof -
  have ob: "ty ks' y = ty ks y" "ob_Limit (ks_Objects ks' y) = ob_Limit (ks_Objects ks y)"
    "ob_Period (ks_Objects ks' y) = ob_Period (ks_Objects ks y)" for y
    using assms(2) by (simp_all add: same_links_def)
  have "sig ks' y = sig ks y" if "ty ks y = SemaphoreObject \<or> two_state (ty ks y)" for y
  proof (rule assms(4))
    show "y \<noteq> x"
      using assms(3) that by (auto simp: two_state_def)
  qed
  then show ?thesis
    using assms(1,5) unfolding objects_ok_def signal_ok_def timers_typed_def ob by simp
qed

lemma free_mutant_ok:
  assumes ok: "objects_ok ks" and x: "ty ks x = MutantObject"
    and same: "same_links ks ks1" "\<And>y. y \<noteq> x \<Longrightarrow> sig ks1 y = sig ks y" "\<And>y. owner ks1 y = owner ks y"
      "\<And>t. mutants ks1 t = mutants ks t"
    and sig: "sig ks1 x = 1"
  shows "objects_ok (free_mutant x (sig ks x \<le> 0) ks1)" "same_links ks (free_mutant x (sig ks x \<le> 0) ks1)"
    "woke x ks W (free_mutant x (sig ks x \<le> 0) ks1)"
proof -
  let ?ks = "free_mutant x (sig ks x \<le> 0) ks1"
  have m: "mutant_ok ks"
    using ok by (simp add: objects_ok_def)
  note mD = mutant_okD[OF m]
  show links: "same_links ks ?ks"
  proof -
    have "same_links ks1 (if sig ks x \<le> 0 then RemoveMutantListEntry x ks1 else ks1)"
      by simp
    then show ?thesis
      unfolding free_mutant_def by (intro same_links_trans[OF same(1)]) (erule same_links_trans, simp add: same_links_upd_object)
  qed
  note sl = same_links_inv[OF links]
  show woke: "woke x ks W ?ks"
    using same links by (simp add: woke_def same_links_def) (simp add: free_mutant_def)
  have own: "owner ks x = None" if "\<not> sig ks x \<le> 0"
    using mD(1,3)[OF x] that by auto
  have "mutant_ok ?ks"
    unfolding mutant_ok_def
  proof (intro conjI allI impI)
    fix y assume "ty ?ks y = MutantObject"
    then have y: "ty ks y = MutantObject"
      by (simp add: sl)
    show "sig ?ks y \<le> 1" "MINLONG \<le> sig ?ks y" "(owner ?ks y = None) = (sig ?ks y = 1)"
      using mD(1-3)[OF y] same sig by (auto simp: free_mutant_def)
  next
    fix y t
    show "(y \<in> set (mutants ?ks t)) = (ty ?ks y = MutantObject \<and> owner ?ks y = Some t)"
      using mD(4)[of y t] mD(5)[of t] own same sl(6) by (auto simp: free_mutant_def)
    show "distinct (mutants ?ks t)"
      using mD(5)[of t] same by (auto simp: free_mutant_def)
  qed
  then show "objects_ok ?ks"
    using woke by (intro objects_ok_mutantI[OF ok links x]) (auto simp: woke_def)
qed

text \<open>
  A release by a thread that does not own the mutant is refused; otherwise the operation
  returns with the invariant in order. An owner cannot release more often than it acquired,
  so the count does not overflow.
\<close>

lemma KeReleaseMutant_ok:
  assumes inv: "ke_inv ks" and x: "ty ks (Obj n) = MutantObject"
  shows "\<exists>r. KeReleaseMutant cur (Obj n) i Abandon Wait irql ks = Some r \<and> (\<forall>p ks'. r = Inr (p, ks') \<longrightarrow> ke_inv ks')"
proof -
  let ?x = "Obj n"
  have m: "mutant_ok ks"
    using ke_inv_links(4)[OF inv] by (simp add: objects_ok_def)
  note mD = mutant_okD[OF m]
  show ?thesis
  proof (cases "\<not> Abandon \<and> owner ks ?x \<noteq> Some cur")
    case True
    then show ?thesis
      by (simp add: KeReleaseMutant_def Let_def)
  next
    case False
    define ks1 where "ks1 = (if \<not> Abandon then set_signal ?x (s32 (sig ks ?x + 1)) ks
                  else upd_object ?x (\<lambda>ob. ob\<lparr>ob_SignalState := 1, ob_Abandoned := True\<rparr>) ks)"
    have same: "same_links ks ks1" "\<And>y. y \<noteq> ?x \<Longrightarrow> sig ks1 y = sig ks y" "\<And>y. owner ks1 y = owner ks y"
      "\<And>t. mutants ks1 t = mutants ks t"
      by (simp_all add: ks1_def same_links_upd_object)
    show ?thesis
    proof (cases "sig ks1 ?x = 1")
      case True
      define ks2 where "ks2 = free_mutant ?x (sig ks ?x \<le> 0) ks1"
      note free = free_mutant_ok[OF ke_inv_links(4)[OF inv] x same True, folded ks2_def]
      obtain ks' where ks': "KiWaitTest ?x i ks2 = Some ks'" "ke_inv ks'"
        using KiWaitTest_ke[OF inv free(2,1,3) ke_inv_links(6)[OF inv]] by blast
      have "KiWaitTest ?x i ks2 = Some ks2" if "wl ks2 ?x = []"
        using that by (subst KiWaitTest.simps) simp
      moreover have wl: "wl ks2 ?x = wl ks1 ?x"
        by (simp add: ks2_def free_mutant_def)
      ultimately have "wl ks1 ?x \<noteq> [] \<Longrightarrow> KiWaitTest ?x i ks2 = Some ks'" "wl ks1 ?x = [] \<Longrightarrow> ks2 = ks'"
        using ks'(1) by auto
      then show ?thesis
        using False True ks'(2)
        by (simp add: KeReleaseMutant_def Let_def ks1_def[symmetric] free_mutant_def[symmetric] ks2_def[symmetric])
    next
      case not1: False
      have own: "\<not> Abandon" "owner ks ?x = Some cur"
        using False not1 by (auto simp: ks1_def)
      have le: "sig ks ?x \<le> 0" "MINLONG \<le> sig ks ?x"
        using mD(1-3)[OF x] own(2) by auto
      have s: "s32 (sig ks ?x + 1) = sig ks ?x + 1"
        using le by (intro s32_id) auto
      have ks1: "ks1 = set_signal ?x (sig ks ?x + 1) ks"
        using own s by (simp add: ks1_def)
      have "mutant_ok ks1"
        using m x own(2) le not1 unfolding mutant_ok_def ks1 by auto
      then have "objects_ok ks1"
        using same by (intro objects_ok_mutantI[OF ke_inv_links(4)[OF inv] same(1) x]) auto
      then have "ke_inv ks1"
        using le(1) not1 by (intro ke_inv_quiet[OF inv same(1), of ?x]) (auto simp: ks1)
      then show ?thesis
        using False not1 by (simp add: KeReleaseMutant_def Let_def ks1_def[symmetric])
    qed
  qed
qed

section \<open>Alerts\<close>

lemma KeAlertThread_ok: "ke_inv ks \<Longrightarrow> ke_inv (snd (KeAlertThread t m ks))"
  by (auto simp: KeAlertThread_def Let_def ke_inv_upd_thread waiting_def intro: unwait_ke_inv)

lemma KeTestAlertThread_ok: "ke_inv ks \<Longrightarrow> ke_inv (snd (KeTestAlertThread t m ks))"
  by (simp add: KeTestAlertThread_def Let_def ke_inv_upd_thread)

section \<open>The start of the system\<close>

lemma KiInitSystem_simps [simp]:
  "ks_Objects (KiInitSystem m) (Obj n) = blank_object"
  "ks_Objects (KiInitSystem m) (TimerOf t) = blank_object\<lparr>ob_Type := TimerNotificationObject, ob_Hand := 10\<rparr>"
  "ks_Threads (KiInitSystem m) t = new_thread" "ks_TimerTable (KiInitSystem m) h = []"
  "waiting (KiInitSystem m) = {}"
  by (simp_all add: KiInitSystem_def waiting_def new_thread_def)

lemma KiInitSystem_ok: "ke_inv (KiInitSystem m)"
proof -
  have all: "(\<forall>x. P x) \<longleftrightarrow> (\<forall>n. P (Obj n)) \<and> (\<forall>t. P (TimerOf t))" for P
    by (metis oid.exhaust)
  have "links {} (KiInitSystem m)" "queue_ok {} (KiInitSystem m)" "timer_ok {} (KiInitSystem m)" "objects_ok (KiInitSystem m)"
    by (simp_all add: links_def wl_ok_def queue_ok_def timer_ok_def objects_ok_def mutant_ok_def signal_ok_def timers_typed_def
        two_state_def all blank_object_def new_thread_def)
  then show ?thesis
    by (simp add: ke_inv_def inv_on_def core_def blocked_ok_def)
qed

section \<open>Initialisation of objects\<close>

text \<open>Memory that is not in use as a dispatcher object.\<close>

definition unused :: "oid \<Rightarrow> KSTATE \<Rightarrow> bool" where
  "unused x ks =
     ((\<exists>n. x = Obj n) \<and> wl ks x = [] \<and> \<not> ob_Inserted (ks_Objects ks x) \<and> owner ks x = None \<and> (\<forall>t. queue ks t \<noteq> Some x))"

text \<open>What the initialisation of an object of each kind has to set up.\<close>

definition well_initialised :: "KOBJECT \<Rightarrow> bool" where
  "well_initialised ob =
     (ob_WaitList ob = [] \<and> \<not> ob_Inserted ob \<and> 0 \<le> ob_Period ob \<and> ob_Period ob < 2147483648 \<and>
      (ob_Type ob = MutantObject \<longrightarrow> ob_SignalState ob = 1) \<and>
      (ob_Type ob = SemaphoreObject \<longrightarrow> 0 \<le> ob_SignalState ob \<and> ob_SignalState ob \<le> ob_Limit ob \<and> ob_Limit ob < 2147483648) \<and>
      (two_state (ob_Type ob) \<longrightarrow> ob_SignalState ob \<in> {0, 1}) \<and>
      (ob_Type ob = QueueObject \<longrightarrow> ob_ThreadList ob = [] \<and> ob_CurrentCount ob = 0) \<and> ob_OwnerThread ob = None)"

lemma initialise_ke_inv:
  assumes inv: "ke_inv ks" and x: "unused x ks" and f: "well_initialised (f (ks_Objects ks x))"
  shows "ke_inv (upd_object x f ks)"
proof -
  let ?ks = "upd_object x f ks" and ?W = "waiting ks" and ?ob = "f (ks_Objects ks x)"
  note ok = ke_inv_links[OF inv]
  obtain n where n: "x = Obj n"
    using x by (auto simp: unused_def)
  have xD: "wl ks x = []" "\<not> ob_Inserted (ks_Objects ks x)" "owner ks x = None" "\<And>t. queue ks t \<noteq> Some x"
    using x by (simp_all add: unused_def)
  have fD: "ob_WaitList ?ob = []" "\<not> ob_Inserted ?ob" "ob_OwnerThread ?ob = None"
    using f by (simp_all add: well_initialised_def)
  have other: "wb_Object b \<noteq> x" if "t \<in> ?W" "b \<in> set (bl ks t)" for t b
    using bl_okD(2)[OF linksD(2)[OF ok(1) that(1)] that(2)] xD(1) by auto
  have "links ?W ?ks"
    unfolding links_def
  proof (intro conjI allI impI ballI)
    fix y t
    have live: "live ?W ?ks y = live ?W ks y" for y
      by (cases y) simp_all
    show "wl_ok ?W ?ks y" if "live ?W ?ks y"
      using linksD(1)[OF ok(1)] that fD(1) unfolding live by (auto simp: wl_ok_def)
    show "distinct (wl ?ks y)"
      using linksD(3)[OF ok(1), of y] fD(1) by simp
    show "live ?W ?ks (TimerOf t)" if "ob_Inserted (ks_Objects ?ks (TimerOf t))"
      using linksD(4)[OF ok(1), of t] that n unfolding live by simp
    show "bl_ok ?ks t" if t: "t \<in> ?W"
      using linksD(2)[OF ok(1) t] other[OF t] unfolding bl_ok_def by simp
  qed
  moreover have "queue_ok ?W ?ks"
    unfolding queue_ok_def
  proof (intro conjI allI impI)
    fix q t
    show "distinct (ob_ThreadList (ks_Objects ?ks q))"
      "(t \<in> set (ob_ThreadList (ks_Objects ?ks q))) = (queue ?ks t = Some q)"
      "\<not> ob_RunDown (ks_Objects ?ks q) \<Longrightarrow>
         ob_CurrentCount (ks_Objects ?ks q) = active ?W (ob_ThreadList (ks_Objects ?ks q)) mod 4294967296" if q: "ty ?ks q = QueueObject"
    proof -
      have new: "ob_ThreadList ?ob = [] \<and> ob_CurrentCount ?ob = 0" if "q = x"
        using q that f by (simp add: well_initialised_def)
      show "distinct (ob_ThreadList (ks_Objects ?ks q))"
        "(t \<in> set (ob_ThreadList (ks_Objects ?ks q))) = (queue ?ks t = Some q)"
        "\<not> ob_RunDown (ks_Objects ?ks q) \<Longrightarrow>
           ob_CurrentCount (ks_Objects ?ks q) = active ?W (ob_ThreadList (ks_Objects ?ks q)) mod 4294967296"
        using queue_okD(1-3)[OF ok(2), of q] q new xD(4)[of t] by (cases "q = x"; simp add: active_def)+
    qed
    show "ty ?ks q = QueueObject" if "queue ?ks t = Some q"
      using queue_okD(4)[OF ok(2), of t q] xD(4)[of t] that by (cases "q = x") simp_all
  qed
  moreover have "timer_ok {} ?ks"
    using timer_ok_drop[OF timer_ok_exempt[OF timer_ok_add[OF ok(3) xD(2)], of x f]] fD(2) by simp
  moreover have "objects_ok ?ks"
  proof -
    have m: "mutant_ok ks" "signal_ok ks" "timers_typed ks"
      using ok(4) by (simp_all add: objects_ok_def)
    have "mutant_ok ?ks"
      unfolding mutant_ok_def
    proof (intro conjI allI impI)
      fix y t
      show "sig ?ks y \<le> 1" "MINLONG \<le> sig ?ks y" "(owner ?ks y = None) = (sig ?ks y = 1)" if "ty ?ks y = MutantObject"
        using mutant_okD(1-3)[OF m(1), of y] that f by (auto simp: well_initialised_def split: if_splits)
      show "(y \<in> set (mutants ?ks t)) = (ty ?ks y = MutantObject \<and> owner ?ks y = Some t)"
        using mutant_okD(4)[OF m(1), of y t] xD(3) fD(3) by simp
      show "distinct (mutants ?ks t)"
        using mutant_okD(5)[OF m(1), of t] by simp
    qed
    moreover have "signal_ok ?ks"
      using m(2) f unfolding signal_ok_def by (simp add: well_initialised_def)
    moreover have "timers_typed ?ks"
      using m(3) f n unfolding timers_typed_def by (simp add: well_initialised_def)
    ultimately show ?thesis
      by (simp add: objects_ok_def)
  qed
  moreover have "blocked_ok ?W ?ks"
    by (rule blocked_ok_mono[OF ok(5)]) (use other in \<open>auto simp: offers_def can_take_def\<close>)
  ultimately show ?thesis
    by (simp add: ke_inv_def inv_on_def core_def)
qed

lemma period_bounds: "ke_inv ks \<Longrightarrow> 0 \<le> ob_Period (ks_Objects ks x) \<and> ob_Period (ks_Objects ks x) < 2147483648"
  using ke_inv_links(4)[of ks] by (simp add: objects_ok_def timers_typed_def)

lemma KeInitializeEvent_ok: "ke_inv ks \<Longrightarrow> unused x ks \<Longrightarrow> is_event k \<Longrightarrow> ke_inv (KeInitializeEvent x k s ks)"
  unfolding KeInitializeEvent_def using period_bounds[of ks x]
  by (intro initialise_ke_inv) (auto simp: well_initialised_def unused_def is_event_def)

lemma KeInitializeSemaphore_ok:
  "ke_inv ks \<Longrightarrow> unused x ks \<Longrightarrow> 0 \<le> c \<Longrightarrow> c \<le> l \<Longrightarrow> l < 2147483648 \<Longrightarrow> ke_inv (KeInitializeSemaphore x c l ks)"
  unfolding KeInitializeSemaphore_def using period_bounds[of ks x]
  by (intro initialise_ke_inv) (auto simp: well_initialised_def unused_def two_state_def)

lemma KeInitializeTimerEx_ok: "ke_inv ks \<Longrightarrow> unused x ks \<Longrightarrow> is_timer k \<Longrightarrow> ke_inv (KeInitializeTimerEx x k ks)"
  unfolding KeInitializeTimerEx_def
  by (intro initialise_ke_inv) (auto simp: well_initialised_def unused_def is_timer_def)

lemma KeInitializeQueue_ok: "ke_inv ks \<Longrightarrow> unused x ks \<Longrightarrow> ke_inv (KeInitializeQueue np x c ks)"
  unfolding KeInitializeQueue_def using period_bounds[of ks x]
  by (intro initialise_ke_inv) (auto simp: well_initialised_def unused_def two_state_def)

lemma KeInitializeMutex_ok: "ke_inv ks \<Longrightarrow> unused x ks \<Longrightarrow> ke_inv (KeInitializeMutex x l ks)"
  unfolding KeInitializeMutex_def using period_bounds[of ks x]
  by (intro initialise_ke_inv) (auto simp: well_initialised_def unused_def two_state_def)

end
