(* ===== verification/Ke_Blocking.thy ===== *)
theory Ke_Blocking
  imports Ke_Signal
begin

text \<open>
  The operations that may block the current thread, and those of queues and timers, keep the
  invariant of the dispatcher database.
\<close>

section \<open>Setting up a wait\<close>

text \<open>
  The block list of a thread that does not wait, and the timer of such a thread, can be set up
  freely.
\<close>

lemma timer_ok_frame:
  assumes "timer_ok E ks" "x \<in> E" "\<And>y. y \<noteq> x \<Longrightarrow> ks_Objects ks' y = ks_Objects ks y"
    "ks_TimerTable ks' = ks_TimerTable ks" "ks_TimerTime ks' = ks_TimerTime ks"
    "ks_KeMaximumIncrement ks' = ks_KeMaximumIncrement ks"
  shows "timer_ok E ks'"
proof -
  have "timer_ok E (upd_object x (\<lambda>_. ks_Objects ks' x) ks)"
    using assms(1,2) by (rule timer_ok_exempt)
  then show ?thesis
    by (subst timer_ok_cong[of _ "upd_object x (\<lambda>_. ks_Objects ks' x) ks"]) (simp_all add: assms)
qed

lemma inv_on_idle:
  assumes inv: "inv_on W ks" and t: "t \<notin> W"
    and other: "\<And>x. x \<noteq> TimerOf t \<Longrightarrow> ks_Objects ks' x = ks_Objects ks x"
    and timer: "ty ks' (TimerOf t) = ty ks (TimerOf t)" "sig ks' (TimerOf t) = sig ks (TimerOf t)"
      "owner ks' (TimerOf t) = owner ks (TimerOf t)"
      "ob_Inserted (ks_Objects ks' (TimerOf t)) = ob_Inserted (ks_Objects ks (TimerOf t))"
      "ob_Period (ks_Objects ks' (TimerOf t)) = ob_Period (ks_Objects ks (TimerOf t))"
      "ob_Limit (ks_Objects ks' (TimerOf t)) = ob_Limit (ks_Objects ks (TimerOf t))"
      "distinct (wl ks' (TimerOf t))"
    and threads: "\<And>u. u \<noteq> t \<Longrightarrow> ks_Threads ks' u = ks_Threads ks u"
      "queue ks' t = queue ks t" "mutants ks' t = mutants ks t"
    and table: "ks_TimerTable ks' = ks_TimerTable ks" "ks_TimerTime ks' = ks_TimerTime ks"
      "ks_KeMaximumIncrement ks' = ks_KeMaximumIncrement ks"
  shows "inv_on W ks'"
proof -
  have ok: "links W ks" "queue_ok W ks" "timer_ok {} ks" "objects_ok ks" "blocked_ok W ks"
    using inv by (simp_all add: inv_on_def core_def)
  have ob: "ty ks' x = ty ks x" "sig ks' x = sig ks x" "owner ks' x = owner ks x"
    "ob_Inserted (ks_Objects ks' x) = ob_Inserted (ks_Objects ks x)"
    "ob_Period (ks_Objects ks' x) = ob_Period (ks_Objects ks x)"
    "ob_Limit (ks_Objects ks' x) = ob_Limit (ks_Objects ks x)" for x
    using other[of x] timer by (cases "x = TimerOf t"; simp)+
  have th: "queue ks' u = queue ks u" "mutants ks' u = mutants ks u" for u
    using threads by (cases "u = t"; simp)+
  have tm: "ty ks (TimerOf t) \<noteq> QueueObject"
    using ok(4) by (simp add: objects_ok_def timers_typed_def)
  have out: "\<not> ob_Inserted (ks_Objects ks (TimerOf t))"
    using linksD(4)[OF ok(1), of t] t by auto
  have bl: "bl ks' u = bl ks u" if "u \<in> W" for u
    using that t threads(1)[of u] by (cases "u = t") auto
  have wl: "wl ks' x = wl ks x" if "x \<noteq> TimerOf t" for x
    using other[OF that] by simp
  have "links W ks'"
    unfolding links_def
  proof (intro conjI allI impI ballI)
    fix x assume live: "live W ks' x"
    have "live W ks x"
      using live bl by (cases x) auto
    moreover have "x \<noteq> TimerOf t"
      using live t by auto
    ultimately show "wl_ok W ks' x"
      using linksD(1)[OF ok(1), of x] bl by (auto simp: wl_ok_def wl)
  next
    fix u assume u: "u \<in> W"
    note b = bl_okD[OF linksD(2)[OF ok(1) u]]
    have "wb_Object b \<noteq> TimerOf t" if "b \<in> set (bl ks u)" for b
      using b(3)[OF that, of t] u t by (auto simp: timer_block_def)
    then show "bl_ok ks' u"
      using linksD(2)[OF ok(1) u] wl unfolding bl_ok_def bl[OF u] ob th by auto
  next
    show "distinct (wl ks' x)" for x
      using linksD(3)[OF ok(1), of x] timer(7) wl by (cases "x = TimerOf t") auto
    show "live W ks' (TimerOf u)" if "ob_Inserted (ks_Objects ks' (TimerOf u))" for u
      using linksD(4)[OF ok(1), of u] that bl by (auto simp: ob)
  qed
  moreover have q: "ks_Objects ks' x = ks_Objects ks x" if "ty ks x = QueueObject" for x
    using that tm by (intro other) auto
  have "queue_ok W ks' = queue_ok W ks"
    by (rule queue_ok_cong) (simp_all add: ob th q)
  moreover have "timer_ok (insert (TimerOf t) {}) ks'"
    by (rule timer_ok_frame[OF timer_ok_add[OF ok(3) out] _ other table]) simp_all
  then have "timer_ok {} ks'"
    by (rule timer_ok_drop) (simp add: ob out)
  moreover have "objects_ok ks'"
    using ok(4) by (subst objects_ok_cong[of _ ks]) (simp_all add: ob th)
  moreover have "blocked_ok W ks'"
    using ok(5) by (rule blocked_ok_mono) (simp_all add: bl offers_def can_take_def ob)
  ultimately show ?thesis
    using ok(2) by (simp add: inv_on_def core_def)
qed

lemma KxSetTimerForThreadWait_simps [simp]:
  "y \<noteq> x \<Longrightarrow> ks_Objects (KxSetTimerForThreadWait c x d ks) y = ks_Objects ks y"
  "ks_Threads (KxSetTimerForThreadWait c x d ks) = ks_Threads ks"
  "ks_TimerTable (KxSetTimerForThreadWait c x d ks) = ks_TimerTable ks"
  "ks_TimerTime (KxSetTimerForThreadWait c x d ks) = ks_TimerTime ks"
  "ks_KeMaximumIncrement (KxSetTimerForThreadWait c x d ks) = ks_KeMaximumIncrement ks"
  "ty (KxSetTimerForThreadWait c x d ks) y = ty ks y"
  "sig (KxSetTimerForThreadWait c x d ks) y = sig ks y"
  "owner (KxSetTimerForThreadWait c x d ks) y = owner ks y"
  "wl (KxSetTimerForThreadWait c x d ks) y = wl ks y"
  "ob_Inserted (ks_Objects (KxSetTimerForThreadWait c x d ks) y) = ob_Inserted (ks_Objects ks y)"
  "ob_Period (ks_Objects (KxSetTimerForThreadWait c x d ks) y) = ob_Period (ks_Objects ks y)"
  "ob_Limit (ks_Objects (KxSetTimerForThreadWait c x d ks) y) = ob_Limit (ks_Objects ks y)"
  by (simp_all add: KxSetTimerForThreadWait_def Let_def)

lemma index_upd_object [simp]: "KiComputeTimerTableIndex (upd_object x f ks) = KiComputeTimerTableIndex ks"
  by (simp add: KiComputeTimerTableIndex_def fun_eq_iff)

lemma index_zero [simp]: "KiComputeTimerTableIndex ks 0 = 0"
  by (simp add: KiComputeTimerTableIndex_def)

lemma KxSetTimerForThreadWait_hand:
  "ob_Hand (ks_Objects (KxSetTimerForThreadWait c x d ks) x) = slot_of (KxSetTimerForThreadWait c x d ks) x mod 256"
  by (simp add: KxSetTimerForThreadWait_def Let_def slot_of_def due_def)

lemma set_wait_simps [simp]:
  "ks_Objects (set_wait t bs a m r ks) = ks_Objects ks"
  "u \<noteq> t \<Longrightarrow> ks_Threads (set_wait t bs a m r ks) u = ks_Threads ks u"
  "bl (set_wait t bs a m r ks) t = bs"
  "queue (set_wait t bs a m r ks) u = queue ks u"
  "mutants (set_wait t bs a m r ks) u = mutants ks u"
  "th_State (ks_Threads (set_wait t bs a m r ks) u) = th_State (ks_Threads ks u)"
  "ks_TimerTable (set_wait t bs a m r ks) = ks_TimerTable ks"
  "ks_TimerTime (set_wait t bs a m r ks) = ks_TimerTime ks"
  "ks_KeMaximumIncrement (set_wait t bs a m r ks) = ks_KeMaximumIncrement ks"
  by (simp_all add: set_wait_def)

lemma set_timer_list_simps [simp]:
  "ks_Objects (set_timer_list t bs ks) = (ks_Objects ks)(TimerOf t := (ks_Objects ks (TimerOf t))\<lparr>ob_WaitList := bs\<rparr>)"
  "ks_Threads (set_timer_list t bs ks) = ks_Threads ks"
  "ks_TimerTable (set_timer_list t bs ks) = ks_TimerTable ks"
  "ks_TimerTime (set_timer_list t bs ks) = ks_TimerTime ks"
  "ks_KeMaximumIncrement (set_timer_list t bs ks) = ks_KeMaximumIncrement ks"
  by (simp_all add: set_timer_list_def)

text \<open>
  After the set-up of a wait the thread has its blocks, and with a time-out its timer has a
  due time and the hand that goes with it.
\<close>

definition prepared :: "tid \<Rightarrow> KWAIT_BLOCK list \<Rightarrow> KWAIT_BLOCK list \<Rightarrow> bool \<Rightarrow> KSTATE \<Rightarrow> KSTATE \<Rightarrow> bool" where
  "prepared t bs ts timed ks ks' =
     (bl ks' t = bs \<and> th_State (ks_Threads ks' t) = th_State (ks_Threads ks t) \<and>
      (\<forall>x. x \<noteq> TimerOf t \<longrightarrow> ks_Objects ks' x = ks_Objects ks x) \<and>
      (\<forall>u. u \<noteq> t \<longrightarrow> ks_Threads ks' u = ks_Threads ks u) \<and>
      queue ks' t = queue ks t \<and>
      (timed \<longrightarrow> wl ks' (TimerOf t) = ts \<and> ob_Hand (ks_Objects ks' (TimerOf t)) = slot_of ks' (TimerOf t) mod 256))"

lemma slot_of_set_timer_list [simp]: "slot_of (set_timer_list t bs ks) = slot_of ks"
  by (simp add: slot_of_def due_def KiComputeTimerTableIndex_def fun_eq_iff)

lemma begin_wait_inv [simp]:
  "inv_on W (begin_wait t irql ks) = inv_on W ks" "waiting (begin_wait t irql ks) = waiting ks"
  by (simp_all add: begin_wait_def inv_upd_thread)

lemma set_up_inv:
  assumes "inv_on W ks" "t \<notin> W" "distinct ts"
  shows "inv_on W (set_timer_list t ts (KxSetTimerForThreadWait c (TimerOf t) d (set_wait t bs a m r ks)))"
    "prepared t bs ts True ks (set_timer_list t ts (KxSetTimerForThreadWait c (TimerOf t) d (set_wait t bs a m r ks)))"
proof -
  show "inv_on W (set_timer_list t ts (KxSetTimerForThreadWait c (TimerOf t) d (set_wait t bs a m r ks)))"
    using assms by (intro inv_on_idle[OF assms(1,2)]) simp_all
  show "prepared t bs ts True ks (set_timer_list t ts (KxSetTimerForThreadWait c (TimerOf t) d (set_wait t bs a m r ks)))"
    by (simp add: prepared_def KxSetTimerForThreadWait_hand)
qed

lemma set_up_inv_untimed:
  assumes "inv_on W ks" "t \<notin> W"
  shows "inv_on W (set_wait t bs a m r ks)" "prepared t bs ts False ks (set_wait t bs a m r ks)"
proof -
  have "distinct (wl ks (TimerOf t))"
    using assms(1) linksD(3) by (auto simp: inv_on_def core_def)
  then show "inv_on W (set_wait t bs a m r ks)"
    by (intro inv_on_idle[OF assms]) simp_all
  show "prepared t bs ts False ks (set_wait t bs a m r ks)"
    by (simp add: prepared_def)
qed

section \<open>Joining the wait lists\<close>

text \<open>
  The blocks \<open>obs\<close> of a thread are linked into the wait lists of their objects, and with a
  time-out the block of the timer too.
\<close>

definition waitable :: "KSTATE \<Rightarrow> tid \<Rightarrow> KWAIT_BLOCK list \<Rightarrow> bool" where
  "waitable ks t obs =
     (distinct obs \<and>
      (\<forall>b \<in> set obs. wb_Thread b = t \<and> wb_Slot b \<noteq> TimerSlot \<and> (\<exists>n. wb_Object b = Obj n) \<and>
         (ty ks (wb_Object b) = QueueObject \<longrightarrow> queue ks t = Some (wb_Object b) \<and> obs = [b])))"

definition enqueued :: "tid \<Rightarrow> KWAIT_BLOCK list \<Rightarrow> bool \<Rightarrow> KSTATE \<Rightarrow> KSTATE \<Rightarrow> bool" where
  "enqueued t obs timed ks ks' =
     ((\<forall>n. ks_Objects ks' (Obj n) = (ks_Objects ks (Obj n))\<lparr>ob_WaitList := wl ks (Obj n) @ [b \<leftarrow> obs. wb_Object b = Obj n]\<rparr>) \<and>
      (\<forall>u. u \<noteq> t \<longrightarrow> ks_Objects ks' (TimerOf u) = ks_Objects ks (TimerOf u)) \<and>
      (\<exists>ts. ks_Objects ks' (TimerOf t) = (ks_Objects ks (TimerOf t))\<lparr>ob_WaitList := ts, ob_Inserted := timed\<rparr> \<and>
         (if timed then ts = [timer_block t] else distinct ts)) \<and>
      ks_Threads ks' = (ks_Threads ks)(t := (ks_Threads ks t)\<lparr>th_WaitBlockList := obs @ (if timed then [timer_block t] else [])\<rparr>) \<and>
      ks_TimerTable ks' = ks_TimerTable ks \<and> ks_TimerTime ks' = ks_TimerTime ks \<and>
      ks_KeMaximumIncrement ks' = ks_KeMaximumIncrement ks)"

lemma enqueuedD:
  assumes "enqueued t obs timed ks ks'"
  shows "wl ks' (Obj n) = wl ks (Obj n) @ [b \<leftarrow> obs. wb_Object b = Obj n]"
    "u \<noteq> t \<Longrightarrow> wl ks' (TimerOf u) = wl ks (TimerOf u)"
    "timed \<Longrightarrow> wl ks' (TimerOf t) = [timer_block t]" "\<not> timed \<Longrightarrow> distinct (wl ks' (TimerOf t))"
    "bl ks' t = obs @ (if timed then [timer_block t] else [])" "u \<noteq> t \<Longrightarrow> bl ks' u = bl ks u"
    "ty ks' x = ty ks x" "sig ks' x = sig ks x" "owner ks' x = owner ks x"
    "ob_Inserted (ks_Objects ks' x) = (if x = TimerOf t then timed else ob_Inserted (ks_Objects ks x))"
    "queue ks' u = queue ks u" "mutants ks' u = mutants ks u"
    "th_State (ks_Threads ks' u) = th_State (ks_Threads ks u)"
    "ob_ThreadList (ks_Objects ks' x) = ob_ThreadList (ks_Objects ks x)"
    "ob_CurrentCount (ks_Objects ks' x) = ob_CurrentCount (ks_Objects ks x)"
    "ob_RunDown (ks_Objects ks' x) = ob_RunDown (ks_Objects ks x)"
    "ob_Limit (ks_Objects ks' x) = ob_Limit (ks_Objects ks x)" "ob_Period (ks_Objects ks' x) = ob_Period (ks_Objects ks x)"
    "ob_DueTime (ks_Objects ks' x) = ob_DueTime (ks_Objects ks x)" "ob_Hand (ks_Objects ks' x) = ob_Hand (ks_Objects ks x)"
    "ks_TimerTable ks' = ks_TimerTable ks" "ks_TimerTime ks' = ks_TimerTime ks"
    "ks_KeMaximumIncrement ks' = ks_KeMaximumIncrement ks"
proof -
  obtain ts where tm: "ks_Objects ks' (TimerOf t) = (ks_Objects ks (TimerOf t))\<lparr>ob_WaitList := ts, ob_Inserted := timed\<rparr>"
    and ts: "if timed then ts = [timer_block t] else distinct ts"
    using assms unfolding enqueued_def by blast
  show "timed \<Longrightarrow> wl ks' (TimerOf t) = [timer_block t]" "\<not> timed \<Longrightarrow> distinct (wl ks' (TimerOf t))"
    using tm ts by auto
  have "(\<exists>n. x = Obj n) \<or> (\<exists>u. u \<noteq> t \<and> x = TimerOf u) \<or> x = TimerOf t"
    by (cases x) auto
  then show "ty ks' x = ty ks x" "sig ks' x = sig ks x" "owner ks' x = owner ks x"
    "ob_Inserted (ks_Objects ks' x) = (if x = TimerOf t then timed else ob_Inserted (ks_Objects ks x))"
    "ob_ThreadList (ks_Objects ks' x) = ob_ThreadList (ks_Objects ks x)"
    "ob_CurrentCount (ks_Objects ks' x) = ob_CurrentCount (ks_Objects ks x)"
    "ob_RunDown (ks_Objects ks' x) = ob_RunDown (ks_Objects ks x)"
    "ob_Limit (ks_Objects ks' x) = ob_Limit (ks_Objects ks x)" "ob_Period (ks_Objects ks' x) = ob_Period (ks_Objects ks x)"
    "ob_DueTime (ks_Objects ks' x) = ob_DueTime (ks_Objects ks x)" "ob_Hand (ks_Objects ks' x) = ob_Hand (ks_Objects ks x)"
    using assms tm unfolding enqueued_def by auto
qed (use assms in \<open>auto simp: enqueued_def\<close>)

lemma enqueue_links:
  assumes ok: "links W ks" and t: "t \<notin> W" and w: "waitable ks t obs" and e: "enqueued t obs timed ks ks'"
    and tm: "ty ks (TimerOf t) \<noteq> QueueObject"
  shows "links (insert t W) ks'"
proof -
  note eD = enqueuedD[OF e]
  have bl: "bl ks' u = bl ks u" if "u \<in> W" for u
    using that t eD(6)[of u] by (cases "u = t") auto
  have tb: "timer_block t \<in> set (bl ks' t) \<longleftrightarrow> timed"
    using w by (auto simp: eD(5) waitable_def timer_block_def)
  show ?thesis
    unfolding links_def
  proof (intro conjI allI impI ballI)
    fix x assume live: "live (insert t W) ks' x"
    show "wl_ok (insert t W) ks' x"
    proof (cases x)
      case (Obj n)
      then show ?thesis
        using linksD(1)[OF ok, of x] w bl by (auto simp: wl_ok_def eD(1,5) waitable_def)
    next
      case (TimerOf u)
      show ?thesis
      proof (cases "u = t")
        case True
        then show ?thesis
          using live tb TimerOf by (auto simp: wl_ok_def eD(3,5) timer_block_def)
      next
        case False
        then show ?thesis
          using live linksD(1)[OF ok, of x] bl TimerOf by (auto simp: wl_ok_def eD(2))
      qed
    qed
  next
    fix u assume u: "u \<in> insert t W"
    show "bl_ok ks' u"
    proof (cases "u = t")
      case True
      show ?thesis
        unfolding bl_ok_def True
      proof (intro ballI)
        fix b assume b: "b \<in> set (bl ks' t)"
        show "wb_Thread b = t \<and> b \<in> set (wl ks' (wb_Object b)) \<and> (\<forall>u. wb_Object b = TimerOf u \<longrightarrow> b = timer_block t) \<and>
          (ty ks' (wb_Object b) = QueueObject \<longrightarrow> queue ks' t = Some (wb_Object b) \<and> (\<forall>b'\<in>set (bl ks' t). b' = b \<or> b' = timer_block t))"
        proof (cases "b \<in> set obs")
          case True
          then show ?thesis
            using w by (auto simp: waitable_def eD(1,5,7,11))
        next
          case False
          then have "b = timer_block t" timed
            using b by (auto simp: eD(5) split: if_splits)
          then show ?thesis
            using eD(3) tm by (auto simp: timer_block_def eD(7))
        qed
      qed
    next
      case False
      then have u: "u \<in> W"
        using u by simp
      note bD = bl_okD[OF linksD(2)[OF ok u]]
      have "b \<in> set (wl ks' (wb_Object b))" if "b \<in> set (bl ks u)" for b
        using bD(2,3)[OF that] False by (cases "wb_Object b") (auto simp: eD(1,2) timer_block_def)
      then show ?thesis
        using linksD(2)[OF ok u] unfolding bl_ok_def bl[OF u] eD(7,11) by blast
    qed
  next
    fix x
    show "distinct (wl ks' x)"
    proof (cases x)
      case (Obj n)
      have "b \<notin> set (wl ks x)" if "b \<in> set obs" for b
        using wl_okD(1)[OF linksD(1)[OF ok, of x]] that w t Obj by (auto simp: waitable_def)
      then show ?thesis
        using linksD(3)[OF ok, of x] w Obj by (auto simp: eD(1) waitable_def)
    next
      case (TimerOf u)
      then show ?thesis
        using linksD(3)[OF ok, of x] eD(2)[of u] eD(3,4) by (cases "u = t"; cases timed) auto
    qed
  next
    fix u assume "ob_Inserted (ks_Objects ks' (TimerOf u))"
    then show "live (insert t W) ks' (TimerOf u)"
      using linksD(4)[OF ok, of u] tb bl by (auto simp: eD(10) split: if_splits)
  qed
qed

text \<open>
  The parts of the invariant with a thread on its way into a wait: it counts as waiting for the
  links, and its timer, if it has a time-out, is not in the table yet.
\<close>

definition entering :: "tid \<Rightarrow> bool \<Rightarrow> tid set \<Rightarrow> KSTATE \<Rightarrow> bool" where
  "entering t timed W ks =
     (links W ks \<and> timer_ok (if timed then {TimerOf t} else {}) ks \<and> objects_ok ks \<and> blocked_ok W ks \<and>
      (timed \<longrightarrow> timer_block t \<in> set (bl ks t) \<and> ob_Inserted (ks_Objects ks (TimerOf t)) \<and>
         ob_Hand (ks_Objects ks (TimerOf t)) = slot_of ks (TimerOf t) mod 256))"

lemma enqueue_entering:
  assumes ok: "links W ks" "queue_ok X ks" "timer_ok {} ks" "objects_ok ks" "blocked_ok W ks"
    and t: "t \<notin> W" and w: "waitable ks t obs" and e: "enqueued t obs timed ks ks'"
    and sat: "\<not> wait_satisfied ks' t"
    and hand: "timed \<Longrightarrow> ob_Hand (ks_Objects ks (TimerOf t)) = slot_of ks (TimerOf t) mod 256"
  shows "entering t timed (insert t W) ks'" "queue_ok X ks'"
proof -
  note eD = enqueuedD[OF e]
  have tm: "ty ks (TimerOf t) \<noteq> QueueObject"
    using ok(4) by (simp add: objects_ok_def timers_typed_def)
  show "queue_ok X ks'"
    using ok(2) by (subst queue_ok_cong[of _ ks]) (simp_all add: eD)
  have out: "\<not> ob_Inserted (ks_Objects ks (TimerOf t))"
    using linksD(4)[OF ok(1), of t] t by auto
  have "timer_ok (if timed then {TimerOf t} else {}) ks'"
  proof (cases timed)
    case True
    have "timer_ok {TimerOf t} (upd_object (TimerOf t) (\<lambda>ob. ob\<lparr>ob_Inserted := True\<rparr>) ks)"
      using timer_ok_add[OF ok(3) out] by (rule timer_ok_exempt) simp
    then have "timer_ok {TimerOf t} ks'"
      by (rule iffD1[OF timer_ok_cong, rotated -1]) (simp_all add: eD True)
    then show ?thesis
      using True by simp
  next
    case False
    have "timer_ok {} ks' = timer_ok {} ks"
      by (rule timer_ok_cong) (simp_all add: eD False out)
    then show ?thesis
      using ok(3) False by simp
  qed
  moreover have "objects_ok ks'"
    using ok(4) by (subst objects_ok_cong[of _ ks]) (simp_all add: eD)
  moreover have "bl ks' u = bl ks u" if "u \<in> W" for u
    using that t eD(6)[of u] by (cases "u = t") auto
  then have "blocked_ok W ks'"
    by (intro blocked_ok_mono[OF ok(5) subset_refl]) (simp_all add: offers_def can_take_def eD)
  then have "blocked_ok (insert t W) ks'"
    using sat by (simp add: blocked_ok_def)
  moreover have "slot_of ks' (TimerOf t) = slot_of ks (TimerOf t)"
    by (simp add: slot_of_def due_def KiComputeTimerTableIndex_def eD)
  ultimately show "entering t timed (insert t W) ks'"
    using enqueue_links[OF ok(1) t w e tm] hand by (simp add: entering_def eD)
qed

section \<open>Queues\<close>

lemma u32_sub_Suc: "u32_sub (Suc n mod 4294967296) 1 = n mod 4294967296"
proof -
  have "u32_sub (Suc n mod 4294967296) 1 = (Suc n mod 4294967296 + 4294967295) mod 4294967296"
    by (simp add: u32_sub_def)
  also have "\<dots> = (Suc n + 4294967295) mod 4294967296"
    by (rule mod_add_left_eq)
  also have "Suc n + 4294967295 = n + 4294967296"
    by simp
  finally show ?thesis
    by simp
qed

text \<open>A thread that starts to wait is no longer counted.\<close>

lemma count_down_queue_ok:
  assumes ok: "queue_ok W ks" and t: "t \<notin> W" "queue ks t = Some q"
  shows "queue_ok (insert t W) (count_down q ks)"
proof -
  have same: "ty (count_down q ks) p = ty ks p" "ob_ThreadList (ks_Objects (count_down q ks) p) = ob_ThreadList (ks_Objects ks p)"
    "ob_RunDown (ks_Objects (count_down q ks) p) = ob_RunDown (ks_Objects ks p)" "queue (count_down q ks) u = queue ks u" for p u
    by (simp_all add: count_down_def)
  have "ob_CurrentCount (ks_Objects (count_down q ks) p) =
      active (insert t W) (ob_ThreadList (ks_Objects ks p)) mod 4294967296"
    if p: "ty ks p = QueueObject" "\<not> ob_RunDown (ks_Objects ks p)" for p
  proof (cases "p = q")
    case True
    have "active W (ob_ThreadList (ks_Objects ks q)) = Suc (active (insert t W) (ob_ThreadList (ks_Objects ks q)))"
      using active_remove[of "ob_ThreadList (ks_Objects ks q)" t "insert t W"] queue_okD(1,2)[OF ok] p(1) t True by simp
    then show ?thesis
      using queue_okD(3)[OF ok p] True by (simp add: count_down_def u32_sub_Suc[unfolded One_nat_def])
  next
    case False
    then have "t \<notin> set (ob_ThreadList (ks_Objects ks p))"
      using queue_okD(2)[OF ok p(1), of t] t by simp
    then show ?thesis
      using queue_okD(3)[OF ok p] active_absent[of t _ "insert t W"] t False by (simp add: count_down_def)
  qed
  then show ?thesis
    using ok unfolding queue_ok_def same by blast
qed

lemma queue_ok_no_queue:
  assumes ok: "queue_ok W ks" and t: "queue ks t = None" "t \<notin> W"
  shows "queue_ok (insert t W) ks"
proof -
  have "active (insert t W) (ob_ThreadList (ks_Objects ks q)) = active W (ob_ThreadList (ks_Objects ks q))"
    if "ty ks q = QueueObject" for q
    using active_absent[of t _ "insert t W"] queue_okD(2)[OF ok that, of t] t by simp
  then show ?thesis
    using ok unfolding queue_ok_def by simp
qed

text \<open>
  Taking a waiter of the queue out of its wait, with the first entry. The thread \<open>t\<close> on whose
  behalf this happens is not one of them.
\<close>

lemma unwait_entering:
  assumes ok: "entering t timed W ks" and u: "u \<in> W" "u \<noteq> t"
  shows "entering t timed (W - {u}) (KiUnwaitThread u s i ks)"
proof -
  let ?ks = "KiUnwaitThread u s i ks"
  have ok': "links W ks" "timer_ok (if timed then {TimerOf t} else {}) ks" "objects_ok ks" "blocked_ok W ks"
    using ok by (simp_all add: entering_def)
  have "timer_ok (if timed then {TimerOf t} else {}) ?ks"
    using ok'(2) u by (intro KiUnwaitThread_timer_ok) auto
  moreover have "blocked_ok (W - {u}) ?ks"
    using u by (intro blocked_ok_mono[OF ok'(4)]) (auto simp: offers_def can_take_def)
  moreover have "slot_of ?ks (TimerOf t) = slot_of ks (TimerOf t)"
    by (simp add: slot_of_def due_def KiComputeTimerTableIndex_def)
  ultimately show ?thesis
    using ok u KiUnwaitThread_links[OF ok'(1) u(1)] by (simp add: entering_def)
qed

text \<open>The timer of another thread is not touched.\<close>

lemma unwait_other_timer:
  assumes ok: "links W ks" "objects_ok ks" "queue_ok X ks" and u: "u \<in> W" "u \<noteq> t"
  shows "ks_Objects (KiUnwaitThread u s i ks) (TimerOf t) = ks_Objects ks (TimerOf t)"
proof -
  have "[b \<leftarrow> bl ks u. wb_Object b = TimerOf t] = []"
    using bl_okD(3)[OF linksD(2)[OF ok(1) u(1)]] u(2) by (fastforce simp: filter_empty_conv timer_block_def)
  moreover have "queue ks u \<noteq> Some (TimerOf t)"
    using queue_okD(4)[OF ok(3), of u "TimerOf t"] ok(2) by (auto simp: objects_ok_def timers_typed_def)
  ultimately show ?thesis
    using u(2) by (cases "ks_Objects ks (TimerOf t)") simp
qed

lemma entering_cong:
  assumes "\<And>x. ks_Objects ks' x = (ks_Objects ks x)\<lparr>ob_SignalState := s x, ob_EntryList := e x, ob_CurrentCount := c x\<rparr>"
    "\<And>x. ty ks x \<noteq> QueueObject \<Longrightarrow> s x = sig ks x"
    "\<And>u. bl ks' u = bl ks u" "\<And>u. queue ks' u = queue ks u" "\<And>u. mutants ks' u = mutants ks u"
    "ks_TimerTable ks' = ks_TimerTable ks" "ks_TimerTime ks' = ks_TimerTime ks"
    "ks_KeMaximumIncrement ks' = ks_KeMaximumIncrement ks"
  shows "entering t timed W ks' = entering t timed W ks"
proof -
  have "links W ks' = links W ks"
    by (rule links_cong) (simp_all add: assms)
  moreover have "timer_ok E ks' = timer_ok E ks" for E
    by (rule timer_ok_cong) (simp_all add: assms)
  moreover have "objects_ok ks' = objects_ok ks"
    using assms(2) by (auto simp: objects_ok_def mutant_ok_def signal_ok_def timers_typed_def two_state_def assms(1,5))
  moreover have "offers ks' u x = offers ks u x" for u x
    using assms(2)[of x] by (auto simp: offers_def can_take_def assms(1))
  then have "blocked_ok W ks' = blocked_ok W ks"
    by (simp add: blocked_ok_def wait_satisfied_def object_blocks_def assms(3))
  moreover have "slot_of ks' x = slot_of ks x" for x
    by (simp add: slot_of_def due_def KiComputeTimerTableIndex_def assms)
  ultimately show ?thesis
    by (simp add: entering_def assms)
qed

lemma KiActivateWaiterQueue_ok:
  assumes ok: "entering t timed W ks" and q: "queue_ok X (count_down q ks)" "ty ks q = QueueObject" "W \<subseteq> X"
    and t: "\<And>b. b \<in> set (wl ks q) \<Longrightarrow> wb_Thread b \<noteq> t"
  defines "ks' \<equiv> KiActivateWaiterQueue q ks"
  shows "\<exists>U. U \<subseteq> W \<and> t \<notin> U \<and> entering t timed (W - U) ks' \<and> queue_ok (X - U) ks' \<and> waiting ks' = waiting ks - U \<and>
    ks_Objects ks' (TimerOf t) = ks_Objects ks (TimerOf t) \<and> ks_Threads ks' t = ks_Threads ks t \<and>
    ks_KeMaximumIncrement ks' = ks_KeMaximumIncrement ks \<and> (\<forall>x. ty ks' x = ty ks x)"
proof -
  let ?ks = "count_down q ks"
  have tm: "q \<noteq> TimerOf t"
    using ok q(2) by (auto simp: entering_def objects_ok_def timers_typed_def)
  have ok1: "entering t timed W ?ks"
    using ok by (subst entering_cong[where ks = ks and s = "\<lambda>x. sig ks x" and e = "\<lambda>x. ob_EntryList (ks_Objects ks x)"
          and c = "\<lambda>x. ob_CurrentCount (ks_Objects ?ks x)"]) (auto simp: count_down_def)
  have w: "waiting ?ks = waiting ks"
    by (simp add: count_down_def waiting_def)
  have "ks' = ?ks \<or>
    (\<exists>e es b bs. ob_EntryList (ks_Objects ?ks q) = e # es \<and> rev (wl ?ks q) = b # bs \<and>
      ks' = KiUnwaitThread (wb_Thread b) e 0
        (upd_object q (\<lambda>ob. ob\<lparr>ob_EntryList := es, ob_SignalState := s32 (ob_SignalState ob - 1)\<rparr>) ?ks))"
    by (auto simp: ks'_def KiActivateWaiterQueue_def Let_def split: list.split)
  then consider (none) "ks' = ?ks"
    | (wake) e es b bs where "ob_EntryList (ks_Objects ?ks q) = e # es" "rev (wl ?ks q) = b # bs"
      "ks' = KiUnwaitThread (wb_Thread b) e 0
        (upd_object q (\<lambda>ob. ob\<lparr>ob_EntryList := es, ob_SignalState := s32 (ob_SignalState ob - 1)\<rparr>) ?ks)"
    by blast
  then show ?thesis
  proof cases
    case none
    then show ?thesis
      using ok1 q(1) w tm by (intro exI[of _ "{}"]) (auto simp: count_down_def)
  next
    case wake
    define ks2 where "ks2 = upd_object q (\<lambda>ob. ob\<lparr>ob_EntryList := es, ob_SignalState := s32 (ob_SignalState ob - 1)\<rparr>) ?ks"
    have ok2: "entering t timed W ks2"
      using ok q(2) by (subst entering_cong[where ks = ks and s = "\<lambda>x. sig ks2 x" and e = "\<lambda>x. ob_EntryList (ks_Objects ks2 x)"
          and c = "\<lambda>x. ob_CurrentCount (ks_Objects ks2 x)"]) (auto simp: count_down_def ks2_def)
    have q2: "queue_ok X ks2"
      using q(1) by (subst queue_ok_cong[of _ ?ks]) (auto simp: ks2_def)
    have "b \<in> set (rev (wl ?ks q))"
      by (simp add: wake)
    then have b: "b \<in> set (wl ks q)"
      by (simp add: count_down_def)
    have "live W ks q"
      using ok q(2) by (cases q) (auto simp: entering_def objects_ok_def timers_typed_def)
    then have "wl_ok W ks q"
      using ok linksD(1) by (auto simp: entering_def)
    then have u: "wb_Thread b \<in> W" "wb_Thread b \<noteq> t" "wb_Thread b \<in> X"
      using wl_okD(1) b t q(3) by auto
    have "waiting ks2 = waiting ks"
      using w by (simp add: ks2_def waiting_def)
    moreover have "links W ks2" "objects_ok ks2"
      using ok2 by (simp_all add: entering_def)
    ultimately show ?thesis
      using unwait_entering[OF ok2 u(1,2)] KiUnwaitThread_queue_ok[OF q2 u(3)] u unwait_other_timer[OF _ _ q2 u(1,2)] tm
      by (intro exI[of _ "{wb_Thread b}"])
        (simp add: wake(3) ks2_def[symmetric] del: KiUnwaitThread_objects, simp add: ks2_def count_down_def)
  qed
qed

lemma activate_queue_ok:
  assumes ok: "entering t timed W ks" and q: "queue_ok (W - {t}) ks" and t: "t \<in> W"
    and nq: "\<And>b. b \<in> set (bl ks t) \<Longrightarrow> ty ks (wb_Object b) \<noteq> QueueObject"
  shows "\<exists>U. U \<subseteq> W \<and> t \<notin> U \<and> entering t timed (W - U) (activate_queue t ks) \<and> queue_ok (W - U) (activate_queue t ks) \<and>
    waiting (activate_queue t ks) = waiting ks - U"
proof (cases "queue ks t")
  case None
  have "insert t (W - {t}) = W"
    using t by auto
  then have "queue_ok W ks"
    using queue_ok_no_queue[OF q None] by simp
  then show ?thesis
    using ok None by (intro exI[of _ "{}"]) (auto simp: activate_queue_def)
next
  case (Some p)
  have "insert t (W - {t}) = W" "links W ks"
    using ok t by (auto simp: entering_def)
  then have "queue_ok W (count_down p ks)"
    using count_down_queue_ok[OF q _ Some] by simp
  moreover have p: "ty ks p = QueueObject"
    using queue_okD(4)[OF q Some] .
  moreover have "wb_Thread b \<noteq> t" if b: "b \<in> set (wl ks p)" for b
  proof
    assume t: "wb_Thread b = t"
    have "live W ks p"
      using ok p by (cases p) (auto simp: entering_def objects_ok_def timers_typed_def)
    then have "b \<in> set (bl ks t)" "wb_Object b = p"
      using wl_okD[OF linksD(1)[OF \<open>links W ks\<close>] b] t by auto
    then show False
      using nq p by auto
  qed
  ultimately show ?thesis
    using KiActivateWaiterQueue_ok[OF ok, of W p] Some by (auto simp: activate_queue_def)
qed

section \<open>Timers\<close>

text \<open>
  A timer that is not in the table is signalled, and its waiters are woken. It must not be
  periodic, or the time of its next expiry must be reached later than the clock is read.
\<close>

lemma signal_timer_core:
  assumes ok: "links W ks" "queue_ok W ks" "timer_ok {x} ks" "objects_ok ks" "blocked_ok W ks"
    and x: "two_state (ty ks x)" "wl_ok W ks x"
  defines "ks1 \<equiv> upd_object x (\<lambda>ob. ob\<lparr>ob_Inserted := False, ob_SignalState := 1\<rparr>) ks"
  shows "core W ks1" "wl_ok W ks1 x" "woke x ks W ks1"
proof -
  have "links W ks1"
    using ok(1) by (rule links_uninserted) (auto simp: ks1_def split: if_splits)
  moreover have "queue_ok W ks1"
    using ok(2) by (subst queue_ok_cong[of _ ks]) (simp_all add: ks1_def)
  moreover have "timer_ok {x} ks1"
    unfolding ks1_def using ok(3) by (rule timer_ok_exempt) simp
  then have "timer_ok {} ks1"
    by (rule timer_ok_drop) (simp add: ks1_def)
  moreover have "objects_ok (set_signal x 1 ks)"
    using ok(4) x(1) by (simp add: event_set_signal)
  then have "objects_ok ks1"
    by (subst objects_ok_cong[of _ "set_signal x 1 ks"]) (simp_all add: ks1_def)
  ultimately show "core W ks1"
    by (simp add: core_def)
  show "wl_ok W ks1 x" "woke x ks W ks1"
    using x(2) by (simp_all add: ks1_def wl_ok_def woke_def)
qed

definition wake_timer :: "oid \<Rightarrow> KSTATE \<Rightarrow> KSTATE option" where
  "wake_timer x ks =
     (if wl ks x = [] then Some ks
      else if ty ks x = TimerNotificationObject then KxUnwaitThread x 0 ks
      else KxUnwaitThreadForEvent x 0 ks)"

lemma wake_timer_ok:
  assumes ok: "links W ks" "queue_ok W ks" "timer_ok {x} ks" "objects_ok ks" "blocked_ok W ks" "waiting ks = W"
    and x: "two_state (ty ks x)" "wl_ok W ks x"
  defines "ks1 \<equiv> upd_object x (\<lambda>ob. ob\<lparr>ob_Inserted := False, ob_SignalState := 1\<rparr>) ks"
  shows "\<exists>ks'. wake_timer x ks1 = Some ks' \<and> ke_inv ks' \<and> ty ks' x = ty ks x \<and>
    ob_Period (ks_Objects ks' x) = ob_Period (ks_Objects ks x) \<and> \<not> ob_Inserted (ks_Objects ks' x) \<and>
    (\<forall>y. due ks' y = due ks y \<and> (ob_Inserted (ks_Objects ks' y) \<longrightarrow> ob_Inserted (ks_Objects ks y))) \<and>
    ks_KeMaximumIncrement ks' = ks_KeMaximumIncrement ks"
proof -
  note core = signal_timer_core[OF ok(1-5) x, folded ks1_def]
  have w1: "waiting ks1 = W"
    using ok(6) by (simp add: ks1_def waiting_def)
  have fin: "ke_inv ks' \<and> ty ks' x = ty ks x \<and> ob_Period (ks_Objects ks' x) = ob_Period (ks_Objects ks x) \<and>
      \<not> ob_Inserted (ks_Objects ks' x) \<and>
      (\<forall>y. due ks' y = due ks y \<and> (ob_Inserted (ks_Objects ks' y) \<longrightarrow> ob_Inserted (ks_Objects ks y))) \<and>
      ks_KeMaximumIncrement ks' = ks_KeMaximumIncrement ks"
    if V: "V \<subseteq> W" "core V ks'" "woke x ks1 V ks'" "waiting ks' = waiting ks1 - (W - V)" "wl ks' x = [] \<or> sig ks' x = 0" for ks' V
  proof -
    have "links V ks'"
      using V(2) by (simp add: core_def)
    then have "blocked_ok V ks'"
      using blocked_ok_woke[OF ok(5) V(1) woke_trans[OF core(3) V(3,1)]] V(5) by auto
    moreover have "waiting ks' = V"
      using V(1,4) w1 by auto
    ultimately have "ke_inv ks'"
      using V(2) by (simp add: ke_inv_def inv_on_def)
    moreover have "ty ks' x = ty ks1 x" "ob_Period (ks_Objects ks' x) = ob_Period (ks_Objects ks1 x)"
      "\<And>y. ob_Inserted (ks_Objects ks' y) \<Longrightarrow> ob_Inserted (ks_Objects ks1 y)" "\<And>y. due ks' y = due ks1 y"
      "ks_KeMaximumIncrement ks' = ks_KeMaximumIncrement ks1"
      using V(3) by (simp_all add: woke_def due_def)
    moreover have "ob_Inserted (ks_Objects ks1 y) \<longleftrightarrow> y \<noteq> x \<and> ob_Inserted (ks_Objects ks y)" "due ks1 y = due ks y" for y
      by (simp_all add: ks1_def due_def)
    moreover have "ty ks1 x = ty ks x" "ob_Period (ks_Objects ks1 x) = ob_Period (ks_Objects ks x)"
      "ks_KeMaximumIncrement ks1 = ks_KeMaximumIncrement ks"
      by (simp_all add: ks1_def)
    ultimately show ?thesis
      by auto
  qed
  have links: "links W ks1"
    using core(1) by (simp add: core_def)
  consider (nil) "wl ks1 x = []" | (all) "wl ks1 x \<noteq> []" "ty ks1 x = TimerNotificationObject"
    | (one) "wl ks1 x \<noteq> []" "ty ks1 x \<noteq> TimerNotificationObject"
    by blast
  then show ?thesis
  proof cases
    case nil
    then show ?thesis
      using fin[of W ks1] core(1) by (simp add: wake_timer_def)
  next
    case all
    obtain ks' V where ks': "KxUnwaitThread x 0 ks1 = Some ks'" "V \<subseteq> W" "core V ks'" "woke x ks1 V ks'"
      "waiting ks' = waiting ks1 - (W - V)"
      using unwait_all.loop_core[OF core(1,2)] by blast
    then show ?thesis
      using fin[OF ks'(2-5)] KxUnwaitThread_exit[OF ks'(1) links core(2)] all by (simp add: wake_timer_def)
  next
    case one
    have k: "two_state (ty ks1 x)"
      using x(1) by (simp add: ks1_def)
    obtain ks' V where ks': "KxUnwaitThreadForEvent x 0 ks1 = Some ks'" "V \<subseteq> W" "core V ks'" "woke x ks1 V ks'"
      "waiting ks' = waiting ks1 - (W - V)"
      using unwait_event.loop_core[OF core(1,2) k] by blast
    then show ?thesis
      using fin[OF ks'(2-5)] KxUnwaitThreadForEvent_exit[OF ks'(1) links core(2)] one by (simp add: wake_timer_def)
  qed
qed

text \<open>A timer with its due time and hand set goes into the table.\<close>

lemma KiInsertTimerTable_inv:
  fixes c :: KCLOCK
  assumes ok: "links W ks" "queue_ok W ks" "timer_ok {x} ks" "objects_ok ks" "blocked_ok W ks"
    and x: "is_timer (ty ks x)" "ob_Inserted (ks_Objects ks x)" "ob_Hand (ks_Objects ks x) = slot_of ks x mod 256"
  defines "ks' \<equiv> snd (KiInsertTimerTable c x (slot_of ks x) ks)"
  shows "inv_on W ks'" "waiting ks' = waiting ks" "x \<in> set (ks_TimerTable ks' (slot_of ks x))"
proof -
  let ?s = "if ob_Period (ks_Objects ks x) = 0 then 0 else sig ks x"
  have "links W ks' = links W ks"
    by (rule links_cong) (simp_all add: ks'_def)
  moreover have "queue_ok W ks' = queue_ok W ks"
    by (rule queue_ok_cong) (simp_all add: ks'_def)
  moreover have "timer_ok {} ks'"
    using KiInsertTimerTable_ok[OF ok(3) _ x(2,3,1)] by (simp add: ks'_def)
  moreover have "?s = 0 \<or> ?s = 1"
    using ok(4) is_timer_two_state[OF x(1)] by (auto simp: objects_ok_def dest: signal_okD(4))
  then have "objects_ok (set_signal x ?s ks)"
    using ok(4) is_timer_two_state[OF x(1)] by (intro event_set_signal)
  then have "objects_ok ks'"
    by (subst objects_ok_cong[of _ "set_signal x ?s ks"]) (simp_all add: ks'_def)
  moreover have "blocked_ok W ks'"
    by (rule blocked_ok_mono[OF ok(5)]) (auto simp: ks'_def offers_def can_take_def split: if_splits)
  ultimately show "inv_on W ks'"
    using ok by (simp add: inv_on_def core_def)
  show "waiting ks' = waiting ks"
    by (simp add: waiting_def ks'_def)
  show "x \<in> set (ks_TimerTable ks' (slot_of ks x))"
    unfolding ks'_def by (rule KiInsertTimerTable_table[of ks "slot_of ks x" c x]) simp
qed

lemma KiSignalTimer_eq:
  "KiSignalTimer cs x ks =
     wake_timer x (upd_object x (\<lambda>ob. ob\<lparr>ob_Inserted := False, ob_SignalState := 1\<rparr>) ks) \<bind> (\<lambda>ks1.
     (if ob_Period (ks_Objects ks x) = 0 then Some ks1
      else insert_tree_timer_loop cs x (ob_Period (ks_Objects ks x) * - 10000) ks1) \<bind> (\<lambda>ks2.
     Some (ob_Dpc (ks_Objects ks x), ks2)))"
  by (simp add: KiSignalTimer_def wake_timer_def Let_def)

text \<open>A periodic timer is inserted again, with a due time in the future.\<close>

lemma KiInsertTreeTimer_inv:
  assumes inv: "ke_inv ks" and x: "x = Obj n" "is_timer (ty ks x)" "\<not> ob_Inserted (ks_Objects ks x)" and d: "Interval < 0"
    and eq: "KiInsertTreeTimer c c' x Interval ks = (r, ks')"
  shows "ke_inv ks'" "ty ks' x = ty ks x" "\<not> r \<Longrightarrow> \<not> ob_Inserted (ks_Objects ks' x)"
proof -
  obtain Due where comp: "KiComputeDueTime c x Interval ks = (True, upd_object x (\<lambda>ob. ob\<lparr>ob_Absolute := False, ob_DueTime := Due,
      ob_Hand := KiComputeTimerTableIndex ks Due mod 256, ob_Inserted := True\<rparr>) ks)"
    using d by (simp add: KiComputeDueTime_def Let_def)
  define ks1 where "ks1 = upd_object x (\<lambda>ob. ob\<lparr>ob_Absolute := False, ob_DueTime := Due,
      ob_Hand := KiComputeTimerTableIndex ks Due mod 256, ob_Inserted := True\<rparr>) ks"
  let ?W = "waiting ks"
  note ok = ke_inv_links[OF inv]
  have ok1: "links ?W ks1" "queue_ok ?W ks1" "timer_ok {x} ks1" "objects_ok ks1" "blocked_ok ?W ks1"
  proof -
    show "links ?W ks1"
      using ok(1) by (subst links_cong[of _ ks]) (simp_all add: ks1_def x)
    show "queue_ok ?W ks1"
      using ok(2) by (subst queue_ok_cong[of _ ks]) (simp_all add: ks1_def)
    show "timer_ok {x} ks1"
      unfolding ks1_def using timer_ok_add[OF ok(3) x(3)] by (rule timer_ok_exempt) simp
    show "objects_ok ks1"
      using ok(4) by (subst objects_ok_cong[of _ ks]) (simp_all add: ks1_def)
    show "blocked_ok ?W ks1"
      using ok(5) by (subst blocked_ok_cong[of _ ks]) (simp_all add: ks1_def)
  qed
  have x1: "is_timer (ty ks1 x)" "ob_Inserted (ks_Objects ks1 x)" "ob_Hand (ks_Objects ks1 x) = slot_of ks1 x mod 256"
    using x(2) by (simp_all add: ks1_def slot_of_def due_def)
  define ks2 where "ks2 = snd (KiInsertTimerTable c' x (slot_of ks1 x) ks1)"
  note ins = KiInsertTimerTable_inv[OF ok1 x1, of c', folded ks2_def]
  have w: "waiting ks2 = ?W"
    using ins(2) by (simp add: ks1_def waiting_def)
  have ty: "ty ks2 x = ty ks x"
    by (simp add: ks2_def ks1_def)
  have res: "(r, ks') = (if fst (KiInsertTimerTable c' x (slot_of ks1 x) ks1)
      then (False, upd_object x (\<lambda>ob. ob\<lparr>ob_Inserted := False\<rparr>) (KiRemoveEntryTimer x ks2)) else (True, ks2))"
    using eq unfolding KiInsertTreeTimer_def comp ks1_def[symmetric] slot_of_def[symmetric] ks2_def
    by (simp split: prod.splits bool.splits)
  have ok2: "links ?W ks2" "queue_ok ?W ks2" "timer_ok {} ks2" "objects_ok ks2" "blocked_ok ?W ks2"
    using ins(1) by (simp_all add: inv_on_def core_def)
  define ks3 where "ks3 = upd_object x (\<lambda>ob. ob\<lparr>ob_Inserted := False\<rparr>) (KiRemoveEntryTimer x ks2)"
  have "timer_ok {x} ks3"
    unfolding ks3_def using KiRemoveEntryTimer_ok[OF ok2(3) ins(3)] by (intro timer_ok_exempt) simp_all
  then have "timer_ok {} ks3"
    by (rule timer_ok_drop) (simp add: ks3_def)
  moreover have "links ?W ks3"
    using ok2(1) by (rule links_uninserted) (auto simp: ks3_def x split: if_splits)
  moreover have "queue_ok ?W ks3" "objects_ok ks3" "blocked_ok ?W ks3"
    using queue_ok_cong[of ks3 ks2 ?W] objects_ok_cong[of ks3 ks2] blocked_ok_cong[of ks3 ks2 ?W] ok2
    by (simp_all add: ks3_def)
  moreover have "waiting ks3 = waiting ks2"
    by (simp add: waiting_def ks3_def)
  ultimately have "ke_inv ks3"
    using w by (simp add: ke_inv_def inv_on_def core_def)
  moreover have "ke_inv ks2"
    using ins(1) w by (simp add: ke_inv_def)
  ultimately show "ke_inv ks'" "ty ks' x = ty ks x" "\<not> r \<Longrightarrow> \<not> ob_Inserted (ks_Objects ks' x)"
    using res ty by (auto simp: ks3_def split: if_splits)
qed

lemma insert_tree_timer_loop_inv:
  assumes "ke_inv ks" "x = Obj n" "is_timer (ty ks x)" "\<not> ob_Inserted (ks_Objects ks x)" "Interval < 0"
    "insert_tree_timer_loop cs x Interval ks = Some ks'"
  shows "ke_inv ks'"
  using assms
proof (induction cs x Interval ks arbitrary: ks' rule: insert_tree_timer_loop.induct)
  case (2 c c' cs x Interval ks)
  obtain r ks1 where eq: "KiInsertTreeTimer c c' x Interval ks = (r, ks1)"
    by fastforce
  note step = KiInsertTreeTimer_inv[OF 2(2-6) eq]
  show ?case
  proof (cases r)
    case True
    then show ?thesis
      using 2(7) step(1) eq by simp
  next
    case False
    then show ?thesis
      using 2(1)[OF eq[symmetric]] 2(3,6,7) eq step 2(4) by simp
  qed
qed simp

text \<open>
  Signalling a timer that is out of the table. A timer without a period always gets through; a
  periodic one is inserted again, which takes as many rounds as the clock needs to be read
  before the next due time.
\<close>

lemma KiSignalTimer_inv:
  assumes ok: "links W ks" "queue_ok W ks" "timer_ok {x} ks" "objects_ok ks" "blocked_ok W ks" "waiting ks = W"
    and x: "is_timer (ty ks x)" "wl_ok W ks x"
    and p: "ob_Period (ks_Objects ks x) = 0 \<or> ob_Period (ks_Objects ks x) > 0 \<and> (\<exists>n. x = Obj n)"
  shows "KiSignalTimer cs x ks = Some (r, ks') \<Longrightarrow> ke_inv ks'"
    "ob_Period (ks_Objects ks x) = 0 \<Longrightarrow> \<exists>r ks'. KiSignalTimer cs x ks = Some (r, ks')"
proof -
  obtain ks1 where ks1: "wake_timer x (upd_object x (\<lambda>ob. ob\<lparr>ob_Inserted := False, ob_SignalState := 1\<rparr>) ks) = Some ks1"
    "ke_inv ks1" "ty ks1 x = ty ks x" "\<not> ob_Inserted (ks_Objects ks1 x)"
    using wake_timer_ok[OF ok is_timer_two_state[OF x(1)] x(2)] by blast
  have loop: "ke_inv ks2" if "ob_Period (ks_Objects ks x) \<noteq> 0"
    "insert_tree_timer_loop cs x (ob_Period (ks_Objects ks x) * - 10000) ks1 = Some ks2" for ks2
    using p that x(1) ks1 insert_tree_timer_loop_inv[OF ks1(2) _ _ ks1(4) _ that(2)] by auto
  show "KiSignalTimer cs x ks = Some (r, ks') \<Longrightarrow> ke_inv ks'"
    using loop ks1(2) by (auto simp: KiSignalTimer_eq ks1(1) bind_eq_Some_conv split: if_splits)
  show "ob_Period (ks_Objects ks x) = 0 \<Longrightarrow> \<exists>r ks'. KiSignalTimer cs x ks = Some (r, ks')"
    by (simp add: KiSignalTimer_eq ks1(1))
qed

text \<open>The same for a timer that was in the table, which is how a timer expires.\<close>

lemma KiCompleteTimer_inv:
  assumes inv: "inv_on W ks" "waiting ks = W" and x: "is_timer (ty ks x)" "wl_ok W ks x" "x \<in> set (ks_TimerTable ks h)"
    and p: "ob_Period (ks_Objects ks x) = 0 \<or> ob_Period (ks_Objects ks x) > 0 \<and> (\<exists>n. x = Obj n)"
  shows "KiCompleteTimer cs x ks = Some (r, ks') \<Longrightarrow> ke_inv ks'"
    "ob_Period (ks_Objects ks x) = 0 \<Longrightarrow> \<exists>r ks'. KiCompleteTimer cs x ks = Some (r, ks')"
proof -
  let ?ks = "KiRemoveEntryTimer x ks"
  have ok: "links W ks" "queue_ok W ks" "timer_ok {} ks" "objects_ok ks" "blocked_ok W ks"
    using inv(1) by (simp_all add: inv_on_def core_def)
  have "links W ?ks" "queue_ok W ?ks" "timer_ok {x} ?ks" "objects_ok ?ks" "blocked_ok W ?ks" "waiting ?ks = W"
    "is_timer (ty ?ks x)" "wl_ok W ?ks x"
    using ok x inv(2) KiRemoveEntryTimer_ok[OF ok(3) x(3)]
      links_cong[of ?ks ks W] queue_ok_cong[of ?ks ks W] objects_ok_cong[of ?ks ks] blocked_ok_cong[of ?ks ks W]
    by (simp_all add: waiting_def wl_ok_def)
  from KiSignalTimer_inv[OF this, of cs] p
  show "KiCompleteTimer cs x ks = Some (r, ks') \<Longrightarrow> ke_inv ks'"
    "ob_Period (ks_Objects ks x) = 0 \<Longrightarrow> \<exists>r ks'. KiCompleteTimer cs x ks = Some (r, ks')"
    by (simp_all add: KiCompleteTimer_def)
qed

lemma KxInsertTimer_inv:
  assumes ok: "links W ks" "queue_ok W ks" "timer_ok {x} ks" "objects_ok ks" "blocked_ok W ks" "waiting ks = W"
    and x: "is_timer (ty ks x)" "wl_ok W ks x" "ob_Inserted (ks_Objects ks x)"
      "ob_Hand (ks_Objects ks x) = slot_of ks x mod 256"
    and p: "ob_Period (ks_Objects ks x) = 0 \<or> ob_Period (ks_Objects ks x) > 0 \<and> (\<exists>n. x = Obj n)"
  shows "KxInsertTimer c cs x ks = Some ks' \<Longrightarrow> ke_inv ks'"
    "ob_Period (ks_Objects ks x) = 0 \<Longrightarrow> \<exists>ks'. KxInsertTimer c cs x ks = Some ks'"
proof -
  define ks1 where "ks1 = snd (KiInsertTimerTable c x (slot_of ks x) ks)"
  note ins = KiInsertTimerTable_inv[OF ok(1-5) x(1,3,4), of c, folded ks1_def]
  have eq: "KxInsertTimer c cs x ks =
    (if fst (KiInsertTimerTable c x (slot_of ks x) ks) then map_option snd (KiCompleteTimer cs x ks1) else Some ks1)"
    by (simp add: KxInsertTimer_def ks1_def slot_of_def[symmetric] split: prod.split bool.split)
  have w: "waiting ks1 = W"
    using ins(2) ok(6) by simp
  have x1: "is_timer (ty ks1 x)" "wl_ok W ks1 x" "ob_Period (ks_Objects ks1 x) = ob_Period (ks_Objects ks x)"
    using x(1,2) by (simp_all add: ks1_def wl_ok_def)
  note complete = KiCompleteTimer_inv[OF ins(1) w x1(1,2) ins(3), unfolded x1(3), OF p]
  show "ke_inv ks'" if "KxInsertTimer c cs x ks = Some ks'"
    using that complete(1) ins(1) w by (auto simp: eq ke_inv_def split: if_splits)
  show "\<exists>ks'. KxInsertTimer c cs x ks = Some ks'" if "ob_Period (ks_Objects ks x) = 0"
    using complete(2)[OF that, of cs] by (auto simp: eq)
qed

section \<open>Blocking\<close>

lemma KiBlockThread_ok:
  assumes ok: "entering t timed W ks" "queue_ok W ks" and t: "t \<in> W" and w: "waiting ks = W - {t}"
  shows "\<exists>ks'. KiBlockThread t timed c ks = Some ks' \<and> ke_inv ks'"
proof -
  define ks1 where "ks1 = upd_thread t (\<lambda>th. th\<lparr>th_State := Waiting\<rparr>) ks"
  have w1: "waiting ks1 = W"
    using w t by (auto simp: ks1_def waiting_def)
  have ok1: "entering t timed W ks1"
    using ok(1) by (subst entering_cong[where ks = ks and s = "\<lambda>x. sig ks x" and e = "\<lambda>x. ob_EntryList (ks_Objects ks x)"
          and c = "\<lambda>x. ob_CurrentCount (ks_Objects ks x)"]) (auto simp: ks1_def)
  have q1: "queue_ok W ks1"
    using ok(2) by (subst queue_ok_cong[of _ ks]) (simp_all add: ks1_def)
  show ?thesis
  proof (cases timed)
    case False
    then have "ke_inv ks1"
      using ok1 q1 w1 by (simp add: entering_def ke_inv_def inv_on_def core_def)
    then show ?thesis
      using False by (simp add: KiBlockThread_def ks1_def)
  next
    case True
    let ?x = "TimerOf t"
    have e: "links W ks1" "timer_ok {?x} ks1" "objects_ok ks1" "blocked_ok W ks1" "live W ks1 ?x"
      "ob_Inserted (ks_Objects ks1 ?x)" "ob_Hand (ks_Objects ks1 ?x) = slot_of ks1 ?x mod 256"
      using ok1 True t by (simp_all add: entering_def)
    have "ty ks1 ?x = TimerNotificationObject" "ob_Period (ks_Objects ks1 ?x) = 0"
      using e(3) by (simp_all add: objects_ok_def timers_typed_def)
    then show ?thesis
      using KxInsertTimer_inv[OF e(1) q1 e(2-4) w1 _ linksD(1)[OF e(1,5)] e(6,7), of c "[]"] True
      by (auto simp: KiBlockThread_def ks1_def[symmetric] is_timer_def)
  qed
qed

end
