(* ===== verification/Ke_Waiting.thy ===== *)
theory Ke_Waiting
  imports Ke_Blocking
begin

text \<open>
  The wait functions and the queue functions keep the invariant of the dispatcher database, and
  every pass of a wait function ends.
\<close>

section \<open>The end of a pass that blocks\<close>

lemma block_ok:
  assumes inv: "inv_on W ks" "waiting ks = W" and t: "t \<notin> W"
    and w: "waitable ks t obs" "\<And>b. b \<in> set obs \<Longrightarrow> ty ks (wb_Object b) \<noteq> QueueObject"
    and e: "enqueued t obs timed ks ks1"
    and sat: "\<not> wait_satisfied ks1 t"
    and hand: "timed \<Longrightarrow> ob_Hand (ks_Objects ks (TimerOf t)) = slot_of ks (TimerOf t) mod 256"
  shows "\<exists>ks'. KiBlockThread t timed c (activate_queue t ks1) = Some ks' \<and> ke_inv ks'"
proof -
  note eD = enqueuedD[OF e]
  have ok: "links W ks" "queue_ok W ks" "timer_ok {} ks" "objects_ok ks" "blocked_ok W ks"
    using inv(1) by (simp_all add: inv_on_def core_def)
  note ent = enqueue_entering[OF ok t w(1) e sat hand]
  have "ty ks (TimerOf t) \<noteq> QueueObject"
    using ok(4) by (simp add: objects_ok_def timers_typed_def)
  then have nq: "ty ks1 (wb_Object b) \<noteq> QueueObject" if "b \<in> set (bl ks1 t)" for b
    using that w(2) by (auto simp: eD(5,7) timer_block_def split: if_splits)
  have "insert t W - {t} = W"
    using t by simp
  then obtain U where U: "U \<subseteq> insert t W" "t \<notin> U" "entering t timed (insert t W - U) (activate_queue t ks1)"
    "queue_ok (insert t W - U) (activate_queue t ks1)" "waiting (activate_queue t ks1) = waiting ks1 - U"
    using activate_queue_ok[OF ent(1) _ _ nq] ent(2) by auto
  have "waiting ks1 = W"
    using inv(2) by (simp add: waiting_def eD(13))
  then have "waiting (activate_queue t ks1) = insert t W - U - {t}"
    using U(5) t by auto
  then show ?thesis
    using KiBlockThread_ok[OF U(3,4)] U(2) by simp
qed

section \<open>Satisfying a wait at once\<close>

text \<open>A thread can take an object, and a mutant it owns already has room for one more level.\<close>

definition takeable :: "KSTATE \<Rightarrow> tid \<Rightarrow> oid \<Rightarrow> bool" where
  "takeable ks t x = (offers ks t x \<and> \<not> (ty ks x = MutantObject \<and> sig ks x = MINLONG))"

lemma KiSatisfyObjectWait_other:
  "y \<noteq> x \<Longrightarrow> ks_Objects (KiSatisfyObjectWait x t ks) y = ks_Objects ks y"
  by (simp add: KiSatisfyObjectWait_def KiSatisfyMutantWait_objects KiSatisfyNonMutantWait_def Let_def)

lemma satisfy_ke_inv:
  assumes inv: "ke_inv ks" and t: "t \<notin> waiting ks" and x: "takeable ks t x"
  shows "ke_inv (KiSatisfyObjectWait x t ks)"
proof -
  let ?ks = "KiSatisfyObjectWait x t ks"
  note ok = ke_inv_links(4)[OF inv]
  have objects: "objects_ok ?ks"
    using x ok by (auto simp: KiSatisfyObjectWait_def takeable_def offers_def can_take_def
        intro: KiSatisfyMutantWait_objects_ok KiSatisfyNonMutantWait_objects_ok)
  have same: "same_links ks ?ks"
    by (rule KiSatisfyObjectWait_same_links)
  have "woke x ks (waiting ks) ?ks"
    using same t KiSatisfyObjectWait_other[of _ x t ks]
    by (auto simp: woke_def same_links_def KiSatisfyObjectWait_def KiSatisfyMutantWait_objects KiSatisfyNonMutantWait_def Let_def
        split: if_splits)
  moreover have "sig ?ks x \<le> 0 \<or> sig ks x > 0"
  proof (cases "ty ks x = MutantObject")
    case True
    then have "sig ks x \<le> 1" "MINLONG \<le> sig ks x" "sig ks x \<noteq> MINLONG"
      using ok x by (auto simp: objects_ok_def takeable_def dest: mutant_okD)
    then show ?thesis
      using True by (simp add: KiSatisfyObjectWait_def KiSatisfyMutantWait_objects s32_id Let_def)
  next
    case False
    then show ?thesis
      using x by (auto simp: takeable_def offers_def can_take_def)
  qed
  ultimately show ?thesis
    using ke_inv_quiet[OF inv same objects] by blast
qed

lemma satisfy_all_ke_inv:
  assumes "ke_inv ks" "t \<notin> waiting ks" "distinct (map wb_Object bs)" "\<And>b. b \<in> set bs \<Longrightarrow> takeable ks t (wb_Object b)"
  shows "ke_inv (fold (\<lambda>b. KiSatisfyObjectWait (wb_Object b) t) bs ks)"
  using assms
proof (induction bs arbitrary: ks)
  case (Cons b bs)
  let ?ks = "KiSatisfyObjectWait (wb_Object b) t ks"
  have "takeable ?ks t (wb_Object b')" if "b' \<in> set bs" for b'
  proof -
    have "wb_Object b' \<noteq> wb_Object b"
      using Cons.prems(3) that by (metis distinct.simps(2) image_eqI list.set_map list.simps(9))
    then show ?thesis
      using Cons.prems(4)[of b'] that KiSatisfyObjectWait_other[of "wb_Object b'" "wb_Object b" t ks]
      by (simp add: takeable_def offers_def can_take_def)
  qed
  moreover have "ke_inv ?ks"
    using Cons.prems by (intro satisfy_ke_inv) simp_all
  moreover have "t \<notin> waiting ?ks"
    using Cons.prems(2) same_links_inv(4)[OF KiSatisfyObjectWait_same_links] by simp
  ultimately show ?case
    using Cons by simp
qed simp

text \<open>The loops that look at the objects of a wait.\<close>

lemma wait_any_scan_inv:
  assumes "ke_inv ks" "t \<notin> waiting ks" "\<And>x. x \<in> set xs \<Longrightarrow> ty ks x \<noteq> QueueObject" "wait_any_scan t i xs ks = Some (r, ks')"
  shows "ke_inv ks'"
  using assms
proof (induction t i xs ks rule: wait_any_scan.induct)
  case (2 t i x xs ks)
  let ?mutant = "ty ks x = MutantObject \<and> (sig ks x > 0 \<or> owner ks x = Some t)"
  let ?other = "ty ks x \<noteq> MutantObject \<and> sig ks x > 0"
  have q: "ty ks x \<noteq> QueueObject"
    using 2(4) by simp
  consider (mutant) "?mutant" "sig ks x \<noteq> MINLONG" | (limit) "?mutant" "sig ks x = MINLONG"
    | (other) "?other" | (scan) "\<not> ?mutant" "\<not> ?other"
    by blast
  then show ?case
  proof cases
    case mutant
    then have "ks' = KiSatisfyObjectWait x t ks"
      using 2(5) by (auto simp: Let_def KiSatisfyObjectWait_def)
    then show ?thesis
      using mutant 2(2,3) by (auto intro: satisfy_ke_inv simp: takeable_def offers_def can_take_def)
  next
    case limit
    then show ?thesis
      using 2(2,5) by (auto simp: Let_def)
  next
    case other
    then have "ks' = KiSatisfyObjectWait x t ks"
      using 2(5) by (auto simp: Let_def KiSatisfyObjectWait_def)
    then show ?thesis
      using other 2(2,3) q by (auto intro: satisfy_ke_inv simp: takeable_def offers_def can_take_def)
  next
    case scan
    then show ?thesis
      using 2(1)[OF refl] 2(2-5) by (auto simp: Let_def)
  qed
qed simp

lemma wait_any_scan_None:
  "wait_any_scan t i xs ks = None \<Longrightarrow> x \<in> set xs \<Longrightarrow> \<not> offers ks t x"
  by (induction t i xs ks rule: wait_any_scan.induct) (auto simp: Let_def offers_def can_take_def split: if_splits)

lemma wait_all_scan_True:
  "wait_all_scan t xs ks = Inr True \<Longrightarrow> (\<And>x. x \<in> set xs \<Longrightarrow> ty ks x \<noteq> QueueObject) \<Longrightarrow> x \<in> set xs \<Longrightarrow>
   mutant_ok ks \<Longrightarrow> takeable ks t x"
proof (induction t xs ks rule: wait_all_scan.induct)
  case (2 t y xs ks)
  have "ty ks y = MutantObject \<Longrightarrow> sig ks y = MINLONG \<Longrightarrow> sig ks y \<le> 0"
    by simp
  then show ?case
    using 2 by (auto simp: Let_def takeable_def offers_def can_take_def split: if_splits)
qed simp

lemma wait_all_scan_False:
  "wait_all_scan t xs ks = Inr False \<Longrightarrow> \<exists>x \<in> set xs. \<not> offers ks t x"
  by (induction t xs ks rule: wait_all_scan.induct) (auto simp: Let_def offers_def can_take_def split: if_splits)

lemma wait_scan_inv:
  assumes "ke_inv ks" "t \<notin> waiting ks" "\<And>x. x \<in> set xs \<Longrightarrow> ty ks x \<noteq> QueueObject" "wait_scan t wt xs ks = Some (r, ks')"
    "map wb_Object (bl ks t) = xs" "wt = WaitAll \<Longrightarrow> distinct xs"
  shows "ke_inv ks'"
proof (cases "wt = WaitAny")
  case True
  then show ?thesis
    using assms(4) wait_any_scan_inv[OF assms(1-3)] by (simp add: wait_scan_def)
next
  case False
  then have d: "distinct (map wb_Object (bl ks t))"
    using assms(5,6) by (cases wt) auto
  show ?thesis
  proof (cases "wait_all_scan t xs ks")
    case (Inl e)
    then show ?thesis
      using assms(1,4) False by (simp add: wait_scan_def)
  next
    case (Inr b)
    then have b: "wait_all_scan t xs ks = Inr True"
      using assms(4) False by (cases b) (auto simp: wait_scan_def)
    have "mutant_ok ks"
      using ke_inv_links(4)[OF assms(1)] by (simp add: objects_ok_def)
    then have "takeable ks t (wb_Object b)" if "b \<in> set (bl ks t)" for b
      using wait_all_scan_True[OF b assms(3)] that assms(5) by auto
    then show ?thesis
      using satisfy_all_ke_inv[OF assms(1,2) d] assms(4) False b by (simp add: wait_scan_def Let_def)
  qed
qed

section \<open>The wait functions\<close>

lemma upd_thread_cong: "f (ks_Threads ks t) = g (ks_Threads ks t) \<Longrightarrow> upd_thread t f ks = upd_thread t g ks"
  by (simp add: upd_thread_def)

lemma upd_thread_idem: "f (ks_Threads ks t) = ks_Threads ks t \<Longrightarrow> upd_thread t f ks = ks"
  by (cases ks) (simp add: upd_thread_def fun_upd_idem)

lemma KiCheckAlertability_thread:
  "\<exists>A P. snd (KiCheckAlertability t a m ks) = upd_thread t (\<lambda>th. th\<lparr>th_Alerted := A, th_UserApcPending := P\<rparr>) ks"
proof -
  let ?th = "ks_Threads ks t"
  have id: "ks = upd_thread t (\<lambda>th. th\<lparr>th_Alerted := th_Alerted ?th, th_UserApcPending := th_UserApcPending ?th\<rparr>) ks"
    by (rule upd_thread_idem[symmetric]) (cases ?th, simp)
  have alerted: "upd_thread t (\<lambda>th. th\<lparr>th_Alerted := (th_Alerted th)(m := False)\<rparr>) ks =
    upd_thread t (\<lambda>th. th\<lparr>th_Alerted := (th_Alerted ?th)(m := False), th_UserApcPending := th_UserApcPending ?th\<rparr>) ks" for m
    by (rule upd_thread_cong) (cases ?th, simp)
  have apc: "upd_thread t (\<lambda>th. th\<lparr>th_UserApcPending := True\<rparr>) ks =
    upd_thread t (\<lambda>th. th\<lparr>th_Alerted := th_Alerted ?th, th_UserApcPending := True\<rparr>) ks"
    by (rule upd_thread_cong) (cases ?th, simp)
  define Q where "Q ks' = (\<exists>A P. ks' = upd_thread t (\<lambda>th. th\<lparr>th_Alerted := A, th_UserApcPending := P\<rparr>) ks)" for ks'
  have "Q ks" "Q (upd_thread t (\<lambda>th. th\<lparr>th_UserApcPending := True\<rparr>) ks)"
    "Q (upd_thread t (\<lambda>th. th\<lparr>th_Alerted := (th_Alerted th)(m := False)\<rparr>) ks)" for m
    unfolding Q_def using id alerted[of m] apc by blast+
  then have "Q (snd (KiCheckAlertability t a m ks))"
    by (simp add: KiCheckAlertability_def Let_def)
  then show ?thesis
    by (simp add: Q_def)
qed

lemma KiCheckAlertability_keeps:
  assumes "KiCheckAlertability t a m ks = (s, ks')"
  shows "inv_on W ks' = inv_on W ks" "waiting ks' = waiting ks" "ks_Objects ks' = ks_Objects ks" "bl ks' u = bl ks u"
    "queue ks' u = queue ks u" "slot_of ks' = slot_of ks" "due ks' = due ks"
proof -
  obtain A P where ks': "ks' = upd_thread t (\<lambda>th. th\<lparr>th_Alerted := A, th_UserApcPending := P\<rparr>) ks"
    using KiCheckAlertability_thread[of t a m ks] assms by auto
  show "inv_on W ks' = inv_on W ks" "waiting ks' = waiting ks"
    unfolding ks' by (simp_all add: inv_upd_thread)
  show "ks_Objects ks' = ks_Objects ks" "bl ks' u = bl ks u" "queue ks' u = queue ks u" "slot_of ks' = slot_of ks" "due ks' = due ks"
    unfolding ks' by (simp_all add: slot_of_def due_def KiComputeTimerTableIndex_def fun_eq_iff)
qed

text \<open>The wait blocks of an object and of the timer go into the wait lists.\<close>

lemma fold_insert_wait_block:
  "ks_Objects (fold insert_wait_block bs ks) y = (ks_Objects ks y)\<lparr>ob_WaitList := wl ks y @ [b \<leftarrow> bs. wb_Object b = y]\<rparr>"
  "ks_Threads (fold insert_wait_block bs ks) = ks_Threads ks"
  "ks_TimerTable (fold insert_wait_block bs ks) = ks_TimerTable ks"
  "ks_TimerTime (fold insert_wait_block bs ks) = ks_TimerTime ks"
  "ks_KeMaximumIncrement (fold insert_wait_block bs ks) = ks_KeMaximumIncrement ks"
  by (induction bs arbitrary: ks) (simp_all add: insert_wait_block_def)

lemma object_block_simps [simp]:
  "wb_Thread (object_block t i x w) = t" "wb_Slot (object_block t i x w) = Slot i" "wb_Object (object_block t i x w) = x"
  "wb_WaitType (object_block t i x w) = w"
  by (simp_all add: object_block_def)

lemma timer_block_simps [simp]:
  "wb_Thread (timer_block t) = t" "wb_Slot (timer_block t) = TimerSlot" "wb_Object (timer_block t) = TimerOf t"
  by (simp_all add: timer_block_def)

lemma enqueued_single:
  assumes bl: "bl ks t = b # (if timed then [timer_block t] else [])" and b: "wb_Object b = Obj n"
    and tm: "timed \<Longrightarrow> wl ks (TimerOf t) = [timer_block t]" "distinct (wl ks (TimerOf t))"
    and out: "\<not> ob_Inserted (ks_Objects ks (TimerOf t))"
  shows "enqueued t [b] timed ks (insert_wait_block b (if timed then activate_timer t ks else ks))"
proof -
  have th: "(ks_Threads ks)(t := (ks_Threads ks t)\<lparr>th_WaitBlockList := b # (if timed then [timer_block t] else [])\<rparr>) = ks_Threads ks"
    by (rule ext) (use bl in \<open>cases "ks_Threads ks t", auto\<close>)
  have "\<exists>ts. (if timed then (ks_Objects ks (TimerOf t))\<lparr>ob_Inserted := True\<rparr> else ks_Objects ks (TimerOf t)) =
      (ks_Objects ks (TimerOf t))\<lparr>ob_WaitList := ts, ob_Inserted := timed\<rparr> \<and> (if timed then ts = [timer_block t] else distinct ts)"
    using tm out by (intro exI[of _ "wl ks (TimerOf t)"]) (cases "ks_Objects ks (TimerOf t)", auto)
  then show ?thesis
    using b th by (auto simp: enqueued_def insert_wait_block_def activate_timer_def)
qed

lemma prepared_waiting: "prepared t bs ts timed ks ks' \<Longrightarrow> waiting ks' = waiting ks"
  unfolding prepared_def waiting_def by (intro Collect_cong) metis

text \<open>
  The last part of a pass, when the wait cannot be satisfied at once: the thread is alerted, its
  time is over, or it blocks.
\<close>

lemma pass_end:
  assumes inv: "inv_on W ks" "waiting ks = W" and t: "t \<notin> W"
    and block: "\<And>ks2. inv_on W ks2 \<Longrightarrow> waiting ks2 = W \<Longrightarrow> ks_Objects ks2 = ks_Objects ks \<Longrightarrow> bl ks2 t = bl ks t \<Longrightarrow>
      queue ks2 t = queue ks t \<Longrightarrow> slot_of ks2 = slot_of ks \<Longrightarrow> \<exists>ks'. B ks2 = Some ks' \<and> ke_inv ks'"
  shows "\<exists>r ks'. (case KiCheckAlertability t a m ks of (WaitStatus, ks) \<Rightarrow>
           if WaitStatus \<noteq> STATUS_WAIT_0 then Some (Returned WaitStatus, ks)
           else if E ks then Some (Returned STATUS_TIMEOUT, ks)
           else map_option (Pair Blocked) (B ks)) = Some (r, ks') \<and> ke_inv ks'"
proof -
  obtain s ks2 where eq: "KiCheckAlertability t a m ks = (s, ks2)"
    by fastforce
  note keep = KiCheckAlertability_keeps[OF eq]
  have "ke_inv ks2"
    using inv by (simp add: ke_inv_def keep)
  moreover obtain ks' where "B ks2 = Some ks'" "ke_inv ks'"
    using block[of ks2] inv by (auto simp: keep)
  ultimately show ?thesis
    by (simp add: eq)
qed

lemma KeWaitForSingleObject_ok:
  assumes inv: "ke_inv ks" and t: "t \<notin> waiting ks" and x: "ty ks (Obj n) \<noteq> QueueObject"
  shows "\<exists>r ks'. KeWaitForSingleObject t irql (Obj n) reason m a to c1 c2 c3 ks = Some (r, ks') \<and> ke_inv ks'"
proof -
  let ?x = "Obj n" and ?b = "object_block t 0 (Obj n) WaitAny" and ?timed = "to \<noteq> None" and ?W = "waiting ks"
  define ks1 where "ks1 = KxSingleThreadWait t ?x reason m a to c1 (begin_wait t irql ks)"
  have inv0: "inv_on ?W (begin_wait t irql ks)"
    using inv by (simp add: ke_inv_def)
  have prep: "inv_on ?W ks1" "prepared t (?b # (if ?timed then [timer_block t] else [])) [timer_block t] ?timed (begin_wait t irql ks) ks1"
    using set_up_inv[OF inv0 t, of "[timer_block t]"] set_up_inv_untimed[OF inv0 t]
    by (cases to; simp add: ks1_def KxSingleThreadWait_def Let_def)+
  have w1: "waiting ks1 = ?W"
    using prepared_waiting[OF prep(2)] by simp
  have ob1: "ks_Objects ks1 ?x = ks_Objects ks ?x"
    using prep(2) by (simp add: prepared_def begin_wait_def)
  have inv1: "ke_inv ks1"
    using prep(1) w1 by (simp add: ke_inv_def)
  have t1: "t \<notin> waiting ks1"
    using t w1 by simp
  let ?take = "offers ks1 t ?x"
  have take: "?take \<longleftrightarrow> (if ty ks1 ?x = MutantObject then sig ks1 ?x > 0 \<or> owner ks1 ?x = Some t else sig ks1 ?x > 0)"
    using x by (auto simp: offers_def can_take_def ob1)
  consider (apc) "kernel_apc_deliverable (ks_Threads ks1 t)"
    | (take) "\<not> kernel_apc_deliverable (ks_Threads ks1 t)" "?take"
    | (pend) "\<not> kernel_apc_deliverable (ks_Threads ks1 t)" "\<not> ?take"
    by blast
  then show ?thesis
  proof cases
    case apc
    then show ?thesis
      using inv1 by (simp add: KeWaitForSingleObject_def Let_def ks1_def[symmetric])
  next
    case take
    have "ke_inv (KiSatisfyObjectWait ?x t ks1)" if "\<not> (ty ks1 ?x = MutantObject \<and> sig ks1 ?x = MINLONG)"
      using that take(2) by (intro satisfy_ke_inv[OF inv1 t1]) (simp add: takeable_def)
    then show ?thesis
      using take \<open>?take \<longleftrightarrow> _\<close> inv1
      by (auto simp: KeWaitForSingleObject_def Let_def ks1_def[symmetric] KiSatisfyObjectWait_def split: if_splits)
  next
    case pend
    let ?B = "\<lambda>ks2. KiBlockThread t ?timed c3 (activate_queue t (insert_wait_block ?b (if ?timed then activate_timer t ks2 else ks2)))"
    have block: "\<exists>ks'. ?B ks2 = Some ks' \<and> ke_inv ks'"
      if ks2: "inv_on ?W ks2" "waiting ks2 = ?W" "ks_Objects ks2 = ks_Objects ks1" "bl ks2 t = bl ks1 t"
        "queue ks2 t = queue ks1 t" "slot_of ks2 = slot_of ks1" for ks2
    proof (rule block_ok[OF ks2(1,2) t])
      show "waitable ks2 t [?b]" "\<And>b. b \<in> set [?b] \<Longrightarrow> ty ks2 (wb_Object b) \<noteq> QueueObject"
        using x ob1 by (simp_all add: waitable_def ks2(3))
      have ok: "links ?W ks2"
        using ks2(1) by (simp add: inv_on_def core_def)
      have "\<not> ob_Inserted (ks_Objects ks2 (TimerOf t))"
        using linksD(4)[OF ok, of t] t by auto
      moreover have "bl ks2 t = ?b # (if ?timed then [timer_block t] else [])" "?timed \<Longrightarrow> wl ks2 (TimerOf t) = [timer_block t]"
        using prep(2) unfolding prepared_def ks2(3,4) by blast+
      ultimately show e: "enqueued t [?b] ?timed ks2 (insert_wait_block ?b (if ?timed then activate_timer t ks2 else ks2))"
        using linksD(3)[OF ok, of "TimerOf t"] by (intro enqueued_single[of ks2 t ?b ?timed n]) simp_all
      show "\<not> wait_satisfied (insert_wait_block ?b (if ?timed then activate_timer t ks2 else ks2)) t"
        using pend(2) enqueuedD(5,7-9)[OF e]
        by (auto simp: wait_satisfied_def object_blocks_def offers_def can_take_def ks2(3))
      show "ob_Hand (ks_Objects ks2 (TimerOf t)) = slot_of ks2 (TimerOf t) mod 256" if ?timed
        using prep(2) that by (simp add: prepared_def ks2(3,6))
    qed
    have "\<not> (ty ks1 ?x = MutantObject \<and> (sig ks1 ?x > 0 \<or> owner ks1 ?x = Some t))" "\<not> (ty ks1 ?x \<noteq> MutantObject \<and> sig ks1 ?x > 0)"
      using pend(2) take by (auto split: if_splits)
    note no = pend(1) this
    show ?thesis
      unfolding KeWaitForSingleObject_def Let_def ks1_def[symmetric] if_not_P[OF no(1)] if_not_P[OF no(2)] if_not_P[OF no(3)]
      by (rule pass_end[OF prep(1) w1 t, of ?B "\<lambda>ks. ?timed \<and> timer_expired t c2 ks" a m, OF block])
  qed
qed

definition link_timer_block :: "tid \<Rightarrow> bool \<Rightarrow> KSTATE \<Rightarrow> KSTATE" where
  "link_timer_block t timed ks =
     (if timed then upd_thread t (\<lambda>th. th\<lparr>th_WaitBlockList := th_WaitBlockList th @ [timer_block t]\<rparr>) (activate_timer t ks) else ks)"

lemma enqueued_multi:
  assumes bl: "bl ks t = obs" and obs: "\<And>b. b \<in> set obs \<Longrightarrow> \<exists>n. wb_Object b = Obj n"
    and tm: "timed \<Longrightarrow> wl ks (TimerOf t) = []" "distinct (wl ks (TimerOf t))"
    and out: "\<not> ob_Inserted (ks_Objects ks (TimerOf t))"
  shows "enqueued t obs timed ks
    (fold insert_wait_block (bl (link_timer_block t timed ks) t) (link_timer_block t timed ks))"
proof -
  have no: "[b \<leftarrow> obs. wb_Object b = TimerOf u] = []" for u
    using obs by (fastforce simp: filter_empty_conv)
  show ?thesis
  proof (cases timed)
    case True
    have "(ks_Objects ks (TimerOf t))\<lparr>ob_Inserted := True, ob_WaitList := [timer_block t]\<rparr> =
      (ks_Objects ks (TimerOf t))\<lparr>ob_WaitList := [timer_block t], ob_Inserted := True\<rparr>"
      by (cases "ks_Objects ks (TimerOf t)") simp
    moreover have "(ks_Threads ks t)\<lparr>th_WaitBlockList := obs\<rparr> = ks_Threads ks t"
      using bl by (cases "ks_Threads ks t") simp
    ultimately show ?thesis
      using True bl tm no
      by (simp add: enqueued_def fold_insert_wait_block link_timer_block_def activate_timer_def del: fold_append)
  next
    case False
    have "(ks_Threads ks)(t := (ks_Threads ks t)\<lparr>th_WaitBlockList := obs\<rparr>) = ks_Threads ks"
      by (rule ext) (use bl in \<open>cases "ks_Threads ks t", auto\<close>)
    moreover have "(ks_Objects ks (TimerOf t))\<lparr>ob_WaitList := wl ks (TimerOf t)\<rparr> =
      (ks_Objects ks (TimerOf t))\<lparr>ob_WaitList := wl ks (TimerOf t), ob_Inserted := False\<rparr>"
      using out by (cases "ks_Objects ks (TimerOf t)") simp
    ultimately show ?thesis
      using False bl tm no by (auto simp: enqueued_def fold_insert_wait_block link_timer_block_def intro!: exI[of _ "wl ks (TimerOf t)"])
  qed
qed

definition object_blocks_for :: "tid \<Rightarrow> oid list \<Rightarrow> WAIT_TYPE \<Rightarrow> KWAIT_BLOCK list" where
  "object_blocks_for t xs wt = map (\<lambda>i. object_block t i (xs ! i) wt) [0..<length xs]"

lemma object_blocks_for_objects: "map wb_Object (object_blocks_for t xs wt) = xs"
  by (simp add: object_blocks_for_def comp_def map_nth)

lemma object_blocks_for_set:
  "b \<in> set (object_blocks_for t xs wt) \<Longrightarrow>
   wb_Thread b = t \<and> wb_Slot b \<noteq> TimerSlot \<and> wb_Object b \<in> set xs \<and> wb_WaitType b = wt"
  by (auto simp: object_blocks_for_def)

lemma object_blocks_for_distinct: "distinct (object_blocks_for t xs wt)"
proof -
  have "map wb_Slot (object_blocks_for t xs wt) = map Slot [0..<length xs]"
    by (simp add: object_blocks_for_def)
  moreover have "distinct (map Slot [0..<length xs])"
    by (simp add: distinct_map inj_on_def)
  ultimately show ?thesis
    by (metis distinct_map)
qed

lemma not_satisfied_multi:
  assumes obs: "object_blocks ks' t = object_blocks_for t xs wt" and scan: "wait_scan t wt xs ks = None"
    and same: "\<And>x. offers ks' t x = offers ks t x"
  shows "\<not> wait_satisfied ks' t"
proof (cases wt)
  case WaitAny
  then show ?thesis
    using scan wait_any_scan_None[of t 0 xs ks] object_blocks_for_set[of _ t xs wt]
    by (auto simp: wait_satisfied_def obs same wait_scan_def)
next
  case WaitAll
  have "wait_all_scan t xs ks = Inr False"
    using scan WaitAll by (auto simp: wait_scan_def Let_def split: sum.splits bool.splits)
  then obtain x where x: "x \<in> set xs" "\<not> offers ks t x"
    using wait_all_scan_False by blast
  then obtain b where "b \<in> set (object_blocks_for t xs wt)" "wb_Object b = x"
    using object_blocks_for_objects[of t xs wt] by (metis imageE list.set_map)
  then show ?thesis
    using x(2) object_blocks_for_set[of _ t xs wt] WaitAll by (fastforce simp: wait_satisfied_def obs same)
qed

lemma KeWaitForMultipleObjects_ok:
  assumes inv: "ke_inv ks" and t: "t \<notin> waiting ks"
    and xs: "\<And>x. x \<in> set xs \<Longrightarrow> (\<exists>n. x = Obj n) \<and> ty ks x \<noteq> QueueObject" "wt = WaitAll \<Longrightarrow> distinct xs"
  shows "\<exists>r ks'. KeWaitForMultipleObjects t irql xs wt reason m a to own c1 c2 c3 ks = Some (r, ks') \<and> ke_inv ks'"
proof (cases "length xs > (if own then 64 else 3)")
  case True
  then show ?thesis
    using inv by (simp add: KeWaitForMultipleObjects_def)
next
  case len: False
  let ?timed = "to \<noteq> None" and ?W = "waiting ks" and ?obs = "object_blocks_for t xs wt"
  define ks1 where "ks1 = KxMultiThreadWait t xs wt reason m a to c1 (begin_wait t irql ks)"
  have inv0: "inv_on ?W (begin_wait t irql ks)"
    using inv by (simp add: ke_inv_def)
  have prep: "inv_on ?W ks1" "prepared t ?obs [] ?timed (begin_wait t irql ks) ks1"
    using set_up_inv[OF inv0 t, of "[]"] set_up_inv_untimed[OF inv0 t]
    by (cases to; simp add: ks1_def KxMultiThreadWait_def Let_def object_blocks_for_def[symmetric])+
  have w1: "waiting ks1 = ?W"
    using prepared_waiting[OF prep(2)] by simp
  have inv1: "ke_inv ks1"
    using prep(1) w1 by (simp add: ke_inv_def)
  have ob1: "ks_Objects ks1 (Obj n) = ks_Objects ks (Obj n)" for n
    using prep(2) by (simp add: prepared_def begin_wait_def)
  have ty: "ty ks1 x \<noteq> QueueObject" if "x \<in> set xs" for x
    using xs(1)[OF that] ob1 by auto
  have bl1: "bl ks1 t = ?obs"
    using prep(2) unfolding prepared_def by blast
  consider (apc) "kernel_apc_deliverable (ks_Threads ks1 t)"
    | (scan) r where "\<not> kernel_apc_deliverable (ks_Threads ks1 t)" "wait_scan t wt xs ks1 = Some r"
    | (pend) "\<not> kernel_apc_deliverable (ks_Threads ks1 t)" "wait_scan t wt xs ks1 = None"
    by fastforce
  then show ?thesis
  proof cases
    case apc
    then show ?thesis
      using inv1 len by (simp add: KeWaitForMultipleObjects_def Let_def ks1_def[symmetric])
  next
    case scan
    have "ke_inv (snd r)"
      using scan(2) t w1 ty xs(2) bl1 object_blocks_for_objects
      by (intro wait_scan_inv[OF inv1, of t xs wt "fst r"]) simp_all
    then show ?thesis
      using scan len by (cases r) (simp add: KeWaitForMultipleObjects_def Let_def ks1_def[symmetric])
  next
    case pend
    let ?link = "link_timer_block t ?timed"
    let ?B = "\<lambda>ks2. KiBlockThread t ?timed c3 (activate_queue t (fold insert_wait_block (bl (?link ks2) t) (?link ks2)))"
    have block: "\<exists>ks'. ?B ks2 = Some ks' \<and> ke_inv ks'"
      if ks2: "inv_on ?W ks2" "waiting ks2 = ?W" "ks_Objects ks2 = ks_Objects ks1" "bl ks2 t = bl ks1 t"
        "queue ks2 t = queue ks1 t" "slot_of ks2 = slot_of ks1" for ks2
    proof (rule block_ok[OF ks2(1,2) t])
      show "waitable ks2 t ?obs" "\<And>b. b \<in> set ?obs \<Longrightarrow> ty ks2 (wb_Object b) \<noteq> QueueObject"
        using object_blocks_for_distinct object_blocks_for_set[of _ t xs wt] xs(1) ty by (auto simp: waitable_def ks2(3))
      have ok: "links ?W ks2"
        using ks2(1) by (simp add: inv_on_def core_def)
      have "\<not> ob_Inserted (ks_Objects ks2 (TimerOf t))"
        using linksD(4)[OF ok, of t] t by auto
      moreover have "bl ks2 t = ?obs" "?timed \<Longrightarrow> wl ks2 (TimerOf t) = []"
        using prep(2) unfolding prepared_def ks2(3,4) by blast+
      moreover have "\<exists>n. wb_Object b = Obj n" if "b \<in> set ?obs" for b
        using object_blocks_for_set[OF that] xs(1) by blast
      ultimately show e: "enqueued t ?obs ?timed ks2 (fold insert_wait_block (bl (?link ks2) t) (?link ks2))"
        using linksD(3)[OF ok, of "TimerOf t"] by (intro enqueued_multi)
      show "\<not> wait_satisfied (fold insert_wait_block (bl (?link ks2) t) (?link ks2)) t"
      proof (rule not_satisfied_multi[OF _ pend(2)])
        have "[b \<leftarrow> ?obs. wb_Slot b \<noteq> TimerSlot] = ?obs"
          using object_blocks_for_set[of _ t xs wt] by (auto simp: filter_id_conv)
        then show "object_blocks (fold insert_wait_block (bl (?link ks2) t) (?link ks2)) t = ?obs"
          using enqueuedD(5)[OF e] by (simp add: object_blocks_def)
        show "offers (fold insert_wait_block (bl (?link ks2) t) (?link ks2)) t x = offers ks1 t x" for x
          using enqueuedD(7-9)[OF e] by (simp add: offers_def can_take_def ks2(3))
      qed
      show "ob_Hand (ks_Objects ks2 (TimerOf t)) = slot_of ks2 (TimerOf t) mod 256" if ?timed
        using prep(2) that by (simp add: prepared_def ks2(3,6))
    qed
    show ?thesis
      unfolding KeWaitForMultipleObjects_def Let_def ks1_def[symmetric] if_not_P[OF len] if_not_P[OF pend(1)] pend(2)
        option.case link_timer_block_def[symmetric]
      by (rule pass_end[OF prep(1) w1 t, of ?B "\<lambda>ks. ?timed \<and> timer_expired t c2 ks" a m, OF block])
  qed
qed

end
