(* ===== verification/Ke_Queue.thy ===== *)
theory Ke_Queue
  imports Ke_Waiting
begin

text \<open>
  Delays, queues and timers of the user keep the invariant of the dispatcher database.
\<close>

section \<open>Delays\<close>

lemma enqueued_delay:
  assumes "bl ks t = [timer_block t]" "wl ks (TimerOf t) = [timer_block t]"
  shows "enqueued t [] True ks (activate_timer t ks)"
proof -
  have "(ks_Threads ks)(t := (ks_Threads ks t)\<lparr>th_WaitBlockList := [timer_block t]\<rparr>) = ks_Threads ks"
    by (rule ext) (use assms(1) in \<open>cases "ks_Threads ks t", auto\<close>)
  moreover have "(ks_Objects ks (TimerOf t))\<lparr>ob_Inserted := True\<rparr> =
    (ks_Objects ks (TimerOf t))\<lparr>ob_WaitList := [timer_block t], ob_Inserted := True\<rparr>"
    using assms(2) by (cases "ks_Objects ks (TimerOf t)") simp
  moreover have "(ks_Objects ks (Obj n)) = (ks_Objects ks (Obj n))\<lparr>ob_WaitList := wl ks (Obj n)\<rparr>" for n
    by (cases "ks_Objects ks (Obj n)") simp
  ultimately show ?thesis
    by (simp add: enqueued_def activate_timer_def)
qed

lemma KeDelayExecutionThread_ok:
  assumes inv: "ke_inv ks" and t: "t \<notin> waiting ks"
  shows "\<exists>r ks'. KeDelayExecutionThread t irql m a d c1 c2 c3 ks = Some (r, ks') \<and> ke_inv ks'"
proof (cases "d = 0 \<and> m \<noteq> KernelMode \<and> \<not> a \<and> \<not> th_UserApcPending (ks_Threads ks t)")
  case True
  then show ?thesis
    using inv by (simp add: KeDelayExecutionThread_def)
next
  case yield: False
  let ?W = "waiting ks"
  define ks1 where "ks1 = KxDelayThreadWait t m a d c1 (begin_wait t irql ks)"
  have inv0: "inv_on ?W (begin_wait t irql ks)"
    using inv by (simp add: ke_inv_def)
  have prep: "inv_on ?W ks1" "prepared t [timer_block t] [timer_block t] True (begin_wait t irql ks) ks1"
    using set_up_inv[OF inv0 t, of "[timer_block t]"] by (simp_all add: ks1_def KxDelayThreadWait_def)
  have w1: "waiting ks1 = ?W"
    using prepared_waiting[OF prep(2)] by simp
  obtain s ks2 where eq: "KiCheckAlertability t a m ks1 = (s, ks2)"
    by fastforce
  note keep = KiCheckAlertability_keeps[OF eq]
  have inv2: "inv_on ?W ks2" "waiting ks2 = ?W"
    using prep(1) w1 by (simp_all add: keep)
  have pD: "bl ks2 t = [timer_block t]" "wl ks2 (TimerOf t) = [timer_block t]"
    "ob_Hand (ks_Objects ks2 (TimerOf t)) = slot_of ks2 (TimerOf t) mod 256"
    using prep(2) by (simp_all add: prepared_def keep)
  note e = enqueued_delay[OF pD(1,2)]
  have "\<exists>ks'. KiBlockThread t True c3 (activate_queue t (activate_timer t ks2)) = Some ks' \<and> ke_inv ks'"
  proof (rule block_ok[OF inv2 t _ _ e])
    show "\<not> wait_satisfied (activate_timer t ks2) t"
      using enqueuedD(5)[OF e] by (simp add: wait_satisfied_def object_blocks_def)
  qed (simp_all add: waitable_def pD)
  moreover have "ke_inv ks1" "ke_inv ks2"
    using prep(1) w1 inv2 by (simp_all add: ke_inv_def)
  ultimately show ?thesis
    using yield by (auto simp: KeDelayExecutionThread_def Let_def ks1_def[symmetric] eq)
qed

section \<open>Adding a thread to a queue\<close>

text \<open>The list of threads of a queue is not looked at when a waiter is woken.\<close>

definition join_queue :: "oid \<Rightarrow> tid \<Rightarrow> KSTATE \<Rightarrow> KSTATE" where
  "join_queue q t = upd_object q (\<lambda>ob. ob\<lparr>ob_ThreadList := ob_ThreadList ob @ [t]\<rparr>)"

lemma upd_object_commute:
  "(\<And>ob. f (g ob) = g (f ob)) \<Longrightarrow> upd_object x f (upd_object y g ks) = upd_object y g (upd_object x f ks)"
  by (cases "x = y") (simp_all add: upd_object_def fun_upd_twist)

lemma join_queue_upd_object:
  "(\<And>ob ts. f (ob\<lparr>ob_ThreadList := ts\<rparr>) = (f ob)\<lparr>ob_ThreadList := ts\<rparr>) \<Longrightarrow> (\<And>ob. ob_ThreadList (f ob) = ob_ThreadList ob) \<Longrightarrow>
   upd_object x f (join_queue q t ks) = join_queue q t (upd_object x f ks)"
  unfolding join_queue_def by (rule upd_object_commute) simp

lemma join_queue_upd_thread: "upd_thread u f (join_queue q t ks) = join_queue q t (upd_thread u f ks)"
  by (simp add: join_queue_def upd_object_def upd_thread_def)

lemma join_queue_simps [simp]:
  "ks_Objects (join_queue q t ks) = (ks_Objects ks)(q := (ks_Objects ks q)\<lparr>ob_ThreadList := ob_ThreadList (ks_Objects ks q) @ [t]\<rparr>)"
  "ks_Threads (join_queue q t ks) = ks_Threads ks"
  "ks_TimerTable (join_queue q t ks) = ks_TimerTable ks"
  "ks_TimerTime (join_queue q t ks) = ks_TimerTime ks"
  "ks_KeMaximumIncrement (join_queue q t ks) = ks_KeMaximumIncrement ks"
  by (simp_all add: join_queue_def)

lemma waiting_join_queue [simp]: "waiting (join_queue q t ks) = waiting ks"
  by (simp add: join_queue_def)

lemma join_queue_fold: "fold RemoveWaitBlock bs (join_queue q t ks) = join_queue q t (fold RemoveWaitBlock bs ks)"
  by (induction bs arbitrary: ks) (simp_all add: RemoveWaitBlock_def join_queue_upd_object)

lemma join_queue_remove_timer: "KxRemoveTreeTimer x (join_queue q t ks) = join_queue q t (KxRemoveTreeTimer x ks)"
proof -
  have "KiRemoveEntryTimer x (join_queue q t ks) = join_queue q t (KiRemoveEntryTimer x ks)" for ks
    by (simp add: KiRemoveEntryTimer_def RemoveTimerListEntry_def Let_def join_queue_def upd_object_def split: option.split)
  then show ?thesis
    by (simp add: KxRemoveTreeTimer_commute join_queue_upd_object)
qed

lemma join_queue_unwait: "KiUnwaitThread u s i (join_queue q t ks) = join_queue q t (KiUnwaitThread u s i ks)"
proof -
  have "KiUnlinkThread u s (join_queue q t ks) = join_queue q t (KiUnlinkThread u s ks)"
    by (simp add: KiUnlinkThread_def Let_def join_queue_upd_thread join_queue_fold join_queue_remove_timer join_queue_upd_object
        split: option.split)
  then show ?thesis
    by (simp add: KiUnwaitThread_def KiReadyThread_def Let_def join_queue_upd_thread)
qed

lemma join_queue_activate: "KiActivateWaiterQueue p (join_queue q t ks) = join_queue q t (KiActivateWaiterQueue p ks)"
  by (simp add: KiActivateWaiterQueue_def Let_def count_down_def join_queue_unwait join_queue_upd_object split: list.split)

section \<open>A round of the loop of KeRemoveQueue\<close>

text \<open>
  The thread has been taken out of the count: it is counted as waiting for the queues, though
  it runs.
\<close>

definition removing :: "tid \<Rightarrow> oid \<Rightarrow> bool \<Rightarrow> tid set \<Rightarrow> KSTATE \<Rightarrow> bool" where
  "removing t q timed W ks =
     (entering t False W ks \<and> queue_ok (insert t W) ks \<and> waiting ks = W \<and> t \<notin> W \<and> queue ks t = Some q \<and>
      bl ks t = object_block t 0 q WaitAny # (if timed then [timer_block t] else []) \<and>
      (timed \<longrightarrow> wl ks (TimerOf t) = [timer_block t] \<and> ob_Hand (ks_Objects ks (TimerOf t)) = slot_of ks (TimerOf t) mod 256))"

lemma count_up_queue_ok:
  assumes ok: "queue_ok (insert t W) ks" and t: "t \<notin> W" "queue ks t = Some q"
  shows "queue_ok W (count_up q ks)"
proof -
  have same: "ty (count_up q ks) p = ty ks p" "ob_ThreadList (ks_Objects (count_up q ks) p) = ob_ThreadList (ks_Objects ks p)"
    "ob_RunDown (ks_Objects (count_up q ks) p) = ob_RunDown (ks_Objects ks p)" "queue (count_up q ks) u = queue ks u" for p u
    by (simp_all add: count_up_def)
  have eq: "insert t W - {t} = W"
    using t by simp
  have "ob_CurrentCount (ks_Objects (count_up q ks) p) = active W (ob_ThreadList (ks_Objects ks p)) mod 4294967296"
    if p: "ty ks p = QueueObject" "\<not> ob_RunDown (ks_Objects ks p)" for p
  proof (cases "p = q")
    case True
    have "active W (ob_ThreadList (ks_Objects ks q)) = Suc (active (insert t W) (ob_ThreadList (ks_Objects ks q)))"
      using active_remove[of "ob_ThreadList (ks_Objects ks q)" t "insert t W"] queue_okD(1,2)[OF ok] p(1) t True eq by simp
    then show ?thesis
      using queue_okD(3)[OF ok p] True by (simp add: count_up_def u32_add_def mod_Suc_eq)
  next
    case False
    then have "t \<notin> set (ob_ThreadList (ks_Objects ks p))"
      using queue_okD(2)[OF ok p(1), of t] t by simp
    then show ?thesis
      using queue_okD(3)[OF ok p] active_absent[of t _ "insert t W"] eq False by (simp add: count_up_def)
  qed
  then show ?thesis
    using ok unfolding queue_ok_def same by blast
qed

lemma count_up_ke_inv:
  assumes "removing t q timed W ks"
    "\<And>x. ks_Objects ks' x = (ks_Objects (count_up q ks) x)\<lparr>ob_SignalState := s x, ob_EntryList := e x\<rparr>"
    "\<And>x. ty ks x \<noteq> QueueObject \<Longrightarrow> s x = sig ks x" "ks_Threads ks' = ks_Threads ks"
    "ks_TimerTable ks' = ks_TimerTable ks" "ks_TimerTime ks' = ks_TimerTime ks"
    "ks_KeMaximumIncrement ks' = ks_KeMaximumIncrement ks"
  shows "ke_inv ks'"
proof -
  have r: "entering t False W ks" "queue_ok (insert t W) ks" "waiting ks = W" "t \<notin> W" "queue ks t = Some q"
    using assms(1) by (simp_all add: removing_def)
  have "entering t False W ks'"
    using r(1) assms(3)
    by (subst entering_cong[where ks = ks and s = s and e = e and c = "\<lambda>x. ob_CurrentCount (ks_Objects (count_up q ks) x)"])
      (simp_all add: assms(2,4-7) count_up_def)
  moreover have "queue_ok W ks'"
    using count_up_queue_ok[OF r(2,4,5)] by (subst queue_ok_cong[of _ "count_up q ks"]) (simp_all add: assms(2,4), simp_all add: count_up_def)
  moreover have "waiting ks' = W"
    using r(3) by (simp add: waiting_def assms(4))
  ultimately show ?thesis
    by (simp add: entering_def ke_inv_def inv_on_def core_def)
qed

lemma remove_queue_round_ok:
  assumes r: "removing t (Obj n) timed W ks"
  shows "\<exists>r ks'. remove_queue_round t (Obj n) m timed c2 c3 ks = Some (r, ks') \<and> ke_inv ks'"
proof -
  let ?q = "Obj n" and ?b = "object_block t 0 (Obj n) WaitAny"
  have rD: "links W ks" "timer_ok {} ks" "objects_ok ks" "blocked_ok W ks" "queue_ok (insert t W) ks" "waiting ks = W" "t \<notin> W"
    "queue ks t = Some ?q" "bl ks t = ?b # (if timed then [timer_block t] else [])"
    "timed \<Longrightarrow> wl ks (TimerOf t) = [timer_block t]"
    "timed \<Longrightarrow> ob_Hand (ks_Objects ks (TimerOf t)) = slot_of ks (TimerOf t) mod 256"
    using r by (simp_all add: removing_def entering_def)
  have ty: "ty ks ?q = QueueObject"
    using queue_okD(4)[OF rD(5,8)] .
  have up: "ke_inv (count_up ?q ks)"
    by (rule count_up_ke_inv[OF r, where s = "\<lambda>x. sig ks x" and e = "\<lambda>x. ob_EntryList (ks_Objects ks x)"])
      (simp_all add: count_up_def)
  have take: "ke_inv (upd_object ?q (\<lambda>ob. ob\<lparr>ob_SignalState := s32 (ob_SignalState ob - 1), ob_EntryList := tl (ob_EntryList ob)\<rparr>) (count_up ?q ks))"
    (is "ke_inv ?ks")
    by (rule count_up_ke_inv[OF r, where s = "\<lambda>x. sig ?ks x" and e = "\<lambda>x. ob_EntryList (ks_Objects ?ks x)"])
      (use ty in \<open>auto simp: count_up_def\<close>)
  define ks1 where "ks1 = insert_wait_block ?b (if timed then activate_timer t ks else ks)"
  have "\<not> ob_Inserted (ks_Objects ks (TimerOf t))"
    using linksD(4)[OF rD(1), of t] rD(7) by auto
  then have e: "enqueued t [?b] timed ks ks1"
    unfolding ks1_def using rD(9,10) linksD(3)[OF rD(1), of "TimerOf t"] by (intro enqueued_single[of ks t ?b timed n]) simp_all
  have "waitable ks t [?b]"
    using rD(8) by (simp add: waitable_def)
  moreover have "\<not> wait_satisfied ks1 t"
    using enqueuedD(5,7)[OF e] ty by (auto simp: wait_satisfied_def object_blocks_def offers_def can_take_def)
  ultimately have ent: "entering t timed (insert t W) ks1" "queue_ok (insert t W) ks1"
    using enqueue_entering[OF rD(1,5,2-4,7) _ e] rD(11) by auto
  have "waiting ks1 = insert t W - {t}"
    using rD(6,7) enqueuedD(13)[OF e] by (auto simp: waiting_def)
  then obtain ks' where "KiBlockThread t timed c3 ks1 = Some ks'" "ke_inv ks'"
    using KiBlockThread_ok[OF ent] by blast
  then show ?thesis
    using up take by (simp add: remove_queue_round_def Let_def ks1_def)
qed

section \<open>KeRemoveQueue\<close>

text \<open>A thread leaves its queue, if it has one, and joins another one, uncounted in both.\<close>

lemma move_queue_ok:
  assumes ok: "queue_ok W ks" and t: "t \<notin> W" and q: "ty ks q = QueueObject" "queue ks t \<noteq> Some q"
    and ty: "\<And>x. ty ks' x = ty ks x" and queue: "\<And>u. queue ks' u = (if u = t then Some q else queue ks u)"
    and new: "ob_ThreadList (ks_Objects ks' q) = ob_ThreadList (ks_Objects ks q) @ [t]"
      "ob_CurrentCount (ks_Objects ks' q) = ob_CurrentCount (ks_Objects ks q)"
    and old: "\<And>p. queue ks t = Some p \<Longrightarrow> ob_ThreadList (ks_Objects ks' p) = remove1 t (ob_ThreadList (ks_Objects ks p)) \<and>
      ob_CurrentCount (ks_Objects ks' p) = u32_sub (ob_CurrentCount (ks_Objects ks p)) 1"
    and other: "\<And>p. p \<noteq> q \<Longrightarrow> queue ks t \<noteq> Some p \<Longrightarrow> ob_ThreadList (ks_Objects ks' p) = ob_ThreadList (ks_Objects ks p) \<and>
      ob_CurrentCount (ks_Objects ks' p) = ob_CurrentCount (ks_Objects ks p)"
    and same: "\<And>p. ob_RunDown (ks_Objects ks' p) = ob_RunDown (ks_Objects ks p)"
  shows "queue_ok (insert t W) ks'"
  unfolding queue_ok_def ty same
proof (intro conjI allI impI)
  fix p assume p: "ty ks p = QueueObject"
  note okD = queue_okD(1-3)[OF ok p]
  have drop: "active (insert t W) ts = active W ts" if "t \<notin> set ts" for ts
    using active_absent[OF that, of "insert t W"] t by simp
  consider (q) "p = q" | (old) "queue ks t = Some p" "p \<noteq> q" | (other) "p \<noteq> q" "queue ks t \<noteq> Some p"
    by blast
  then have "distinct (ob_ThreadList (ks_Objects ks' p)) \<and>
    (\<forall>u. u \<in> set (ob_ThreadList (ks_Objects ks' p)) \<longleftrightarrow> queue ks' u = Some p) \<and>
    (\<not> ob_RunDown (ks_Objects ks p) \<longrightarrow>
       ob_CurrentCount (ks_Objects ks' p) = active (insert t W) (ob_ThreadList (ks_Objects ks' p)) mod 4294967296)"
  proof cases
    case q
    have "t \<notin> set (ob_ThreadList (ks_Objects ks q))"
      using okD(2)[of t] q assms(4) by simp
    moreover from this have "active (insert t W) (ob_ThreadList (ks_Objects ks q) @ [t]) = active W (ob_ThreadList (ks_Objects ks q))"
      using drop by (simp add: active_def)
    ultimately show ?thesis
      using okD q by (auto simp: new queue)
  next
    case old
    let ?ts = "ob_ThreadList (ks_Objects ks p)"
    have in_ts: "t \<in> set ?ts" "distinct ?ts"
      using okD(1) okD(2)[of t] old(1) by simp_all
    have "active W ?ts = Suc (active (insert t W) ?ts)"
      using active_remove[of ?ts t "insert t W"] in_ts t by simp
    moreover have "active (insert t W) (remove1 t ?ts) = active (insert t W) ?ts"
      using in_ts(2) by (simp add: active_def distinct_remove1_removeAll removeAll_filter_not_eq) (rule arg_cong[where f = length], rule filter_cong, auto)
    ultimately show ?thesis
      using okD(2,3) in_ts old assms(9)[OF old(1)] by (auto simp: queue u32_sub_Suc[unfolded One_nat_def])
  next
    case other
    then have "t \<notin> set (ob_ThreadList (ks_Objects ks p))"
      using okD(2)[of t] by simp
    then show ?thesis
      using okD other assms(10)[OF other] drop by (auto simp: queue)
  qed
  then show "distinct (ob_ThreadList (ks_Objects ks' p))"
    "(t' \<in> set (ob_ThreadList (ks_Objects ks' p))) = (queue ks' t' = Some p)"
    "\<not> ob_RunDown (ks_Objects ks p) \<Longrightarrow>
       ob_CurrentCount (ks_Objects ks' p) = active (insert t W) (ob_ThreadList (ks_Objects ks' p)) mod 4294967296" for t'
    by blast+
next
  show "ty ks p = QueueObject" if "queue ks' u = Some p" for u p
    using that queue_okD(4)[OF ok] q(1) by (auto simp: queue split: if_splits)
qed

lemma entering_thread_lists:
  assumes "links W ks" "timer_ok {} ks" "objects_ok ks" "blocked_ok W ks" "t \<notin> W"
    "\<And>x. ks_Objects ks' x = (ks_Objects ks x)\<lparr>ob_ThreadList := f x\<rparr>"
    "\<And>u. bl ks' u = bl ks u" "\<And>u. mutants ks' u = mutants ks u" "\<And>u. u \<noteq> t \<Longrightarrow> queue ks' u = queue ks u"
    "ks_TimerTable ks' = ks_TimerTable ks" "ks_TimerTime ks' = ks_TimerTime ks"
    "ks_KeMaximumIncrement ks' = ks_KeMaximumIncrement ks"
  shows "entering t False W ks'"
proof -
  have "queue ks' u = queue ks u" if "u \<in> W" for u
    using assms(5) assms(9)[of u] that by (cases "u = t") auto
  then have "links W ks' = links W ks"
    by (intro links_cong) (simp_all add: assms(6,7))
  moreover have "timer_ok {} ks' = timer_ok {} ks"
    by (rule timer_ok_cong) (simp_all add: assms)
  moreover have "objects_ok ks' = objects_ok ks"
    by (rule objects_ok_cong) (simp_all add: assms)
  moreover have "blocked_ok W ks' = blocked_ok W ks"
    by (rule blocked_ok_cong) (simp_all add: assms)
  ultimately show ?thesis
    using assms(1-4) by (simp add: entering_def)
qed

text \<open>A thread that stays with its queue is taken out of the count.\<close>

lemma count_down_removing:
  assumes inv: "inv_on W ks" "waiting ks = W" and t: "t \<notin> W" "queue ks t = Some q"
    and b: "bl ks t = object_block t 0 q WaitAny # (if timed then [timer_block t] else [])"
      "timed \<Longrightarrow> wl ks (TimerOf t) = [timer_block t]"
      "timed \<Longrightarrow> ob_Hand (ks_Objects ks (TimerOf t)) = slot_of ks (TimerOf t) mod 256"
  shows "removing t q timed W (count_down q ks)"
proof -
  have ok: "links W ks" "queue_ok W ks" "timer_ok {} ks" "objects_ok ks" "blocked_ok W ks"
    using inv(1) by (simp_all add: inv_on_def core_def)
  have "entering t False W (count_down q ks) = entering t False W ks"
    by (rule entering_cong[where s = "\<lambda>x. sig ks x" and e = "\<lambda>x. ob_EntryList (ks_Objects ks x)"
          and c = "\<lambda>x. ob_CurrentCount (ks_Objects (count_down q ks) x)"]) (auto simp: count_down_def)
  moreover have "slot_of (count_down q ks) = slot_of ks"
    by (simp add: slot_of_def due_def fun_eq_iff count_down_def)
  moreover have "waiting (count_down q ks) = waiting ks" "ks_Threads (count_down q ks) = ks_Threads ks"
    "wl (count_down q ks) (TimerOf t) = wl ks (TimerOf t)"
    "ob_Hand (ks_Objects (count_down q ks) (TimerOf t)) = ob_Hand (ks_Objects ks (TimerOf t))"
    by (simp_all add: count_down_def)
  ultimately show ?thesis
    using ok count_down_queue_ok[OF ok(2) t] inv(2) t b by (simp add: removing_def entering_def)
qed

lemma KeRemoveQueue_ok:
  assumes inv: "ke_inv ks" and t: "t \<notin> waiting ks" and q: "ty ks (Obj n) = QueueObject"
  shows "\<exists>r ks'. KeRemoveQueue t irql (Obj n) m to c1 c2 c3 ks = Some (r, ks') \<and> ke_inv ks'"
proof -
  let ?q = "Obj n" and ?b = "object_block t 0 (Obj n) WaitAny" and ?timed = "to \<noteq> None" and ?W = "waiting ks"
  define ks1 where "ks1 = KxQueueThreadWait t ?q m to c1 (begin_wait t irql ks)"
  have inv0: "inv_on ?W (begin_wait t irql ks)"
    using inv by (simp add: ke_inv_def)
  have prep: "inv_on ?W ks1" "prepared t (?b # (if ?timed then [timer_block t] else [])) [timer_block t] ?timed (begin_wait t irql ks) ks1"
    using set_up_inv[OF inv0 t, of "[timer_block t]"] set_up_inv_untimed[OF inv0 t]
    by (cases to; simp add: ks1_def KxQueueThreadWait_def Let_def)+
  have w1: "waiting ks1 = ?W"
    using prepared_waiting[OF prep(2)] by simp
  have ok1: "links ?W ks1" "queue_ok ?W ks1" "timer_ok {} ks1" "objects_ok ks1" "blocked_ok ?W ks1"
    using prep(1) by (simp_all add: inv_on_def core_def)
  have pD: "bl ks1 t = ?b # (if ?timed then [timer_block t] else [])" "?timed \<Longrightarrow> wl ks1 (TimerOf t) = [timer_block t]"
    "?timed \<Longrightarrow> ob_Hand (ks_Objects ks1 (TimerOf t)) = slot_of ks1 (TimerOf t) mod 256" "ks_Objects ks1 ?q = ks_Objects ks ?q"
    using prep(2) by (simp_all add: prepared_def begin_wait_def)
  have q1: "ty ks1 ?q = QueueObject"
    using q by (simp add: pD(4))
  define ks2 where "ks2 = upd_thread t (\<lambda>th. th\<lparr>th_Queue := Some ?q\<rparr>) ks1"
  define ks3 where "ks3 = (if queue ks1 t \<noteq> Some ?q then
      join_queue ?q t (case queue ks1 t of None \<Rightarrow> ks2
        | Some p \<Rightarrow> KiActivateWaiterQueue p (upd_object p (\<lambda>ob. ob\<lparr>ob_ThreadList := remove1 t (ob_ThreadList ob)\<rparr>) ks2))
    else count_down ?q ks2)"
  have "\<exists>W. removing t ?q ?timed W ks3"
  proof -
    consider (same) "queue ks1 t = Some ?q" | (none) "queue ks1 t = None" | (old) p where "queue ks1 t = Some p" "p \<noteq> ?q"
      by fastforce
    then show ?thesis
    proof cases
      case same
      then have "ks3 = count_down ?q ks1"
        using upd_thread_idem[of "\<lambda>th. th\<lparr>th_Queue := Some ?q\<rparr>" ks1 t] by (cases "ks_Threads ks1 t") (simp add: ks3_def ks2_def)
      then show ?thesis
        using count_down_removing[OF prep(1) w1 t same pD(1-3)] by auto
    next
      case none
      then have eq: "ks3 = join_queue ?q t ks2"
        by (simp add: ks3_def)
      have "queue_ok (insert t ?W) ks3"
        by (rule move_queue_ok[OF ok1(2) t q1]) (simp_all add: none eq ks2_def)
      moreover have "entering t False ?W ks3"
        by (rule entering_thread_lists[OF ok1(1,3-5) t, where f = "\<lambda>x. ob_ThreadList (ks_Objects ks3 x)"]) (auto simp: eq ks2_def)
      moreover have "slot_of ks3 = slot_of ks1"
        by (simp add: slot_of_def due_def fun_eq_iff eq ks2_def KiComputeTimerTableIndex_def)
      ultimately show ?thesis
        using w1 t pD by (intro exI[of _ ?W]) (simp add: removing_def, simp add: eq ks2_def waiting_upd_thread)
    next
      case old
      define ks4 where "ks4 = join_queue ?q t (upd_object p (\<lambda>ob. ob\<lparr>ob_ThreadList := remove1 t (ob_ThreadList ob)\<rparr>) ks2)"
      have eq: "ks3 = KiActivateWaiterQueue p ks4"
        using old by (simp add: ks3_def ks4_def join_queue_activate)
      have p: "ty ks1 p = QueueObject"
        using queue_okD(4)[OF ok1(2) old(1)] .
      have q4: "queue_ok (insert t ?W) (count_down p ks4)"
        using old by (intro move_queue_ok[OF ok1(2) t q1]) (auto simp: ks4_def ks2_def count_down_def)
      have ent4: "entering t False ?W ks4"
        by (rule entering_thread_lists[OF ok1(1,3-5) t, where f = "\<lambda>x. ob_ThreadList (ks_Objects ks4 x)"]) (auto simp: ks4_def ks2_def)
      have ty4: "ty ks4 p = QueueObject" and w4: "waiting ks4 = ?W" and wl4: "wl ks4 p = wl ks1 p"
        using p w1 old(2) by (simp_all add: ks4_def ks2_def waiting_upd_thread)
      have "live ?W ks1 p"
        using p ok1(4) by (cases p) (auto simp: objects_ok_def timers_typed_def)
      then have "wb_Thread b \<noteq> t" if "b \<in> set (wl ks4 p)" for b
        using wl_okD(1)[OF linksD(1)[OF ok1(1)]] that wl4 t by auto
      then obtain U where U: "U \<subseteq> ?W" "t \<notin> U" "entering t False (?W - U) ks3" "queue_ok (insert t ?W - U) ks3" "waiting ks3 = ?W - U"
        "ks_Objects ks3 (TimerOf t) = ks_Objects ks4 (TimerOf t)" "ks_Threads ks3 t = ks_Threads ks4 t"
        "ks_KeMaximumIncrement ks3 = ks_KeMaximumIncrement ks4"
        using KiActivateWaiterQueue_ok[OF ent4 q4 ty4, folded eq] w4 by blast
      have "insert t ?W - U = insert t (?W - U)"
        using U(2) by auto
      moreover have "p \<noteq> TimerOf t"
        using p ok1(4) by (auto simp: objects_ok_def timers_typed_def)
      then have tm: "ks_Objects ks4 (TimerOf t) = ks_Objects ks1 (TimerOf t)"
        by (simp add: ks4_def ks2_def)
      moreover have "slot_of ks3 (TimerOf t) = slot_of ks1 (TimerOf t)"
        using U(6,8) tm by (simp add: slot_of_def due_def KiComputeTimerTableIndex_def) (simp add: ks4_def ks2_def)
      ultimately show ?thesis
        using U t pD by (intro exI[of _ "?W - U"]) (simp add: removing_def, simp add: ks4_def ks2_def)
    qed
  qed
  then obtain W where "removing t ?q ?timed W ks3"
    by blast
  then show ?thesis
    unfolding KeRemoveQueue_def Let_def ks1_def[symmetric] ks2_def[symmetric] join_queue_def[symmetric] ks3_def[symmetric]
    by (rule remove_queue_round_ok)
qed

end
