(* ===== verification/Ke_Expiry.thy ===== *)
theory Ke_Expiry
  imports Ke_Queue
begin

text \<open>
  Setting and cancelling timers keeps the invariant of the dispatcher database, and so does the
  expiry of timers (\<open>KiTimerExpiration\<close> of \<open>ntoskrnl/ke/dpc.c\<close>).
\<close>

section \<open>The expiry routine\<close>

text \<open>What happens to one timer whose time has come.\<close>

definition expire_timer :: "(KCLOCK \<times> KCLOCK) list \<Rightarrow> oid \<Rightarrow> KSTATE \<Rightarrow> KSTATE option" where
  "expire_timer cs x ks =
     do {
       let ks = KiRemoveEntryTimer x ks;
       let ks = upd_object x (\<lambda>ob. ob\<lparr>ob_Inserted := False, ob_SignalState := 1\<rparr>) ks;
       let Period = ob_Period (ks_Objects ks x);
       ks \<leftarrow> (if ob_WaitList (ks_Objects ks x) = [] then Some ks
              else if ob_Type (ks_Objects ks x) = TimerNotificationObject then KxUnwaitThread x 0 ks
              else KxUnwaitThreadForEvent x 0 ks);
       if Period = 0 then Some ks else insert_tree_timer_loop cs x (Period * - 10000) ks
     }"

text \<open>
  The accounting of the routine: how many more timers it looks at and expires before it lets
  the deferred routines run, and the array of these routines, named by their timers.
\<close>

record EXPIRY =
  ex_Timers :: nat
  ex_ActiveTimers :: nat
  ex_DpcEntry :: "oid list"

abbreviation (input) "MAX_TIMER_DPCS \<equiv> (16 :: nat)"

definition fresh_accounting :: EXPIRY where
  "fresh_accounting = \<lparr>ex_Timers = 24, ex_ActiveTimers = 4, ex_DpcEntry = []\<rparr>"

definition count_timer :: "EXPIRY \<Rightarrow> EXPIRY" where
  "count_timer e = e\<lparr>ex_Timers := u32_sub (ex_Timers e) 1\<rparr>"

definition count_active :: "EXPIRY \<Rightarrow> EXPIRY" where
  "count_active e = e\<lparr>ex_ActiveTimers := u32_sub (ex_ActiveTimers e) 1\<rparr>"

text \<open>A write behind the end of the array is undefined.\<close>

definition add_dpc :: "bool \<Rightarrow> oid \<Rightarrow> EXPIRY \<Rightarrow> EXPIRY option" where
  "add_dpc TimerDpc x e =
     (if \<not> TimerDpc then Some e
      else if length (ex_DpcEntry e) < MAX_TIMER_DPCS then Some (e\<lparr>ex_DpcEntry := ex_DpcEntry e @ [x]\<rparr>)
      else None)"

text \<open>
  The loop over one slot of the table. The deferred routines belong to drivers; \<open>run\<close> is
  what calling them does, with the dispatcher lock released. The clock readings for the
  \<open>k\<close>th timer that expires are \<open>clk k\<close>.
\<close>

partial_function (option) expire_slot ::
  "(oid list \<Rightarrow> KSTATE \<Rightarrow> KSTATE) \<Rightarrow> (nat \<Rightarrow> (KCLOCK \<times> KCLOCK) list) \<Rightarrow> int \<Rightarrow> nat \<Rightarrow> EXPIRY \<Rightarrow> nat \<Rightarrow> KSTATE
   \<Rightarrow> (EXPIRY \<times> nat \<times> KSTATE) option" where
  "expire_slot run clk InterruptTime Index e k ks =
     (case ks_TimerTable ks Index of
        [] \<Rightarrow> Some (e, k, ks)
      | x # xs \<Rightarrow>
          let e = count_timer e in
          if due ks x \<le> InterruptTime then
            do {
              let e = count_active e;
              let TimerDpc = ob_Dpc (ks_Objects ks x);
              ks \<leftarrow> expire_timer (clk k) x ks;
              e \<leftarrow> add_dpc TimerDpc x e;
              if ex_ActiveTimers e = 0 \<or> ex_Timers e = 0
              then expire_slot run clk InterruptTime Index fresh_accounting (k + 1) (run (ex_DpcEntry e) ks)
              else expire_slot run clk InterruptTime Index e (k + 1) ks
            }
          else
            let ks = ks\<lparr>ks_TimerTime := (ks_TimerTime ks)(Index := due ks x)\<rparr>
            in if ex_Timers e = 0 then Some (fresh_accounting, k, run (ex_DpcEntry e) ks) else Some (e, k, ks))"

declare expire_slot.simps [code]

text \<open>The loop over the slots, from the one after \<open>Index\<close> to \<open>Limit\<close>.\<close>

partial_function (option) expire_loop ::
  "(oid list \<Rightarrow> KSTATE \<Rightarrow> KSTATE) \<Rightarrow> (nat \<Rightarrow> (KCLOCK \<times> KCLOCK) list) \<Rightarrow> int \<Rightarrow> int \<Rightarrow> int \<Rightarrow> EXPIRY \<Rightarrow> nat \<Rightarrow> KSTATE
   \<Rightarrow> (EXPIRY \<times> nat \<times> KSTATE) option" where
  "expire_loop run clk InterruptTime Limit Index e k ks =
     do {
       let Index = (Index + 1) mod 512;
       (e, k, ks) \<leftarrow> expire_slot run clk InterruptTime (nat Index) e k ks;
       if Index \<noteq> Limit then expire_loop run clk InterruptTime Limit Index e k ks else Some (e, k, ks)
     }"

declare expire_loop.simps [code]

definition KiTimerExpiration ::
  "(oid list \<Rightarrow> KSTATE \<Rightarrow> KSTATE) \<Rightarrow> (nat \<Rightarrow> (KCLOCK \<times> KCLOCK) list) \<Rightarrow> int \<Rightarrow> nat \<Rightarrow> int \<Rightarrow> KSTATE \<Rightarrow> KSTATE option" where
  "KiTimerExpiration run clk InterruptTime TickCount SystemArgument1 ks =
     do {
       let Limit = s32 (int TickCount);
       let Index = SystemArgument1;
       let Limit = (if s32 (Limit - Index) \<ge> 512 then Index + 512 - 1 else Limit);
       (e, k, ks) \<leftarrow> expire_loop run clk InterruptTime (Limit mod 512) (Index - 1) fresh_accounting 0 ks;
       Some (if ex_DpcEntry e \<noteq> [] then run (ex_DpcEntry e) ks else ks)
     }"

section \<open>Setting and cancelling\<close>

lemma ke_inv_period:
  assumes "ke_inv ks"
  shows "ob_Period (ks_Objects ks x) = 0 \<or> ob_Period (ks_Objects ks x) > 0 \<and> (\<exists>n. x = Obj n)"
  using ke_inv_links(4)[OF assms] by (cases x) (auto simp: objects_ok_def timers_typed_def order_le_less)

lemma KeCancelTimer_ok:
  assumes inv: "ke_inv ks"
  shows "ke_inv (snd (KeCancelTimer x ks))" "\<not> ob_Inserted (ks_Objects (snd (KeCancelTimer x ks)) x)"
    "fst (KeCancelTimer x ks) = ob_Inserted (ks_Objects ks x)"
proof -
  let ?ks = "KxRemoveTreeTimer x ks" and ?W = "waiting ks"
  note ok = ke_inv_links[OF inv]
  have "ke_inv ?ks" if "ob_Inserted (ks_Objects ks x)"
  proof -
    have "links ?W ?ks"
      using ok(1) by (rule links_uninserted) (auto split: if_splits)
    moreover have "queue_ok ?W ?ks" "objects_ok ?ks" "blocked_ok ?W ?ks"
      using queue_ok_cong[of ?ks ks ?W] objects_ok_cong[of ?ks ks] blocked_ok_cong[of ?ks ks ?W] ok
      by simp_all
    moreover have "waiting ?ks = ?W"
      by (simp add: waiting_def)
    ultimately show ?thesis
      using KxRemoveTreeTimer_ok[OF ok(3) that] by (simp add: ke_inv_def inv_on_def core_def)
  qed
  then show "ke_inv (snd (KeCancelTimer x ks))"
    using inv by (simp add: KeCancelTimer_def Let_def)
  show "\<not> ob_Inserted (ks_Objects (snd (KeCancelTimer x ks)) x)" "fst (KeCancelTimer x ks) = ob_Inserted (ks_Objects ks x)"
    by (simp_all add: KeCancelTimer_def Let_def)
qed

text \<open>Signalling a timer overwrites its signal state.\<close>

lemma KiSignalTimer_signal: "KiSignalTimer cs x (set_signal x s ks) = KiSignalTimer cs x ks"
proof -
  have "upd_object x (\<lambda>ob. ob\<lparr>ob_Inserted := False, ob_SignalState := 1\<rparr>) (set_signal x s ks) =
    upd_object x (\<lambda>ob. ob\<lparr>ob_Inserted := False, ob_SignalState := 1\<rparr>) ks"
    by (simp add: upd_object_def set_signal_def)
  then show ?thesis
    by (simp add: KiSignalTimer_eq cong: if_cong)
qed

text \<open>
  The fields of an idle timer that the invariant does not fix: the flags, the due time, the
  hand and a period that is not negative.
\<close>

lemma idle_timer_inv:
  assumes inv: "ke_inv ks" and x: "\<not> ob_Inserted (ks_Objects ks (Obj n))"
    and f: "ob_Type (f (ks_Objects ks (Obj n))) = ty ks (Obj n)" "ob_WaitList (f (ks_Objects ks (Obj n))) = wl ks (Obj n)"
      "ob_SignalState (f (ks_Objects ks (Obj n))) = sig ks (Obj n)" "ob_OwnerThread (f (ks_Objects ks (Obj n))) = owner ks (Obj n)"
      "ob_Limit (f (ks_Objects ks (Obj n))) = ob_Limit (ks_Objects ks (Obj n))"
      "ob_ThreadList (f (ks_Objects ks (Obj n))) = ob_ThreadList (ks_Objects ks (Obj n))"
      "ob_CurrentCount (f (ks_Objects ks (Obj n))) = ob_CurrentCount (ks_Objects ks (Obj n))"
      "ob_RunDown (f (ks_Objects ks (Obj n))) = ob_RunDown (ks_Objects ks (Obj n))"
      "0 \<le> ob_Period (f (ks_Objects ks (Obj n)))" "ob_Period (f (ks_Objects ks (Obj n))) < 2147483648"
  defines "ks' \<equiv> upd_object (Obj n) f ks"
  shows "links (waiting ks) ks'" "queue_ok (waiting ks) ks'" "timer_ok {Obj n} ks'" "objects_ok ks'"
    "blocked_ok (waiting ks) ks'" "waiting ks' = waiting ks" "wl_ok (waiting ks) ks' (Obj n)"
proof -
  note ok = ke_inv_links[OF inv]
  show "links (waiting ks) ks'"
    using ok(1) f by (subst links_cong[of _ ks]) (simp_all add: ks'_def)
  show "queue_ok (waiting ks) ks'"
    using ok(2) f by (subst queue_ok_cong[of _ ks]) (simp_all add: ks'_def)
  show "timer_ok {Obj n} ks'"
    unfolding ks'_def using timer_ok_add[OF ok(3) x] by (rule timer_ok_exempt) simp
  show "objects_ok ks'"
    using ok(4) f unfolding objects_ok_def mutant_ok_def signal_ok_def timers_typed_def by (simp add: ks'_def)
  show "blocked_ok (waiting ks) ks'"
    using ok(5) f by (subst blocked_ok_cong[of _ ks]) (simp_all add: ks'_def)
  show "waiting ks' = waiting ks"
    by (simp add: ks'_def)
  show "wl_ok (waiting ks) ks' (Obj n)"
    using ok(6) f by (simp add: wl_ok_def ks'_def)
qed

lemma KeSetTimerEx_ok:
  assumes inv: "ke_inv ks" and x: "is_timer (ty ks (Obj n))" and p: "0 \<le> Period" "Period < 2147483648"
  shows "KeSetTimerEx c c' cs (Obj n) DueTime Period Dpc ks = Some (r, ks') \<Longrightarrow> ke_inv ks' \<and> r = ob_Inserted (ks_Objects ks (Obj n))"
    "Period = 0 \<Longrightarrow> \<exists>r ks'. KeSetTimerEx c c' cs (Obj n) DueTime Period Dpc ks = Some (r, ks')"
proof -
  let ?x = "Obj n"
  define ks1 where "ks1 = snd (KeCancelTimer ?x ks)"
  note cancel = KeCancelTimer_ok[OF inv, of ?x, folded ks1_def]
  have ty1: "ty ks1 ?x = ty ks ?x"
    by (simp add: ks1_def KeCancelTimer_def Let_def)
  define ks2 where "ks2 = upd_object ?x (\<lambda>ob. ob\<lparr>ob_Dpc := Dpc, ob_Period := Period\<rparr>) ks1"
  have x2: "\<not> ob_Inserted (ks_Objects ks2 ?x)" "is_timer (ty ks2 ?x)" "ob_Period (ks_Objects ks2 ?x) = Period"
    using cancel(2) x ty1 by (simp_all add: ks2_def)
  have ok2: "ke_inv ks2"
    using idle_timer_inv[OF cancel(1,2), of "\<lambda>ob. ob\<lparr>ob_Dpc := Dpc, ob_Period := Period\<rparr>", folded ks2_def] p x2(1)
    by (simp add: ke_inv_def inv_on_def core_def timer_ok_drop)
  have p': "Period = 0 \<or> 0 < Period"
    using p by auto
  let ?W = "waiting ks2"
  define r2 where "r2 = KiComputeDueTime c ?x DueTime ks2"
  define i0 where "i0 = fst (KeCancelTimer ?x ks)"
  have cancel_eq: "KeCancelTimer ?x ks = (i0, ks1)"
    by (simp add: i0_def ks1_def)
  have eq: "KeSetTimerEx c c' cs ?x DueTime Period Dpc ks = (case r2 of
      (False, ks3) \<Rightarrow> map_option (\<lambda>r. (i0, snd r)) (KiSignalTimer cs ?x ks3)
    | (True, ks3) \<Rightarrow> map_option (Pair i0) (KxInsertTimer c' cs ?x (set_signal ?x 0 ks3)))"
    by (simp add: KeSetTimerEx_def cancel_eq r2_def ks2_def)
  have r: "r = ob_Inserted (ks_Objects ks ?x)" if "KeSetTimerEx c c' cs ?x DueTime Period Dpc ks = Some (r, ks')"
    using that cancel(3) unfolding eq i0_def[symmetric] by (auto split: prod.splits bool.splits)
  have idle: "links ?W (upd_object ?x f ks2)" "queue_ok ?W (upd_object ?x f ks2)" "timer_ok {?x} (upd_object ?x f ks2)"
    "objects_ok (upd_object ?x f ks2)" "blocked_ok ?W (upd_object ?x f ks2)" "waiting (upd_object ?x f ks2) = ?W"
    "wl_ok ?W (upd_object ?x f ks2) ?x" if "f = (\<lambda>ob. ob\<lparr>ob_Absolute := a, ob_DueTime := d, ob_Hand := h, ob_Inserted := b\<rparr>)"
    for f :: "KOBJECT \<Rightarrow> KOBJECT" and a d h b
    by (rule idle_timer_inv[OF ok2 x2(1)]; simp add: that p x2(3))+
  have "(KeSetTimerEx c c' cs ?x DueTime Period Dpc ks = Some (r, ks') \<longrightarrow> ke_inv ks') \<and>
    (Period = 0 \<longrightarrow> (\<exists>r ks'. KeSetTimerEx c c' cs ?x DueTime Period Dpc ks = Some (r, ks')))"
  proof (cases "fst r2")
    case False
    define f where "f = (\<lambda>ob. ob\<lparr>ob_Absolute := True, ob_DueTime := 0, ob_Hand := 0, ob_Inserted := False\<rparr> :: KOBJECT)"
    have "snd r2 = set_signal ?x 1 (upd_object ?x f ks2)"
      using False x2(1) by (cases "ks_Objects ks2 ?x")
        (auto simp: r2_def KiComputeDueTime_def Let_def set_signal_def upd_object_def f_def split: if_splits)
    then have eq1: "KeSetTimerEx c c' cs ?x DueTime Period Dpc ks = map_option (\<lambda>r. (i0, snd r)) (KiSignalTimer cs ?x (upd_object ?x f ks2))"
      using False unfolding eq by (cases r2) (auto simp: KiSignalTimer_signal)
    have x3: "is_timer (ty (upd_object ?x f ks2) ?x)" "ob_Period (ks_Objects (upd_object ?x f ks2) ?x) = Period"
      using x2 by (simp_all add: f_def)
    note signal = KiSignalTimer_inv[OF idle(1-6)[OF f_def] x3(1) idle(7)[OF f_def], unfolded x3(2), of cs]
    then show ?thesis
      using p' unfolding eq1 by auto
  next
    case True
    then obtain a d where r2: "snd r2 = upd_object ?x (\<lambda>ob. ob\<lparr>ob_Absolute := a, ob_DueTime := d,
        ob_Hand := KiComputeTimerTableIndex ks2 d mod 256, ob_Inserted := True\<rparr>) ks2"
      by (auto simp: r2_def KiComputeDueTime_def Let_def split: if_splits)
    define f where "f = (\<lambda>ob. ob\<lparr>ob_Absolute := a, ob_DueTime := d,
        ob_Hand := KiComputeTimerTableIndex ks2 d mod 256, ob_Inserted := True\<rparr> :: KOBJECT)"
    define ks3 where "ks3 = set_signal ?x 0 (upd_object ?x f ks2)"
    note idle = idle[OF f_def]
    have x3: "is_timer (ty ks3 ?x)" "ob_Inserted (ks_Objects ks3 ?x)" "ob_Hand (ks_Objects ks3 ?x) = slot_of ks3 ?x mod 256"
      "ob_Period (ks_Objects ks3 ?x) = Period"
      using x2 by (simp_all add: ks3_def f_def slot_of_def due_def KiComputeTimerTableIndex_def)
    have ty3: "ty (upd_object ?x f ks2) ?x = ty ks3 ?x"
      by (simp add: ks3_def)
    have same: "same_links (upd_object ?x f ks2) ks3"
      by (simp add: ks3_def)
    have "objects_ok ks3"
      unfolding ks3_def by (rule event_set_signal) (simp_all add: idle is_timer_two_state ty3 x3(1) del: ks_Objects_upd_object)
    moreover have "blocked_ok ?W ks3"
      by (rule blocked_ok_mono[OF idle(5)]) (auto simp: ks3_def offers_def can_take_def split: if_splits)
    ultimately have ok3: "links ?W ks3" "queue_ok ?W ks3" "timer_ok {?x} ks3" "objects_ok ks3" "blocked_ok ?W ks3" "waiting ks3 = ?W"
      "wl_ok ?W ks3 ?x"
      using same_links_inv[OF same] idle by simp_all
    have eq1: "KeSetTimerEx c c' cs ?x DueTime Period Dpc ks = map_option (Pair i0) (KxInsertTimer c' cs ?x ks3)"
      using True r2 unfolding eq ks3_def f_def by (cases r2) auto
    show ?thesis
      using KxInsertTimer_inv[OF ok3(1-6) x3(1) ok3(7) x3(2,3), unfolded x3(4), of c' cs] p' unfolding eq1 by auto
  qed
  then show "KeSetTimerEx c c' cs ?x DueTime Period Dpc ks = Some (r, ks') \<Longrightarrow> ke_inv ks' \<and> r = ob_Inserted (ks_Objects ks ?x)"
    "Period = 0 \<Longrightarrow> \<exists>r ks'. KeSetTimerEx c c' cs ?x DueTime Period Dpc ks = Some (r, ks')"
    using r by blast+
qed

section \<open>Expiry\<close>

lemma expire_timer_eq: "expire_timer cs x ks = map_option snd (KiCompleteTimer cs x ks)"
  by (simp add: expire_timer_def KiCompleteTimer_def KiSignalTimer_def Let_def map_option_bind comp_def cong: if_cong)

text \<open>The timers that are due at a time, with their due times.\<close>

definition overdue :: "int \<Rightarrow> KSTATE \<Rightarrow> (oid \<times> int) set" where
  "overdue now ks = {(x, due ks x) | x. ob_Inserted (ks_Objects ks x) \<and> due ks x \<le> now}"

text \<open>
  Readings of the clock for the insertion of a periodic timer: none of them is before \<open>now\<close>, the
  time is not about to run out of its 63 bits, and some time the two readings of a round are
  less than a millisecond apart.
\<close>

definition clocks_ok :: "int \<Rightarrow> (KCLOCK \<times> KCLOCK) list \<Rightarrow> bool" where
  "clocks_ok now cs =
     ((\<forall>(c, c') \<in> set cs. now \<le> ck_InterruptTime c \<and> ck_InterruptTime c < 0x7FFF000000000000) \<and>
      (\<exists>(c, c') \<in> set cs. ck_InterruptTime c' < ck_InterruptTime c + 10000))"

lemma KiInsertTreeTimer_due:
  assumes "KiInsertTreeTimer c c' x (- (10000 * P)) ks = (r, ks')" "0 < P" "P < 2147483648"
    "0 \<le> ck_InterruptTime c" "ck_InterruptTime c < 0x7FFF000000000000"
  shows "y \<noteq> x \<Longrightarrow> ks_Objects ks' y = ks_Objects ks y" "due ks' x = ck_InterruptTime c + 10000 * P"
    "ob_Inserted (ks_Objects ks' x) = r" "ck_InterruptTime c' < ck_InterruptTime c + 10000 \<Longrightarrow> r"
    "ks_KeMaximumIncrement ks' = ks_KeMaximumIncrement ks"
proof -
  let ?d = "ck_InterruptTime c + 10000 * P"
  have d: "u64 ?d = ?d" "s64 ?d = ?d"
    using assms(2-5) by (simp_all add: u64_def s64_def)
  define ks1 where "ks1 = upd_object x (\<lambda>ob. ob\<lparr>ob_Absolute := False, ob_DueTime := ?d,
      ob_Hand := KiComputeTimerTableIndex ks ?d mod 256, ob_Inserted := True\<rparr>) ks"
  have comp: "KiComputeDueTime c x (- (10000 * P)) ks = (True, ks1)"
    using assms(2) d(1) by (simp add: KiComputeDueTime_def Let_def ks1_def)
  define h where "h = KiComputeTimerTableIndex ks1 (due ks1 x)"
  obtain before :: "oid list" where "fst (KiInsertTimerTable c' x h ks1) = (before = [] \<and> s64 (due ks1 x) \<le> ck_InterruptTime c')"
    by (rule KiInsertTimerTable_table[of ks1 h c' x])
  then have f: "fst (KiInsertTimerTable c' x h ks1) \<Longrightarrow> ?d \<le> ck_InterruptTime c'"
    using d(2) by (simp add: ks1_def due_def)
  have res: "(r, ks') = (if fst (KiInsertTimerTable c' x h ks1)
      then (False, upd_object x (\<lambda>ob. ob\<lparr>ob_Inserted := False\<rparr>) (KiRemoveEntryTimer x (snd (KiInsertTimerTable c' x h ks1))))
      else (True, snd (KiInsertTimerTable c' x h ks1)))"
    using assms(1) unfolding KiInsertTreeTimer_def comp h_def by (simp split: prod.splits bool.splits)
  show "y \<noteq> x \<Longrightarrow> ks_Objects ks' y = ks_Objects ks y" "due ks' x = ?d" "ob_Inserted (ks_Objects ks' x) = r"
    "ks_KeMaximumIncrement ks' = ks_KeMaximumIncrement ks"
    using res by (auto simp: ks1_def due_def split: if_splits)
  show "ck_InterruptTime c' < ck_InterruptTime c + 10000 \<Longrightarrow> r"
    using res f assms(2) by (auto split: if_splits)
qed

lemma insert_tree_timer_loop_due:
  assumes "0 < P" "P < 2147483648" "0 \<le> now" "clocks_ok now cs"
  shows "\<exists>ks'. insert_tree_timer_loop cs x (- (10000 * P)) ks = Some ks' \<and> (\<forall>y. y \<noteq> x \<longrightarrow> ks_Objects ks' y = ks_Objects ks y) \<and>
    now < due ks' x \<and> ks_KeMaximumIncrement ks' = ks_KeMaximumIncrement ks"
  using assms(4)
proof (induction cs arbitrary: ks)
  case Nil
  then show ?case
    by (simp add: clocks_ok_def)
next
  case (Cons p cs)
  obtain c c' where p: "p = (c, c')"
    by fastforce
  obtain r ks1 where eq: "KiInsertTreeTimer c c' x (- (10000 * P)) ks = (r, ks1)"
    by fastforce
  have c: "now \<le> ck_InterruptTime c" "ck_InterruptTime c < 0x7FFF000000000000" "r \<or> clocks_ok now cs"
    using Cons.prems KiInsertTreeTimer_due(4)[OF eq assms(1,2)] assms(3) by (auto simp: clocks_ok_def p)
  note ins = KiInsertTreeTimer_due[OF eq assms(1,2) _ c(2)]
  show ?case
  proof (cases r)
    case True
    then show ?thesis
      using ins c(1) assms(1,3) eq by (simp add: p)
  next
    case False
    then obtain ks' where "insert_tree_timer_loop cs x (- (10000 * P)) ks1 = Some ks'" "\<forall>y. y \<noteq> x \<longrightarrow> ks_Objects ks' y = ks_Objects ks1 y"
      "now < due ks' x" "ks_KeMaximumIncrement ks' = ks_KeMaximumIncrement ks1"
      using Cons.IH[of ks1] c(3) by blast
    then show ?thesis
      using ins c(1) assms(3) eq False by (simp add: p)
  qed
qed

lemma ke_inv_table_finite:
  assumes "ke_inv ks"
  shows "finite (overdue now ks)"
proof -
  have "overdue now ks \<subseteq> (\<lambda>x. (x, due ks x)) ` (\<Union>h<512. set (ks_TimerTable ks h))"
    using timer_okD(7)[OF ke_inv_links(3)[OF assms]] slot_of_less by (fastforce simp: overdue_def)
  then show ?thesis
    by (rule finite_subset) simp
qed

text \<open>The timers in the table are live, and so their wait lists are in order.\<close>

lemma ke_inv_table:
  assumes inv: "ke_inv ks" and x: "x \<in> set (ks_TimerTable ks h)"
  shows "is_timer (ty ks x)" "wl_ok (waiting ks) ks x" "ob_Inserted (ks_Objects ks x)" "slot_of ks x = h"
proof -
  note ok = ke_inv_links[OF inv]
  show "is_timer (ty ks x)" "ob_Inserted (ks_Objects ks x)" "slot_of ks x = h"
    using timer_okD(4,5,9)[OF ok(3) x] by simp_all
  then have "live (waiting ks) ks x"
    using linksD(4)[OF ok(1)] by (cases x) auto
  then show "wl_ok (waiting ks) ks x"
    by (rule linksD(1)[OF ok(1)])
qed

lemma expire_timer_ok:
  assumes inv: "ke_inv ks" and x: "x \<in> set (ks_TimerTable ks h)" and cs: "0 \<le> now" "clocks_ok now cs"
  shows "\<exists>ks'. expire_timer cs x ks = Some ks' \<and> ke_inv ks' \<and> overdue now ks' \<subseteq> overdue now ks - {(x, due ks x)} \<and>
    ks_KeMaximumIncrement ks' = ks_KeMaximumIncrement ks"
proof -
  let ?ks = "KiRemoveEntryTimer x ks" and ?W = "waiting ks" and ?P = "ob_Period (ks_Objects ks x)"
  note ok = ke_inv_links[OF inv] and xD = ke_inv_table[OF inv x]
  have P: "0 \<le> ?P" "?P < 2147483648"
    using ok(4) by (simp_all add: objects_ok_def timers_typed_def)
  have "links ?W ?ks" "queue_ok ?W ?ks" "timer_ok {x} ?ks" "objects_ok ?ks" "blocked_ok ?W ?ks" "waiting ?ks = ?W"
    "two_state (ty ?ks x)" "wl_ok ?W ?ks x"
    using ok xD KiRemoveEntryTimer_ok[OF ok(3) x] is_timer_two_state
      links_cong[of ?ks ks ?W] queue_ok_cong[of ?ks ks ?W] objects_ok_cong[of ?ks ks] blocked_ok_cong[of ?ks ks ?W]
    by (simp_all add: waiting_def wl_ok_def)
  from wake_timer_ok[OF this] obtain ks1 where
    wake: "wake_timer x (upd_object x (\<lambda>ob. ob\<lparr>ob_Inserted := False, ob_SignalState := 1\<rparr>) ?ks) = Some ks1"
    and ks1: "ke_inv ks1" "\<not> ob_Inserted (ks_Objects ks1 x)" "\<And>y. due ks1 y = due ks y"
      "\<And>y. ob_Inserted (ks_Objects ks1 y) \<Longrightarrow> ob_Inserted (ks_Objects ks y)" "ks_KeMaximumIncrement ks1 = ks_KeMaximumIncrement ks"
    by auto
  have sub1: "overdue now ks1 \<subseteq> overdue now ks - {(x, due ks x)}"
    using ks1(2-4) by (auto simp: overdue_def)
  have eq: "KiCompleteTimer cs x ks = (if ?P = 0 then Some (ob_Dpc (ks_Objects ks x), ks1)
      else map_option (Pair (ob_Dpc (ks_Objects ks x))) (insert_tree_timer_loop cs x (- (10000 * ?P)) ks1))"
    by (simp add: KiCompleteTimer_def KiSignalTimer_eq wake mult.commute map_option_case split: option.split)
  show ?thesis
  proof (cases "?P = 0")
    case True
    then show ?thesis
      using ks1(1,5) sub1 by (simp add: expire_timer_eq eq)
  next
    case False
    then obtain ks' where ks': "insert_tree_timer_loop cs x (- (10000 * ?P)) ks1 = Some ks'"
      "\<forall>y. y \<noteq> x \<longrightarrow> ks_Objects ks' y = ks_Objects ks1 y" "now < due ks' x" "ks_KeMaximumIncrement ks' = ks_KeMaximumIncrement ks1"
      using insert_tree_timer_loop_due[OF _ P(2) cs, of x ks1] P(1) by auto
    have "overdue now ks' \<subseteq> overdue now ks1"
    proof
      fix p assume "p \<in> overdue now ks'"
      then obtain y where y: "p = (y, due ks' y)" "ob_Inserted (ks_Objects ks' y)" "due ks' y \<le> now"
        by (auto simp: overdue_def)
      then have "ks_Objects ks' y = ks_Objects ks1 y"
        using ks'(2,3) by (cases "y = x") auto
      then show "p \<in> overdue now ks1"
        using y by (auto simp: overdue_def due_def)
    qed
    moreover have "ke_inv ks'"
      using KiCompleteTimer_inv(1)[of ?W ks x h cs _ ks'] inv x xD ke_inv_period[OF inv, of x] False
      by (simp add: eq ks'(1) ke_inv_def)
    ultimately show ?thesis
      using False sub1 ks1(5) ks'(4) by (auto simp: expire_timer_eq eq ks'(1))
  qed
qed

text \<open>
  What is asked of the deferred routines: they go through the operations of the dispatcher, so
  they keep its invariant, and a timer they set is due later than the time at which the expiry
  routine was started.
\<close>

definition dpcs_ok :: "int \<Rightarrow> (oid list \<Rightarrow> KSTATE \<Rightarrow> KSTATE) \<Rightarrow> bool" where
  "dpcs_ok now run =
     (\<forall>es ks. ke_inv ks \<longrightarrow> ke_inv (run es ks) \<and> overdue now (run es ks) \<subseteq> overdue now ks \<and>
        ks_KeMaximumIncrement (run es ks) = ks_KeMaximumIncrement ks)"

definition accounting_ok :: "EXPIRY \<Rightarrow> bool" where
  "accounting_ok e = (0 < ex_Timers e \<and> ex_Timers e \<le> 24 \<and> 0 < ex_ActiveTimers e \<and> length (ex_DpcEntry e) + ex_ActiveTimers e \<le> 4)"

lemma accounting_fresh [simp]: "accounting_ok fresh_accounting"
  by (simp add: accounting_ok_def fresh_accounting_def)

lemma u32_sub_one: "0 < n \<Longrightarrow> n \<le> 24 \<Longrightarrow> u32_sub n 1 = n - 1"
  by (cases n) (simp_all add: u32_sub_def)

lemma accounting_counts:
  assumes "accounting_ok e"
  shows "ex_Timers (count_timer e) = ex_Timers e - 1" "ex_ActiveTimers (count_timer e) = ex_ActiveTimers e"
    "ex_DpcEntry (count_timer e) = ex_DpcEntry e" "ex_Timers (count_active (count_timer e)) = ex_Timers e - 1"
    "ex_ActiveTimers (count_active (count_timer e)) = ex_ActiveTimers e - 1"
    "ex_DpcEntry (count_active (count_timer e)) = ex_DpcEntry e"
  using assms by (simp_all add: accounting_ok_def count_timer_def count_active_def u32_sub_one del: One_nat_def)

text \<open>No timer that is due is left in a slot.\<close>

definition clear :: "int \<Rightarrow> nat set \<Rightarrow> KSTATE \<Rightarrow> bool" where
  "clear now H ks = (\<forall>(x, d) \<in> overdue now ks. KiComputeTimerTableIndex ks d \<notin> H)"

lemma clear_mono:
  assumes "clear now H ks" "overdue now ks' \<subseteq> overdue now ks" "ks_KeMaximumIncrement ks' = ks_KeMaximumIncrement ks"
  shows "clear now H ks'"
  using assms by (auto simp: clear_def KiComputeTimerTableIndex_def)

lemma clear_union: "clear now (A \<union> B) ks = (clear now A ks \<and> clear now B ks)"
  by (auto simp: clear_def)

lemma clear_head:
  assumes "ke_inv ks" "ks_TimerTable ks h = [] \<or> \<not> due ks (hd (ks_TimerTable ks h)) \<le> now"
  shows "clear now {h} ks"
proof -
  note t = ke_inv_links(3)[OF assms(1)]
  have "\<not> due ks x \<le> now" if "ob_Inserted (ks_Objects ks x)" "slot_of ks x = h" for x
  proof -
    have "x \<in> set (ks_TimerTable ks h)"
      using timer_okD(7)[OF t that(1)] that(2) by simp
    then show ?thesis
      using assms(2) timer_okD(1)[OF t, of h] by (cases "ks_TimerTable ks h") auto
  qed
  then show ?thesis
    by (auto simp: clear_def overdue_def slot_of_def)
qed

text \<open>The time of a slot is moved to the due time of its first timer.\<close>

lemma ke_inv_slot_time:
  assumes inv: "ke_inv ks" and x: "ks_TimerTable ks h = x # xs"
  defines "ks' \<equiv> ks\<lparr>ks_TimerTime := (ks_TimerTime ks)(h := due ks x)\<rparr>"
  shows "ke_inv ks'" "overdue now ks' = overdue now ks" "ks_KeMaximumIncrement ks' = ks_KeMaximumIncrement ks"
proof -
  note ok = ke_inv_links[OF inv]
  have due: "due ks' = due ks" and slot: "slot_of ks' = slot_of ks"
    by (simp_all add: ks'_def due_def slot_of_def KiComputeTimerTableIndex_def fun_eq_iff)
  have "timer_ok {} ks'"
  proof (rule timer_okI)
    fix j y
    show "sorted (map (due ks') (ks_TimerTable ks' j))"
      using timer_okD(1)[OF ok(3), of j] unfolding due by (simp add: ks'_def)
    show "distinct (ks_TimerTable ks' j)"
      using timer_okD(2)[OF ok(3), of j] by (simp add: ks'_def)
    show "ob_Inserted (ks_Objects ks' y) \<Longrightarrow> y \<notin> {} \<Longrightarrow> y \<in> set (ks_TimerTable ks' (slot_of ks' y))"
      using timer_okD(7)[OF ok(3), of y] unfolding slot by (simp add: ks'_def)
    assume "y \<in> set (ks_TimerTable ks' j)"
    then have y: "y \<in> set (ks_TimerTable ks j)"
      by (simp add: ks'_def)
    have "due ks x \<le> due ks y" if "j = h"
      using timer_okD(1)[OF ok(3), of h] y x that by auto
    then show "y \<notin> {} \<and> ob_Inserted (ks_Objects ks' y) \<and> j = slot_of ks' y \<and> ob_Hand (ks_Objects ks' y) = j mod 256 \<and>
      ks_TimerTime ks' j \<le> due ks' y \<and> is_timer (ob_Type (ks_Objects ks' y))"
      using timer_okD(4-6,8,9)[OF ok(3) y] unfolding slot due by (simp add: ks'_def)
  qed
  moreover have "links (waiting ks) ks' = links (waiting ks) ks" "queue_ok (waiting ks) ks' = queue_ok (waiting ks) ks"
    "objects_ok ks' = objects_ok ks" "blocked_ok (waiting ks) ks' = blocked_ok (waiting ks) ks"
    by (intro links_cong queue_ok_cong objects_ok_cong blocked_ok_cong; simp add: ks'_def)+
  moreover have "waiting ks' = waiting ks"
    by (simp add: waiting_def ks'_def)
  ultimately show "ke_inv ks'"
    using ok by (simp add: ke_inv_def inv_on_def core_def)
  show "overdue now ks' = overdue now ks" "ks_KeMaximumIncrement ks' = ks_KeMaximumIncrement ks"
    unfolding overdue_def due by (simp_all add: ks'_def)
qed

definition slot_done :: "int \<Rightarrow> nat set \<Rightarrow> KSTATE \<Rightarrow> EXPIRY \<times> nat \<times> KSTATE \<Rightarrow> bool" where
  "slot_done now H ks r =
     (case r of (e', k', ks') \<Rightarrow> ke_inv ks' \<and> accounting_ok e' \<and> overdue now ks' \<subseteq> overdue now ks \<and>
        ks_KeMaximumIncrement ks' = ks_KeMaximumIncrement ks \<and> clear now H ks')"

lemma slot_done_trans:
  assumes "slot_done now H ks1 r" "overdue now ks1 \<subseteq> overdue now ks" "ks_KeMaximumIncrement ks1 = ks_KeMaximumIncrement ks"
  shows "slot_done now H ks r"
  using assms by (auto simp: slot_done_def)

lemma expire_slot_ok:
  assumes run: "dpcs_ok now run" and clk: "\<And>k. clocks_ok now (clk k)" "0 \<le> now"
    and ks: "ke_inv ks" "accounting_ok e"
  shows "\<exists>r. expire_slot run clk now h e k ks = Some r \<and> slot_done now {h} ks r"
  using ks
proof (induction "card (overdue now ks)" arbitrary: ks e k rule: less_induct)
  case less
  note runD = run[unfolded dpcs_ok_def, rule_format]
  show ?case
  proof (cases "ks_TimerTable ks h")
    case Nil
    then have "slot_done now {h} ks (e, k, ks)"
      using less.prems clear_head[OF less.prems(1), of h] by (simp add: slot_done_def)
    then show ?thesis
      using Nil by (subst expire_slot.simps) simp
  next
    case (Cons x xs)
    define e1 where "e1 = count_timer e"
    note e1 = accounting_counts(1-3)[OF less.prems(2), folded e1_def]
    show ?thesis
    proof (cases "due ks x \<le> now")
      case True
      obtain ks1 where ks1: "expire_timer (clk k) x ks = Some ks1" "ke_inv ks1"
        "overdue now ks1 \<subseteq> overdue now ks - {(x, due ks x)}" "ks_KeMaximumIncrement ks1 = ks_KeMaximumIncrement ks"
        using expire_timer_ok[OF less.prems(1), of x h now "clk k"] Cons clk by auto
      have "(x, due ks x) \<in> overdue now ks"
        using True ke_inv_table(3)[OF less.prems(1), of x h] Cons by (auto simp: overdue_def)
      then have smaller: "card (overdue now ks2) < card (overdue now ks)" if "overdue now ks2 \<subseteq> overdue now ks1" for ks2
        using that ks1(3) ke_inv_table_finite[OF less.prems(1)] by (intro psubset_card_mono) auto
      define e2 where "e2 = count_active e1"
      note e2 = accounting_counts(4-6)[OF less.prems(2), folded e1_def, folded e2_def]
      obtain e3 where e3: "add_dpc (ob_Dpc (ks_Objects ks x)) x e2 = Some e3"
        "ex_Timers e3 = ex_Timers e - 1" "ex_ActiveTimers e3 = ex_ActiveTimers e - 1" "length (ex_DpcEntry e3) \<le> length (ex_DpcEntry e) + 1"
        using e2 less.prems(2) by (cases "ob_Dpc (ks_Objects ks x)") (auto simp: add_dpc_def accounting_ok_def)
      define stop where "stop = (ex_ActiveTimers e3 = 0 \<or> ex_Timers e3 = 0)"
      define ks2 where "ks2 = (if stop then run (ex_DpcEntry e3) ks1 else ks1)"
      define e4 where "e4 = (if stop then fresh_accounting else e3)"
      have ks2: "ke_inv ks2" "overdue now ks2 \<subseteq> overdue now ks1" "ks_KeMaximumIncrement ks2 = ks_KeMaximumIncrement ks"
        using runD[OF ks1(2)] ks1(2,4) by (simp_all add: ks2_def)
      have "accounting_ok e4"
        using less.prems(2) e3 by (auto simp: e4_def stop_def accounting_ok_def fresh_accounting_def)
      then obtain r where r: "expire_slot run clk now h e4 (k + 1) ks2 = Some r" "slot_done now {h} ks2 r"
        using less.hyps[OF smaller[OF ks2(2)] ks2(1)] by blast
      have "expire_slot run clk now h e k ks = expire_slot run clk now h e4 (k + 1) ks2"
        by (subst expire_slot.simps)
          (simp add: Cons True e1_def[symmetric] e2_def[symmetric] ks1(1) e3(1) stop_def[symmetric] Let_def e4_def ks2_def)
      moreover have "slot_done now {h} ks r"
        using slot_done_trans[OF r(2)] ks2 ks1(3) by blast
      ultimately show ?thesis
        using r(1) by simp
    next
      case False
      define ks1 where "ks1 = ks\<lparr>ks_TimerTime := (ks_TimerTime ks)(h := due ks x)\<rparr>"
      note slot = ke_inv_slot_time[OF less.prems(1) Cons, folded ks1_def]
      have clear: "clear now {h} ks1"
        using clear_mono[OF clear_head[OF less.prems(1), of h now]] False Cons slot by simp
      note rD = runD[OF slot(1), of "ex_DpcEntry e1"]
      define r where "r = (if ex_Timers e1 = 0 then (fresh_accounting, k, run (ex_DpcEntry e1) ks1) else (e1, k, ks1))"
      have "expire_slot run clk now h e k ks = Some r"
        by (subst expire_slot.simps) (simp add: Cons False e1_def[symmetric] ks1_def[symmetric] Let_def r_def)
      moreover have "slot_done now {h} ks r"
      proof (cases "ex_Timers e1 = 0")
        case True
        have "clear now {h} (run (ex_DpcEntry e1) ks1)"
          using clear_mono[OF clear] rD by blast
        then show ?thesis
          using True rD slot(2,3) by (simp add: slot_done_def r_def)
      next
        case False
        then have "accounting_ok e1"
          using less.prems(2) e1 by (auto simp: accounting_ok_def)
        then show ?thesis
          using False slot clear by (simp add: slot_done_def r_def)
      qed
      ultimately show ?thesis
        by simp
    qed
  qed
qed

text \<open>The slots that are looked at.\<close>

definition scanned :: "int \<Rightarrow> int \<Rightarrow> nat set" where
  "scanned Limit Index = {nat ((Index + 1 + int i) mod 512) | i. int i \<le> (Limit - (Index + 1)) mod 512}"

lemma scanned_split:
  assumes "0 \<le> Limit" "Limit < 512"
  shows "scanned Limit Index =
    {nat ((Index + 1) mod 512)} \<union> (if (Index + 1) mod 512 = Limit then {} else scanned Limit ((Index + 1) mod 512))"
    and "(Index + 1) mod 512 \<noteq> Limit \<Longrightarrow> nat ((Limit - ((Index + 1) mod 512 + 1)) mod 512) < nat ((Limit - (Index + 1)) mod 512)"
proof -
  define n where "n = (Limit - (Index + 1)) mod 512"
  define I where "I = (Index + 1) mod 512"
  have n: "0 \<le> n" "n < 512"
    by (simp_all add: n_def)
  have I: "0 \<le> I" "I < 512"
    by (simp_all add: I_def)
  have nI: "n = (Limit - I) mod 512"
    by (simp add: n_def I_def mod_diff_right_eq)
  have n': "n = (if I \<le> Limit then Limit - I else Limit - I + 512)"
  proof (cases "I \<le> Limit")
    case False
    then have "(Limit - I + 512) mod 512 = Limit - I + 512"
      using I assms by (intro mod_pos_pos_trivial) auto
    then show ?thesis
      using False nI by simp
  qed (use I assms nI in simp)
  then have zero: "n = 0 \<longleftrightarrow> I = Limit"
    using I assms by auto
  have step: "(Limit - (I + 1)) mod 512 = n - 1" if "n \<noteq> 0"
  proof -
    have "(Limit - (I + 1)) mod 512 = ((Limit - I) mod 512 - 1) mod 512"
      by (simp add: mod_diff_left_eq diff_diff_eq)
    then show ?thesis
      using that n by (simp add: nI[symmetric])
  qed
  then show "(Index + 1) mod 512 \<noteq> Limit \<Longrightarrow> nat ((Limit - ((Index + 1) mod 512 + 1)) mod 512) < nat ((Limit - (Index + 1)) mod 512)"
    using n zero by (simp add: n_def[symmetric] I_def[symmetric])
  have shift: "(I + 1 + int i) mod 512 = (Index + 1 + int (Suc i)) mod 512" for i
  proof -
    have "(I + 1 + int i) mod 512 = (I + (1 + int i)) mod 512"
      by (simp add: add.assoc)
    also have "\<dots> = (Index + 1 + (1 + int i)) mod 512"
      unfolding I_def by (rule mod_add_left_eq)
    finally show ?thesis
      by simp
  qed
  have "scanned Limit Index = {nat ((Index + 1 + int i) mod 512) | i. int i \<le> n}"
    by (simp add: scanned_def n_def)
  also have "\<dots> = {nat ((Index + 1) mod 512)} \<union> {nat ((Index + 1 + int (Suc i)) mod 512) | i. int (Suc i) \<le> n}" (is "?A = ?B")
  proof
    show "?A \<subseteq> ?B"
    proof
      fix h assume "h \<in> ?A"
      then obtain i where "h = nat ((Index + 1 + int i) mod 512)" "int i \<le> n"
        by blast
      then show "h \<in> ?B"
        by (cases i) auto
    qed
    show "?B \<subseteq> ?A"
    proof
      fix h assume "h \<in> ?B"
      then consider "h = nat ((Index + 1 + int 0) mod 512)" | i where "h = nat ((Index + 1 + int (Suc i)) mod 512)" "int (Suc i) \<le> n"
        by auto
      then show "h \<in> ?A"
      proof cases
        case 1
        then show ?thesis
          using n(1) by (intro CollectI exI[of _ 0]) auto
      qed blast
    qed
  qed
  also have "{nat ((Index + 1 + int (Suc i)) mod 512) | i. int (Suc i) \<le> n} =
      (if (Index + 1) mod 512 = Limit then {} else scanned Limit ((Index + 1) mod 512))"
  proof (cases "n = 0")
    case True
    then show ?thesis
      using zero by (auto simp: I_def)
  next
    case False
    have "scanned Limit I = {nat ((Index + 1 + int (Suc i)) mod 512) | i. int (Suc i) \<le> n}"
      unfolding scanned_def step[OF False] shift by (rule Collect_cong) auto
    then show ?thesis
      using False zero by (simp add: I_def)
  qed
  finally show "scanned Limit Index =
    {nat ((Index + 1) mod 512)} \<union> (if (Index + 1) mod 512 = Limit then {} else scanned Limit ((Index + 1) mod 512))" .
qed

lemma expire_loop_ok:
  assumes run: "dpcs_ok now run" and clk: "\<And>k. clocks_ok now (clk k)" "0 \<le> now" and L: "0 \<le> Limit" "Limit < 512"
    and ks: "ke_inv ks" "accounting_ok e"
  shows "\<exists>r. expire_loop run clk now Limit Index e k ks = Some r \<and> slot_done now (scanned Limit Index) ks r"
  using ks
proof (induction "nat ((Limit - (Index + 1)) mod 512)" arbitrary: Index ks e k rule: less_induct)
  case less
  define I where "I = (Index + 1) mod 512"
  obtain r0 where r0: "expire_slot run clk now (nat I) e k ks = Some r0" "slot_done now {nat I} ks r0"
    using expire_slot_ok[where clk = clk, OF run clk less.prems] by blast
  obtain e1 k1 ks1 where eq: "r0 = (e1, k1, ks1)"
    by (cases r0)
  note slot = r0[unfolded eq]
  then have ks1: "ke_inv ks1" "accounting_ok e1" "overdue now ks1 \<subseteq> overdue now ks"
    "ks_KeMaximumIncrement ks1 = ks_KeMaximumIncrement ks" "clear now {nat I} ks1"
    by (simp_all add: slot_done_def)
  note split = scanned_split(1)[OF L, of Index, folded I_def]
  show ?case
  proof (cases "I = Limit")
    case True
    then have "expire_loop run clk now Limit Index e k ks = Some (e1, k1, ks1)"
      using slot(1) by (subst expire_loop.simps) (simp add: I_def[symmetric])
    then show ?thesis
      using True slot(2) split by simp
  next
    case False
    then obtain r where r: "expire_loop run clk now Limit I e1 k1 ks1 = Some r" "slot_done now (scanned Limit I) ks1 r"
      using less.hyps[OF scanned_split(2)[OF L, of Index, folded I_def] ks1(1,2)] by blast
    have "expire_loop run clk now Limit Index e k ks = Some r"
      using False r(1) by (subst expire_loop.simps) (simp add: I_def[symmetric] slot(1))
    moreover have "slot_done now (scanned Limit Index) ks r"
    proof (cases r)
      case (fields e2 k2 ks2)
      have r2: "ke_inv ks2" "accounting_ok e2" "overdue now ks2 \<subseteq> overdue now ks1"
        "ks_KeMaximumIncrement ks2 = ks_KeMaximumIncrement ks1" "clear now (scanned Limit I) ks2"
        using r(2) by (simp_all add: fields slot_done_def)
      have "clear now (scanned Limit Index) ks2"
        unfolding split using False r2(5) clear_mono[OF ks1(5) r2(3,4)] by (simp only: clear_union if_False)
      then show ?thesis
        using r2 ks1 by (auto simp: fields slot_done_def)
    qed
    ultimately show ?thesis
      by blast
  qed
qed

text \<open>The last slot the routine looks at.\<close>

definition expiry_limit :: "nat \<Rightarrow> int \<Rightarrow> int" where
  "expiry_limit TickCount Index =
     (if s32 (s32 (int TickCount) - Index) \<ge> 512 then Index + 512 - 1 else s32 (int TickCount)) mod 512"

lemma KiTimerExpiration_inv:
  assumes "dpcs_ok now run" "\<And>k. clocks_ok now (clk k)" "0 \<le> now" "ke_inv ks"
  shows "\<exists>ks'. KiTimerExpiration run clk now TickCount Index ks = Some ks' \<and> ke_inv ks' \<and>
    (\<forall>x. ob_Inserted (ks_Objects ks' x) \<longrightarrow> due ks' x \<le> now \<longrightarrow> slot_of ks' x \<notin> scanned (expiry_limit TickCount Index) (Index - 1))"
proof -
  let ?L = "expiry_limit TickCount Index"
  obtain r where r: "expire_loop run clk now ?L (Index - 1) fresh_accounting 0 ks = Some r"
    "slot_done now (scanned ?L (Index - 1)) ks r"
    using expire_loop_ok[where clk = clk and Limit = ?L and Index = "Index - 1" and e = fresh_accounting and k = 0, OF assms(1-3) _ _ assms(4)]
    by (auto simp: expiry_limit_def)
  obtain e k ks1 where eq: "r = (e, k, ks1)"
    by (cases r)
  define ks' where "ks' = (if ex_DpcEntry e \<noteq> [] then run (ex_DpcEntry e) ks1 else ks1)"
  have 1: "ke_inv ks1" "clear now (scanned ?L (Index - 1)) ks1"
    using r(2) by (simp_all add: eq slot_done_def)
  then have 2: "ke_inv ks'" "clear now (scanned ?L (Index - 1)) ks'"
    using assms(1)[unfolded dpcs_ok_def, rule_format, OF 1(1), of "ex_DpcEntry e"] clear_mono[OF 1(2)] by (auto simp: ks'_def)
  have "KiTimerExpiration run clk now TickCount Index ks = Some ks'"
    unfolding KiTimerExpiration_def Let_def expiry_limit_def[symmetric] r(1) eq ks'_def by simp
  then show ?thesis
    using 2 by (auto simp: clear_def overdue_def slot_of_def)
qed

text \<open>
  C8. The timer expiry routine ends, keeps the invariant of the dispatcher, never writes behind the
  end of its array of deferred routines, and leaves no timer that is due in any slot from the
  one it is called for to the one of the current tick; in all slots, if 512 ticks have passed.
  The deferred routines it calls are arbitrary as long as they keep the invariant and set no
  timer for a time that is past; the clock must be readable twice within a millisecond.
\<close>

theorem KiTimerExpiration_complete:
  assumes "dpcs_ok now run" "\<And>k. clocks_ok now (clk k)" "0 \<le> now" "ke_inv ks"
  shows "\<exists>ks'. KiTimerExpiration run clk now TickCount Index ks = Some ks' \<and> ke_inv ks' \<and>
    (\<forall>x. ob_Inserted (ks_Objects ks' x) \<longrightarrow> due ks' x \<le> now \<longrightarrow> slot_of ks' x \<notin> scanned (expiry_limit TickCount Index) (Index - 1))"
  by (rule KiTimerExpiration_inv[OF assms])

text \<open>A timer that is set to expire after 50 units.\<close>

definition clock_at :: "int \<Rightarrow> KCLOCK" where
  "clock_at i = \<lparr>ck_SystemTime = 0, ck_InterruptTime = i\<rparr>"

definition armed :: KSTATE where
  "armed = (case KeSetTimerEx (clock_at 0) (clock_at 0) [] (Obj 0) (- 50) 0 True (KeInitializeTimer (Obj 0) (KiInitSystem 100)) of
     Some (r, ks) \<Rightarrow> ks | None \<Rightarrow> KiInitSystem 100)"

lemma armed_ok: "ke_inv armed"
proof -
  let ?ks = "KeInitializeTimer (Obj 0) (KiInitSystem 100)"
  have ks: "ke_inv ?ks" "is_timer (ty ?ks (Obj 0))"
    unfolding KeInitializeTimer_def
    by (rule KeInitializeTimerEx_ok)
      (simp_all add: KiInitSystem_ok is_timer_def unused_def blank_object_def new_thread_def KeInitializeTimerEx_def)
  then show ?thesis
    using KeSetTimerEx_ok(1)[OF ks, of 0] by (auto simp: armed_def KiInitSystem_ok split: option.split)
qed

lemma armed_due: "ob_Inserted (ks_Objects armed (Obj 0)) \<and> due armed (Obj 0) = 50"
  by (simp add: armed_def KeSetTimerEx_def KeCancelTimer_def KeInitializeTimer_def KeInitializeTimerEx_def KiComputeDueTime_def
      KxInsertTimer_def KiInsertTimerTable_def KiComputeTimerTableIndex_def clock_at_def blank_object_def Let_def due_def u64_def s64_def)

theorem KiTimerExpiration_complete_witness:
  "(ob_Inserted (ks_Objects armed (Obj 0)) \<and> due armed (Obj 0) = 50) \<and>
   (\<exists>ks'. KiTimerExpiration (\<lambda>es ks. ks) (\<lambda>k. [(clock_at 60, clock_at 60)]) 60 2 0 armed = Some ks' \<and> ke_inv ks' \<and>
     (\<forall>x. ob_Inserted (ks_Objects ks' x) \<longrightarrow> due ks' x \<le> 60 \<longrightarrow> slot_of ks' x \<notin> scanned (expiry_limit 2 0) (0 - 1)))"
proof (rule conjI[OF armed_due KiTimerExpiration_complete])
  show "dpcs_ok 60 (\<lambda>es ks. ks)" "ke_inv armed"
    by (simp_all add: dpcs_ok_def armed_ok)
qed (simp_all add: clocks_ok_def clock_at_def)

end
