(* ===== verification/Ke_Apc.thy ===== *)
theory Ke_Apc
  imports Ke_Expiry
begin

text \<open>
  Asynchronous procedure calls (\<open>ntoskrnl/ke/apc.c\<close>): their queues and the wake-up of a thread
  that can run one. The branch of \<open>KiInsertQueueApc\<close> for a thread in a gate wait is left out,
  as no operation of the model puts a thread into that state. The routines of an APC belong to
  its owner: what the kernel routine and the normal routine do are parameters.
\<close>

abbreviation (input) "OriginalApcEnvironment \<equiv> (0 :: nat)"
abbreviation (input) "AttachedApcEnvironment \<equiv> (1 :: nat)"
abbreviation (input) "CurrentApcEnvironment \<equiv> (2 :: nat)"
abbreviation (input) "InsertApcEnvironment \<equiv> (3 :: nat)"
abbreviation (input) "PASSIVE_LEVEL \<equiv> (0 :: nat)"

section \<open>Operations\<close>

definition upd_apc :: "nat \<Rightarrow> (KAPC \<Rightarrow> KAPC) \<Rightarrow> KSTATE \<Rightarrow> KSTATE" where
  "upd_apc a f ks = ks\<lparr>ks_Apcs := (ks_Apcs ks)(a := f (ks_Apcs ks a))\<rparr>"

definition KeInitializeApc :: "nat \<Rightarrow> tid \<Rightarrow> nat \<Rightarrow> bool \<Rightarrow> bool \<Rightarrow> KPROCESSOR_MODE \<Rightarrow> KSTATE \<Rightarrow> KSTATE" where
  "KeInitializeApc a t TargetEnvironment ExitRoutine NormalRoutine Mode ks =
     upd_apc a (\<lambda>ap. \<lparr>ap_Thread = t, ap_ApcMode = (if NormalRoutine then Mode else KernelMode),
       ap_ApcStateIndex = (if TargetEnvironment = CurrentApcEnvironment then th_ApcStateIndex (ks_Threads ks t) else TargetEnvironment),
       ap_NormalRoutine = NormalRoutine, ap_ExitRoutine = ExitRoutine, ap_Inserted = False\<rparr>) ks"

text \<open>\<open>ApcStatePointer\<close>: the APC state of the environment the thread is in, or the saved one.\<close>

definition apc_list :: "nat \<Rightarrow> KPROCESSOR_MODE \<Rightarrow> KTHREAD \<Rightarrow> nat list" where
  "apc_list Index m th = (if Index = th_ApcStateIndex th then th_ApcList th m else th_SavedApcList th m)"

definition set_apc_list :: "nat \<Rightarrow> KPROCESSOR_MODE \<Rightarrow> nat list \<Rightarrow> KTHREAD \<Rightarrow> KTHREAD" where
  "set_apc_list Index m as th =
     (if Index = th_ApcStateIndex th then th\<lparr>th_ApcList := (th_ApcList th)(m := as)\<rparr>
      else th\<lparr>th_SavedApcList := (th_SavedApcList th)(m := as)\<rparr>)"

text \<open>An APC without a normal routine goes behind the last one of its kind.\<close>

definition insert_special :: "KSTATE \<Rightarrow> nat \<Rightarrow> nat list \<Rightarrow> nat list" where
  "insert_special ks a as =
     (let normal = (\<lambda>b. ap_NormalRoutine (ks_Apcs ks b))
      in rev (dropWhile normal (rev as)) @ a # rev (takeWhile normal (rev as)))"

definition enqueue_apc :: "nat \<Rightarrow> KSTATE \<Rightarrow> KSTATE" where
  "enqueue_apc a ks =
     (let ap = ks_Apcs ks a; t = ap_Thread ap; Index = ap_ApcStateIndex ap; m = ap_ApcMode ap;
          as = apc_list Index m (ks_Threads ks t)
      in if ap_NormalRoutine ap then
           if m \<noteq> KernelMode \<and> ap_ExitRoutine ap
           then upd_thread t (\<lambda>th. set_apc_list Index m (a # as) (th\<lparr>th_UserApcPending := True\<rparr>)) ks
           else upd_thread t (set_apc_list Index m (as @ [a])) ks
         else upd_thread t (set_apc_list Index m (insert_special ks a as)) ks)"

definition KiInsertQueueApc :: "tid \<Rightarrow> nat \<Rightarrow> int \<Rightarrow> KSTATE \<Rightarrow> KSTATE" where
  "KiInsertQueueApc cur a PriorityBoost ks =
     (let t = ap_Thread (ks_Apcs ks a);
          ks = (if ap_ApcStateIndex (ks_Apcs ks a) = InsertApcEnvironment
                then upd_apc a (\<lambda>ap. ap\<lparr>ap_ApcStateIndex := th_ApcStateIndex (ks_Threads ks t)\<rparr>) ks else ks);
          ap = ks_Apcs ks a; ApcMode = ap_ApcMode ap;
          ks = enqueue_apc a ks;
          th = ks_Threads ks t
      in if th_ApcStateIndex th = ap_ApcStateIndex ap then
           if t = cur then
             if ApcMode = KernelMode then upd_thread t (\<lambda>th. th\<lparr>th_KernelApcPending := True\<rparr>) ks else ks
           else if ApcMode = KernelMode then
             let ks = upd_thread t (\<lambda>th. th\<lparr>th_KernelApcPending := True\<rparr>) ks
             in if th_State th = Running then ks
                else if th_State th = Waiting \<and> th_WaitIrql th = PASSIVE_LEVEL \<and> \<not> th_SpecialApcDisable th
                   \<and> (\<not> ap_NormalRoutine ap \<or> (th_KernelApcDisable th = 0 \<and> \<not> th_KernelApcInProgress th))
                then KiUnwaitThread t STATUS_KERNEL_APC PriorityBoost ks
                else ks
           else if th_State th = Waiting \<and> th_WaitMode th = UserMode \<and> (th_Alertable th \<or> th_UserApcPending th)
           then KiUnwaitThread t STATUS_USER_APC PriorityBoost (upd_thread t (\<lambda>th. th\<lparr>th_UserApcPending := True\<rparr>) ks)
           else ks
         else ks)"

definition KeInsertQueueApc :: "tid \<Rightarrow> nat \<Rightarrow> int \<Rightarrow> KSTATE \<Rightarrow> bool \<times> KSTATE" where
  "KeInsertQueueApc cur a PriorityBoost ks =
     (if \<not> th_ApcQueueable (ks_Threads ks (ap_Thread (ks_Apcs ks a))) \<or> ap_Inserted (ks_Apcs ks a) then (False, ks)
      else (True, KiInsertQueueApc cur a PriorityBoost (upd_apc a (\<lambda>ap. ap\<lparr>ap_Inserted := True\<rparr>) ks)))"

definition KeFlushQueueApc :: "tid \<Rightarrow> KPROCESSOR_MODE \<Rightarrow> KSTATE \<Rightarrow> nat list \<times> KSTATE" where
  "KeFlushQueueApc t PreviousMode ks =
     (let as = th_ApcList (ks_Threads ks t) PreviousMode
      in if as = [] then ([], ks)
         else (as, upd_thread t (\<lambda>th. th\<lparr>th_ApcList := (th_ApcList th)(PreviousMode := [])\<rparr>)
                     (fold (\<lambda>a. upd_apc a (\<lambda>ap. ap\<lparr>ap_Inserted := False\<rparr>)) as ks)))"

text \<open>When the last APC of a list is removed, no APC of that mode is pending in its environment.\<close>

definition clear_pending :: "nat \<Rightarrow> KPROCESSOR_MODE \<Rightarrow> KTHREAD \<Rightarrow> KTHREAD" where
  "clear_pending Index m th =
     (if Index = th_ApcStateIndex th then
        if m = KernelMode then th\<lparr>th_KernelApcPending := False\<rparr> else th\<lparr>th_UserApcPending := False\<rparr>
      else if m = KernelMode then th\<lparr>th_SavedKernelApcPending := False\<rparr> else th\<lparr>th_SavedUserApcPending := False\<rparr>)"

definition KeRemoveQueueApc :: "nat \<Rightarrow> KSTATE \<Rightarrow> bool \<times> KSTATE" where
  "KeRemoveQueueApc a ks =
     (let ap = ks_Apcs ks a; t = ap_Thread ap; Index = ap_ApcStateIndex ap; m = ap_ApcMode ap in
      if ap_Inserted ap then
        let ks = upd_apc a (\<lambda>ap. ap\<lparr>ap_Inserted := False\<rparr>) ks;
            as = remove1 a (apc_list Index m (ks_Threads ks t));
            ks = upd_thread t (set_apc_list Index m as) ks
        in (True, if as = [] then upd_thread t (clear_pending Index m) ks else ks)
      else (False, ks))"

section \<open>Delivery\<close>

definition dequeue_apc :: "tid \<Rightarrow> KPROCESSOR_MODE \<Rightarrow> KSTATE \<Rightarrow> KSTATE" where
  "dequeue_apc t m ks =
     (case th_ApcList (ks_Threads ks t) m of
        [] \<Rightarrow> ks
      | a # as \<Rightarrow> upd_apc a (\<lambda>ap. ap\<lparr>ap_Inserted := False\<rparr>)
                    (upd_thread t (\<lambda>th. th\<lparr>th_ApcList := (th_ApcList th)(m := as)\<rparr>) ks))"

text \<open>
  The loop over the kernel APCs of a thread. A kernel routine says whether its normal routine is
  still to be run. The result says whether the loop ended because the list was empty.
\<close>

partial_function (option) deliver_kernel_apcs ::
  "(nat \<Rightarrow> KSTATE \<Rightarrow> bool \<times> KSTATE) \<Rightarrow> (nat \<Rightarrow> KSTATE \<Rightarrow> KSTATE) \<Rightarrow> tid \<Rightarrow> KSTATE \<Rightarrow> (bool \<times> KSTATE) option" where
  "deliver_kernel_apcs kernel_routine normal_routine t ks =
     (case th_ApcList (ks_Threads ks t) KernelMode of
        [] \<Rightarrow> Some (True, ks)
      | a # as \<Rightarrow>
          let ks = upd_thread t (\<lambda>th. th\<lparr>th_KernelApcPending := False\<rparr>) ks in
          if \<not> ap_NormalRoutine (ks_Apcs ks a) then
            deliver_kernel_apcs kernel_routine normal_routine t (snd (kernel_routine a (dequeue_apc t KernelMode ks)))
          else if th_KernelApcInProgress (ks_Threads ks t) \<or> th_KernelApcDisable (ks_Threads ks t) \<noteq> 0 then Some (False, ks)
          else
            let (normal, ks) = kernel_routine a (dequeue_apc t KernelMode ks);
                ks = (if normal then normal_routine a (upd_thread t (\<lambda>th. th\<lparr>th_KernelApcInProgress := True\<rparr>) ks) else ks)
            in deliver_kernel_apcs kernel_routine normal_routine t
                 (upd_thread t (\<lambda>th. th\<lparr>th_KernelApcInProgress := False\<rparr>) ks))"

declare deliver_kernel_apcs.simps [code]

text \<open>
  The last argument is what \<open>KiInitializeUserApc\<close> does, which prepares the return to user mode.
\<close>

definition KiDeliverApc ::
  "(nat \<Rightarrow> KSTATE \<Rightarrow> bool \<times> KSTATE) \<Rightarrow> (nat \<Rightarrow> KSTATE \<Rightarrow> KSTATE) \<Rightarrow> (nat \<Rightarrow> KSTATE \<Rightarrow> KSTATE) \<Rightarrow> tid \<Rightarrow> KPROCESSOR_MODE \<Rightarrow>
   KSTATE \<Rightarrow> KSTATE option" where
  "KiDeliverApc kernel_routine normal_routine initialize_user_apc t DeliveryMode ks =
     (let ks = upd_thread t (\<lambda>th. th\<lparr>th_KernelApcPending := False\<rparr>) ks in
      if th_SpecialApcDisable (ks_Threads ks t) then Some ks
      else do {
        (finished, ks) \<leftarrow> deliver_kernel_apcs kernel_routine normal_routine t ks;
        Some (case th_ApcList (ks_Threads ks t) UserMode of
            a # as \<Rightarrow>
              if finished \<and> DeliveryMode = UserMode \<and> th_UserApcPending (ks_Threads ks t) then
                let ks = upd_thread t (\<lambda>th. th\<lparr>th_UserApcPending := False\<rparr>) ks;
                    (normal, ks) = kernel_routine a (dequeue_apc t UserMode ks)
                in if normal then initialize_user_apc a ks else snd (KeTestAlertThread t UserMode ks)
              else ks
          | [] \<Rightarrow> ks)
      })"

section \<open>The queues\<close>

text \<open>
  An APC is inserted exactly if it is in a list of its thread, the one of its mode and
  environment, and it is there once. In the kernel list the APCs without a normal routine come
  first.
\<close>

definition normal :: "KSTATE \<Rightarrow> nat \<Rightarrow> bool" where
  "normal ks a = ap_NormalRoutine (ks_Apcs ks a)"

definition inserted_at :: "KSTATE \<Rightarrow> nat \<Rightarrow> tid \<Rightarrow> KPROCESSOR_MODE \<Rightarrow> nat \<Rightarrow> bool" where
  "inserted_at ks a t m i =
     (ap_Inserted (ks_Apcs ks a) \<and> ap_Thread (ks_Apcs ks a) = t \<and> ap_ApcMode (ks_Apcs ks a) = m \<and> ap_ApcStateIndex (ks_Apcs ks a) = i)"

definition special_first :: "KSTATE \<Rightarrow> nat list \<Rightarrow> bool" where
  "special_first ks as = (\<forall>b \<in> set (dropWhile (\<lambda>a. \<not> normal ks a) as). normal ks b)"

definition list_ok :: "KSTATE \<Rightarrow> tid \<Rightarrow> KPROCESSOR_MODE \<Rightarrow> nat \<Rightarrow> bool" where
  "list_ok ks t m i =
     (let as = apc_list i m (ks_Threads ks t)
      in distinct as \<and> special_first ks as \<and> (\<forall>a. a \<in> set as \<longleftrightarrow> inserted_at ks a t m i))"

definition apc_ok :: "KSTATE \<Rightarrow> bool" where
  "apc_ok ks =
     ((\<forall>t m i. i \<le> AttachedApcEnvironment \<longrightarrow> list_ok ks t m i) \<and>
      (\<forall>a. ap_ApcStateIndex (ks_Apcs ks a) \<le> AttachedApcEnvironment \<or>
         ap_ApcStateIndex (ks_Apcs ks a) = InsertApcEnvironment \<and> \<not> ap_Inserted (ks_Apcs ks a)) \<and>
      (\<forall>t. th_ApcStateIndex (ks_Threads ks t) \<le> AttachedApcEnvironment) \<and>
      (\<forall>a. \<not> ap_NormalRoutine (ks_Apcs ks a) \<longrightarrow> ap_ApcMode (ks_Apcs ks a) = KernelMode))"

lemma apc_okD:
  assumes "apc_ok ks"
  shows "i \<le> 1 \<Longrightarrow> distinct (apc_list i m (ks_Threads ks t))" "i \<le> 1 \<Longrightarrow> special_first ks (apc_list i m (ks_Threads ks t))"
    "i \<le> 1 \<Longrightarrow> a \<in> set (apc_list i m (ks_Threads ks t)) \<longleftrightarrow> inserted_at ks a t m i"
    "ap_ApcStateIndex (ks_Apcs ks a) \<le> 1 \<or> ap_ApcStateIndex (ks_Apcs ks a) = 3 \<and> \<not> ap_Inserted (ks_Apcs ks a)"
    "th_ApcStateIndex (ks_Threads ks t) \<le> 1" "ap_ApcMode (ks_Apcs ks a) \<noteq> KernelMode \<Longrightarrow> normal ks a"
proof -
  have l: "list_ok ks t m i" if "i \<le> 1" for i
    using assms that by (simp add: apc_ok_def)
  show "i \<le> 1 \<Longrightarrow> distinct (apc_list i m (ks_Threads ks t))" "i \<le> 1 \<Longrightarrow> special_first ks (apc_list i m (ks_Threads ks t))"
    "i \<le> 1 \<Longrightarrow> a \<in> set (apc_list i m (ks_Threads ks t)) \<longleftrightarrow> inserted_at ks a t m i"
    using l[of i] by (simp_all add: list_ok_def Let_def)
  show "ap_ApcStateIndex (ks_Apcs ks a) \<le> 1 \<or> ap_ApcStateIndex (ks_Apcs ks a) = 3 \<and> \<not> ap_Inserted (ks_Apcs ks a)"
    "th_ApcStateIndex (ks_Threads ks t) \<le> 1"
    using assms by (simp_all add: apc_ok_def)
  show "ap_ApcMode (ks_Apcs ks a) \<noteq> KernelMode \<Longrightarrow> normal ks a"
    using assms by (auto simp: apc_ok_def normal_def)
qed

lemma upd_apc_simps [simp]:
  "ks_Apcs (upd_apc a f ks) = (ks_Apcs ks)(a := f (ks_Apcs ks a))" "ks_Threads (upd_apc a f ks) = ks_Threads ks"
  "ks_Objects (upd_apc a f ks) = ks_Objects ks" "ks_TimerTable (upd_apc a f ks) = ks_TimerTable ks"
  "ks_TimerTime (upd_apc a f ks) = ks_TimerTime ks" "ks_KeMaximumIncrement (upd_apc a f ks) = ks_KeMaximumIncrement ks"
  by (simp_all add: upd_apc_def)

lemma ks_Apcs_frame [simp]:
  "ks_Apcs (upd_object x g ks) = ks_Apcs ks" "ks_Apcs (upd_thread t h ks) = ks_Apcs ks"
  by (simp_all add: upd_object_def upd_thread_def)

lemma KiRemoveEntryTimer_apcs [simp]: "ks_Apcs (KiRemoveEntryTimer x ks) = ks_Apcs ks"
  by (simp add: KiRemoveEntryTimer_def RemoveTimerListEntry_def Let_def split: option.split prod.split)

lemma KiUnwaitThread_apcs [simp]: "ks_Apcs (KiUnwaitThread t s i ks) = ks_Apcs ks"
proof -
  have "ks_Apcs (fold RemoveWaitBlock bs ks) = ks_Apcs ks" for bs ks
    by (induction bs arbitrary: ks) (simp_all add: RemoveWaitBlock_def)
  then show ?thesis
    by (simp add: KiUnwaitThread_def KiReadyThread_def KiUnlinkThread_def KxRemoveTreeTimer_def Let_def split: option.split)
qed

text \<open>What the queues look at.\<close>

lemma apc_ok_cong:
  assumes "ks_Apcs ks' = ks_Apcs ks"
    "\<And>t. th_ApcList (ks_Threads ks' t) = th_ApcList (ks_Threads ks t)"
    "\<And>t. th_SavedApcList (ks_Threads ks' t) = th_SavedApcList (ks_Threads ks t)"
    "\<And>t. th_ApcStateIndex (ks_Threads ks' t) = th_ApcStateIndex (ks_Threads ks t)"
  shows "apc_ok ks' = apc_ok ks"
proof -
  have "normal ks' = normal ks" "inserted_at ks' = inserted_at ks"
    by (simp_all add: normal_def inserted_at_def fun_eq_iff assms(1))
  moreover from this have "special_first ks' = special_first ks"
    by (simp add: special_first_def fun_eq_iff)
  ultimately show ?thesis
    by (simp add: apc_ok_def list_ok_def apc_list_def assms)
qed

lemma apc_list_set:
  assumes "i \<le> 1" "j \<le> 1" "th_ApcStateIndex th \<le> 1"
  shows "apc_list i m (set_apc_list j m' as th) = (if i = j \<and> m = m' then as else apc_list i m th)"
    "th_ApcStateIndex (set_apc_list j m' as th) = th_ApcStateIndex th"
  using assms by (auto simp: apc_list_def set_apc_list_def)

subsection \<open>Insertion\<close>

lemma special_firstI:
  assumes "\<forall>a \<in> set xs. \<not> normal ks a" "\<forall>a \<in> set ys. normal ks a"
  shows "special_first ks (xs @ ys)"
proof -
  have eq: "dropWhile (\<lambda>a. \<not> normal ks a) (xs @ ys) = dropWhile (\<lambda>a. \<not> normal ks a) ys"
    by (rule dropWhile_append2) (rule bspec[OF assms(1)])
  have "set (dropWhile (\<lambda>a. \<not> normal ks a) ys) \<subseteq> set ys"
    by (rule subsetI) (rule set_dropWhileD)
  then show ?thesis
    unfolding special_first_def eq using assms(2) by blast
qed

lemma special_firstE:
  assumes "special_first ks as"
  obtains xs ys where "as = xs @ ys" "\<forall>a \<in> set xs. \<not> normal ks a" "\<forall>a \<in> set ys. normal ks a"
proof (rule that)
  show "as = takeWhile (\<lambda>a. \<not> normal ks a) as @ dropWhile (\<lambda>a. \<not> normal ks a) as"
    by (rule takeWhile_dropWhile_id[symmetric])
  show "\<forall>a \<in> set (takeWhile (\<lambda>a. \<not> normal ks a) as). \<not> normal ks a"
    by (blast dest: set_takeWhileD)
  show "\<forall>a \<in> set (dropWhile (\<lambda>a. \<not> normal ks a) as). normal ks a"
    using assms unfolding special_first_def .
qed

lemma special_first_remove:
  assumes "special_first ks as"
  shows "special_first ks (remove1 a as)"
proof -
  obtain xs ys where xy: "as = xs @ ys" "\<forall>a \<in> set xs. \<not> normal ks a" "\<forall>a \<in> set ys. normal ks a"
    using assms by (rule special_firstE)
  have "remove1 a as = remove1 a xs @ ys \<or> remove1 a as = xs @ remove1 a ys"
    unfolding xy(1) remove1_append by simp
  moreover have "\<forall>b \<in> set (remove1 a xs). \<not> normal ks b" "\<forall>b \<in> set (remove1 a ys). normal ks b"
    using xy(2,3) set_remove1_subset[of a xs] set_remove1_subset[of a ys] by blast+
  ultimately show ?thesis
    using special_firstI xy(2,3) by metis
qed

lemma insert_special_ok:
  assumes "special_first ks as" "\<not> normal ks a"
  shows "special_first ks (insert_special ks a as)" "set (insert_special ks a as) = insert a (set as)"
    "distinct (insert_special ks a as) \<longleftrightarrow> a \<notin> set as \<and> distinct as"
proof -
  obtain xs ys where xy: "as = xs @ ys" "\<forall>a \<in> set xs. \<not> normal ks a" "\<forall>a \<in> set ys. normal ks a"
    using assms(1) by (rule special_firstE)
  have n: "(\<lambda>b. ap_NormalRoutine (ks_Apcs ks b)) = normal ks"
    by (simp add: fun_eq_iff normal_def)
  have xs: "takeWhile (normal ks) (rev xs) = []" "dropWhile (normal ks) (rev xs) = rev xs"
    using xy(2) by (cases xs rule: rev_cases; simp)+
  have "takeWhile (normal ks) (rev ys @ rev xs) = rev ys @ takeWhile (normal ks) (rev xs)"
    "dropWhile (normal ks) (rev ys @ rev xs) = dropWhile (normal ks) (rev xs)"
    by (rule takeWhile_append2 dropWhile_append2, simp add: xy(3))+
  then have eq: "insert_special ks a as = (xs @ [a]) @ ys"
    unfolding insert_special_def n Let_def xy(1) rev_append xs by simp
  show "special_first ks (insert_special ks a as)"
    unfolding eq using xy(2,3) assms(2) by (intro special_firstI) simp_all
  show "set (insert_special ks a as) = insert a (set as)" "distinct (insert_special ks a as) \<longleftrightarrow> a \<notin> set as \<and> distinct as"
    unfolding eq by (auto simp: xy(1))
qed

lemma special_first_cong:
  assumes "\<And>a. a \<in> set as \<Longrightarrow> normal ks' a = normal ks a"
  shows "special_first ks' as = special_first ks as"
proof -
  have "dropWhile (\<lambda>a. \<not> normal ks' a) as = dropWhile (\<lambda>a. \<not> normal ks a) as"
    using assms by (intro dropWhile_cong) simp_all
  then show ?thesis
    using assms set_dropWhileD[of _ "\<lambda>a. \<not> normal ks a" as] unfolding special_first_def by auto
qed

text \<open>A new list for one thread, mode and environment, with the APC that was added or removed.\<close>

lemma apc_ok_update:
  assumes ok: "apc_ok ks" and i: "ap_ApcStateIndex (ks_Apcs ks a) \<le> 1"
    and t: "t = ap_Thread (ks_Apcs ks a)" and m: "m = ap_ApcMode (ks_Apcs ks a)" and j: "j = ap_ApcStateIndex (ks_Apcs ks a)"
    and as: "distinct as" "special_first ks as" "set as = (if ins then insert a else (\<lambda>A. A - {a})) (set (apc_list j m (ks_Threads ks t)))"
    and ks': "ks_Apcs ks' = (ks_Apcs ks)(a := (ks_Apcs ks a)\<lparr>ap_Inserted := ins\<rparr>)"
      "\<And>u. u \<noteq> t \<Longrightarrow> ks_Threads ks' u = ks_Threads ks u"
      "th_ApcList (ks_Threads ks' t) = th_ApcList (set_apc_list j m as (ks_Threads ks t))"
      "th_SavedApcList (ks_Threads ks' t) = th_SavedApcList (set_apc_list j m as (ks_Threads ks t))"
      "th_ApcStateIndex (ks_Threads ks' t) = th_ApcStateIndex (ks_Threads ks t)"
  shows "apc_ok ks'"
proof -
  note D = apc_okD[OF ok]
  have lists: "apc_list i m' (ks_Threads ks' u) = (if u = t \<and> m' = m \<and> i = j then as else apc_list i m' (ks_Threads ks u))"
    if "i \<le> 1" for i m' u
  proof (cases "u = t")
    case True
    have "apc_list i m' (ks_Threads ks' t) = apc_list i m' (set_apc_list j m as (ks_Threads ks t))"
      using ks'(3-5) apc_list_set(2)[OF that _ D(5), of j] assms(2) j by (simp add: apc_list_def)
    then show ?thesis
      using True apc_list_set(1)[OF that _ D(5)] i j by simp
  qed (simp add: ks'(2))
  have "normal ks' = normal ks"
    by (simp add: normal_def fun_eq_iff ks'(1))
  then have n: "special_first ks' = special_first ks"
    by (simp add: special_first_def fun_eq_iff)
  have at: "inserted_at ks' b u m' i = (if b = a then ins \<and> u = t \<and> m' = m \<and> i = j else inserted_at ks b u m' i)" for b u m' i
    unfolding inserted_at_def ks'(1) t m j by (cases "b = a") auto
  have "list_ok ks' u m' i" if "i \<le> 1" for u m' i
  proof (cases "u = t \<and> m' = m \<and> i = j")
    case True
    have "b \<in> set as \<longleftrightarrow> inserted_at ks' b u m' i" for b
      using as(3) D(3)[OF that, of b m t] True by (cases "b = a") (simp_all add: at split: if_splits)
    then show ?thesis
      using as(1,2) True lists[OF that, of m' u] by (simp add: list_ok_def n Let_def)
  next
    case False
    then have "\<not> inserted_at ks a u m' i"
      unfolding inserted_at_def t m j by auto
    then have "inserted_at ks' b u m' i = inserted_at ks b u m' i" for b
      using False at[of b u m' i] by auto
    moreover have "apc_list i m' (ks_Threads ks' u) = apc_list i m' (ks_Threads ks u)"
      using False lists[OF that, of m' u] by auto
    ultimately show ?thesis
      using D(1)[OF that, of m' u] D(2)[OF that, of m' u] D(3)[OF that, of _ m' u] by (simp add: list_ok_def n Let_def)
  qed
  moreover have "th_ApcStateIndex (ks_Threads ks' u) \<le> 1" for u
    using D(5) ks'(2,5) by (cases "u = t") auto
  moreover have "ap_ApcStateIndex (ks_Apcs ks' b) \<le> 1 \<or> ap_ApcStateIndex (ks_Apcs ks' b) = 3 \<and> \<not> ap_Inserted (ks_Apcs ks' b)" for b
    using D(4)[of b] i by (cases "b = a") (simp_all add: ks'(1))
  moreover have "ap_ApcMode (ks_Apcs ks' b) = KernelMode" if "\<not> ap_NormalRoutine (ks_Apcs ks' b)" for b
    using D(6)[of b] that by (auto simp: ks'(1) normal_def split: if_splits)
  ultimately show ?thesis
    by (simp add: apc_ok_def)
qed

text \<open>An APC that is not in a list can be set up anew.\<close>

lemma apc_ok_idle:
  assumes ok: "apc_ok ks" and a: "\<not> ap_Inserted (ks_Apcs ks a)"
    and f: "\<not> ap_Inserted (f (ks_Apcs ks a))" "ap_ApcStateIndex (f (ks_Apcs ks a)) \<le> 1 \<or> ap_ApcStateIndex (f (ks_Apcs ks a)) = 3"
      "\<not> ap_NormalRoutine (f (ks_Apcs ks a)) \<Longrightarrow> ap_ApcMode (f (ks_Apcs ks a)) = KernelMode"
  shows "apc_ok (upd_apc a f ks)"
proof -
  note D = apc_okD[OF ok]
  have at: "inserted_at (upd_apc a f ks) b u m i = inserted_at ks b u m i" for b u m i
    using a f(1) by (simp add: inserted_at_def)
  have "list_ok (upd_apc a f ks) u m i" if i: "i \<le> 1" for u m i
  proof -
    have "b \<noteq> a" if "b \<in> set (apc_list i m (ks_Threads ks u))" for b
      using D(3)[OF i, of b m u] that a by (auto simp: inserted_at_def)
    then have "special_first (upd_apc a f ks) (apc_list i m (ks_Threads ks u))"
      using D(2)[OF i, of m u] by (subst special_first_cong[of _ _ ks]) (auto simp: normal_def)
    then show ?thesis
      using D(1)[OF i, of m u] D(3)[OF i, of _ m u] by (simp add: list_ok_def at Let_def)
  qed
  moreover have "ap_ApcStateIndex (ks_Apcs (upd_apc a f ks) b) \<le> 1 \<or>
      ap_ApcStateIndex (ks_Apcs (upd_apc a f ks) b) = 3 \<and> \<not> ap_Inserted (ks_Apcs (upd_apc a f ks) b)" for b
    using D(4)[of b] f(1,2) by (cases "b = a") simp_all
  moreover have "ap_ApcMode (ks_Apcs (upd_apc a f ks) b) = KernelMode" if "\<not> ap_NormalRoutine (ks_Apcs (upd_apc a f ks) b)" for b
    using D(6)[of b] f(3) that by (cases "b = a") (auto simp: normal_def)
  ultimately show ?thesis
    using D(5) by (simp add: apc_ok_def)
qed

lemma KeInitializeApc_ok:
  assumes "apc_ok ks" "\<not> ap_Inserted (ks_Apcs ks a)" "env \<le> InsertApcEnvironment"
  shows "apc_ok (KeInitializeApc a t env x n m ks)"
  unfolding KeInitializeApc_def using assms apc_okD(5)[OF assms(1), of t] by (intro apc_ok_idle) auto

text \<open>The list an APC goes into, with the APC in its place.\<close>

definition new_list :: "KSTATE \<Rightarrow> nat \<Rightarrow> nat list \<Rightarrow> nat list" where
  "new_list ks a as =
     (if normal ks a then if ap_ApcMode (ks_Apcs ks a) \<noteq> KernelMode \<and> ap_ExitRoutine (ks_Apcs ks a) then a # as else as @ [a]
      else insert_special ks a as)"

lemma new_list_ok:
  assumes ok: "special_first ks as" and user: "ap_ApcMode (ks_Apcs ks a) \<noteq> KernelMode \<Longrightarrow> \<forall>b \<in> set as. normal ks b"
  shows "special_first ks (new_list ks a as)" "set (new_list ks a as) = insert a (set as)"
    "distinct (new_list ks a as) \<longleftrightarrow> a \<notin> set as \<and> distinct as"
proof -
  have "special_first ks ([] @ (a # as))" if "normal ks a" "ap_ApcMode (ks_Apcs ks a) \<noteq> KernelMode"
    using user that by (intro special_firstI) simp_all
  moreover have "special_first ks (as @ [a])" if n: "normal ks a"
  proof -
    obtain xs ys where xy: "as = xs @ ys" "\<forall>a \<in> set xs. \<not> normal ks a" "\<forall>a \<in> set ys. normal ks a"
      using ok by (rule special_firstE)
    have "special_first ks (xs @ (ys @ [a]))"
      using xy(2,3) n by (intro special_firstI) auto
    then show ?thesis
      by (simp add: xy(1))
  qed
  ultimately show "special_first ks (new_list ks a as)"
    using insert_special_ok(1)[OF ok] by (simp add: new_list_def)
  show "set (new_list ks a as) = insert a (set as)" "distinct (new_list ks a as) \<longleftrightarrow> a \<notin> set as \<and> distinct as"
    using insert_special_ok(2,3)[OF ok] by (auto simp: new_list_def)
qed

lemma set_apc_list_simps [simp]:
  "th_WaitBlockList (set_apc_list i m as th) = th_WaitBlockList th" "th_Queue (set_apc_list i m as th) = th_Queue th"
  "th_State (set_apc_list i m as th) = th_State th" "th_MutantList (set_apc_list i m as th) = th_MutantList th"
  "th_ApcStateIndex (set_apc_list i m as th) = th_ApcStateIndex th"
  by (simp_all add: set_apc_list_def)

lemma enqueue_apc_lists:
  fixes ks a
  defines "t \<equiv> ap_Thread (ks_Apcs ks a)" and "m \<equiv> ap_ApcMode (ks_Apcs ks a)" and "i \<equiv> ap_ApcStateIndex (ks_Apcs ks a)"
  defines "as \<equiv> new_list ks a (apc_list i m (ks_Threads ks t))"
  shows "ks_Apcs (enqueue_apc a ks) = ks_Apcs ks" "u \<noteq> t \<Longrightarrow> ks_Threads (enqueue_apc a ks) u = ks_Threads ks u"
    "th_ApcList (ks_Threads (enqueue_apc a ks) t) = th_ApcList (set_apc_list i m as (ks_Threads ks t))"
    "th_SavedApcList (ks_Threads (enqueue_apc a ks) t) = th_SavedApcList (set_apc_list i m as (ks_Threads ks t))"
    "th_ApcStateIndex (ks_Threads (enqueue_apc a ks) t) = th_ApcStateIndex (ks_Threads ks t)"
  by (simp_all add: enqueue_apc_def Let_def t_def m_def i_def as_def new_list_def normal_def set_apc_list_def)

definition fix_environment :: "nat \<Rightarrow> KSTATE \<Rightarrow> KSTATE" where
  "fix_environment a ks =
     (if ap_ApcStateIndex (ks_Apcs ks a) = InsertApcEnvironment
      then upd_apc a (\<lambda>ap. ap\<lparr>ap_ApcStateIndex := th_ApcStateIndex (ks_Threads ks (ap_Thread (ks_Apcs ks a)))\<rparr>) ks else ks)"

lemma fix_environment_simps [simp]:
  "ks_Threads (fix_environment a ks) = ks_Threads ks" "ap_Thread (ks_Apcs (fix_environment a ks) b) = ap_Thread (ks_Apcs ks b)"
  "ap_ApcMode (ks_Apcs (fix_environment a ks) b) = ap_ApcMode (ks_Apcs ks b)"
  "ap_NormalRoutine (ks_Apcs (fix_environment a ks) b) = ap_NormalRoutine (ks_Apcs ks b)"
  "ap_Inserted (ks_Apcs (fix_environment a ks) b) = ap_Inserted (ks_Apcs ks b)"
  by (simp_all add: fix_environment_def)

text \<open>After the insertion the thread may be woken, which does not matter for the lists.\<close>

lemma KiInsertQueueApc_lists:
  fixes ks a
  defines "ks0 \<equiv> enqueue_apc a (fix_environment a ks)"
  shows "ks_Apcs (KiInsertQueueApc cur a b ks) = ks_Apcs ks0"
    "u \<noteq> ap_Thread (ks_Apcs ks a) \<Longrightarrow> ks_Threads (KiInsertQueueApc cur a b ks) u = ks_Threads ks0 u"
    "th_ApcList (ks_Threads (KiInsertQueueApc cur a b ks) u) = th_ApcList (ks_Threads ks0 u)"
    "th_SavedApcList (ks_Threads (KiInsertQueueApc cur a b ks) u) = th_SavedApcList (ks_Threads ks0 u)"
    "th_ApcStateIndex (ks_Threads (KiInsertQueueApc cur a b ks) u) = th_ApcStateIndex (ks_Threads ks0 u)"
  unfolding KiInsertQueueApc_def Let_def fix_environment_def[symmetric] ks0_def[symmetric] by simp_all

lemma KeInsertQueueApc_ok:
  assumes ok: "apc_ok ks"
  shows "apc_ok (snd (KeInsertQueueApc cur a b ks))"
proof (cases "\<not> th_ApcQueueable (ks_Threads ks (ap_Thread (ks_Apcs ks a))) \<or> ap_Inserted (ks_Apcs ks a)")
  case True
  then show ?thesis
    using ok by (simp add: KeInsertQueueApc_def)
next
  case False
  define ks0 where "ks0 = fix_environment a ks"
  define ks1 where "ks1 = upd_apc a (\<lambda>ap. ap\<lparr>ap_Inserted := True\<rparr>) ks"
  define ks' where "ks' = KiInsertQueueApc cur a b ks1"
  define t where "t = ap_Thread (ks_Apcs ks a)"
  define m where "m = ap_ApcMode (ks_Apcs ks a)"
  define j where "j = ap_ApcStateIndex (ks_Apcs ks0 a)"
  note D = apc_okD[OF ok]
  have eq: "snd (KeInsertQueueApc cur a b ks) = ks'"
    using False by (simp add: KeInsertQueueApc_def ks'_def ks1_def)
  have mode: "\<not> ap_NormalRoutine (ks_Apcs ks a) \<Longrightarrow> ap_ApcMode (ks_Apcs ks a) = KernelMode"
    using D(6)[of a] by (auto simp: normal_def)
  have ok0: "apc_ok ks0"
    unfolding ks0_def fix_environment_def using ok False D(5)[of t] mode by (auto intro!: apc_ok_idle simp: t_def)
  note D0 = apc_okD[OF ok0]
  have j: "j \<le> 1"
    using D(4)[of a] D(5)[of t] by (auto simp: j_def ks0_def fix_environment_def t_def)
  have fix1: "ks_Apcs (fix_environment a ks1) = (ks_Apcs ks0)(a := (ks_Apcs ks0 a)\<lparr>ap_Inserted := True\<rparr>)"
    by (cases "ks_Apcs ks a") (simp add: ks0_def ks1_def fix_environment_def)
  define as where "as = new_list (fix_environment a ks1) a (apc_list j m (ks_Threads ks t))"
  have old: "special_first ks0 (apc_list j m (ks_Threads ks t))" "a \<notin> set (apc_list j m (ks_Threads ks t))"
    "distinct (apc_list j m (ks_Threads ks t))"
    using D0(1-3)[OF j, where m = m and t = t] False by (simp_all add: ks0_def inserted_at_def)
  have n: "normal (fix_environment a ks1) = normal ks0"
    by (simp add: fun_eq_iff normal_def fix1)
  then have sf: "special_first (fix_environment a ks1) = special_first ks0"
    by (simp add: special_first_def fun_eq_iff)
  have "\<forall>b \<in> set (apc_list j m (ks_Threads ks t)). normal ks0 b" if "m \<noteq> KernelMode"
    using D0(3)[OF j, where m = m and t = t] D0(6) that by (auto simp: ks0_def inserted_at_def)
  then have new: "special_first ks0 as" "set as = insert a (set (apc_list j m (ks_Threads ks t)))" "distinct as"
    using new_list_ok[of "fix_environment a ks1" "apc_list j m (ks_Threads ks t)" a] old by (simp_all add: as_def n sf fix1 m_def ks0_def)
  have 0: "ap_Thread (ks_Apcs ks0 a) = t" "ap_ApcMode (ks_Apcs ks0 a) = m" "ap_ApcStateIndex (ks_Apcs ks0 a) = j" "ks_Threads ks0 = ks_Threads ks"
    by (simp_all add: ks0_def t_def m_def j_def)
  note enq = enqueue_apc_lists[where ks = "fix_environment a ks1" and a = a, unfolded fix1, simplified, unfolded 0]
  have th: "ks_Threads ks1 = ks_Threads ks"
    by (simp add: ks1_def)
  note lists = KiInsertQueueApc_lists[where ks = ks1 and a = a and cur = cur and b = b, folded ks'_def]
  have "apc_ok ks'"
  proof (rule apc_ok_update[OF ok0, of a t m j as True])
    show "ks_Apcs ks' = (ks_Apcs ks0)(a := (ks_Apcs ks0 a)\<lparr>ap_Inserted := True\<rparr>)"
      by (simp add: lists(1) enq(1) fix1)
    show "ks_Threads ks' u = ks_Threads ks0 u" if "u \<noteq> t" for u
      using that lists(2)[of u] enq(2)[of u] by (simp add: ks1_def t_def 0(4) th)
  qed (use new j 0 lists(3-5)[of t] enq(3-5) in \<open>simp_all add: as_def th\<close>)
  then show ?thesis
    by (simp add: eq)
qed

subsection \<open>Removal\<close>

lemma KeRemoveQueueApc_ok:
  assumes ok: "apc_ok ks"
  shows "apc_ok (snd (KeRemoveQueueApc a ks))"
proof (cases "ap_Inserted (ks_Apcs ks a)")
  case False
  then show ?thesis
    using ok by (simp add: KeRemoveQueueApc_def Let_def)
next
  case True
  define t where "t = ap_Thread (ks_Apcs ks a)"
  define m where "m = ap_ApcMode (ks_Apcs ks a)"
  define j where "j = ap_ApcStateIndex (ks_Apcs ks a)"
  define as where "as = remove1 a (apc_list j m (ks_Threads ks t))"
  note D = apc_okD[OF ok]
  have j: "j \<le> 1"
    using D(4)[of a] True by (simp add: j_def)
  have as: "distinct as" "special_first ks as" "set as = set (apc_list j m (ks_Threads ks t)) - {a}"
    using D(1-2)[OF j, where m = m and t = t] by (simp_all add: as_def distinct_remove1 special_first_remove set_remove1_eq)
  define ks1 where "ks1 = upd_thread t (set_apc_list j m as) (upd_apc a (\<lambda>ap. ap\<lparr>ap_Inserted := False\<rparr>) ks)"
  have "apc_ok ks1"
    using as j by (intro apc_ok_update[OF ok, of a t m j as False]) (simp_all add: ks1_def t_def m_def j_def)
  moreover have "apc_ok (upd_thread t (clear_pending j m) ks1) = apc_ok ks1"
    by (rule apc_ok_cong) (simp_all add: clear_pending_def)
  moreover have "snd (KeRemoveQueueApc a ks) = (if as = [] then upd_thread t (clear_pending j m) ks1 else ks1)"
    by (simp only: KeRemoveQueueApc_def Let_def True if_True snd_conv upd_apc_simps(2) t_def m_def j_def as_def ks1_def)
  ultimately show ?thesis
    by simp
qed

lemma dequeue_apc_ok:
  assumes ok: "apc_ok ks"
  shows "apc_ok (dequeue_apc t m ks)"
proof (cases "th_ApcList (ks_Threads ks t) m")
  case Nil
  then show ?thesis
    using ok by (simp add: dequeue_apc_def)
next
  case (Cons a as)
  define j where "j = th_ApcStateIndex (ks_Threads ks t)"
  note D = apc_okD[OF ok]
  have j: "j \<le> 1"
    using D(5)[of t] by (simp add: j_def)
  have list: "apc_list j m (ks_Threads ks t) = a # as"
    by (simp add: apc_list_def j_def Cons)
  have a: "inserted_at ks a t m j"
    using D(3)[OF j, where m = m and t = t and a = a] by (simp add: list)
  have as: "distinct as" "a \<notin> set as" "special_first ks as"
    using D(1,2)[OF j, where m = m and t = t] special_first_remove[of ks "a # as" a] by (simp_all add: list)
  then show ?thesis
    using j a list unfolding dequeue_apc_def Cons list.case
    by (intro apc_ok_update[OF ok, of a t m j as False]) (auto simp: inserted_at_def set_apc_list_def j_def)
qed

lemma fold_uninsert:
  "ks_Apcs (fold (\<lambda>a. upd_apc a (\<lambda>ap. ap\<lparr>ap_Inserted := False\<rparr>)) as ks) b =
     (if b \<in> set as then (ks_Apcs ks b)\<lparr>ap_Inserted := False\<rparr> else ks_Apcs ks b)"
  "ks_Threads (fold (\<lambda>a. upd_apc a (\<lambda>ap. ap\<lparr>ap_Inserted := False\<rparr>)) as ks) = ks_Threads ks"
  by (induction as arbitrary: ks) simp_all

lemma KeFlushQueueApc_ok:
  assumes ok: "apc_ok ks"
  shows "apc_ok (snd (KeFlushQueueApc t m ks))"
proof (cases "th_ApcList (ks_Threads ks t) m = []")
  case True
  then show ?thesis
    using ok by (simp add: KeFlushQueueApc_def)
next
  case False
  define ks' where "ks' = snd (KeFlushQueueApc t m ks)"
  define j where "j = th_ApcStateIndex (ks_Threads ks t)"
  let ?as = "th_ApcList (ks_Threads ks t) m"
  note D = apc_okD[OF ok]
  have j: "j \<le> 1"
    using D(5)[of t] by (simp add: j_def)
  have as: "b \<in> set ?as \<longleftrightarrow> inserted_at ks b t m j" for b
    using D(3)[OF j, where m = m and t = t and a = b] by (simp add: apc_list_def j_def)
  have apcs: "ks_Apcs ks' b = (if b \<in> set ?as then (ks_Apcs ks b)\<lparr>ap_Inserted := False\<rparr> else ks_Apcs ks b)" for b
    using False by (simp add: ks'_def KeFlushQueueApc_def Let_def fold_uninsert)
  have idx: "th_ApcStateIndex (ks_Threads ks' u) = th_ApcStateIndex (ks_Threads ks u)" for u
    using False by (simp add: ks'_def KeFlushQueueApc_def Let_def fold_uninsert)
  have at: "inserted_at ks' b u m' i = (inserted_at ks b u m' i \<and> (u, m', i) \<noteq> (t, m, j))" for b u m' i
  proof (cases "b \<in> set ?as")
    case True
    then show ?thesis
      using as[of b] by (auto simp: inserted_at_def apcs)
  next
    case False
    then show ?thesis
      using as[of b] by (simp add: inserted_at_def apcs) blast
  qed
  have lists: "apc_list i m' (ks_Threads ks' u) = (if (u, m', i) = (t, m, j) then [] else apc_list i m' (ks_Threads ks u))" for i m' u
    using False by (auto simp: apc_list_def j_def ks'_def KeFlushQueueApc_def Let_def fold_uninsert)
  have "normal ks' = normal ks"
    by (simp add: normal_def fun_eq_iff apcs)
  then have sf: "special_first ks' = special_first ks"
    by (simp add: special_first_def fun_eq_iff)
  have "list_ok ks' u m' i" if i: "i \<le> 1" for u m' i
  proof (cases "(u, m', i) = (t, m, j)")
    case True
    then show ?thesis
      by (simp add: list_ok_def lists at special_first_def)
  next
    case other: False
    have list: "apc_list i m' (ks_Threads ks' u) = apc_list i m' (ks_Threads ks u)"
      unfolding lists using other by (rule if_not_P)
    have "inserted_at ks' b u m' i = inserted_at ks b u m' i" for b
      unfolding at using other by blast
    then show ?thesis
      using D(1-3)[OF i, where m = m' and t = u] by (simp add: list_ok_def Let_def list sf)
  qed
  moreover have "ap_ApcStateIndex (ks_Apcs ks' b) \<le> 1 \<or> ap_ApcStateIndex (ks_Apcs ks' b) = 3 \<and> \<not> ap_Inserted (ks_Apcs ks' b)" for b
    using D(4)[of b] unfolding apcs by auto
  moreover have "ap_ApcMode (ks_Apcs ks' b) = KernelMode" if "\<not> ap_NormalRoutine (ks_Apcs ks' b)" for b
    using D(6)[of b] that by (auto simp: apcs normal_def split: if_splits)
  ultimately show ?thesis
    using D(5) by (simp add: apc_ok_def idx ks'_def[symmetric])
qed

section \<open>The invariant of the dispatcher\<close>

lemma ke_inv_upd_apc [simp]: "ke_inv (upd_apc a f ks) = ke_inv ks" "waiting (upd_apc a f ks) = waiting ks"
proof -
  have same: "same_links ks (upd_apc a f ks)"
    by (simp add: same_links_def)
  have "objects_ok (upd_apc a f ks) = objects_ok ks"
    by (rule objects_ok_cong) simp_all
  moreover have "blocked_ok W (upd_apc a f ks) = blocked_ok W ks" for W
    by (rule blocked_ok_cong) simp_all
  ultimately show "ke_inv (upd_apc a f ks) = ke_inv ks" "waiting (upd_apc a f ks) = waiting ks"
    by (simp_all add: ke_inv_def inv_on_def core_def same_links_inv[OF same])
qed

lemma enqueue_apc_ke_inv [simp]:
  "ke_inv (enqueue_apc a ks) = ke_inv ks" "th_State (ks_Threads (enqueue_apc a ks) t) = th_State (ks_Threads ks t)"
  by (simp_all add: enqueue_apc_def Let_def ke_inv_upd_thread)

lemma KiInsertQueueApc_ke_inv:
  assumes "ke_inv ks"
  shows "ke_inv (KiInsertQueueApc cur a b ks)"
proof -
  define ks1 where "ks1 = enqueue_apc a (fix_environment a ks)"
  define t where "t = ap_Thread (ks_Apcs ks a)"
  have inv: "ke_inv ks1"
    using assms by (simp add: ks1_def fix_environment_def)
  have flag: "ke_inv (upd_thread t (\<lambda>th. th\<lparr>th_KernelApcPending := True\<rparr>) ks1)"
    "ke_inv (upd_thread t (\<lambda>th. th\<lparr>th_UserApcPending := True\<rparr>) ks1)"
    using inv by (simp_all add: ke_inv_upd_thread)
  have wake: "ke_inv (KiUnwaitThread t s i (upd_thread t (\<lambda>th. th\<lparr>th_KernelApcPending := True\<rparr>) ks1))"
    "ke_inv (KiUnwaitThread t s i (upd_thread t (\<lambda>th. th\<lparr>th_UserApcPending := True\<rparr>) ks1))"
    if "th_State (ks_Threads ks1 t) = Waiting" for s i
    using that by (auto intro!: unwait_ke_inv flag simp: waiting_def)
  show ?thesis
    unfolding KiInsertQueueApc_def Let_def fix_environment_def[symmetric] ks1_def[symmetric]
    unfolding t_def[symmetric] using inv flag wake by auto
qed

lemma KeInsertQueueApc_ke_inv: "ke_inv ks \<Longrightarrow> ke_inv (snd (KeInsertQueueApc cur a b ks))"
  by (simp add: KeInsertQueueApc_def KiInsertQueueApc_ke_inv)

lemma KeRemoveQueueApc_ke_inv [simp]: "ke_inv (snd (KeRemoveQueueApc a ks)) = ke_inv ks"
  by (simp add: KeRemoveQueueApc_def Let_def ke_inv_upd_thread clear_pending_def)

lemma KeInitializeApc_ke_inv [simp]: "ke_inv (KeInitializeApc a t env x n m ks) = ke_inv ks"
  by (simp add: KeInitializeApc_def)

lemma dequeue_apc_ke_inv [simp]: "ke_inv (dequeue_apc t m ks) = ke_inv ks"
  by (simp add: dequeue_apc_def ke_inv_upd_thread split: list.split)

lemma KeFlushQueueApc_ke_inv [simp]: "ke_inv (snd (KeFlushQueueApc t m ks)) = ke_inv ks"
proof -
  have "ke_inv (fold (\<lambda>a. upd_apc a (\<lambda>ap. ap\<lparr>ap_Inserted := False\<rparr>)) as ks) = ke_inv ks" for as
    by (induction as arbitrary: ks) simp_all
  then show ?thesis
    by (simp add: KeFlushQueueApc_def Let_def ke_inv_upd_thread)
qed

section \<open>The states of the queues\<close>

text \<open>
  The queues start empty. A step is an operation on an APC, the delivery of one, or any change
  of the rest of the kernel that leaves the queues alone.
\<close>

inductive apc_reachable :: "KSTATE \<Rightarrow> bool" where
  start: "apc_reachable (KiInitSystem inc)"
| initialize: "apc_reachable ks \<Longrightarrow> \<not> ap_Inserted (ks_Apcs ks a) \<Longrightarrow> env \<le> InsertApcEnvironment \<Longrightarrow>
    apc_reachable (KeInitializeApc a t env x n m ks)"
| insert: "apc_reachable ks \<Longrightarrow> apc_reachable (snd (KeInsertQueueApc cur a b ks))"
| remove: "apc_reachable ks \<Longrightarrow> apc_reachable (snd (KeRemoveQueueApc a ks))"
| flush: "apc_reachable ks \<Longrightarrow> apc_reachable (snd (KeFlushQueueApc t m ks))"
| dequeue: "apc_reachable ks \<Longrightarrow> apc_reachable (dequeue_apc t m ks)"
| other: "apc_reachable ks \<Longrightarrow> ks_Apcs ks' = ks_Apcs ks \<Longrightarrow>
    (\<And>t. th_ApcList (ks_Threads ks' t) = th_ApcList (ks_Threads ks t) \<and>
       th_SavedApcList (ks_Threads ks' t) = th_SavedApcList (ks_Threads ks t) \<and>
       th_ApcStateIndex (ks_Threads ks' t) = th_ApcStateIndex (ks_Threads ks t)) \<Longrightarrow> apc_reachable ks'"

lemma KiInitSystem_apc_ok: "apc_ok (KiInitSystem inc)"
proof -
  have "ks_Apcs (KiInitSystem inc) a = blank_apc" for a
    by (simp add: KiInitSystem_def)
  then show ?thesis
    by (simp add: apc_ok_def list_ok_def apc_list_def new_thread_def blank_apc_def special_first_def inserted_at_def)
qed

lemma apc_reachable_ok: "apc_reachable ks \<Longrightarrow> apc_ok ks"
proof (induction rule: apc_reachable.induct)
  case (other ks ks')
  then show ?case
    using apc_ok_cong[of ks' ks] by simp
qed (simp_all add: KiInitSystem_apc_ok KeInitializeApc_ok KeInsertQueueApc_ok KeRemoveQueueApc_ok KeFlushQueueApc_ok dequeue_apc_ok)

lemma special_first_order:
  assumes "special_first ks (as @ b # bs)" "c \<in> set as" "normal ks c"
  shows "normal ks b"
proof -
  obtain xs ys where xy: "as @ b # bs = xs @ ys" "\<forall>a \<in> set xs. \<not> normal ks a" "\<forall>a \<in> set ys. normal ks a"
    using assms(1) by (rule special_firstE)
  have "b \<in> set ys"
  proof (rule ccontr)
    assume "b \<notin> set ys"
    then obtain zs where "xs = as @ b # zs"
      using xy(1) by (auto simp: append_eq_append_conv2 Cons_eq_append_conv append_eq_Cons_conv)
    then show False
      using xy(2) assms(2,3) by auto
  qed
  then show ?thesis
    using xy(3) by simp
qed

text \<open>
  C12. In every state an APC is marked as inserted exactly if it is in one of the queues of its
  thread, and then it is in the queue of its own mode and environment and in no other one, once;
  and no special kernel APC is behind one that has a normal routine.
\<close>

theorem apc_queues_consistent:
  assumes "apc_reachable ks" "i \<le> AttachedApcEnvironment"
  shows "distinct (apc_list i m (ks_Threads ks t)) \<and>
    (\<forall>a. a \<in> set (apc_list i m (ks_Threads ks t)) \<longleftrightarrow>
       ap_Inserted (ks_Apcs ks a) \<and> ap_Thread (ks_Apcs ks a) = t \<and> ap_ApcMode (ks_Apcs ks a) = m \<and> ap_ApcStateIndex (ks_Apcs ks a) = i) \<and>
    (\<forall>as b bs c. apc_list i m (ks_Threads ks t) = as @ b # bs \<longrightarrow> c \<in> set as \<longrightarrow>
       ap_NormalRoutine (ks_Apcs ks c) \<longrightarrow> ap_NormalRoutine (ks_Apcs ks b))"
proof -
  note D = apc_okD(1-3)[OF apc_reachable_ok[OF assms(1)] assms(2), where m = m and t = t]
  have "normal ks b" if "apc_list i m (ks_Threads ks t) = as @ b # bs" "c \<in> set as" "normal ks c" for as b bs c
    using special_first_order[OF _ that(2,3)] D(2) that(1) by simp
  then show ?thesis
    using D(1,3) by (auto simp: normal_def inserted_at_def)
qed

text \<open>Two APCs for the same thread: a special one goes before one with a normal routine.\<close>

definition two_apcs :: KSTATE where
  "two_apcs = snd (KeInsertQueueApc 1 1 0 (KeInitializeApc 1 0 InsertApcEnvironment False False KernelMode
     (snd (KeInsertQueueApc 1 0 0 (KeInitializeApc 0 0 OriginalApcEnvironment False True KernelMode (KiInitSystem 100))))))"

lemma two_apcs_list: "apc_list 0 KernelMode (ks_Threads two_apcs 0) = [1, 0]"
  by (simp add: two_apcs_def KeInsertQueueApc_def KiInsertQueueApc_def enqueue_apc_def insert_special_def KeInitializeApc_def
      KiInitSystem_def new_thread_def blank_apc_def apc_list_def set_apc_list_def Let_def)

lemma two_apcs_reachable: "apc_reachable two_apcs"
  unfolding two_apcs_def
  by (intro apc_reachable.insert apc_reachable.initialize apc_reachable.start)
    (simp_all add: KeInsertQueueApc_def KiInsertQueueApc_def enqueue_apc_def KeInitializeApc_def KiInitSystem_def new_thread_def
      blank_apc_def apc_list_def set_apc_list_def Let_def)

theorem apc_queues_consistent_witness:
  "apc_list 0 KernelMode (ks_Threads two_apcs 0) = [1, 0] \<and> distinct (apc_list 0 KernelMode (ks_Threads two_apcs 0)) \<and>
    (\<forall>a. a \<in> set (apc_list 0 KernelMode (ks_Threads two_apcs 0)) \<longleftrightarrow>
       ap_Inserted (ks_Apcs two_apcs a) \<and> ap_Thread (ks_Apcs two_apcs a) = 0 \<and> ap_ApcMode (ks_Apcs two_apcs a) = KernelMode \<and>
       ap_ApcStateIndex (ks_Apcs two_apcs a) = 0)"
  using two_apcs_list apc_queues_consistent[OF two_apcs_reachable, of 0 KernelMode 0] by simp

section \<open>Delivery\<close>

text \<open>
  What is asked of the routines of an APC: they keep the invariants, and they do not queue kernel
  APCs to the thread for ever. For the latter there is a number for every state, the APCs that are queued
  and that the routines are still going to queue, say: taking an APC out of the kernel list makes it
  smaller, the flags of the thread do not matter, and no routine makes it larger.
\<close>

definition apcs_inv :: "KSTATE \<Rightarrow> bool" where
  "apcs_inv ks = (apc_ok ks \<and> ke_inv ks)"

definition kernel_work :: "tid \<Rightarrow> (KSTATE \<Rightarrow> nat) \<Rightarrow> bool" where
  "kernel_work t work =
     (\<forall>ks p. (th_ApcList (ks_Threads ks t) KernelMode \<noteq> [] \<longrightarrow> work (dequeue_apc t KernelMode ks) < work ks) \<and>
        work (upd_thread t (\<lambda>th. th\<lparr>th_KernelApcPending := p\<rparr>) ks) = work ks \<and>
        work (upd_thread t (\<lambda>th. th\<lparr>th_KernelApcInProgress := p\<rparr>) ks) = work ks)"

definition routine_ok :: "(KSTATE \<Rightarrow> nat) \<Rightarrow> (nat \<Rightarrow> KSTATE \<Rightarrow> KSTATE) \<Rightarrow> bool" where
  "routine_ok work f = (\<forall>a ks. apcs_inv ks \<longrightarrow> apcs_inv (f a ks) \<and> work (f a ks) \<le> work ks)"

lemma apcs_inv_flag [simp]:
  "apcs_inv (upd_thread t (\<lambda>th. th\<lparr>th_KernelApcPending := p\<rparr>) ks) = apcs_inv ks"
  "apcs_inv (upd_thread t (\<lambda>th. th\<lparr>th_KernelApcInProgress := p\<rparr>) ks) = apcs_inv ks"
  "apcs_inv (upd_thread t (\<lambda>th. th\<lparr>th_UserApcPending := p\<rparr>) ks) = apcs_inv ks"
  "apcs_inv (upd_thread t (\<lambda>th. th\<lparr>th_Alerted := f th\<rparr>) ks) = apcs_inv ks"
  by (simp_all add: apcs_inv_def ke_inv_upd_thread apc_ok_cong[of "upd_thread t _ ks" ks])

lemma dequeue_apcs_inv [simp]: "apcs_inv ks \<Longrightarrow> apcs_inv (dequeue_apc t m ks)"
  by (simp add: apcs_inv_def dequeue_apc_ok)

lemma routine_okD:
  "routine_ok work f \<Longrightarrow> apcs_inv ks \<Longrightarrow> apcs_inv (f a ks)" "routine_ok work f \<Longrightarrow> apcs_inv ks \<Longrightarrow> work (f a ks) \<le> work ks"
  by (simp_all add: routine_ok_def)

lemma kernel_workD:
  assumes "kernel_work t work"
  shows "th_ApcList (ks_Threads ks t) KernelMode \<noteq> [] \<Longrightarrow> work (dequeue_apc t KernelMode ks) < work ks"
    "work (upd_thread t (\<lambda>th. th\<lparr>th_KernelApcPending := p\<rparr>) ks) = work ks"
    "work (upd_thread t (\<lambda>th. th\<lparr>th_KernelApcInProgress := p\<rparr>) ks) = work ks"
  using assms by (simp_all add: kernel_work_def)

definition blocked_queue :: "KSTATE \<Rightarrow> tid \<Rightarrow> bool" where
  "blocked_queue ks t =
     ((\<forall>a \<in> set (th_ApcList (ks_Threads ks t) KernelMode). normal ks a) \<and>
      (th_KernelApcInProgress (ks_Threads ks t) \<or> th_KernelApcDisable (ks_Threads ks t) \<noteq> 0))"

lemma deliver_kernel_apcs_ok:
  assumes work: "kernel_work t work" and routines: "routine_ok work (\<lambda>a ks. snd (kr a ks))" "routine_ok work nr" and inv: "apcs_inv ks"
  shows "\<exists>fin ks'. deliver_kernel_apcs kr nr t ks = Some (fin, ks') \<and> apcs_inv ks' \<and>
    (if fin then th_ApcList (ks_Threads ks' t) KernelMode = [] else blocked_queue ks' t)"
  using inv
proof (induction "work ks" arbitrary: ks rule: less_induct)
  case less
  show ?case
  proof (cases "th_ApcList (ks_Threads ks t) KernelMode")
    case Nil
    then show ?thesis
      using less.prems by (subst deliver_kernel_apcs.simps) auto
  next
    case (Cons a as)
    define ks1 where "ks1 = upd_thread t (\<lambda>th. th\<lparr>th_KernelApcPending := False\<rparr>) ks"
    have inv1: "apcs_inv ks1" and l1: "th_ApcList (ks_Threads ks1 t) KernelMode = a # as"
      using less.prems by (simp_all add: ks1_def Cons)
    define ks2 where "ks2 = snd (kr a (dequeue_apc t KernelMode ks1))"
    have inv2: "apcs_inv ks2" and "work ks2 \<le> work (dequeue_apc t KernelMode ks1)"
      using routine_okD[OF routines(1), of "dequeue_apc t KernelMode ks1"] inv1 by (simp_all add: ks2_def)
    then have less2: "work ks2 < work ks"
      using kernel_workD(1)[OF work, of ks1] l1 by (simp add: ks1_def kernel_workD(2)[OF work])
    show ?thesis
    proof (cases "normal ks1 a")
      case False
      then have "deliver_kernel_apcs kr nr t ks = deliver_kernel_apcs kr nr t ks2"
        using Cons by (subst deliver_kernel_apcs.simps) (simp add: ks1_def[symmetric] ks2_def normal_def)
      then show ?thesis
        using less.hyps[OF less2 inv2] by simp
    next
      case normal: True
      show ?thesis
      proof (cases "th_KernelApcInProgress (ks_Threads ks1 t) \<or> th_KernelApcDisable (ks_Threads ks1 t) \<noteq> 0")
        case True
        have ok1: "apc_ok ks1"
          using inv1 by (simp add: apcs_inv_def)
        have "special_first ks1 (apc_list (th_ApcStateIndex (ks_Threads ks1 t)) KernelMode (ks_Threads ks1 t))"
          by (rule apc_okD(2)[OF ok1 apc_okD(5)[OF ok1]])
        then have "blocked_queue ks1 t"
          using normal True by (simp add: apc_list_def l1 blocked_queue_def special_first_def)
        then show ?thesis
          using True normal Cons inv1 by (subst deliver_kernel_apcs.simps) (auto simp: ks1_def[symmetric] normal_def)
      next
        case False
        define b where "b = fst (kr a (dequeue_apc t KernelMode ks1))"
        define ks3 where "ks3 = upd_thread t (\<lambda>th. th\<lparr>th_KernelApcInProgress := False\<rparr>)
          (if b then nr a (upd_thread t (\<lambda>th. th\<lparr>th_KernelApcInProgress := True\<rparr>) ks2) else ks2)"
        have "apcs_inv ks3" "work ks3 \<le> work ks2"
          using routine_okD[OF routines(2), of "upd_thread t (\<lambda>th. th\<lparr>th_KernelApcInProgress := True\<rparr>) ks2"] inv2
          by (simp_all add: ks3_def kernel_workD(3)[OF work])
        moreover have "deliver_kernel_apcs kr nr t ks = deliver_kernel_apcs kr nr t ks3"
          using Cons False normal
          by (subst deliver_kernel_apcs.simps) (simp add: ks1_def[symmetric] normal_def ks3_def b_def ks2_def Let_def split: prod.split)
        ultimately show ?thesis
          using less.hyps[of ks3] less2 by simp
      qed
    qed
  qed
qed

text \<open>
  C11. The delivery of APCs to a thread that has not disabled special APCs ends and keeps the
  invariants. Its loop over the kernel APCs leaves none undelivered, except for those with a normal
  routine while such a routine is running or kernel APCs are disabled; on a return to kernel mode, and
  with no user APC pending, that is all. The routines of the APCs are arbitrary as
  long as they keep the invariants and do not queue kernel APCs to the thread for ever. To a thread
  that has disabled special APCs nothing is delivered.
\<close>

theorem KiDeliverApc_complete:
  assumes "kernel_work t work" "routine_ok work (\<lambda>a ks. snd (kernel_routine a ks))" "routine_ok work normal_routine"
    "routine_ok work initialize_user_apc" "apc_ok ks" "ke_inv ks"
  shows "(th_SpecialApcDisable (ks_Threads ks t) \<longrightarrow> KiDeliverApc kernel_routine normal_routine initialize_user_apc t DeliveryMode ks =
      Some (upd_thread t (\<lambda>th. th\<lparr>th_KernelApcPending := False\<rparr>) ks)) \<and>
    (\<not> th_SpecialApcDisable (ks_Threads ks t) \<longrightarrow> (\<exists>fin ks1 ks'.
      deliver_kernel_apcs kernel_routine normal_routine t (upd_thread t (\<lambda>th. th\<lparr>th_KernelApcPending := False\<rparr>) ks) = Some (fin, ks1) \<and>
      KiDeliverApc kernel_routine normal_routine initialize_user_apc t DeliveryMode ks = Some ks' \<and> apc_ok ks' \<and> ke_inv ks' \<and>
      (th_ApcList (ks_Threads ks1 t) KernelMode = [] \<or>
       (\<forall>a \<in> set (th_ApcList (ks_Threads ks1 t) KernelMode). ap_NormalRoutine (ks_Apcs ks1 a)) \<and>
       (th_KernelApcInProgress (ks_Threads ks1 t) \<or> th_KernelApcDisable (ks_Threads ks1 t) \<noteq> 0)) \<and>
      (DeliveryMode = KernelMode \<or> \<not> th_UserApcPending (ks_Threads ks1 t) \<or> th_ApcList (ks_Threads ks1 t) UserMode = [] \<longrightarrow> ks' = ks1)))"
proof (intro conjI impI)
  show "KiDeliverApc kernel_routine normal_routine initialize_user_apc t DeliveryMode ks =
      Some (upd_thread t (\<lambda>th. th\<lparr>th_KernelApcPending := False\<rparr>) ks)" if "th_SpecialApcDisable (ks_Threads ks t)"
    using that by (simp add: KiDeliverApc_def)
  assume enabled: "\<not> th_SpecialApcDisable (ks_Threads ks t)"
  let ?ks0 = "upd_thread t (\<lambda>th. th\<lparr>th_KernelApcPending := False\<rparr>) ks"
  have "apcs_inv ?ks0"
    using assms(5,6) by simp (simp add: apcs_inv_def)
  then obtain fin ks1 where eq: "deliver_kernel_apcs kernel_routine normal_routine t ?ks0 = Some (fin, ks1)" and inv1: "apcs_inv ks1"
    and left: "if fin then th_ApcList (ks_Threads ks1 t) KernelMode = [] else blocked_queue ks1 t"
    using deliver_kernel_apcs_ok[OF assms(1-3)] by blast
  define go where "go = (fin \<and> DeliveryMode = UserMode \<and> th_UserApcPending (ks_Threads ks1 t) \<and> th_ApcList (ks_Threads ks1 t) UserMode \<noteq> [])"
  define ks2 where "ks2 = dequeue_apc t UserMode (upd_thread t (\<lambda>th. th\<lparr>th_UserApcPending := False\<rparr>) ks1)"
  define a where "a = hd (th_ApcList (ks_Threads ks1 t) UserMode)"
  define ks' where "ks' = (if \<not> go then ks1
      else if fst (kernel_routine a ks2) then initialize_user_apc a (snd (kernel_routine a ks2))
      else snd (KeTestAlertThread t UserMode (snd (kernel_routine a ks2))))"
  have deliver: "KiDeliverApc kernel_routine normal_routine initialize_user_apc t DeliveryMode ks = Some ks'"
    using enabled by (simp add: KiDeliverApc_def eq Let_def)
      (simp add: ks'_def go_def ks2_def a_def split: list.split prod.split)
  have "apcs_inv ks2"
    using inv1 by (simp add: ks2_def)
  then have "apcs_inv ks'"
    using inv1 routine_okD(1)[OF assms(2)] routine_okD(1)[OF assms(4)] by (simp add: ks'_def KeTestAlertThread_def Let_def)
  then show "\<exists>fin ks1 ks'. deliver_kernel_apcs kernel_routine normal_routine t ?ks0 = Some (fin, ks1) \<and>
      KiDeliverApc kernel_routine normal_routine initialize_user_apc t DeliveryMode ks = Some ks' \<and> apc_ok ks' \<and> ke_inv ks' \<and>
      (th_ApcList (ks_Threads ks1 t) KernelMode = [] \<or>
       (\<forall>a \<in> set (th_ApcList (ks_Threads ks1 t) KernelMode). ap_NormalRoutine (ks_Apcs ks1 a)) \<and>
       (th_KernelApcInProgress (ks_Threads ks1 t) \<or> th_KernelApcDisable (ks_Threads ks1 t) \<noteq> 0)) \<and>
      (DeliveryMode = KernelMode \<or> \<not> th_UserApcPending (ks_Threads ks1 t) \<or> th_ApcList (ks_Threads ks1 t) UserMode = [] \<longrightarrow> ks' = ks1)"
    using eq deliver left by (intro exI[of _ fin] exI[of _ ks1] exI[of _ ks'])
      (auto simp: apcs_inv_def blocked_queue_def normal_def ks'_def go_def split: if_splits)
qed

theorem KiDeliverApc_complete_witness:
  "apc_list 0 KernelMode (ks_Threads two_apcs 0) = [1, 0] \<and>
   (\<exists>ks'. KiDeliverApc (\<lambda>a ks. (True, ks)) (\<lambda>a ks. ks) (\<lambda>a ks. ks) 0 KernelMode two_apcs = Some ks' \<and> apc_ok ks' \<and> ke_inv ks' \<and>
    (th_ApcList (ks_Threads ks' 0) KernelMode = [] \<or>
     (\<forall>a \<in> set (th_ApcList (ks_Threads ks' 0) KernelMode). ap_NormalRoutine (ks_Apcs ks' a)) \<and>
     (th_KernelApcInProgress (ks_Threads ks' 0) \<or> th_KernelApcDisable (ks_Threads ks' 0) \<noteq> 0)))"
proof (rule conjI[OF two_apcs_list])
  let ?work = "\<lambda>ks. length (th_ApcList (ks_Threads ks 0) KernelMode)"
  have "kernel_work 0 ?work"
    by (auto simp: kernel_work_def dequeue_apc_def split: list.split)
  moreover have "routine_ok ?work (\<lambda>a ks. ks)"
    by (simp add: routine_ok_def)
  moreover have "apc_ok two_apcs"
    by (rule apc_reachable_ok[OF two_apcs_reachable])
  moreover have "ke_inv two_apcs"
    by (simp add: two_apcs_def KeInsertQueueApc_ke_inv KiInitSystem_ok)
  moreover have "\<not> th_SpecialApcDisable (ks_Threads two_apcs 0)"
    by (simp add: two_apcs_def KeInsertQueueApc_def KiInsertQueueApc_def enqueue_apc_def KeInitializeApc_def KiInitSystem_def
        new_thread_def blank_apc_def apc_list_def set_apc_list_def Let_def)
  ultimately show "\<exists>ks'. KiDeliverApc (\<lambda>a ks. (True, ks)) (\<lambda>a ks. ks) (\<lambda>a ks. ks) 0 KernelMode two_apcs = Some ks' \<and> apc_ok ks' \<and> ke_inv ks' \<and>
    (th_ApcList (ks_Threads ks' 0) KernelMode = [] \<or>
     (\<forall>a \<in> set (th_ApcList (ks_Threads ks' 0) KernelMode). ap_NormalRoutine (ks_Apcs ks' a)) \<and>
     (th_KernelApcInProgress (ks_Threads ks' 0) \<or> th_KernelApcDisable (ks_Threads ks' 0) \<noteq> 0))"
    using KiDeliverApc_complete[of 0 ?work "\<lambda>a ks. (True, ks)" "\<lambda>a ks. ks" "\<lambda>a ks. ks" two_apcs KernelMode] by auto
qed

end
