(* ===== verification/Ke_System.thy ===== *)
theory Ke_System
  imports Ke_Expiry Ke_Apc
begin

text \<open>
  The dispatcher as a whole: the remaining operations keep the invariant, the step relation of
  the system, and what holds in every state it can reach.
\<close>

section \<open>The remaining operations\<close>

lemma ke_inv_entering: "ke_inv ks = (entering t False (waiting ks) ks \<and> queue_ok (waiting ks) ks)"
  by (auto simp: ke_inv_def inv_on_def core_def entering_def)

text \<open>The table after the removal of a timer depends on the table and on the hand of the timer.\<close>

lemma KxRemoveTreeTimer_table_cong:
  assumes "ks_TimerTable ks' = ks_TimerTable ks" "ks_TimerTime ks' = ks_TimerTime ks"
    "ob_Hand (ks_Objects ks' x) = ob_Hand (ks_Objects ks x)"
  shows "ks_TimerTable (KxRemoveTreeTimer x ks') = ks_TimerTable (KxRemoveTreeTimer x ks)"
    "ks_TimerTime (KxRemoveTreeTimer x ks') = ks_TimerTime (KxRemoveTreeTimer x ks)"
  by (simp_all add: KxRemoveTreeTimer_def KiRemoveEntryTimer_def RemoveTimerListEntry_def Let_def assms split: option.split)

lemma KiUnwaitThread_table:
  assumes "\<And>x. ob_Hand (ks_Objects ks' x) = ob_Hand (ks_Objects ks x)"
    "\<And>x. ob_Inserted (ks_Objects ks' x) = ob_Inserted (ks_Objects ks x)"
    "ks_TimerTable ks' = ks_TimerTable ks" "ks_TimerTime ks' = ks_TimerTime ks"
  shows "ks_TimerTable (KiUnwaitThread t s i ks) =
      ks_TimerTable (if ob_Inserted (ks_Objects ks' (TimerOf t)) then KxRemoveTreeTimer (TimerOf t) ks' else ks')"
    "ks_TimerTime (KiUnwaitThread t s i ks) =
      ks_TimerTime (if ob_Inserted (ks_Objects ks' (TimerOf t)) then KxRemoveTreeTimer (TimerOf t) ks' else ks')"
proof -
  define ks1 where "ks1 = fold RemoveWaitBlock (bl ks t) (upd_thread t (\<lambda>th. th\<lparr>th_WaitStatus := th_WaitStatus th OR s\<rparr>) ks)"
  have ks1: "ks_TimerTable ks' = ks_TimerTable ks1" "ks_TimerTime ks' = ks_TimerTime ks1"
    "\<And>x. ob_Hand (ks_Objects ks' x) = ob_Hand (ks_Objects ks1 x)" "\<And>x. ob_Inserted (ks_Objects ks' x) = ob_Inserted (ks_Objects ks1 x)"
    by (simp_all add: ks1_def assms)
  have "ks_TimerTable (KiUnwaitThread t s i ks) =
      ks_TimerTable (if ob_Inserted (ks_Objects ks1 (TimerOf t)) then KxRemoveTreeTimer (TimerOf t) ks1 else ks1)"
    "ks_TimerTime (KiUnwaitThread t s i ks) =
      ks_TimerTime (if ob_Inserted (ks_Objects ks1 (TimerOf t)) then KxRemoveTreeTimer (TimerOf t) ks1 else ks1)"
    by (simp_all add: KiUnwaitThread_def KiReadyThread_def KiUnlinkThread_def ks1_def Let_def split: option.split)
  then show "ks_TimerTable (KiUnwaitThread t s i ks) =
      ks_TimerTable (if ob_Inserted (ks_Objects ks' (TimerOf t)) then KxRemoveTreeTimer (TimerOf t) ks' else ks')"
    "ks_TimerTime (KiUnwaitThread t s i ks) =
      ks_TimerTime (if ob_Inserted (ks_Objects ks' (TimerOf t)) then KxRemoveTreeTimer (TimerOf t) ks' else ks')"
    using KxRemoveTreeTimer_table_cong[OF ks1(1-3), of "TimerOf t"] ks1 by (simp_all cong: if_cong)
qed

subsection \<open>Queues\<close>

text \<open>
  A thread that is handed an entry by \<open>KiInsertQueue\<close> ends up as if it were unwaited; only its
  timer keeps a wait block, which is not looked at any more.
\<close>

lemma KiInsertQueue_ok:
  assumes inv: "ke_inv ks" and q: "ty ks (Obj n) = QueueObject"
  shows "ke_inv (snd (KiInsertQueue cur (Obj n) e Head ks))"
proof -
  let ?q = "Obj n" and ?W = "waiting ks"
  let ?ob = "ks_Objects ks (Obj n)" and ?th = "ks_Threads ks cur"
  note ok = ke_inv_links[OF inv]
  show ?thesis
  proof (cases "ob_CurrentCount ?ob < ob_MaximumCount ?ob \<and> wl ks ?q \<noteq> [] \<and> (th_Queue ?th \<noteq> Some ?q \<or> th_WaitReason ?th \<noteq> WrQueue)")
    case False
    define ks' where "ks' = upd_object ?q (\<lambda>ob. ob\<lparr>ob_SignalState := s32 (ob_SignalState ob + 1),
           ob_EntryList := (if Head then e # ob_EntryList ob else ob_EntryList ob @ [e])\<rparr>) ks"
    have "entering cur False ?W ks' = entering cur False ?W ks"
      by (rule entering_cong[where s = "\<lambda>x. sig ks' x" and e = "\<lambda>x. ob_EntryList (ks_Objects ks' x)"
            and c = "\<lambda>x. ob_CurrentCount (ks_Objects ks x)"]) (use q in \<open>auto simp: ks'_def\<close>)
    moreover have "queue_ok ?W ks' = queue_ok ?W ks"
      by (rule queue_ok_cong) (simp_all add: ks'_def)
    moreover have "waiting ks' = ?W"
      by (simp add: ks'_def)
    ultimately have "ke_inv ks'"
      using inv by (simp add: ke_inv_entering[of _ cur])
    moreover have "snd (KiInsertQueue cur ?q e Head ks) = ks'"
      unfolding KiInsertQueue_def Let_def if_not_P[OF False] snd_conv ks'_def ..
    ultimately show ?thesis
      by simp
  next
    case True
    define b where "b = last (wl ks ?q)"
    define t where "t = wb_Thread b"
    define ks1 where "ks1 = upd_thread t (\<lambda>th. th\<lparr>th_WaitReason := 0\<rparr>)
      (upd_object ?q (\<lambda>ob. ob\<lparr>ob_CurrentCount := u32_add (ob_CurrentCount ob) 1\<rparr>)
        (upd_thread t (\<lambda>th. th\<lparr>th_WaitStatus := e\<rparr>) (upd_object ?q (\<lambda>ob. ob\<lparr>ob_WaitList := butlast (ob_WaitList ob)\<rparr>) ks)))"
    define ks' where "ks' = KiReadyThread t (if ob_Inserted (ks_Objects ks1 (TimerOf t)) then KxRemoveTreeTimer (TimerOf t) ks1 else ks1)"
    have eq: "snd (KiInsertQueue cur ?q e Head ks) = ks'"
      unfolding KiInsertQueue_def Let_def if_P[OF True] snd_conv ks'_def ks1_def t_def b_def ..
    have b: "b \<in> set (wl ks ?q)"
      using True by (simp add: b_def)
    note bD = wl_okD[OF ok(6) b, folded t_def]
    note tD = bl_okD[OF linksD(2)[OF ok(1) bD(1)] bD(2)]
    have queue: "queue ks t = Some ?q" and only: "\<And>b'. b' \<in> set (bl ks t) \<Longrightarrow> b' = b \<or> b' = timer_block t"
      using tD(4,5) q bD(3) by auto
    define ku where "ku = KiUnwaitThread t 0 0 ks"
    have inv_ku: "ke_inv ku" "waiting ku = ?W - {t}"
      unfolding ku_def using unwait_ke_inv[OF inv bD(1)] by simp_all
    have tm: "TimerOf t \<noteq> wb_Object b"
      using bD(3) by simp
    have list: "wl ku x = (if x = ?q then butlast (wl ks ?q) else wl ks x)" if "x \<noteq> TimerOf t" for x
    proof (cases "x = ?q")
      case True
      obtain bs where bs: "wl ks ?q = bs @ [b]"
        using b by (cases "wl ks ?q" rule: rev_cases) (auto simp: b_def)
      have "b \<notin> set bs"
        using linksD(3)[OF ok(1), of ?q] bs by simp
      then have "\<not> (b' \<in> set (bl ks t) \<and> wb_Object b' = ?q)" if "b' \<in> set bs" for b'
        using that only[of b'] by (auto simp: timer_block_def)
      then have "filter (\<lambda>b'. \<not> (b' \<in> set (bl ks t) \<and> wb_Object b' = ?q)) (bs @ [b]) = bs"
        using bD(2,3) by (auto simp: filter_id_conv)
      then show ?thesis
        unfolding ku_def KiUnwaitThread_wl[OF ok(1)] True bs by simp
    next
      case False
      then have "\<not> (b' \<in> set (bl ks t) \<and> wb_Object b' = x)" for b'
        using that only[of b'] bD(3) by (auto simp: timer_block_def)
      then show ?thesis
        unfolding ku_def KiUnwaitThread_wl[OF ok(1)] using False by simp
    qed
    have obj: "ks_Objects ks' x = ks_Objects ku x" if "x \<noteq> TimerOf t" for x
    proof -
      have "ks_Objects ku x = (ks_Objects ks x)\<lparr>ob_WaitList := wl ku x,
         ob_CurrentCount := (if x = ?q then u32_add (ob_CurrentCount ?ob) 1 else ob_CurrentCount (ks_Objects ks x))\<rparr>"
        using that queue by (cases "ks_Objects ks x") (auto simp: ku_def)
      then show ?thesis
        unfolding list[OF that] using that
        by (cases "ks_Objects ks x") (auto simp: ks'_def ks1_def KiReadyThread_def)
    qed
    have "inv_on (?W - {t}) ks'"
    proof (rule inv_on_idle[where ks = ku and t = t])
      show "inv_on (?W - {t}) ku"
        using inv_ku by (simp add: ke_inv_def)
      show "distinct (wl ks' (TimerOf t))"
        using linksD(3)[OF ok(1), of "TimerOf t"] by (simp add: ks'_def ks1_def KiReadyThread_def)
      have frame: "ob_Hand (ks_Objects ks1 x) = ob_Hand (ks_Objects ks x)" "ob_Inserted (ks_Objects ks1 x) = ob_Inserted (ks_Objects ks x)"
        "ks_TimerTable ks1 = ks_TimerTable ks" "ks_TimerTime ks1 = ks_TimerTime ks" for x
        by (simp_all add: ks1_def)
      show "ks_TimerTable ks' = ks_TimerTable ku" "ks_TimerTime ks' = ks_TimerTime ku"
        unfolding ku_def KiUnwaitThread_table[OF frame] by (simp_all add: ks'_def KiReadyThread_def)
    qed (use obj in \<open>simp_all add: ku_def ks'_def ks1_def KiReadyThread_def\<close>)
    moreover have "waiting ks' = ?W - {t}"
      by (auto simp: ks'_def ks1_def KiReadyThread_def waiting_def)
    ultimately show ?thesis
      using eq by (simp add: ke_inv_def)
  qed
qed

lemma KeRemoveQueue_again_ok:
  assumes inv: "ke_inv ks" and t: "t \<notin> waiting ks" and q: "queue ks t = Some (Obj n)"
  shows "\<exists>r ks'. KeRemoveQueue_again t irql (Obj n) m to c1 c2 c3 ks = Some (r, ks') \<and> ke_inv ks'"
proof -
  let ?q = "Obj n" and ?b = "object_block t 0 (Obj n) WaitAny" and ?timed = "to \<noteq> None" and ?W = "waiting ks"
  define ks0 where "ks0 = upd_thread t (\<lambda>th. th\<lparr>th_WaitIrql := irql\<rparr>) ks"
  define ks1 where "ks1 = KxQueueThreadWait t ?q m to c1 ks0"
  have inv0: "inv_on ?W ks0" and w0: "waiting ks0 = ?W" and q0: "queue ks0 t = Some ?q"
    using inv q by (simp_all add: ks0_def ke_inv_def inv_upd_thread)
  have prep: "inv_on ?W ks1" "prepared t (?b # (if ?timed then [timer_block t] else [])) [timer_block t] ?timed ks0 ks1"
    using set_up_inv[OF inv0 t, of "[timer_block t]"] set_up_inv_untimed[OF inv0 t]
    by (cases to; simp add: ks1_def KxQueueThreadWait_def Let_def)+
  have "removing t ?q ?timed ?W (count_down ?q ks1)"
    using prep(2) prepared_waiting[OF prep(2)] w0 q0 by (intro count_down_removing[OF prep(1) _ t]) (simp_all add: prepared_def)
  then show ?thesis
    using remove_queue_round_ok by (simp add: KeRemoveQueue_again_def Let_def ks0_def[symmetric] ks1_def[symmetric])
qed

lemma KeRemoveQueue_resume_ok [simp]: "ke_inv (KeRemoveQueue_resume t ks) = ke_inv ks"
  by (simp add: KeRemoveQueue_resume_def ke_inv_upd_thread)

text \<open>
  A queue that is run down loses its threads. Its count of running threads stays as it was and
  says nothing from then on.
\<close>

lemma fold_leave_queue:
  "ks_Threads (fold (\<lambda>t. upd_thread t (\<lambda>th. th\<lparr>th_Queue := None\<rparr>)) ts ks) u =
     (if u \<in> set ts then (ks_Threads ks u)\<lparr>th_Queue := None\<rparr> else ks_Threads ks u)"
  "ks_Objects (fold (\<lambda>t. upd_thread t (\<lambda>th. th\<lparr>th_Queue := None\<rparr>)) ts ks) = ks_Objects ks"
  "ks_TimerTable (fold (\<lambda>t. upd_thread t (\<lambda>th. th\<lparr>th_Queue := None\<rparr>)) ts ks) = ks_TimerTable ks"
  "ks_TimerTime (fold (\<lambda>t. upd_thread t (\<lambda>th. th\<lparr>th_Queue := None\<rparr>)) ts ks) = ks_TimerTime ks"
  "ks_KeMaximumIncrement (fold (\<lambda>t. upd_thread t (\<lambda>th. th\<lparr>th_Queue := None\<rparr>)) ts ks) = ks_KeMaximumIncrement ks"
  by (induction ts arbitrary: ks) simp_all

lemma KeRundownQueue_simps [simp]:
  "ks_Objects (snd (KeRundownQueue q ks)) = (ks_Objects ks)(q := (ks_Objects ks q)\<lparr>ob_ThreadList := [], ob_RunDown := True\<rparr>)"
  "ks_Threads (snd (KeRundownQueue q ks)) u =
     (if u \<in> set (ob_ThreadList (ks_Objects ks q)) then (ks_Threads ks u)\<lparr>th_Queue := None\<rparr> else ks_Threads ks u)"
  "ks_TimerTable (snd (KeRundownQueue q ks)) = ks_TimerTable ks"
  "ks_TimerTime (snd (KeRundownQueue q ks)) = ks_TimerTime ks"
  "ks_KeMaximumIncrement (snd (KeRundownQueue q ks)) = ks_KeMaximumIncrement ks"
  by (simp_all add: KeRundownQueue_def Let_def fold_leave_queue)

lemma upd_object_twice: "upd_object x g (upd_object x f ks) = upd_object x (\<lambda>ob. g (f ob)) ks"
  by (simp add: upd_object_def)

lemma KeRundownQueue_ok:
  assumes inv: "ke_inv ks" and q: "ty ks (Obj n) = QueueObject" "wl ks (Obj n) = []"
  shows "ke_inv (snd (KeRundownQueue (Obj n) ks))"
proof -
  let ?q = "Obj n" and ?W = "waiting ks" and ?ts = "ob_ThreadList (ks_Objects ks (Obj n))"
  define ks1 where "ks1 = snd (KeRundownQueue ?q ks)"
  note ok = ke_inv_links[OF inv]
  have ts: "u \<in> set ?ts \<longleftrightarrow> queue ks u = Some ?q" for u
    by (rule queue_okD(2)[OF ok(2) q(1)])
  have frame: "wl ks1 x = wl ks x" "ty ks1 x = ty ks x" "sig ks1 x = sig ks x" "owner ks1 x = owner ks x"
    "ob_Inserted (ks_Objects ks1 x) = ob_Inserted (ks_Objects ks x)" "bl ks1 u = bl ks u" "mutants ks1 u = mutants ks u"
    "ob_Limit (ks_Objects ks1 x) = ob_Limit (ks_Objects ks x)" "ob_Period (ks_Objects ks1 x) = ob_Period (ks_Objects ks x)" for x u
    by (simp_all add: ks1_def)
  have queue: "queue ks1 u = (if queue ks u = Some ?q then None else queue ks u)" for u
    by (simp add: ks1_def ts)
  have w: "waiting ks1 = ?W"
    by (simp add: ks1_def waiting_def)
  have live: "live ?W ks1 x = live ?W ks x" for x
    by (cases x) (simp_all add: frame)
  have other: "wb_Object b \<noteq> ?q" if "t \<in> ?W" "b \<in> set (bl ks t)" for t b
    using bl_okD(2)[OF linksD(2)[OF ok(1) that(1)] that(2)] q(2) by auto
  have "bl_ok ks1 t" if t: "t \<in> ?W" for t
    using linksD(2)[OF ok(1) t] other[OF t] unfolding bl_ok_def frame queue by fastforce
  then have "links ?W ks1"
    using ok(1) unfolding links_def live wl_ok_def frame by blast
  moreover have "queue_ok ?W ks1"
    unfolding queue_ok_def frame
  proof (intro conjI allI impI)
    fix p t assume p: "ty ks p = QueueObject"
    show "distinct (ob_ThreadList (ks_Objects ks1 p))" "(t \<in> set (ob_ThreadList (ks_Objects ks1 p))) = (queue ks1 t = Some p)"
      "\<not> ob_RunDown (ks_Objects ks1 p) \<Longrightarrow> ob_CurrentCount (ks_Objects ks1 p) = active ?W (ob_ThreadList (ks_Objects ks1 p)) mod 4294967296"
      using queue_okD(1-3)[OF ok(2) p] unfolding queue by (auto simp: ks1_def active_def)
  next
    show "ty ks p = QueueObject" if "queue ks1 t = Some p" for t p
      using queue_okD(4)[OF ok(2), of t p] that by (simp add: queue split: if_splits)
  qed
  moreover have "timer_ok {} ks1"
    using ok(3) by (subst timer_ok_cong[of _ ks]) (simp_all add: ks1_def)
  moreover have "objects_ok ks1" "blocked_ok ?W ks1"
    using ok(4,5) by (simp_all add: objects_ok_cong[of ks1 ks] blocked_ok_cong[of ks1 ks] frame)
  ultimately show ?thesis
    unfolding ks1_def[symmetric] by (simp add: ke_inv_def inv_on_def core_def w)
qed

subsection \<open>Mutants that are owned from the start\<close>

lemma KeInitializeMutant_ok:
  assumes inv: "ke_inv ks" and x: "unused x ks" and cur: "cur \<notin> waiting ks"
  shows "ke_inv (KeInitializeMutant cur x InitialOwner ks)"
proof -
  let ?free = "KeInitializeMutant cur x False ks"
  have free: "ke_inv ?free"
    unfolding KeInitializeMutant_def Let_def if_False upd_object_twice using period_bounds[OF inv, of x] x
    by (intro initialise_ke_inv[OF inv]) (auto simp: well_initialised_def unused_def two_state_def)
  show ?thesis
  proof (cases InitialOwner)
    case False
    then show ?thesis
      using free by simp
  next
    case True
    have "takeable ?free cur x" "cur \<notin> waiting ?free"
      using cur by (simp_all add: takeable_def offers_def can_take_def KeInitializeMutant_def Let_def)
    then have "ke_inv (KiSatisfyObjectWait x cur ?free)"
      by (intro satisfy_ke_inv[OF free])
    moreover have "KiSatisfyObjectWait x cur ?free =
      upd_thread cur (\<lambda>th. th\<lparr>th_KernelApcDisable := s16 (th_KernelApcDisable th)\<rparr>) (KeInitializeMutant cur x True ks)"
      by (cases "ks_Objects ks x"; cases "ks_Threads ks cur")
        (simp add: KiSatisfyObjectWait_def KiSatisfyMutantWait_def KeInitializeMutant_def Let_def s32_def set_signal_def
          upd_object_def upd_thread_def)
    ultimately show ?thesis
      using True by (simp add: ke_inv_upd_thread)
  qed
qed

subsection \<open>The scheduler\<close>

lemma schedule_ok:
  assumes inv: "ke_inv ks" and t: "t \<notin> waiting ks" and s: "s \<noteq> Waiting"
  shows "ke_inv (upd_thread t (\<lambda>th. th\<lparr>th_State := s\<rparr>) ks)"
proof -
  have "inv_on (waiting ks) (upd_thread t (\<lambda>th. th\<lparr>th_State := s\<rparr>) ks)"
    using linksD(3)[OF ke_inv_links(1)[OF inv]] by (intro inv_on_idle[OF inv[unfolded ke_inv_def] t]) simp_all
  moreover have "waiting (upd_thread t (\<lambda>th. th\<lparr>th_State := s\<rparr>) ks) = waiting ks"
    using t s by (auto simp: waiting_def)
  ultimately show ?thesis
    by (simp add: ke_inv_def)
qed

section \<open>The system\<close>

text \<open>
  A step is an operation of the dispatcher, called by any thread with what its documentation
  asks for: the object is of the right kind, the memory of an object that is initialised is not
  in use, a thread that waits is running, the objects of a wait for all are different, a
  semaphore has a count within its limit, and a period is not negative. The scheduler gives the
  processor to any thread that is not waiting.
\<close>

inductive ke_step :: "KSTATE \<Rightarrow> KSTATE \<Rightarrow> bool" where
  init_event: "unused x ks \<Longrightarrow> is_event k \<Longrightarrow> ke_step ks (KeInitializeEvent x k s ks)"
| init_mutant: "unused x ks \<Longrightarrow> t \<notin> waiting ks \<Longrightarrow> ke_step ks (KeInitializeMutant t x o1 ks)"
| init_mutex: "unused x ks \<Longrightarrow> ke_step ks (KeInitializeMutex x l ks)"
| init_semaphore: "unused x ks \<Longrightarrow> 0 \<le> c \<Longrightarrow> c \<le> l \<Longrightarrow> l < 2147483648 \<Longrightarrow> ke_step ks (KeInitializeSemaphore x c l ks)"
| init_timer: "unused x ks \<Longrightarrow> is_timer k \<Longrightarrow> ke_step ks (KeInitializeTimerEx x k ks)"
| init_queue: "unused x ks \<Longrightarrow> ke_step ks (KeInitializeQueue np x c ks)"
| clear_event: "is_event (ty ks x) \<Longrightarrow> ke_step ks (KeClearEvent x ks)"
| reset_event: "is_event (ty ks x) \<Longrightarrow> ke_step ks (snd (KeResetEvent x ks))"
| set_event: "is_event (ty ks (Obj n)) \<Longrightarrow> KeSetEvent t (Obj n) i w q ks = Some (r, ks') \<Longrightarrow> ke_step ks ks'"
| pulse_event: "is_event (ty ks (Obj n)) \<Longrightarrow> KePulseEvent t (Obj n) i w q ks = Some (r, ks') \<Longrightarrow> ke_step ks ks'"
| boost_event: "ty ks (Obj n) = EventSynchronizationObject \<Longrightarrow> KeSetEventBoostPriority t (Obj n) ks = Some (r1, ks') \<Longrightarrow> ke_step ks ks'"
| release_mutant: "ty ks (Obj n) = MutantObject \<Longrightarrow> KeReleaseMutant t (Obj n) i a w q ks = Some (Inr (r, ks')) \<Longrightarrow> ke_step ks ks'"
| release_semaphore: "ty ks (Obj n) = SemaphoreObject \<Longrightarrow> - 2147483648 \<le> j \<Longrightarrow> j < 2147483648 \<Longrightarrow>
    KeReleaseSemaphore t (Obj n) i j w q ks = Some (Inr (r, ks')) \<Longrightarrow> ke_step ks ks'"
| set_timer: "is_timer (ty ks (Obj n)) \<Longrightarrow> 0 \<le> p \<Longrightarrow> p < 2147483648 \<Longrightarrow>
    KeSetTimerEx c1 c2 cs (Obj n) d p b ks = Some (r2, ks') \<Longrightarrow> ke_step ks ks'"
| cancel_timer: "is_timer (ty ks (Obj n)) \<Longrightarrow> ke_step ks (snd (KeCancelTimer (Obj n) ks))"
| expire_timers: "dpcs_ok now run \<Longrightarrow> (\<And>k. clocks_ok now (clk k)) \<Longrightarrow> 0 \<le> now \<Longrightarrow>
    KiTimerExpiration run clk now tick idx ks = Some ks' \<Longrightarrow> ke_step ks ks'"
| wait_single: "t \<notin> waiting ks \<Longrightarrow> ty ks (Obj n) \<noteq> QueueObject \<Longrightarrow>
    KeWaitForSingleObject t q (Obj n) wr m al to c1 c2 c3 ks = Some (r3, ks') \<Longrightarrow> ke_step ks ks'"
| wait_multiple: "t \<notin> waiting ks \<Longrightarrow> (\<And>x. x \<in> set xs \<Longrightarrow> (\<exists>n. x = Obj n) \<and> ty ks x \<noteq> QueueObject) \<Longrightarrow> (wt = WaitAll \<Longrightarrow> distinct xs) \<Longrightarrow>
    KeWaitForMultipleObjects t q xs wt wr m al to own c1 c2 c3 ks = Some (r3, ks') \<Longrightarrow> ke_step ks ks'"
| delay: "t \<notin> waiting ks \<Longrightarrow> KeDelayExecutionThread t q m al d c1 c2 c3 ks = Some (r4, ks') \<Longrightarrow> ke_step ks ks'"
| insert_queue: "ty ks (Obj n) = QueueObject \<Longrightarrow> ke_step ks (snd (KiInsertQueue t (Obj n) e hd1 ks))"
| remove_queue: "t \<notin> waiting ks \<Longrightarrow> ty ks (Obj n) = QueueObject \<Longrightarrow>
    KeRemoveQueue t q (Obj n) m to c1 c2 c3 ks = Some (r3, ks') \<Longrightarrow> ke_step ks ks'"
| remove_queue_again: "t \<notin> waiting ks \<Longrightarrow> queue ks t = Some (Obj n) \<Longrightarrow>
    KeRemoveQueue_again t q (Obj n) m to c1 c2 c3 ks = Some (r3, ks') \<Longrightarrow> ke_step ks ks'"
| remove_queue_resume: "ke_step ks (KeRemoveQueue_resume t ks)"
| rundown_queue: "ty ks (Obj n) = QueueObject \<Longrightarrow> wl ks (Obj n) = [] \<Longrightarrow>
    ke_step ks (snd (KeRundownQueue (Obj n) ks))"
| alert: "ke_step ks (snd (KeAlertThread t m ks))"
| test_alert: "ke_step ks (snd (KeTestAlertThread t m ks))"
| init_apc: "ke_step ks (KeInitializeApc a t env x1 n1 m ks)"
| insert_apc: "ke_step ks (snd (KeInsertQueueApc t a i ks))"
| remove_apc: "ke_step ks (snd (KeRemoveQueueApc a ks))"
| flush_apcs: "ke_step ks (snd (KeFlushQueueApc t m ks))"
| dequeue: "ke_step ks (dequeue_apc t m ks)"
| schedule: "t \<notin> waiting ks \<Longrightarrow> s1 \<noteq> Waiting \<Longrightarrow> ke_step ks (upd_thread t (\<lambda>th. th\<lparr>th_State := s1\<rparr>) ks)"

inductive ke_reachable :: "KSTATE \<Rightarrow> bool" where
  start: "ke_reachable (KiInitSystem inc)"
| step: "ke_reachable ks \<Longrightarrow> ke_step ks ks' \<Longrightarrow> ke_reachable ks'"

lemmas operations_ok = KeInitializeEvent_ok KeInitializeMutant_ok KeInitializeMutex_ok KeInitializeSemaphore_ok KeInitializeTimerEx_ok
  KeInitializeQueue_ok KeCancelTimer_ok KiInsertQueue_ok KeRundownQueue_ok KeAlertThread_ok KeTestAlertThread_ok schedule_ok
  KeInsertQueueApc_ke_inv

lemma ke_step_inv:
  assumes "ke_step ks ks'" "ke_inv ks"
  shows "ke_inv ks'"
  using assms
proof (induction rule: ke_step.induct)
  case (set_event ks n t i w q r ks')
  then show ?case
    using KeSetEvent_ok[of ks n t i w q] by auto
next
  case (pulse_event ks n t i w q r ks')
  then show ?case
    using KePulseEvent_ok[of ks n t i w q] by auto
next
  case (boost_event ks n t r1 ks')
  then show ?case
    using KeSetEventBoostPriority_ok[of ks n t] by auto
next
  case (release_mutant ks n t i a w q r ks')
  then show ?case
    using KeReleaseMutant_ok[of ks n t i a w q] by auto
next
  case (release_semaphore ks n j t i w q r ks')
  then show ?case
    using KeReleaseSemaphore_ok[of ks n j t i w q] by auto
next
  case (set_timer ks n p c1 c2 cs d b r2 ks')
  then show ?case
    using KeSetTimerEx_ok(1)[of ks n p c1 c2 cs d b] by auto
next
  case (expire_timers now run clk tick idx ks ks')
  then show ?case
    using KiTimerExpiration_inv[of now run clk ks tick idx] by auto
next
  case (wait_single t ks n q wr m al to c1 c2 c3 r3 ks')
  then show ?case
    using KeWaitForSingleObject_ok[of ks t n q wr m al to c1 c2 c3] by auto
next
  case (wait_multiple t ks xs wt q wr m al to own c1 c2 c3 r3 ks')
  then show ?case
    using KeWaitForMultipleObjects_ok[of ks t xs wt q wr m al to own c1 c2 c3] by auto
next
  case (delay t ks q m al d c1 c2 c3 r4 ks')
  then show ?case
    using KeDelayExecutionThread_ok[of ks t q m al d c1 c2 c3] by auto
next
  case (remove_queue t ks n q m to c1 c2 c3 r3 ks')
  then show ?case
    using KeRemoveQueue_ok[of ks t n q m to c1 c2 c3] by auto
next
  case (remove_queue_again t ks n q m to c1 c2 c3 r3 ks')
  then show ?case
    using KeRemoveQueue_again_ok[of ks t n q m to c1 c2 c3] by auto
qed (simp_all add: operations_ok KeClearEvent_def KeResetEvent_def reset_ke_inv is_event_two_state)

lemma ke_reachable_inv: "ke_reachable ks \<Longrightarrow> ke_inv ks"
  by (induction rule: ke_reachable.induct) (auto simp: KiInitSystem_ok intro: ke_step_inv)

end
