(* ===== verification/Ke_HandOver.thy ===== *)
theory Ke_HandOver
  imports Ke_Invariant
begin

text \<open>
  How an object that satisfies one wait is handed to the threads in line for it: the event
  that is set, and the mutant that is released. The line is walked from its head by
  \<open>KxUnwaitThreadForEvent\<close> (\<open>ke_x.h\<close>) and \<open>KiWaitTest\<close> (\<open>wait.c\<close>); what both do is described by one
  function on the line.
\<close>

section \<open>Who takes the object\<close>

text \<open>
  A thread that waits for any of its objects takes the object. A thread that waits for all of
  them is only told to look again; it leaves the line with every block it has there, and the
  next one is tried. The result is the blocks of the threads that were told to look again, and
  the block of the thread that takes the object, if there is one.
\<close>

fun hand_over :: "KWAIT_BLOCK list \<Rightarrow> KWAIT_BLOCK list \<times> KWAIT_BLOCK option" where
  "hand_over [] = ([], None)"
| "hand_over (b # bs) =
     (if wb_WaitType b = WaitAny then ([], Some b)
      else case hand_over (filter (\<lambda>c. wb_Thread c \<noteq> wb_Thread b) bs) of (cs, r) \<Rightarrow> (b # cs, r))"

lemma hand_over_sub:
  "hand_over bs = (cs, r) \<Longrightarrow> set cs \<subseteq> set bs \<and> set_option r \<subseteq> set bs"
proof (induction bs arbitrary: cs r rule: hand_over.induct)
  case (2 b bs)
  show ?case
  proof (cases "wb_WaitType b = WaitAny")
    case True
    then show ?thesis
      using "2.prems" by auto
  next
    case False
    then obtain cs' where "hand_over (filter (\<lambda>c. wb_Thread c \<noteq> wb_Thread b) bs) = (cs', r)" "cs = b # cs'"
      using "2.prems" by (auto split: prod.splits)
    then show ?thesis
      using "2.IH"[OF False, of cs' r] by auto
  qed
qed simp

lemma hand_over_types:
  "hand_over bs = (cs, r) \<Longrightarrow> \<forall>b \<in> set_option r. wb_WaitType b = WaitAny"
proof (induction bs arbitrary: cs r rule: hand_over.induct)
  case (2 b bs)
  then show ?case
    by (cases "wb_WaitType b = WaitAny") (auto split: prod.splits)
qed simp

lemma hand_over_taker:
  "hand_over bs = (cs, Some b) \<Longrightarrow> wb_Thread b \<notin> wb_Thread ` set cs"
proof (induction bs arbitrary: cs rule: hand_over.induct)
  case (2 c bs)
  show ?case
  proof (cases "wb_WaitType c = WaitAny")
    case True
    then show ?thesis
      using "2.prems" by auto
  next
    case False
    then obtain cs' where cs': "hand_over (filter (\<lambda>d. wb_Thread d \<noteq> wb_Thread c) bs) = (cs', Some b)" "cs = c # cs'"
      using "2.prems" by (auto split: prod.splits)
    then show ?thesis
      using "2.IH"[OF False cs'(1)] hand_over_sub[OF cs'(1)] by auto
  qed
qed simp

text \<open>A thread that is woken with a status.\<close>

definition unwaited :: "int \<Rightarrow> int \<Rightarrow> KTHREAD \<Rightarrow> KTHREAD" where
  "unwaited i s th = th\<lparr>th_WaitStatus := th_WaitStatus th OR s, th_AdjustIncrement := s8 i,
     th_AdjustReason := AdjustUnwait, th_State := DeferredReady\<rparr>"

lemma unwaited_simps [simp]:
  "th_State (unwaited i s th) = DeferredReady" "th_WaitStatus (unwaited i s th) = th_WaitStatus th OR s"
  by (simp_all add: unwaited_def)

lemma KiUnwaitThread_unwaited:
  "ks_Threads (KiUnwaitThread t s i ks) u = (if u = t then unwaited i s (ks_Threads ks t) else ks_Threads ks u)"
  by (simp add: unwaited_def)

text \<open>Waking a thread takes all its blocks out of the wait list.\<close>

lemma unwait_wl:
  assumes "links W ks" "wl_ok W ks x" "t \<in> W"
  shows "wl (KiUnwaitThread t s i ks) x = filter (\<lambda>b. wb_Thread b \<noteq> t) (wl ks x)"
  unfolding KiUnwaitThread_wl[OF assms(1)]
  using wl_okD[OF assms(2)] bl_okD(1)[OF linksD(2)[OF assms(1,3)]] by (intro filter_cong) auto

text \<open>The state after the threads of some blocks were told to look again.\<close>

definition told :: "int \<Rightarrow> tid set \<Rightarrow> KSTATE \<Rightarrow> KSTATE \<Rightarrow> bool" where
  "told i T ks ks' =
     ((\<forall>t. ks_Threads ks' t = (if t \<in> T then unwaited i STATUS_KERNEL_APC (ks_Threads ks t) else ks_Threads ks t)) \<and>
      (\<forall>y. ty ks' y = ty ks y \<and> sig ks' y = sig ks y \<and> owner ks' y = owner ks y))"

lemma toldD:
  assumes "told i T ks ks'"
  shows "ks_Threads ks' t = (if t \<in> T then unwaited i STATUS_KERNEL_APC (ks_Threads ks t) else ks_Threads ks t)"
    "ty ks' y = ty ks y" "sig ks' y = sig ks y" "owner ks' y = owner ks y" "waiting ks' = waiting ks - T"
  using assms by (auto simp: told_def waiting_def)

lemma told_empty [simp]: "told i {} ks ks"
  by (simp add: told_def)

lemma told_insert:
  assumes "told i T (KiUnwaitThread t STATUS_KERNEL_APC i ks) ks'" "t \<notin> T"
  shows "told i (insert t T) ks ks'"
  using assms by (auto simp: told_def unwaited_def)

section \<open>Loops that hand an object over\<close>

text \<open>
  What makes a loop hand its object over: as long as the object is free the loop goes on; a
  wait for all objects leaves it free, a wait for any ends the loop.
\<close>

locale hander = waker +
  fixes free :: "oid \<Rightarrow> KSTATE \<Rightarrow> bool"
  assumes free_go: "free x ks \<Longrightarrow> go x ks"
    and all_passes: "wb_WaitType b \<noteq> WaitAny \<Longrightarrow> prepare x b ks = ks \<and> again b \<and> status b = STATUS_KERNEL_APC"
    and free_kept: "free x ks \<Longrightarrow> free x (KiUnwaitThread t s i ks)"
    and any_ends: "free x ks \<Longrightarrow> wb_WaitType b = WaitAny \<Longrightarrow> \<not> again b \<or> \<not> go x (KiUnwaitThread t s i (prepare x b ks))"
begin

lemma loop_hand_over:
  assumes "links W ks" "wl_ok W ks x" "free x ks" "hand_over (wl ks x) = (cs, r)"
  shows "\<exists>ks'. loop x i ks = Some (case r of None \<Rightarrow> ks' | Some b \<Rightarrow> wake x i b ks') \<and> free x ks' \<and>
    told i (wb_Thread ` set cs) ks ks'"
  using assms
proof (induction "length (wl ks x)" arbitrary: ks W cs r rule: less_induct)
  case less
  show ?case
  proof (cases "wl ks x")
    case Nil
    then show ?thesis
      using less.prems(3,4) by (subst loop_eq) (auto intro!: exI[of _ ks])
  next
    case (Cons b bs)
    have b: "b \<in> set (wl ks x)"
      by (simp add: Cons)
    have loop: "loop x i ks = (if again b then loop x i (wake x i b ks) else Some (wake x i b ks))"
      using free_go[OF less.prems(3)] by (subst loop_eq) (simp add: Cons wake_def Let_def)
    show ?thesis
    proof (cases "wb_WaitType b = WaitAny")
      case True
      have "loop x i (wake x i b ks) = Some (wake x i b ks)" if "again b"
        using any_ends[OF less.prems(3) True] that by (subst loop_eq) (auto simp: wake_def split: list.split)
      then show ?thesis
        using loop less.prems(3,4) True Cons by (auto intro!: exI[of _ ks])
    next
      case False
      let ?t = "wb_Thread b"
      define ks1 where "ks1 = wake x i b ks"
      have ks1: "ks1 = KiUnwaitThread ?t STATUS_KERNEL_APC i ks"
        using all_passes[OF False, of x ks] by (simp add: ks1_def wake_def)
      note inv = wake_inv[OF less.prems(1,2) b, of i, folded ks1_def]
      have wl1: "wl ks1 x = filter (\<lambda>c. wb_Thread c \<noteq> ?t) bs"
        unfolding ks1 unwait_wl[OF less.prems(1,2) wl_okD(1)[OF less.prems(2) b]] by (simp add: Cons)
      obtain cs' where cs': "hand_over (wl ks1 x) = (cs', r)" "cs = b # cs'"
        using less.prems(4) False by (auto simp: Cons wl1 split: prod.splits)
      obtain ks' where ks': "loop x i ks1 = Some (case r of None \<Rightarrow> ks' | Some b \<Rightarrow> wake x i b ks')" "free x ks'"
        "told i (wb_Thread ` set cs') ks1 ks'"
        using less.hyps[OF inv(5,1,2) _ cs'(1)] free_kept[OF less.prems(3)] by (auto simp: ks1)
      have "?t \<notin> wb_Thread ` set cs'"
        using hand_over_sub[OF cs'(1)] by (auto simp: wl1)
      then have "told i (wb_Thread ` set cs) ks ks'"
        using told_insert[OF ks'(3)[unfolded ks1]] by (simp add: cs'(2))
      moreover have "loop x i ks = loop x i ks1"
        using loop all_passes[OF False] by (simp add: ks1_def)
      ultimately show ?thesis
        using ks'(1,2) by auto
    qed
  qed
qed

end

interpretation event_line: hander KxUnwaitThreadForEvent "\<lambda>x ks. True" "\<lambda>b. wb_WaitType b \<noteq> WaitAny"
  "\<lambda>x b ks. if wb_WaitType b = WaitAny then set_signal x 0 ks else ks"
  "\<lambda>b. if wb_WaitType b = WaitAny then wb_WaitKey b else STATUS_KERNEL_APC" "\<lambda>x ks. sig ks x = 1"
  by unfold_locales simp_all

interpretation mutant_line: hander KiWaitTest "\<lambda>x ks. sig ks x > 0" "\<lambda>b. True"
  "\<lambda>x b ks. if wb_WaitType b = WaitAny then KiSatisfyObjectWait x (wb_Thread b) ks else ks"
  "\<lambda>b. if wb_WaitType b = WaitAny then wb_WaitKey b else STATUS_KERNEL_APC" "\<lambda>x ks. ty ks x = MutantObject \<and> sig ks x = 1"
  by unfold_locales (simp_all add: KiSatisfyObjectWait_def KiSatisfyMutantWait_objects Let_def s32_def)

section \<open>Events and mutants\<close>

lemma KxUnwaitThreadForEvent_hands_over:
  assumes "links W ks" "wl_ok W ks x" "sig ks x = 1" "hand_over (wl ks x) = (cs, r)"
  shows "\<exists>ks'. KxUnwaitThreadForEvent x i ks = Some ks' \<and> sig ks' x = (if r = None then 1 else 0) \<and>
    waiting ks' = waiting ks - wb_Thread ` (set cs \<union> set_option r) \<and>
    (\<forall>b \<in> set cs. ks_Threads ks' (wb_Thread b) = unwaited i STATUS_KERNEL_APC (ks_Threads ks (wb_Thread b))) \<and>
    (\<forall>b. r = Some b \<longrightarrow> ks_Threads ks' (wb_Thread b) = unwaited i (wb_WaitKey b) (ks_Threads ks (wb_Thread b))) \<and>
    (\<forall>t. t \<notin> wb_Thread ` (set cs \<union> set_option r) \<longrightarrow> ks_Threads ks' t = ks_Threads ks t)"
proof -
  obtain ks1 where ks1: "KxUnwaitThreadForEvent x i ks = Some (case r of None \<Rightarrow> ks1 | Some b \<Rightarrow> unwait_event.wake x i b ks1)"
    "sig ks1 x = 1" "told i (wb_Thread ` set cs) ks ks1"
    using event_line.loop_hand_over[OF assms] by blast
  note told = toldD[OF ks1(3)]
  show ?thesis
  proof (cases r)
    case None
    then show ?thesis
      using ks1(1,2) told by auto
  next
    case (Some b)
    have b: "wb_WaitType b = WaitAny" "wb_Thread b \<notin> wb_Thread ` set cs"
      using hand_over_types[OF assms(4)] hand_over_taker assms(4) Some by auto
    have other: "wb_Thread c \<noteq> wb_Thread b" if "c \<in> set cs" for c
      using b(2) that by (metis imageI)
    have wake: "unwait_event.wake x i b ks1 = KiUnwaitThread (wb_Thread b) (wb_WaitKey b) i (set_signal x 0 ks1)"
      by (simp add: unwait_event.wake_def b(1))
    have "waiting (set_signal x 0 ks1) = waiting ks1"
      by (simp add: waiting_def)
    then have "waiting (unwait_event.wake x i b ks1) = waiting ks - wb_Thread ` (set cs \<union> set_option r)"
      unfolding wake by (simp add: told(5) Some) blast
    moreover have "sig (unwait_event.wake x i b ks1) x = 0"
      by (simp add: wake)
    moreover have "ks_Threads (unwait_event.wake x i b ks1) t =
        (if t = wb_Thread b then unwaited i (wb_WaitKey b) (ks_Threads ks1 t) else ks_Threads ks1 t)" for t
      unfolding wake KiUnwaitThread_unwaited by simp
    ultimately show ?thesis
      using ks1(1) b(2) other by (auto simp: Some told(1))
  qed
qed

lemma KiWaitTest_hands_over:
  assumes "links W ks" "wl_ok W ks x" "ty ks x = MutantObject" "sig ks x = 1" "owner ks x = None" "hand_over (wl ks x) = (cs, r)"
  shows "\<exists>ks'. KiWaitTest x i ks = Some ks' \<and> sig ks' x = (if r = None then 1 else 0) \<and> owner ks' x = map_option wb_Thread r \<and>
    waiting ks' = waiting ks - wb_Thread ` (set cs \<union> set_option r) \<and>
    (\<forall>b \<in> set cs. ks_Threads ks' (wb_Thread b) = unwaited i STATUS_KERNEL_APC (ks_Threads ks (wb_Thread b))) \<and>
    (\<forall>b. r = Some b \<longrightarrow> th_State (ks_Threads ks' (wb_Thread b)) = DeferredReady \<and>
       mutants ks' (wb_Thread b) = mutants ks (wb_Thread b) @ [x]) \<and>
    (\<forall>t. t \<notin> wb_Thread ` (set cs \<union> set_option r) \<longrightarrow> ks_Threads ks' t = ks_Threads ks t)"
proof -
  obtain ks1 where ks1: "KiWaitTest x i ks = Some (case r of None \<Rightarrow> ks1 | Some b \<Rightarrow> wait_test.wake x i b ks1)"
    "ty ks1 x = MutantObject" "sig ks1 x = 1" "told i (wb_Thread ` set cs) ks ks1"
    using mutant_line.loop_hand_over[OF assms(1,2) _ assms(6)] assms(3,4) by blast
  note told = toldD[OF ks1(4)]
  show ?thesis
  proof (cases r)
    case None
    then show ?thesis
      using ks1(1,3) told assms(5) by auto
  next
    case (Some b)
    have b: "wb_WaitType b = WaitAny" "wb_Thread b \<notin> wb_Thread ` set cs"
      using hand_over_types[OF assms(6)] hand_over_taker assms(6) Some by auto
    have other: "wb_Thread c \<noteq> wb_Thread b" if "c \<in> set cs" for c
      using b(2) that by (metis imageI)
    let ?ks = "KiSatisfyMutantWait x (wb_Thread b) ks1"
    have wake: "wait_test.wake x i b ks1 = KiUnwaitThread (wb_Thread b) (wb_WaitKey b) i ?ks"
      by (simp add: wait_test.wake_def b(1) KiSatisfyObjectWait_def ks1(2))
    have "waiting (wait_test.wake x i b ks1) = waiting ks - wb_Thread ` (set cs \<union> set_option r)"
      unfolding wake using same_links_inv(4)[OF KiSatisfyMutantWait_same_links] by (simp add: told(5) Some) blast
    moreover have "sig (wait_test.wake x i b ks1) x = 0" "owner (wait_test.wake x i b ks1) x = Some (wb_Thread b)"
      by (simp_all add: wake KiSatisfyMutantWait_objects ks1(3) s32_def Let_def)
    moreover have "ks_Threads (wait_test.wake x i b ks1) t = ks_Threads ks1 t" if "t \<noteq> wb_Thread b" for t
      using that by (simp add: wake KiSatisfyMutantWait_threads Let_def)
    moreover have "th_State (ks_Threads (wait_test.wake x i b ks1) (wb_Thread b)) = DeferredReady"
      "mutants (wait_test.wake x i b ks1) (wb_Thread b) = mutants ks1 (wb_Thread b) @ [x]"
      by (simp_all add: wake KiSatisfyMutantWait_threads ks1(3) s32_def Let_def)
    ultimately show ?thesis
      using ks1(1) b(2) other by (auto simp: Some told(1))
  qed
qed

end
