(* ===== verification/Ke_Properties.thy ===== *)
theory Ke_Properties
  imports Ke_System Ke_HandOver
begin

text \<open>
  What holds in every state the dispatcher can reach, and what its operations do there.
\<close>

section \<open>A state with waiters\<close>

text \<open>The state after an operation that returns.\<close>

definition after :: "('a \<times> KSTATE) option \<Rightarrow> KSTATE \<Rightarrow> KSTATE" where
  "after r ks = (case r of None \<Rightarrow> ks | Some (_, ks') \<Rightarrow> ks')"

lemma reachable_wait:
  "ke_reachable ks \<Longrightarrow> t \<notin> waiting ks \<Longrightarrow> ty ks (Obj n) \<noteq> QueueObject \<Longrightarrow>
   ke_reachable (after (KeWaitForSingleObject t q (Obj n) wr m al to c1 c2 c3 ks) ks)"
  by (auto simp: after_def split: option.split intro: ke_reachable.step ke_step.wait_single)

text \<open>
  Thread 1 waits for event 0, with a time-out; thread 2 owns mutex 1; semaphore 2 has a count of
  one. The clock is at zero, and the time-out is after 50 units.
\<close>

definition demo0 :: KSTATE where
  "demo0 = KeInitializeSemaphore (Obj 2) 1 5 (KeInitializeMutex (Obj 1) 0
     (KeInitializeEvent (Obj 0) EventSynchronizationObject False (KiInitSystem 100)))"

definition demo1 :: KSTATE where
  "demo1 = after (KeWaitForSingleObject 1 0 (Obj 0) Executive KernelMode False (Some (- 50)) (clock_at 0) (clock_at 0) (clock_at 0) demo0) demo0"

definition demo :: KSTATE where
  "demo = after (KeWaitForSingleObject 2 0 (Obj 1) Executive KernelMode False None (clock_at 0) (clock_at 0) (clock_at 0) demo1) demo1"

lemmas demo_init = demo0_def KeInitializeSemaphore_def KeInitializeMutex_def KeInitializeEvent_def blank_object_def new_thread_def

lemma demo0_simps:
  "ks_Threads demo0 t = new_thread" "ks_TimerTable demo0 h = []" "ks_KeMaximumIncrement demo0 = 100" "waiting demo0 = {}"
  "ks_Objects demo0 (TimerOf t) = blank_object\<lparr>ob_Type := TimerNotificationObject, ob_Hand := 10\<rparr>"
  "ks_Objects demo0 (Obj 0) = blank_object\<lparr>ob_Type := EventSynchronizationObject\<rparr>"
  "ks_Objects demo0 (Obj (Suc 0)) = blank_object\<lparr>ob_Type := MutantObject, ob_SignalState := 1, ob_ApcDisable := True\<rparr>"
  "ks_Objects demo0 (Obj 2) = blank_object\<lparr>ob_Type := SemaphoreObject, ob_SignalState := 1, ob_Limit := 5\<rparr>"
  by (simp_all add: demo_init) (simp_all add: KiInitSystem_def waiting_def)

lemmas demo_wait = KeWaitForSingleObject_def KxSingleThreadWait_def begin_wait_def set_wait_def set_timer_list_def
  KxSetTimerForThreadWait_def KiComputeTimerTableIndex_def kernel_apc_deliverable_def KiCheckAlertability_def timer_expired_def
  activate_timer_def insert_wait_block_def activate_queue_def KiBlockThread_def KxInsertTimer_def KiInsertTimerTable_def
  KiSatisfyMutantWait_def object_block_def timer_block_def clock_at_def after_def due_def u64_def s64_def s32_def s16_def

lemma demo1_simps:
  "ks_Threads demo1 t = (if t = 1 then new_thread\<lparr>th_State := Waiting, th_WaitBlockList := [object_block 1 0 (Obj 0) WaitAny, timer_block 1]\<rparr>
     else new_thread)"
  by (simp add: demo1_def demo_wait demo0_simps Let_def blank_object_def new_thread_def)

lemma demo1_objects:
  "ks_Objects demo1 (Obj 0) = blank_object\<lparr>ob_Type := EventSynchronizationObject, ob_WaitList := [object_block 1 0 (Obj 0) WaitAny]\<rparr>"
  "ks_Objects demo1 (Obj (Suc 0)) = ks_Objects demo0 (Obj 1)" "ks_Objects demo1 (Obj 2) = ks_Objects demo0 (Obj 2)"
  "ob_Inserted (ks_Objects demo1 (TimerOf 1))" "due demo1 (TimerOf 1) = 50" "ks_KeMaximumIncrement demo1 = 100"
  by (simp_all add: demo1_def demo_wait demo0_simps Let_def blank_object_def new_thread_def)

lemma demo_simps:
  "ks_Threads demo t = (if t = 1 then new_thread\<lparr>th_State := Waiting, th_WaitBlockList := [object_block 1 0 (Obj 0) WaitAny, timer_block 1]\<rparr>
     else if t = 2 then new_thread\<lparr>th_WaitBlockList := [object_block 2 0 (Obj 1) WaitAny], th_MutantList := [Obj 1], th_KernelApcDisable := - 1\<rparr>
     else new_thread)"
  "ks_Objects demo (Obj 0) = ks_Objects demo1 (Obj 0)"
  "ks_Objects demo (Obj (Suc 0)) = (ks_Objects demo1 (Obj 1))\<lparr>ob_SignalState := 0, ob_OwnerThread := Some 2\<rparr>"
  "ks_Objects demo (Obj 2) = ks_Objects demo1 (Obj 2)" "ks_Objects demo (TimerOf u) = ks_Objects demo1 (TimerOf u)"
  "ks_KeMaximumIncrement demo = 100"
  by (simp_all add: demo_def demo_wait demo1_simps demo1_objects demo0_simps Let_def blank_object_def new_thread_def)

text \<open>Thread 3 waits for the mutex of thread 2.\<close>

definition demo2 :: KSTATE where
  "demo2 = after (KeWaitForSingleObject 3 0 (Obj 1) Executive KernelMode False None (clock_at 0) (clock_at 0) (clock_at 0) demo) demo"

lemma demo2_simps:
  "ks_Threads demo2 t = (if t = 3 then new_thread\<lparr>th_State := Waiting, th_WaitBlockList := [object_block 3 0 (Obj 1) WaitAny]\<rparr>
     else ks_Threads demo t)"
  "ks_Objects demo2 (Obj (Suc 0)) = (ks_Objects demo (Obj 1))\<lparr>ob_WaitList := [object_block 3 0 (Obj 1) WaitAny]\<rparr>"
  by (simp_all add: demo2_def demo_wait demo_simps demo1_objects demo0_simps Let_def blank_object_def new_thread_def)

lemma waiting_demo: "waiting demo0 = {}" "waiting demo1 = {1}" "waiting demo = {1}"
  by (auto simp: waiting_def demo0_simps demo1_simps demo_simps new_thread_def)

lemma demo_reachable: "ke_reachable demo0" "ke_reachable demo1" "ke_reachable demo" "ke_reachable demo2"
proof -
  show 0: "ke_reachable demo0"
    unfolding demo0_def
    by (rule ke_reachable.step[OF ke_reachable.step[OF ke_reachable.step[OF ke_reachable.start ke_step.init_event] ke_step.init_mutex]
          ke_step.init_semaphore])
      (simp_all add: unused_def is_event_def KeInitializeEvent_def KeInitializeMutex_def blank_object_def new_thread_def)
  show 1: "ke_reachable demo1"
    unfolding demo1_def using 0 by (rule reachable_wait) (simp_all add: waiting_demo demo0_simps blank_object_def)
  show 2: "ke_reachable demo"
    unfolding demo_def using 1 by (rule reachable_wait) (simp_all add: waiting_demo demo1_objects demo0_simps blank_object_def)
  show "ke_reachable demo2"
    unfolding demo2_def using 2 by (rule reachable_wait) (simp_all add: waiting_demo demo_simps demo1_objects demo0_simps blank_object_def)
qed

section \<open>Invariants\<close>

text \<open>
  C6. The wait lists are exact: a wait block is in the wait list of an object exactly if its
  thread is waiting and the block is one of the blocks of the wait of that thread, for that
  object; and it is there once.
\<close>

theorem wait_lists_exact:
  assumes "ke_reachable ks"
  shows "distinct (wl ks (Obj n)) \<and>
    (\<forall>b. b \<in> set (wl ks (Obj n)) \<longleftrightarrow> wb_Thread b \<in> waiting ks \<and> b \<in> set (bl ks (wb_Thread b)) \<and> wb_Object b = Obj n)"
proof -
  note ok = ke_inv_links[OF ke_reachable_inv[OF assms]]
  have "b \<in> set (wl ks (Obj n))" if "wb_Thread b \<in> waiting ks" "b \<in> set (bl ks (wb_Thread b))" "wb_Object b = Obj n" for b
    using bl_okD(2)[OF linksD(2)[OF ok(1) that(1)] that(2)] that(3) by simp
  then show ?thesis
    using linksD(3)[OF ok(1)] wl_okD[OF ok(6)] by blast
qed

theorem wait_lists_exact_witness:
  "wl demo (Obj 0) = [object_block 1 0 (Obj 0) WaitAny] \<and> distinct (wl demo (Obj 0)) \<and>
    (\<forall>b. b \<in> set (wl demo (Obj 0)) \<longleftrightarrow> wb_Thread b \<in> waiting demo \<and> b \<in> set (bl demo (wb_Thread b)) \<and> wb_Object b = Obj 0)"
proof (rule conjI[OF _ wait_lists_exact[OF demo_reachable(3)]])
  show "wl demo (Obj 0) = [object_block 1 0 (Obj 0) WaitAny]"
    by (simp add: demo_simps demo1_objects)
qed

text \<open>
  C1. No wake-up is lost: a thread that waits for events, mutants, semaphores and timers has no
  object it waits for that it could take, if it waits for any of them, and some object it could
  not take, if it waits for all of them. A thread that waits for an entry of a queue is not
  covered: it can be left asleep, as the theorem on the stale wait reason shows.
\<close>

theorem no_lost_wakeup:
  assumes "ke_reachable ks" "t \<in> waiting ks" "object_blocks ks t \<noteq> []"
    "\<forall>b \<in> set (object_blocks ks t). ty ks (wb_Object b) \<noteq> QueueObject"
  shows "(\<forall>b \<in> set (object_blocks ks t). wb_WaitType b = WaitAny \<longrightarrow> \<not> can_take ks t (wb_Object b)) \<and>
    ((\<forall>b \<in> set (object_blocks ks t). wb_WaitType b = WaitAll) \<longrightarrow> (\<exists>b \<in> set (object_blocks ks t). \<not> can_take ks t (wb_Object b)))"
proof -
  have "\<not> wait_satisfied ks t"
    using ke_inv_links(5)[OF ke_reachable_inv[OF assms(1)]] assms(2) by (simp add: blocked_ok_def)
  then show ?thesis
    using assms(3,4) unfolding wait_satisfied_def offers_def by blast
qed

theorem no_lost_wakeup_witness:
  "object_blocks demo 1 = [object_block 1 0 (Obj 0) WaitAny] \<and> ty demo (Obj 0) \<noteq> QueueObject \<and> \<not> can_take demo 1 (Obj 0)"
proof -
  have b: "object_blocks demo 1 = [object_block 1 0 (Obj 0) WaitAny]" "ty demo (Obj 0) \<noteq> QueueObject"
    by (simp_all add: object_blocks_def demo_simps demo1_objects demo0_simps blank_object_def)
  then show ?thesis
    using no_lost_wakeup[OF demo_reachable(3), of 1] by (simp add: waiting_demo)
qed

text \<open>
  C5. Mutual exclusion: a mutant is free, with a signal state of one, or it has one owner; it is
  in the list of mutants of its owner, once, and in the list of no other thread.
\<close>

theorem mutant_exclusion:
  assumes "ke_reachable ks" "ty ks x = MutantObject"
  shows "sig ks x \<le> 1 \<and> (owner ks x = None \<longleftrightarrow> sig ks x = 1) \<and> distinct (mutants ks t) \<and> (x \<in> set (mutants ks t) \<longleftrightarrow> owner ks x = Some t)"
proof -
  have "mutant_ok ks"
    using ke_inv_links(4)[OF ke_reachable_inv[OF assms(1)]] by (simp add: objects_ok_def)
  note D = mutant_okD[OF this]
  show ?thesis
    using D(1,3)[OF assms(2)] D(4)[of x t] D(5)[of t] assms(2) by simp
qed

theorem mutant_exclusion_witness:
  "owner demo (Obj 1) = Some 2 \<and> sig demo (Obj 1) \<le> 1 \<and> (owner demo (Obj 1) = None \<longleftrightarrow> sig demo (Obj 1) = 1) \<and>
   distinct (mutants demo 2) \<and> (Obj 1 \<in> set (mutants demo 2) \<longleftrightarrow> owner demo (Obj 1) = Some 2)"
proof (rule conjI[OF _ mutant_exclusion[OF demo_reachable(3)]])
  show "owner demo (Obj 1) = Some 2" "ty demo (Obj 1) = MutantObject"
    by (simp_all add: demo_simps demo1_objects demo0_simps blank_object_def)
qed

text \<open>C26. The count of a semaphore is never negative and never above its limit.\<close>

theorem semaphore_within_limit:
  assumes "ke_reachable ks" "ty ks x = SemaphoreObject"
  shows "0 \<le> sig ks x \<and> sig ks x \<le> ob_Limit (ks_Objects ks x)"
proof -
  have "signal_ok ks"
    using ke_inv_links(4)[OF ke_reachable_inv[OF assms(1)]] by (simp add: objects_ok_def)
  then show ?thesis
    using signal_okD(1,2)[OF _ assms(2)] by simp
qed

theorem semaphore_within_limit_witness:
  "ob_Limit (ks_Objects demo (Obj 2)) = 5 \<and> 0 \<le> sig demo (Obj 2) \<and> sig demo (Obj 2) \<le> ob_Limit (ks_Objects demo (Obj 2))"
proof (rule conjI[OF _ semaphore_within_limit[OF demo_reachable(3)]])
  show "ob_Limit (ks_Objects demo (Obj 2)) = 5" "ty demo (Obj 2) = SemaphoreObject"
    by (simp_all add: demo_simps demo1_objects demo0_simps)
qed

text \<open>
  C10. The timer table is exact: a timer is in the table exactly if it is inserted, in the slot of
  its due time; the slots are sorted by due time, and no slot has a time after the due time of
  one of its timers, so that the clock interrupt sees when one is due.
\<close>

theorem timer_table_exact:
  assumes "ke_reachable ks"
  shows "sorted (map (due ks) (ks_TimerTable ks h)) \<and> distinct (ks_TimerTable ks h) \<and>
    (\<forall>x. x \<in> set (ks_TimerTable ks h) \<longleftrightarrow> ob_Inserted (ks_Objects ks x) \<and> KiComputeTimerTableIndex ks (due ks x) = h) \<and>
    (\<forall>x. x \<in> set (ks_TimerTable ks h) \<longrightarrow> due ks x \<le> InterruptTime \<longrightarrow> h = TickCount mod TIMER_TABLE_SIZE \<longrightarrow>
       KiCheckForTimerExpiration TickCount InterruptTime ks)"
proof -
  note ok = ke_inv_links(3)[OF ke_reachable_inv[OF assms]]
  have "x \<in> set (ks_TimerTable ks h) \<longleftrightarrow> ob_Inserted (ks_Objects ks x) \<and> KiComputeTimerTableIndex ks (due ks x) = h" for x
    using timer_okD(4,5)[OF ok, of x h] timer_okD(7)[OF ok, of x] by (auto simp: slot_of_def)
  moreover have "KiCheckForTimerExpiration TickCount InterruptTime ks"
    if "x \<in> set (ks_TimerTable ks h)" "due ks x \<le> InterruptTime" "h = TickCount mod 512" for x
    using timer_okD(4,5)[OF ok that(1)] inserted_timer_not_missed[OF ok _ that(2), of TickCount] that(3) by simp
  ultimately show ?thesis
    using timer_okD(1,2)[OF ok, of h] by blast
qed

theorem timer_table_exact_witness:
  "TimerOf 1 \<in> set (ks_TimerTable demo 0) \<and> sorted (map (due demo) (ks_TimerTable demo 0)) \<and> KiCheckForTimerExpiration 512 60 demo"
proof -
  have "ob_Inserted (ks_Objects demo (TimerOf 1)) \<and> due demo (TimerOf 1) = 50" "ks_KeMaximumIncrement demo = 100"
    using demo1_objects by (simp_all add: demo_simps due_def)
  then have "ob_Inserted (ks_Objects demo (TimerOf 1)) \<and> KiComputeTimerTableIndex demo (due demo (TimerOf 1)) = 0" "due demo (TimerOf 1) \<le> 60"
    by (simp_all add: KiComputeTimerTableIndex_def)
  then show ?thesis
    using timer_table_exact[OF demo_reachable(3), of 0 60 512] by auto
qed

section \<open>Semaphores\<close>

text \<open>
  The abstract semaphore: a count and the threads in line. Releasing units serves the threads in
  their order: a thread that waits for any object takes a unit, a thread that waits for all its
  objects is only told to look again; either way it leaves the line.
\<close>

fun serve :: "nat \<Rightarrow> (tid \<times> WAIT_TYPE) list \<Rightarrow> nat \<times> (tid \<times> WAIT_TYPE) list" where
  "serve n [] = (n, [])"
| "serve 0 (w # ws) = (0, w # ws)"
| "serve (Suc n) ((t, wt) # ws) = serve (if wt = WaitAny then n else Suc n) (filter (\<lambda>w. fst w \<noteq> t) ws)"

definition sem_release :: "int \<Rightarrow> int \<Rightarrow> nat \<times> (tid \<times> WAIT_TYPE) list \<Rightarrow> (nat \<times> (tid \<times> WAIT_TYPE) list) option" where
  "sem_release limit units sem =
     (case sem of (n, ws) \<Rightarrow>
        if units < 0 \<or> int n + units > limit then None
        else Some (if n = 0 then serve (nat units) ws else (n + nat units, ws)))"

definition sem_abs :: "KSTATE \<Rightarrow> oid \<Rightarrow> nat \<times> (tid \<times> WAIT_TYPE) list" where
  "sem_abs ks x = (nat (sig ks x), map (\<lambda>b. (wb_Thread b, wb_WaitType b)) (wl ks x))"

lemma KiWaitTest_serve:
  assumes "links W ks" "wl_ok W ks x" "ty ks x = SemaphoreObject" "0 \<le> sig ks x" "sig ks x < 2147483648"
  shows "\<exists>ks'. KiWaitTest x i ks = Some ks' \<and> sem_abs ks' x = serve (fst (sem_abs ks x)) (snd (sem_abs ks x))"
  using assms
proof (induction "length (wl ks x)" arbitrary: ks W rule: less_induct)
  case less
  show ?case
  proof (cases "wl ks x")
    case Nil
    then show ?thesis
      by (subst KiWaitTest.simps) (simp add: sem_abs_def)
  next
    case (Cons b bs)
    show ?thesis
    proof (cases "sig ks x > 0")
      case False
      then show ?thesis
        using less.prems(4) Cons by (subst KiWaitTest.simps) (simp add: sem_abs_def)
    next
      case True
      let ?t = "wb_Thread b"
      define ks0 where "ks0 = (if wb_WaitType b = WaitAny then set_signal x (sig ks x - 1) ks else ks)"
      define ks1 where "ks1 = wait_test.wake x i b ks"
      have b: "b \<in> set (wl ks x)"
        by (simp add: Cons)
      note inv = wait_test.wake_inv[OF less.prems(1,2) b, of i, folded ks1_def]
      have s32: "s32 (sig ks x - 1) = sig ks x - 1"
        using less.prems(4,5) by (intro s32_id) auto
      have prep: "(if wb_WaitType b = WaitAny then KiSatisfyObjectWait x ?t ks else ks) = ks0"
        using less.prems(3) by (simp add: ks0_def KiSatisfyObjectWait_def KiSatisfyNonMutantWait_def KOBJECTS_value_mask Let_def s32)
      have same: "same_links ks ks0"
        by (simp add: ks0_def)
      have ks1: "ks1 = KiUnwaitThread ?t (if wb_WaitType b = WaitAny then wb_WaitKey b else STATUS_KERNEL_APC) i ks0"
        unfolding ks1_def wait_test.wake_def prep ..
      have t: "?t \<in> W"
        using wl_okD(1)[OF less.prems(2) b] .
      have "wl ks1 x = filter (\<lambda>b. wb_Thread b \<noteq> ?t) (wl ks0 x)"
        unfolding ks1 using less.prems(1,2) t same_links_inv[OF same] by (intro unwait_wl[of W]) simp_all
      then have wl1: "wl ks1 x = filter (\<lambda>b. wb_Thread b \<noteq> ?t) bs"
        by (simp add: ks0_def Cons)
      have sig1: "sig ks1 x = (if wb_WaitType b = WaitAny then sig ks x - 1 else sig ks x)" "ty ks1 x = SemaphoreObject"
        using less.prems(3) by (simp_all add: ks1 ks0_def)
      obtain ks' where ks': "KiWaitTest x i ks1 = Some ks'" "sem_abs ks' x = serve (fst (sem_abs ks1 x)) (snd (sem_abs ks1 x))"
        using less.hyps[OF inv(5,1,2) sig1(2)] sig1(1) True less.prems(5) by (auto split: if_splits)
      have "KiWaitTest x i ks = KiWaitTest x i ks1"
        using Cons True by (subst KiWaitTest.simps) (simp add: ks1_def wait_test.wake_def wait_test_step_def)
      moreover have "serve (fst (sem_abs ks x)) (snd (sem_abs ks x)) = serve (fst (sem_abs ks1 x)) (snd (sem_abs ks1 x))"
      proof -
        obtain m where m: "sig ks x = int (Suc m)"
          using True by (metis gr0_conv_Suc zero_less_imp_eq_int)
        show ?thesis
          by (simp add: sem_abs_def Cons wl1 sig1 m filter_map comp_def nat_add_distrib)
      qed
      ultimately show ?thesis
        using ks' by simp
    qed
  qed
qed

lemma s32_wrap: "2147483648 \<le> z \<Longrightarrow> z < 6442450944 \<Longrightarrow> s32 z = z - 4294967296"
proof -
  assume z: "2147483648 \<le> z" "z < 6442450944"
  have "(z + 2147483648) mod 4294967296 = (z + 2147483648 - 4294967296) mod 4294967296"
    by (rule minus_mod_self2[symmetric])
  also have "\<dots> = z + 2147483648 - 4294967296"
    using z by (intro mod_pos_pos_trivial) auto
  finally show ?thesis
    by (simp add: s32_def)
qed

lemma release_fails:
  assumes "0 \<le> c" "c \<le> l" "l < 2147483648" "- 2147483648 \<le> a" "a < 2147483648"
  shows "(l < s32 (c + a) \<or> c > s32 (c + a)) = (a < 0 \<or> c + a > l)"
proof (cases "c + a < 2147483648")
  case True
  then show ?thesis
    using assms s32_id[of "c + a"] by auto
next
  case False
  then show ?thesis
    using assms s32_wrap[of "c + a"] by auto
qed

text \<open>
  C7. The release of a semaphore implements the release of the abstract semaphore, and fails
  exactly where that one fails, for every 32-bit adjustment: a negative one, and one that takes
  the count over the limit or past the largest number.
\<close>

theorem KeReleaseSemaphore_refines:
  assumes "ke_reachable ks" "ty ks (Obj n) = SemaphoreObject" "- 2147483648 \<le> a" "a < 2147483648"
  shows "case sem_release (ob_Limit (ks_Objects ks (Obj n))) a (sem_abs ks (Obj n)) of
      None \<Rightarrow> KeReleaseSemaphore cur (Obj n) i a Wait irql ks = Some (Inl STATUS_SEMAPHORE_LIMIT_EXCEEDED)
    | Some sem \<Rightarrow> \<exists>ks'. KeReleaseSemaphore cur (Obj n) i a Wait irql ks = Some (Inr (sig ks (Obj n), ks')) \<and> sem_abs ks' (Obj n) = sem"
proof -
  let ?x = "Obj n" and ?l = "ob_Limit (ks_Objects ks (Obj n))"
  define s where "s = s32 (sig ks ?x + a)"
  define ws where "ws = map (\<lambda>b. (wb_Thread b, wb_WaitType b)) (wl ks ?x)"
  note ok = ke_inv_links[OF ke_reachable_inv[OF assms(1)]]
  have "signal_ok ks"
    using ok(4) by (simp add: objects_ok_def)
  note sD = signal_okD(1-3)[OF this assms(2)]
  have fail: "(?l < s \<or> sig ks ?x > s) = (a < 0 \<or> sig ks ?x + a > ?l)"
    unfolding s_def using sD assms(3,4) by (rule release_fails)
  have abs: "sem_abs ks ?x = (nat (sig ks ?x), ws)"
    by (simp add: sem_abs_def ws_def)
  show ?thesis
  proof (cases "a < 0 \<or> sig ks ?x + a > ?l")
    case True
    then have "sem_release ?l a (sem_abs ks ?x) = None"
      using sD(1) by (simp add: sem_release_def abs)
    moreover have "?l < s \<or> sig ks ?x > s"
      using True fail by simp
    ultimately show ?thesis
      unfolding KeReleaseSemaphore_def Let_def s_def[symmetric] by simp
  next
    case False
    define ks1 where "ks1 = set_signal ?x s ks"
    have s: "s = sig ks ?x + a"
      unfolding s_def using False sD assms(3,4) by (intro s32_id) auto
    have same: "same_links ks ks1"
      by (simp add: ks1_def)
    have abs1: "sem_abs ks1 ?x = (nat s, ws)"
      by (simp add: sem_abs_def ks1_def ws_def)
    have release: "sem_release ?l a (sem_abs ks ?x) = Some (if sig ks ?x = 0 then serve (nat s) ws else (nat s, ws))"
      using False sD(1) by (simp add: sem_release_def abs s nat_add_distrib)
    have "\<exists>ks'. KiWaitTest ?x i ks1 = Some ks' \<and> sem_abs ks' ?x = serve (fst (sem_abs ks1 ?x)) (snd (sem_abs ks1 ?x))"
      using ok(1,6) same_links_inv[OF same] assms(2) sD False
      by (intro KiWaitTest_serve[of "waiting ks"]) (simp_all add: ks1_def s)
    then obtain ks2 where ks2: "KiWaitTest ?x i ks1 = Some ks2" "sem_abs ks2 ?x = serve (nat s) ws"
      by (auto simp: abs1)
    have "wl ks1 ?x = wl ks ?x" "\<not> (?l < s \<or> sig ks ?x > s)"
      using False fail by (simp_all add: ks1_def)
    then have "KeReleaseSemaphore cur ?x i a Wait irql ks =
      Some (Inr (sig ks ?x, finish cur Wait irql (if sig ks ?x = 0 \<and> wl ks ?x \<noteq> [] then ks2 else ks1)))"
      unfolding KeReleaseSemaphore_def Let_def s_def[symmetric] ks1_def[symmetric] using ks2(1) by simp
    moreover have "sem_abs (finish cur Wait irql ks') ?x = sem_abs ks' ?x" for ks'
      by (simp add: finish_def sem_abs_def)
    moreover have "wl ks ?x = [] \<Longrightarrow> ws = []"
      by (simp add: ws_def)
    ultimately show ?thesis
      unfolding release using ks2(2) abs1 by auto
  qed
qed

theorem KeReleaseSemaphore_refines_witness:
  "sem_release (ob_Limit (ks_Objects demo (Obj 2))) 2147483647 (sem_abs demo (Obj 2)) = None \<and>
   (case sem_release (ob_Limit (ks_Objects demo (Obj 2))) 2147483647 (sem_abs demo (Obj 2)) of
      None \<Rightarrow> KeReleaseSemaphore 2 (Obj 2) 1 2147483647 False 0 demo = Some (Inl STATUS_SEMAPHORE_LIMIT_EXCEEDED)
    | Some sem \<Rightarrow> \<exists>ks'. KeReleaseSemaphore 2 (Obj 2) 1 2147483647 False 0 demo = Some (Inr (sig demo (Obj 2), ks')) \<and> sem_abs ks' (Obj 2) = sem)"
proof (rule conjI[OF _ KeReleaseSemaphore_refines[OF demo_reachable(3)]])
  show "sem_release (ob_Limit (ks_Objects demo (Obj 2))) 2147483647 (sem_abs demo (Obj 2)) = None" "ty demo (Obj 2) = SemaphoreObject"
    by (simp_all add: demo_simps demo1_objects demo0_simps sem_release_def sem_abs_def blank_object_def)
qed simp_all

section \<open>Events\<close>

lemma KxUnwaitThread_all:
  assumes "links W ks" "wl_ok W ks x"
  shows "\<exists>ks'. KxUnwaitThread x i ks = Some ks' \<and> waiting ks' = waiting ks - wb_Thread ` set (wl ks x) \<and> wl ks' x = [] \<and> sig ks' x = sig ks x \<and>
    (\<forall>t. t \<notin> wb_Thread ` set (wl ks x) \<longrightarrow> ks_Threads ks' t = ks_Threads ks t)"
  using assms
proof (induction "length (wl ks x)" arbitrary: ks W rule: less_induct)
  case less
  show ?case
  proof (cases "wl ks x")
    case Nil
    then show ?thesis
      by (subst KxUnwaitThread.simps) simp
  next
    case (Cons b bs)
    let ?t = "wb_Thread b"
    define ks1 where "ks1 = unwait_all.wake x i b ks"
    have b: "b \<in> set (wl ks x)"
      by (simp add: Cons)
    note inv = unwait_all.wake_inv[OF less.prems b, of i, folded ks1_def]
    have wl1: "wl ks1 x = filter (\<lambda>b. wb_Thread b \<noteq> ?t) (wl ks x)"
      unfolding ks1_def unwait_all.wake_def by (rule unwait_wl[OF less.prems wl_okD(1)[OF less.prems(2) b]])
    then have threads: "wb_Thread ` set (wl ks1 x) = wb_Thread ` set (wl ks x) - {?t}"
      by auto
    have keep: "u \<noteq> ?t \<Longrightarrow> ks_Threads ks1 u = ks_Threads ks u" "sig ks1 x = sig ks x" for u
      by (simp_all add: ks1_def unwait_all.wake_def)
    obtain ks' where ks': "KxUnwaitThread x i ks1 = Some ks'" "waiting ks' = waiting ks1 - wb_Thread ` set (wl ks1 x)" "wl ks' x = []"
      "sig ks' x = sig ks1 x" "\<forall>t. t \<notin> wb_Thread ` set (wl ks1 x) \<longrightarrow> ks_Threads ks' t = ks_Threads ks1 t"
      using less.hyps[OF inv(5,1,2)] by blast
    have "waiting ks' = waiting ks - wb_Thread ` set (wl ks x)"
      unfolding ks'(2) inv(4) threads using b by auto
    moreover have "ks_Threads ks' t = ks_Threads ks t" if "t \<notin> wb_Thread ` set (wl ks x)" for t
      using ks'(5) that keep(1)[of t] b by (auto simp: threads)
    moreover have "KxUnwaitThread x i ks = KxUnwaitThread x i ks1"
      using Cons by (subst KxUnwaitThread.simps) (simp add: ks1_def unwait_all.wake_def)
    ultimately show ?thesis
      using ks'(1,3,4) keep(2) by simp
  qed
qed

text \<open>
  C15. Setting a notification event that is not signalled wakes every thread that waits for it and
  no other one, and leaves the event signalled with nobody waiting.
\<close>

theorem KeSetEvent_notification:
  assumes "ke_reachable ks" "ty ks (Obj n) = EventNotificationObject" "sig ks (Obj n) = 0"
  shows "\<exists>ks'. KeSetEvent cur (Obj n) i False irql ks = Some (0, ks') \<and> sig ks' (Obj n) = 1 \<and> wl ks' (Obj n) = [] \<and>
    waiting ks' = waiting ks - wb_Thread ` set (wl ks (Obj n)) \<and>
    (\<forall>t. t \<notin> wb_Thread ` set (wl ks (Obj n)) \<longrightarrow> ks_Threads ks' t = ks_Threads ks t)"
proof -
  let ?x = "Obj n"
  define ks1 where "ks1 = set_signal ?x 1 ks"
  note ok = ke_inv_links[OF ke_reachable_inv[OF assms(1)]]
  have same: "same_links ks ks1"
    by (simp add: ks1_def)
  have ks1: "wl ks1 ?x = wl ks ?x" "ks_Threads ks1 = ks_Threads ks" "sig ks1 ?x = 1" "ty ks1 ?x = EventNotificationObject" "waiting ks1 = waiting ks"
    using assms(2) by (simp_all add: ks1_def waiting_def)
  obtain ks' where ks': "KxUnwaitThread ?x i ks1 = Some ks'" "waiting ks' = waiting ks - wb_Thread ` set (wl ks ?x)" "wl ks' ?x = []"
    "sig ks' ?x = 1" "\<forall>t. t \<notin> wb_Thread ` set (wl ks ?x) \<longrightarrow> ks_Threads ks' t = ks_Threads ks t"
    using KxUnwaitThread_all[of "waiting ks" ks1 ?x i] ok(1,6) same_links_inv[OF same] by (auto simp: ks1)
  moreover have "KxUnwaitThread ?x i ks1 = Some ks1" if "wl ks ?x = []"
    using that by (subst KxUnwaitThread.simps) (simp add: ks1)
  ultimately have "KeSetEvent cur ?x i False irql ks = Some (0, ks')"
    using assms(2,3) ks1 unfolding KeSetEvent_def Let_def ks1_def[symmetric] by (auto simp: finish_def)
  then show ?thesis
    using ks' by blast
qed

text \<open>Threads 1 and 2 wait for a notification event.\<close>

definition two_waiters :: "KOBJECTS \<Rightarrow> KSTATE" where
  "two_waiters k =
     (let ks = KeInitializeEvent (Obj 0) k False (KiInitSystem 100);
          ks = after (KeWaitForSingleObject 1 0 (Obj 0) Executive KernelMode False None (clock_at 0) (clock_at 0) (clock_at 0) ks) ks
      in after (KeWaitForSingleObject 2 0 (Obj 0) Executive KernelMode False None (clock_at 0) (clock_at 0) (clock_at 0) ks) ks)"

lemma two_waiters_simps:
  "ks_Objects (two_waiters k) (Obj 0) =
     blank_object\<lparr>ob_Type := k, ob_WaitList := [object_block 1 0 (Obj 0) WaitAny, object_block 2 0 (Obj 0) WaitAny]\<rparr>"
  "ks_Threads (two_waiters k) t = (if t = 1 \<or> t = 2 then new_thread\<lparr>th_State := Waiting, th_WaitBlockList := [object_block t 0 (Obj 0) WaitAny]\<rparr>
     else new_thread)"
  by (simp_all add: two_waiters_def demo_wait KeInitializeEvent_def Let_def blank_object_def new_thread_def KiSatisfyNonMutantWait_def)

lemma two_waiters_reachable:
  assumes "is_event k"
  shows "ke_reachable (two_waiters k)"
proof -
  define ks0 where "ks0 = KeInitializeEvent (Obj 0) k False (KiInitSystem 100)"
  have 0: "ke_reachable ks0"
    unfolding ks0_def using assms
    by (intro ke_reachable.step[OF ke_reachable.start ke_step.init_event]) (simp_all add: unused_def blank_object_def new_thread_def)
  define ks1 where "ks1 = after (KeWaitForSingleObject 1 0 (Obj 0) Executive KernelMode False None (clock_at 0) (clock_at 0) (clock_at 0) ks0) ks0"
  have k: "k \<noteq> QueueObject"
    using assms by (auto simp: is_event_def)
  have 1: "ke_reachable ks1"
    unfolding ks1_def using 0 k by (intro reachable_wait) (simp_all add: ks0_def KeInitializeEvent_def)
  have "2 \<notin> waiting ks1" "ty ks1 (Obj 0) = k"
    by (simp_all add: ks1_def ks0_def demo_wait KeInitializeEvent_def Let_def blank_object_def new_thread_def waiting_def)
  then show ?thesis
    unfolding two_waiters_def Let_def ks0_def[symmetric] ks1_def[symmetric] using k by (intro reachable_wait[OF 1]) simp_all
qed

theorem KeSetEvent_notification_witness:
  "waiting (two_waiters EventNotificationObject) = {1, 2} \<and>
   (\<exists>ks'. KeSetEvent 3 (Obj 0) 1 False 0 (two_waiters EventNotificationObject) = Some (0, ks') \<and> sig ks' (Obj 0) = 1 \<and> wl ks' (Obj 0) = [] \<and>
    waiting ks' = waiting (two_waiters EventNotificationObject) - wb_Thread ` set (wl (two_waiters EventNotificationObject) (Obj 0)) \<and>
    (\<forall>t. t \<notin> wb_Thread ` set (wl (two_waiters EventNotificationObject) (Obj 0)) \<longrightarrow>
       ks_Threads ks' t = ks_Threads (two_waiters EventNotificationObject) t))"
proof (rule conjI[OF _ KeSetEvent_notification[OF two_waiters_reachable]])
  show "waiting (two_waiters EventNotificationObject) = {1, 2}" "ty (two_waiters EventNotificationObject) (Obj 0) = EventNotificationObject"
    "sig (two_waiters EventNotificationObject) (Obj 0) = 0"
    by (auto simp: waiting_def two_waiters_simps new_thread_def blank_object_def)
qed (simp add: is_event_def)

text \<open>
  C14. Setting a synchronization event. If it is signalled already, nothing changes. Otherwise the
  line is walked as \<^const>\<open>hand_over\<close> says: the threads at its head that wait for all their
  objects are woken to look again, the first thread that waits for any object is woken with the key of its
  wait as its status and takes the event, which stays not signalled; if there is no such thread the
  event becomes signalled. No other thread changes.
\<close>

theorem KeSetEvent_synchronization:
  assumes "ke_reachable ks" "ty ks (Obj n) = EventSynchronizationObject" "hand_over (wl ks (Obj n)) = (bs, r)"
  shows "(sig ks (Obj n) \<noteq> 0 \<longrightarrow> sig ks (Obj n) = 1 \<and> KeSetEvent cur (Obj n) i Wait irql ks = Some (1, finish cur Wait irql ks)) \<and>
    (sig ks (Obj n) = 0 \<longrightarrow> (\<exists>ks'. KeSetEvent cur (Obj n) i Wait irql ks = Some (0, finish cur Wait irql ks') \<and>
       sig ks' (Obj n) = (if r = None then 1 else 0) \<and> waiting ks' = waiting ks - wb_Thread ` (set bs \<union> set_option r) \<and>
       (\<forall>b \<in> set bs. th_State (ks_Threads ks' (wb_Thread b)) = DeferredReady \<and>
          th_WaitStatus (ks_Threads ks' (wb_Thread b)) = th_WaitStatus (ks_Threads ks (wb_Thread b)) OR STATUS_KERNEL_APC) \<and>
       (\<forall>b. r = Some b \<longrightarrow> th_State (ks_Threads ks' (wb_Thread b)) = DeferredReady \<and>
          th_WaitStatus (ks_Threads ks' (wb_Thread b)) = th_WaitStatus (ks_Threads ks (wb_Thread b)) OR wb_WaitKey b) \<and>
       (\<forall>t. t \<notin> wb_Thread ` (set bs \<union> set_option r) \<longrightarrow> ks_Threads ks' t = ks_Threads ks t)))"
proof -
  let ?x = "Obj n"
  define ks1 where "ks1 = set_signal ?x 1 ks"
  note ok = ke_inv_links[OF ke_reachable_inv[OF assms(1)]]
  have "signal_ok ks"
    using ok(4) by (simp add: objects_ok_def)
  then have two: "sig ks ?x \<in> {0, 1}"
    using signal_okD(4)[of ks ?x] assms(2) by (simp add: two_state_def)
  have same: "same_links ks ks1"
    by (simp add: ks1_def)
  have ks1: "wl ks1 ?x = wl ks ?x" "ks_Threads ks1 = ks_Threads ks" "sig ks1 ?x = 1" "ty ks1 ?x = EventSynchronizationObject" "waiting ks1 = waiting ks"
    using assms(2) by (simp_all add: ks1_def waiting_def)
  have on: "ks1 = ks" if "sig ks ?x = 1"
  proof -
    have "(ks_Objects ks ?x)\<lparr>ob_SignalState := 1\<rparr> = ks_Objects ks ?x"
      using that by (cases "ks_Objects ks ?x") simp
    then show ?thesis
      by (simp add: ks1_def set_signal_def upd_object_def)
  qed
  obtain ks2 where ks2: "KxUnwaitThreadForEvent ?x i ks1 = Some ks2" "sig ks2 ?x = (if r = None then 1 else 0)"
    "waiting ks2 = waiting ks - wb_Thread ` (set bs \<union> set_option r)"
    "\<forall>b \<in> set bs. ks_Threads ks2 (wb_Thread b) = unwaited i STATUS_KERNEL_APC (ks_Threads ks (wb_Thread b))"
    "\<forall>b. r = Some b \<longrightarrow> ks_Threads ks2 (wb_Thread b) = unwaited i (wb_WaitKey b) (ks_Threads ks (wb_Thread b))"
    "\<forall>t. t \<notin> wb_Thread ` (set bs \<union> set_option r) \<longrightarrow> ks_Threads ks2 t = ks_Threads ks t"
    using KxUnwaitThreadForEvent_hands_over[of "waiting ks" ks1 ?x bs r i] ok(1,6) same_links_inv[OF same] assms(3) unfolding ks1 by auto
  have "KxUnwaitThreadForEvent ?x i ks1 = Some ks1" if "wl ks ?x = []"
    using that by (subst KxUnwaitThreadForEvent.simps) (simp add: ks1)
  then have "KeSetEvent cur ?x i Wait irql ks = Some (0, finish cur Wait irql ks2)" if "sig ks ?x = 0"
    using that assms(2) ks1 ks2(1) unfolding KeSetEvent_def Let_def ks1_def[symmetric] by auto
  moreover have "KeSetEvent cur ?x i Wait irql ks = Some (1, finish cur Wait irql ks)" if "sig ks ?x = 1"
    using that assms(2) on unfolding KeSetEvent_def Let_def ks1_def[symmetric] by simp
  ultimately show ?thesis
    using two ks2(2-6) by (intro conjI impI exI[of _ ks2]) auto
qed

text \<open>
  Two events, neither signalled; thread 1 waits for both of them, thread 2 for the first one.
\<close>

definition mixed0 :: KSTATE where
  "mixed0 = KeInitializeEventPair (Obj 0) (Obj 1) (KiInitSystem 100)"

definition mixed1 :: KSTATE where
  "mixed1 = after (KeWaitForMultipleObjects 1 0 [Obj 0, Obj 1] WaitAll Executive KernelMode False None False
     (clock_at 0) (clock_at 0) (clock_at 0) mixed0) mixed0"

definition mixed :: KSTATE where
  "mixed = after (KeWaitForSingleObject 2 0 (Obj 0) Executive KernelMode False None (clock_at 0) (clock_at 0) (clock_at 0) mixed1) mixed1"

lemma mixed0_simps:
  "ks_Objects mixed0 (Obj 0) = blank_object\<lparr>ob_Type := EventSynchronizationObject\<rparr>"
  "ks_Objects mixed0 (Obj (Suc 0)) = blank_object\<lparr>ob_Type := EventSynchronizationObject\<rparr>"
  "ks_Threads mixed0 t = new_thread"
  by (simp_all add: mixed0_def KeInitializeEventPair_def KeInitializeEvent_def blank_object_def)

lemma mixed1_simps:
  "ks_Objects mixed1 (Obj 0) = blank_object\<lparr>ob_Type := EventSynchronizationObject, ob_WaitList := [object_block 1 0 (Obj 0) WaitAll]\<rparr>"
  "ks_Threads mixed1 t = (if t = 1 then new_thread\<lparr>th_State := Waiting,
     th_WaitBlockList := [object_block 1 0 (Obj 0) WaitAll, object_block 1 1 (Obj 1) WaitAll]\<rparr> else new_thread)"
  by (simp_all add: mixed1_def demo_wait KeWaitForMultipleObjects_def KxMultiThreadWait_def wait_scan_def mixed0_simps Let_def
      blank_object_def new_thread_def)

lemma mixed_simps:
  "ks_Objects mixed (Obj 0) = blank_object\<lparr>ob_Type := EventSynchronizationObject,
     ob_WaitList := [object_block 1 0 (Obj 0) WaitAll, object_block 2 0 (Obj 0) WaitAny]\<rparr>"
  "ks_Threads mixed t = (if t = 2 then new_thread\<lparr>th_State := Waiting, th_WaitBlockList := [object_block 2 0 (Obj 0) WaitAny]\<rparr>
     else ks_Threads mixed1 t)"
  by (simp_all add: mixed_def demo_wait mixed1_simps Let_def blank_object_def new_thread_def)

lemma mixed_reachable: "ke_reachable mixed"
proof -
  have 0: "ke_reachable mixed0"
    unfolding mixed0_def KeInitializeEventPair_def
    by (rule ke_reachable.step[OF ke_reachable.step[OF ke_reachable.start ke_step.init_event] ke_step.init_event])
      (simp_all add: unused_def is_event_def KeInitializeEvent_def blank_object_def new_thread_def)
  have "1 \<notin> waiting mixed0" "\<And>x. x \<in> set [Obj 0, Obj 1] \<Longrightarrow> (\<exists>n. x = Obj n) \<and> ty mixed0 x \<noteq> QueueObject"
    by (auto simp: waiting_def mixed0_simps blank_object_def new_thread_def)
  then have 1: "ke_reachable mixed1"
    using ke_reachable.step[OF 0 ke_step.wait_multiple[of 1 mixed0 "[Obj 0, Obj 1]" WaitAll]]
    by (auto simp: mixed1_def after_def 0 split: option.split)
  show ?thesis
    unfolding mixed_def by (rule reachable_wait[OF 1]) (simp_all add: waiting_def mixed1_simps blank_object_def new_thread_def)
qed

lemma mixed_line:
  "hand_over (wl mixed (Obj 0)) = ([object_block 1 0 (Obj 0) WaitAll], Some (object_block 2 0 (Obj 0) WaitAny))"
  "waiting mixed = {1, 2}"
  by (auto simp: mixed_simps mixed1_simps blank_object_def object_block_def waiting_def new_thread_def)

theorem KeSetEvent_synchronization_witness:
  "wl mixed (Obj 0) = [object_block 1 0 (Obj 0) WaitAll, object_block 2 0 (Obj 0) WaitAny] \<and>
   (\<exists>ks'. KeSetEvent 3 (Obj 0) 1 False 0 mixed = Some (0, ks') \<and> sig ks' (Obj 0) = 0 \<and> waiting ks' = {} \<and>
      th_WaitStatus (ks_Threads ks' 1) = STATUS_KERNEL_APC \<and> th_WaitStatus (ks_Threads ks' 2) = STATUS_WAIT_0)"
proof -
  have f: "ty mixed (Obj 0) = EventSynchronizationObject" "sig mixed (Obj 0) = 0"
    "wl mixed (Obj 0) = [object_block 1 0 (Obj 0) WaitAll, object_block 2 0 (Obj 0) WaitAny]"
    "th_WaitStatus (ks_Threads mixed t) = 0" for t
    by (simp_all add: mixed_simps mixed1_simps blank_object_def new_thread_def)
  then show ?thesis
    using KeSetEvent_synchronization[OF mixed_reachable f(1) mixed_line(1), of 3 1 False 0]
    by (auto simp: mixed_line(2) finish_def object_block_def)
qed

section \<open>Mutants\<close>

lemma KeLeaveCriticalRegion_frame:
  "sig (KeLeaveCriticalRegion t ks) y = sig ks y" "owner (KeLeaveCriticalRegion t ks) y = owner ks y"
  "waiting (KeLeaveCriticalRegion t ks) = waiting ks"
  "th_WaitStatus (ks_Threads (KeLeaveCriticalRegion t ks) u) = th_WaitStatus (ks_Threads ks u)"
  by (simp_all add: KeLeaveCriticalRegion_def waiting_upd_thread)

lemma finish_frame:
  "ks_Objects (finish t w irql ks) = ks_Objects ks" "waiting (finish t w irql ks) = waiting ks"
  "th_WaitStatus (ks_Threads (finish t w irql ks) u) = th_WaitStatus (ks_Threads ks u)"
  by (auto simp: finish_def waiting_def)

lemma release_mutant_line:
  assumes "ke_reachable ks" "ty ks (Obj n) = MutantObject" "owner ks (Obj n) = Some cur" "sig ks (Obj n) = 0"
    "hand_over (wl ks (Obj n)) = (bs, r)"
  shows "\<exists>ks'. KeReleaseMutant cur (Obj n) i False Wait irql ks = Some (Inr (0, ks')) \<and> sig ks' (Obj n) = (if r = None then 1 else 0) \<and>
    owner ks' (Obj n) = map_option wb_Thread r \<and> waiting ks' = waiting ks - wb_Thread ` (set bs \<union> set_option r) \<and>
    (\<forall>b \<in> set bs. th_WaitStatus (ks_Threads ks' (wb_Thread b)) = th_WaitStatus (ks_Threads ks (wb_Thread b)) OR STATUS_KERNEL_APC)"
proof -
  let ?x = "Obj n"
  define ks0 where "ks0 = set_signal ?x 1 ks"
  define ks1 where "ks1 = free_mutant ?x True ks0"
  note ok = ke_inv_links[OF ke_reachable_inv[OF assms(1)]]
  have same: "same_links ks ks1"
    using assms(3) by (simp add: ks1_def ks0_def free_mutant_def RemoveMutantListEntry_def same_links_def)
  have ks1: "sig ks1 ?x = 1" "owner ks1 ?x = None" "waiting ks1 = waiting ks" "wl ks1 ?x = wl ks ?x" "ty ks1 ?x = MutantObject"
    "th_WaitStatus (ks_Threads ks1 t) = th_WaitStatus (ks_Threads ks t)" for t
    using assms by (auto simp: ks1_def ks0_def free_mutant_def RemoveMutantListEntry_def waiting_def)
  obtain ks2 where ks2: "KiWaitTest ?x i ks1 = Some ks2" "sig ks2 ?x = (if r = None then 1 else 0)" "owner ks2 ?x = map_option wb_Thread r"
    "waiting ks2 = waiting ks - wb_Thread ` (set bs \<union> set_option r)"
    "\<forall>b \<in> set bs. ks_Threads ks2 (wb_Thread b) = unwaited i STATUS_KERNEL_APC (ks_Threads ks1 (wb_Thread b))"
    using KiWaitTest_hands_over[of "waiting ks" ks1 ?x bs r i] ok(1,6) same_links_inv[OF same] assms(5) unfolding ks1(1-5) by auto
  have "KiWaitTest ?x i ks1 = Some ks1" if "wl ks ?x = []"
    using that by (subst KiWaitTest.simps) (simp add: ks1)
  then have "KeReleaseMutant cur ?x i False Wait irql ks =
    Some (Inr (0, if ob_ApcDisable (ks_Objects ks ?x) then KeLeaveCriticalRegion cur (finish cur Wait irql ks2) else finish cur Wait irql ks2))"
    using assms(3,4) ks1(4) ks2(1)
    by (auto simp: KeReleaseMutant_def Let_def ks1_def ks0_def free_mutant_def s32_def)
  then show ?thesis
    using ks2(2-5) by (auto simp: KeLeaveCriticalRegion_frame finish_frame ks1(6))
qed

text \<open>
  C16. Releasing a mutant. A thread that does not own it is refused. The owner gives up one level
  of ownership. With the last level the line is walked as \<^const>\<open>hand_over\<close> says: the threads at its head
  that wait for all their objects are woken to look again, without the mutant; the first thread that
  waits for any object is woken as the only owner; if there is no such thread the mutant is free.
\<close>

theorem KeReleaseMutant_hands_over:
  assumes "ke_reachable ks" "ty ks (Obj n) = MutantObject" "hand_over (wl ks (Obj n)) = (bs, r)"
  shows "(owner ks (Obj n) \<noteq> Some cur \<longrightarrow> KeReleaseMutant cur (Obj n) i False Wait irql ks =
      Some (Inl (if ob_Abandoned (ks_Objects ks (Obj n)) then STATUS_ABANDONED else STATUS_MUTANT_NOT_OWNED))) \<and>
    (owner ks (Obj n) = Some cur \<longrightarrow> (\<exists>ks'. KeReleaseMutant cur (Obj n) i False Wait irql ks = Some (Inr (sig ks (Obj n), ks')) \<and>
       (sig ks (Obj n) \<noteq> 0 \<longrightarrow> sig ks' (Obj n) = sig ks (Obj n) + 1 \<and> owner ks' (Obj n) = Some cur \<and> waiting ks' = waiting ks) \<and>
       (sig ks (Obj n) = 0 \<longrightarrow> sig ks' (Obj n) = (if r = None then 1 else 0) \<and> owner ks' (Obj n) = map_option wb_Thread r \<and>
          waiting ks' = waiting ks - wb_Thread ` (set bs \<union> set_option r) \<and>
          (\<forall>b \<in> set bs. th_WaitStatus (ks_Threads ks' (wb_Thread b)) = th_WaitStatus (ks_Threads ks (wb_Thread b)) OR STATUS_KERNEL_APC))))"
proof (intro conjI impI)
  let ?x = "Obj n"
  show "KeReleaseMutant cur ?x i False Wait irql ks =
      Some (Inl (if ob_Abandoned (ks_Objects ks ?x) then STATUS_ABANDONED else STATUS_MUTANT_NOT_OWNED))" if "owner ks ?x \<noteq> Some cur"
    using that by (simp add: KeReleaseMutant_def Let_def)
  assume own: "owner ks ?x = Some cur"
  have "mutant_ok ks"
    using ke_inv_links(4)[OF ke_reachable_inv[OF assms(1)]] by (simp add: objects_ok_def)
  note mD = mutant_okD(1-3)[OF this assms(2)]
  have le: "sig ks ?x \<le> 0" "MINLONG \<le> sig ks ?x"
    using mD own by auto
  have s: "s32 (sig ks ?x + 1) = sig ks ?x + 1"
    using le by (intro s32_id) auto
  show "\<exists>ks'. KeReleaseMutant cur ?x i False Wait irql ks = Some (Inr (sig ks ?x, ks')) \<and>
       (sig ks ?x \<noteq> 0 \<longrightarrow> sig ks' ?x = sig ks ?x + 1 \<and> owner ks' ?x = Some cur \<and> waiting ks' = waiting ks) \<and>
       (sig ks ?x = 0 \<longrightarrow> sig ks' ?x = (if r = None then 1 else 0) \<and> owner ks' ?x = map_option wb_Thread r \<and>
          waiting ks' = waiting ks - wb_Thread ` (set bs \<union> set_option r) \<and>
          (\<forall>b \<in> set bs. th_WaitStatus (ks_Threads ks' (wb_Thread b)) = th_WaitStatus (ks_Threads ks (wb_Thread b)) OR STATUS_KERNEL_APC))"
  proof (cases "sig ks ?x = 0")
    case True
    then show ?thesis
      using release_mutant_line[OF assms(1,2) own True assms(3), of i Wait irql] by auto
  next
    case False
    then have "KeReleaseMutant cur ?x i False Wait irql ks = Some (Inr (sig ks ?x, finish cur Wait irql (set_signal ?x (sig ks ?x + 1) ks)))"
      using own s by (simp add: KeReleaseMutant_def Let_def)
    moreover have "waiting (set_signal ?x (sig ks ?x + 1) ks) = waiting ks"
      by (simp add: waiting_def)
    ultimately show ?thesis
      using False own by (simp add: finish_frame)
  qed
qed

theorem KeReleaseMutant_hands_over_witness:
  "KeReleaseMutant 3 (Obj 1) 1 False False 0 demo = Some (Inl STATUS_MUTANT_NOT_OWNED) \<and>
   (\<exists>ks'. KeReleaseMutant 2 (Obj 1) 1 False False 0 demo2 = Some (Inr (0, ks')) \<and> sig ks' (Obj 1) = 0 \<and> owner ks' (Obj 1) = Some 3 \<and>
     waiting ks' = {1})"
proof -
  have f: "ty demo (Obj 1) = MutantObject" "owner demo (Obj 1) = Some 2" "hand_over (wl demo (Obj 1)) = ([], None)"
    "\<not> ob_Abandoned (ks_Objects demo (Obj 1))"
    by (simp_all add: demo_simps demo1_objects demo0_simps blank_object_def)
  have g: "ty demo2 (Obj 1) = MutantObject" "owner demo2 (Obj 1) = Some 2" "sig demo2 (Obj 1) = 0"
    "hand_over (wl demo2 (Obj 1)) = ([], Some (object_block 3 0 (Obj 1) WaitAny))" "waiting demo2 = {1, 3}"
    by (auto simp: demo2_simps demo_simps demo1_objects demo0_simps blank_object_def object_block_def waiting_def new_thread_def)
  show ?thesis
    using KeReleaseMutant_hands_over[OF demo_reachable(3) f(1,3), of 3 1 False 0] KeReleaseMutant_hands_over[OF demo_reachable(4) g(1,4), of 2 1 False 0]
      f(2,4) g(2,3,5)
    by (auto simp: object_block_def)
qed

section \<open>Waiting\<close>

lemma KxSingleThreadWait_untimed:
  "KxSingleThreadWait t x wr m al None c ks = set_wait t [object_block t 0 x WaitAny] al m wr ks"
  by (simp add: KxSingleThreadWait_def)

text \<open>What is left alone until a wait is satisfied or the thread blocks.\<close>

lemma single_wait_prepared:
  fixes ks t irql x wr m al to c
  defines "ks1 \<equiv> KxSingleThreadWait t x wr m al to c (begin_wait t irql ks)"
  shows "ks_Objects ks1 (Obj n) = ks_Objects ks (Obj n)" "waiting ks1 = waiting ks" "th_WaitStatus (ks_Threads ks1 t) = 0"
    "th_KernelApcPending (ks_Threads ks1 t) = th_KernelApcPending (ks_Threads ks t)"
    "mutants ks1 u = mutants ks u" "th_KernelApcDisable (ks_Threads ks1 u) = th_KernelApcDisable (ks_Threads ks u)"
    "queue ks1 u = queue ks u" "th_UserApcPending (ks_Threads ks1 u) = th_UserApcPending (ks_Threads ks u)"
    "th_SpecialApcDisable (ks_Threads ks1 u) = th_SpecialApcDisable (ks_Threads ks u)"
    "th_WaitIrql (ks_Threads ks1 t) = (if th_WaitNext (ks_Threads ks t) then th_WaitIrql (ks_Threads ks t) else irql)"
    "th_Alerted (ks_Threads ks1 u) = th_Alerted (ks_Threads ks u)" "th_ApcList (ks_Threads ks1 u) = th_ApcList (ks_Threads ks u)"
  unfolding ks1_def KxSingleThreadWait_def begin_wait_def set_wait_def set_timer_list_def waiting_def
  by (auto simp: Let_def split: option.split)

lemma bl_activate_queue: "bl (activate_queue t ks) u = bl ks u"
  by (simp add: activate_queue_def KiActivateWaiterQueue_def count_down_def Let_def split: option.split list.split)

text \<open>
  What a pass of a wait for one object comes to, as a function of the thread and the object. A
  kernel APC that can be delivered comes first. An object that can be taken is taken: a semaphore
  goes down by one, a synchronization event or timer is reset, a mutant goes down by one and
  belongs to the thread, any other object stays as it is. Then come alerts and user APCs, then a
  time-out that is due already.
\<close>

definition wait_due :: "KCLOCK \<Rightarrow> int \<Rightarrow> int" where
  "wait_due c d =
     (if d < 0 then u64 (ck_InterruptTime c - d)
      else if s64 (ck_SystemTime c - d) \<ge> 0 then 0 else u64 (ck_InterruptTime c - s64 (ck_SystemTime c - d)))"

definition interruption :: "KTHREAD \<Rightarrow> KPROCESSOR_MODE \<Rightarrow> bool \<Rightarrow> int" where
  "interruption th m al =
     (if al \<and> th_Alerted th m then STATUS_ALERTED
      else if m = UserMode \<and> (if al then th_ApcList th UserMode \<noteq> [] else th_UserApcPending th) then STATUS_USER_APC
      else if al \<and> th_Alerted th KernelMode then STATUS_ALERTED
      else STATUS_WAIT_0)"

definition apc_first :: "nat \<Rightarrow> KTHREAD \<Rightarrow> bool" where
  "apc_first irql th =
     (th_KernelApcPending th \<and> \<not> th_SpecialApcDisable th \<and> (if th_WaitNext th then th_WaitIrql th else irql) < APC_LEVEL)"

definition single_wait_outcome ::
  "tid \<Rightarrow> nat \<Rightarrow> KPROCESSOR_MODE \<Rightarrow> bool \<Rightarrow> int option \<Rightarrow> KCLOCK \<Rightarrow> KCLOCK \<Rightarrow> KTHREAD \<Rightarrow> KOBJECT \<Rightarrow> wait_result" where
  "single_wait_outcome t irql m al to c1 c2 th ob =
     (if apc_first irql th then KernelApc
      else if ob_SignalState ob > 0 \<or> (ob_Type ob = MutantObject \<and> ob_OwnerThread ob = Some t) then
        if ob_Type ob = MutantObject \<and> ob_SignalState ob = MINLONG then Raised STATUS_MUTANT_LIMIT_EXCEEDED
        else Returned (if ob_Type ob = MutantObject \<and> ob_SignalState ob = 1 \<and> ob_Abandoned ob then STATUS_ABANDONED else STATUS_WAIT_0)
      else if interruption th m al \<noteq> STATUS_WAIT_0 then Returned (interruption th m al)
      else if \<exists>d \<in> set_option to. wait_due c1 d \<le> u64 (ck_InterruptTime c2) then Returned STATUS_TIMEOUT
      else Blocked)"

definition taken :: "tid \<Rightarrow> KOBJECT \<Rightarrow> KOBJECT" where
  "taken t ob =
     (case ob_Type ob of
        MutantObject \<Rightarrow> ob\<lparr>ob_SignalState := ob_SignalState ob - 1, ob_OwnerThread := Some t,
                           ob_Abandoned := (ob_SignalState ob \<noteq> 1 \<and> ob_Abandoned ob)\<rparr>
      | SemaphoreObject \<Rightarrow> ob\<lparr>ob_SignalState := ob_SignalState ob - 1\<rparr>
      | EventSynchronizationObject \<Rightarrow> ob\<lparr>ob_SignalState := 0\<rparr>
      | TimerSynchronizationObject \<Rightarrow> ob\<lparr>ob_SignalState := 0\<rparr>
      | _ \<Rightarrow> ob)"

lemma KiCheckAlertability_interruption:
  "fst (KiCheckAlertability t al m ks) = interruption (ks_Threads ks t) m al"
  "interruption (ks_Threads ks t) m al = 0 \<Longrightarrow> snd (KiCheckAlertability t al m ks) = ks"
  "ks_Objects (snd (KiCheckAlertability t al m ks)) = ks_Objects ks" "waiting (snd (KiCheckAlertability t al m ks)) = waiting ks"
  by (cases m; auto simp: KiCheckAlertability_def interruption_def waiting_def Let_def)+

lemma set_up_due:
  "due (KxSingleThreadWait t x wr m al (Some d) c ks) (TimerOf t) = wait_due c d"
  by (simp add: KxSingleThreadWait_def KxSetTimerForThreadWait_def set_timer_list_def due_def wait_due_def Let_def)

lemma satisfied_object:
  assumes ok: "ke_inv ks" and x: "can_take ks t x" "\<not> (ty ks x = MutantObject \<and> sig ks x = MINLONG)"
    and ob: "ks_Objects ks1 x = ks_Objects ks x"
  shows "ks_Objects (KiSatisfyObjectWait x t ks1) x = taken t (ks_Objects ks x)"
    "ty ks x = MutantObject \<Longrightarrow> s32 (sig ks x - 1) = sig ks x - 1"
proof -
  have "mutant_ok ks" "signal_ok ks"
    using ke_inv_links(4)[OF ok] by (simp_all add: objects_ok_def)
  note mD = mutant_okD(1-3)[OF this(1)] and sD = signal_okD(1-3)[OF this(2)]
  show m: "ty ks x = MutantObject \<Longrightarrow> s32 (sig ks x - 1) = sig ks x - 1"
    using mD x by (intro s32_id) (force simp: can_take_def)+
  have own: "ty ks x = MutantObject \<Longrightarrow> sig ks x \<noteq> 1 \<Longrightarrow> owner ks x = Some t"
    using mD(1,3)[of x] x(1) by (auto simp: can_take_def)
  have "ty ks x = SemaphoreObject \<Longrightarrow> s32 (sig ks x - 1) = sig ks x - 1"
    using sD x by (intro s32_id) (force simp: can_take_def)+
  then show "ks_Objects (KiSatisfyObjectWait x t ks1) x = taken t (ks_Objects ks x)"
    using m own by (cases "ty ks x") (auto simp: KiSatisfyObjectWait_def KiSatisfyMutantWait_objects KiSatisfyNonMutantWait_def KOBJECTS_value_mask
        taken_def ob Let_def)
qed

lemma single_wait_refused:
  assumes "ke_reachable ks" "t \<notin> waiting ks" "ty ks (Obj n) \<noteq> QueueObject" "\<not> apc_first irql (ks_Threads ks t)" "\<not> can_take ks t (Obj n)"
  shows "\<exists>r ks'. KeWaitForSingleObject t irql (Obj n) wr m al to c1 c2 c3 ks = Some (r, ks') \<and>
    r = (if interruption (ks_Threads ks t) m al \<noteq> STATUS_WAIT_0 then Returned (interruption (ks_Threads ks t) m al)
         else if \<exists>d \<in> set_option to. wait_due c1 d \<le> u64 (ck_InterruptTime c2) then Returned STATUS_TIMEOUT else Blocked) \<and>
    (r \<noteq> Blocked \<longrightarrow> waiting ks' = waiting ks \<and> ks_Objects ks' (Obj n) = ks_Objects ks (Obj n)) \<and>
    (r = Blocked \<longrightarrow> to = None \<longrightarrow> t \<in> waiting ks' \<and> object_block t 0 (Obj n) WaitAny \<in> set (wl ks' (Obj n)))"
proof -
  let ?x = "Obj n" and ?b = "object_block t 0 (Obj n) WaitAny" and ?s = "interruption (ks_Threads ks t) m al"
  let ?late = "\<exists>d \<in> set_option to. wait_due c1 d \<le> u64 (ck_InterruptTime c2)"
  define ks1 where "ks1 = KxSingleThreadWait t ?x wr m al to c1 (begin_wait t irql ks)"
  note prep = single_wait_prepared[where ks = ks and t = t and x = ?x and wr = wr and m = m and al = al and to = to and c = c1 and irql = irql,
      folded ks1_def]
  have deliver: "\<not> kernel_apc_deliverable (ks_Threads ks1 t)"
    using assms(4) by (simp add: kernel_apc_deliverable_def apc_first_def prep)
  have "interruption (ks_Threads ks1 t) m al = ?s"
    by (simp add: interruption_def prep)
  then obtain ks2 where check: "KiCheckAlertability t al m ks1 = (?s, ks2)" and ks2: "?s = 0 \<Longrightarrow> ks2 = ks1" "ks_Objects ks2 = ks_Objects ks1"
    "waiting ks2 = waiting ks1"
    using KiCheckAlertability_interruption[where t = t and al = al and m = m and ks = ks1] by (cases "KiCheckAlertability t al m ks1") simp
  have late: "(to \<noteq> None \<and> timer_expired t c2 ks1) = ?late"
    by (cases to) (simp_all add: timer_expired_def ks1_def set_up_due)
  define ks3 where "ks3 = activate_queue t (insert_wait_block ?b (if to \<noteq> None then activate_timer t ks1 else ks1))"
  have no: "\<not> (ty ks1 ?x = MutantObject \<and> (sig ks1 ?x > 0 \<or> owner ks1 ?x = Some t))" "\<not> (ty ks1 ?x \<noteq> MutantObject \<and> sig ks1 ?x > 0)"
    using assms(5) by (auto simp: can_take_def prep)
  have eq: "KeWaitForSingleObject t irql ?x wr m al to c1 c2 c3 ks =
    (if ?s \<noteq> 0 then Some (Returned ?s, ks2) else if ?late then Some (Returned STATUS_TIMEOUT, ks1)
     else map_option (Pair Blocked) (KiBlockThread t (to \<noteq> None) c3 ks3))"
    unfolding KeWaitForSingleObject_def Let_def ks1_def[symmetric] if_not_P[OF deliver] if_not_P[OF no(1)] if_not_P[OF no(2)] check prod.case
      late[symmetric] ks3_def using ks2(1) by (cases "?s = 0") simp_all
  obtain r ks' where ks': "KeWaitForSingleObject t irql ?x wr m al to c1 c2 c3 ks = Some (r, ks')" "ke_inv ks'"
    using KeWaitForSingleObject_ok[OF ke_reachable_inv[OF assms(1)] assms(2,3)] by blast
  have r: "r = (if ?s \<noteq> 0 then Returned ?s else if ?late then Returned STATUS_TIMEOUT else Blocked)"
    using ks'(1) unfolding eq by (auto split: if_splits)
  moreover have "waiting ks' = waiting ks \<and> ks_Objects ks' ?x = ks_Objects ks ?x" if "r \<noteq> Blocked"
    using ks'(1) that ks2(2,3) prep(1,2) unfolding eq by (auto split: if_splits)
  moreover have "t \<in> waiting ks' \<and> ?b \<in> set (wl ks' ?x)" if "r = Blocked" "to = None"
  proof -
    have "ks' = upd_thread t (\<lambda>th. th\<lparr>th_State := Waiting\<rparr>) ks3"
      using ks'(1) that unfolding eq by (auto simp: KiBlockThread_def split: if_splits)
    moreover have "bl ks3 t = [?b]"
      using that(2) by (simp add: ks3_def bl_activate_queue insert_wait_block_def ks1_def KxSingleThreadWait_untimed set_wait_def)
    ultimately have "t \<in> waiting ks'" "bl ks' t = [?b]"
      by (simp_all add: waiting_def)
    then show ?thesis
      using bl_okD(2)[OF linksD(2)[OF ke_inv_links(1)[OF ks'(2)]], of t ?b] by auto
  qed
  ultimately show ?thesis
    using ks'(1) by auto
qed

text \<open>
  C17. A pass of a wait for one object, in any mode, alertable or not, with or without a time-out,
  ends as \<^const>\<open>single_wait_outcome\<close> says. If it does not block, no thread starts or stops to
  wait, and the object is as it was, or as \<^const>\<open>taken\<close> says if it was taken. If it blocks without a
  time-out, the thread is waiting, with its block in the wait list of the object.
\<close>

theorem KeWaitForSingleObject_result:
  assumes "ke_reachable ks" "t \<notin> waiting ks" "ty ks (Obj n) \<noteq> QueueObject"
  shows "\<exists>ks'. KeWaitForSingleObject t irql (Obj n) wr m al to c1 c2 c3 ks =
      Some (single_wait_outcome t irql m al to c1 c2 (ks_Threads ks t) (ks_Objects ks (Obj n)), ks') \<and>
    (single_wait_outcome t irql m al to c1 c2 (ks_Threads ks t) (ks_Objects ks (Obj n)) \<noteq> Blocked \<longrightarrow>
      waiting ks' = waiting ks \<and>
      ks_Objects ks' (Obj n) =
        (if \<not> apc_first irql (ks_Threads ks t) \<and> can_take ks t (Obj n) \<and> \<not> (ty ks (Obj n) = MutantObject \<and> sig ks (Obj n) = MINLONG)
         then taken t (ks_Objects ks (Obj n)) else ks_Objects ks (Obj n))) \<and>
    (single_wait_outcome t irql m al to c1 c2 (ks_Threads ks t) (ks_Objects ks (Obj n)) = Blocked \<longrightarrow> to = None \<longrightarrow>
      t \<in> waiting ks' \<and> object_block t 0 (Obj n) WaitAny \<in> set (wl ks' (Obj n)))"
proof -
  let ?x = "Obj n" and ?b = "object_block t 0 (Obj n) WaitAny" and ?ob = "ks_Objects ks (Obj n)" and ?th = "ks_Threads ks t"
  let ?wait = "KeWaitForSingleObject t irql ?x wr m al to c1 c2 c3 ks"
  note inv = ke_reachable_inv[OF assms(1)]
  define ks1 where "ks1 = KxSingleThreadWait t ?x wr m al to c1 (begin_wait t irql ks)"
  note prep = single_wait_prepared[where ks = ks and t = t and x = ?x and wr = wr and m = m and al = al and to = to and c = c1 and irql = irql,
      folded ks1_def]
  have ob: "ks_Objects ks1 ?x = ?ob" and w: "waiting ks1 = waiting ks"
    using prep(1,2) .
  have deliver: "kernel_apc_deliverable (ks_Threads ks1 t) = apc_first irql ?th"
    by (simp add: kernel_apc_deliverable_def apc_first_def prep)
  consider (apc) "apc_first irql ?th" | (full) "\<not> apc_first irql ?th" "can_take ks t ?x" "ty ks ?x = MutantObject" "sig ks ?x = MINLONG"
    | (take) "\<not> apc_first irql ?th" "can_take ks t ?x" "\<not> (ty ks ?x = MutantObject \<and> sig ks ?x = MINLONG)"
    | (no) "\<not> apc_first irql ?th" "\<not> can_take ks t ?x"
    by blast
  then show ?thesis
  proof cases
    case apc
    then have "?wait = Some (KernelApc, ks1)"
      unfolding KeWaitForSingleObject_def Let_def ks1_def[symmetric] by (simp add: deliver)
    then show ?thesis
      using apc ob w by (simp add: single_wait_outcome_def)
  next
    case full
    then have "?wait = Some (Raised STATUS_MUTANT_LIMIT_EXCEEDED, ks1)"
      using ob deliver unfolding KeWaitForSingleObject_def Let_def ks1_def[symmetric] by (simp add: can_take_def)
    then show ?thesis
      using full ob w by (simp add: single_wait_outcome_def can_take_def)
  next
    case take
    define ks' where "ks' = KiSatisfyObjectWait ?x t ks1"
    note sat = satisfied_object[OF inv take(2,3) ob, folded ks'_def]
    have "?wait = Some (Returned (if ty ks ?x = MutantObject then th_WaitStatus (ks_Threads ks' t) else 0), ks')"
      using take deliver ob unfolding KeWaitForSingleObject_def Let_def ks1_def[symmetric]
      by (auto simp: can_take_def ks'_def KiSatisfyObjectWait_def)
    moreover have "th_WaitStatus (ks_Threads ks' t) = (if sig ks ?x = 1 \<and> ob_Abandoned ?ob then STATUS_ABANDONED else 0)" if "ty ks ?x = MutantObject"
      using that sat(2) ob prep(3) by (simp add: ks'_def KiSatisfyObjectWait_def KiSatisfyMutantWait_threads Let_def)
    moreover have "waiting ks' = waiting ks"
      using w same_links_inv(4)[OF KiSatisfyObjectWait_same_links] by (simp add: ks'_def)
    ultimately show ?thesis
      using take sat(1) by (auto simp: single_wait_outcome_def can_take_def)
  next
    case no
    then show ?thesis
      using single_wait_refused[OF assms no, of wr m al to c1 c2 c3] by (auto simp: single_wait_outcome_def can_take_def)
  qed
qed

theorem KeWaitForSingleObject_result_witness:
  "(\<exists>ks'. KeWaitForSingleObject 3 0 (Obj 2) Executive UserMode True (Some (- 10)) (clock_at 0) (clock_at 0) (clock_at 0) demo =
      Some (Returned STATUS_WAIT_0, ks') \<and> sig ks' (Obj 2) = 0) \<and>
   (\<exists>ks'. KeWaitForSingleObject 3 0 (Obj 1) Executive KernelMode False None (clock_at 0) (clock_at 0) (clock_at 0) demo = Some (Blocked, ks') \<and>
     3 \<in> waiting ks' \<and> object_block 3 0 (Obj 1) WaitAny \<in> set (wl ks' (Obj 1)))"
proof -
  let ?c = "clock_at 0"
  have th: "3 \<notin> waiting demo" "ks_Threads demo 3 = new_thread" "\<not> apc_first 0 new_thread" "interruption new_thread KernelMode False = 0"
    by (simp_all add: waiting_demo demo_simps apc_first_def interruption_def new_thread_def)
  have two: "ty demo (Obj 2) = SemaphoreObject" "sig demo (Obj 2) = 1" and one: "ty demo (Obj 1) = MutantObject" "sig demo (Obj 1) = 0" "owner demo (Obj 1) = Some 2"
    by (simp_all add: demo_simps demo1_objects demo0_simps blank_object_def)
  have "\<exists>ks'. KeWaitForSingleObject 3 0 (Obj 2) Executive UserMode True (Some (- 10)) ?c ?c ?c demo = Some (Returned STATUS_WAIT_0, ks') \<and> sig ks' (Obj 2) = 0"
    using KeWaitForSingleObject_result[OF demo_reachable(3) th(1), of 2 0 Executive UserMode True "Some (- 10)" ?c ?c ?c] th two
    by (auto simp: single_wait_outcome_def can_take_def taken_def)
  moreover have "\<exists>ks'. KeWaitForSingleObject 3 0 (Obj 1) Executive KernelMode False None ?c ?c ?c demo = Some (Blocked, ks') \<and>
     3 \<in> waiting ks' \<and> object_block 3 0 (Obj 1) WaitAny \<in> set (wl ks' (Obj 1))"
    using KeWaitForSingleObject_result[OF demo_reachable(3) th(1), of 1 0 Executive KernelMode False None ?c ?c ?c] th one
    by (auto simp: single_wait_outcome_def can_take_def)
  ultimately show ?thesis
    by blast
qed

text \<open>
  C27. Acquiring a free mutex and releasing it again restores it, when nobody is in line for it and
  no kernel APC is delivered first: the wait returns at once, with the thread as the owner, and after
  the release the mutex, the mutants of the thread and its count of disabled kernel APCs, which has
  to be within its 16 bits, are what they were. A mutex that was abandoned gives the status for
  that and loses the mark.
\<close>

theorem mutex_acquire_release:
  assumes "ke_reachable ks" "t \<notin> waiting ks" "\<not> apc_first irql (ks_Threads ks t)"
    "ty ks (Obj n) = MutantObject" "sig ks (Obj n) = 1" "wl ks (Obj n) = []"
    "- 32768 < th_KernelApcDisable (ks_Threads ks t)" "th_KernelApcDisable (ks_Threads ks t) < 32768"
  shows "\<exists>ks1 ks2. KeWaitForSingleObject t irql (Obj n) wr m al to c1 c2 c3 ks =
      Some (Returned (if ob_Abandoned (ks_Objects ks (Obj n)) then STATUS_ABANDONED else STATUS_SUCCESS), ks1) \<and> owner ks1 (Obj n) = Some t \<and>
    KeReleaseMutex t (Obj n) False irql1 ks1 = Some (Inr (0, ks2)) \<and> ks_Objects ks2 (Obj n) = (ks_Objects ks (Obj n))\<lparr>ob_Abandoned := False\<rparr> \<and>
    mutants ks2 t = mutants ks t \<and> th_KernelApcDisable (ks_Threads ks2 t) = th_KernelApcDisable (ks_Threads ks t)"
proof -
  let ?x = "Obj n"
  define ks0 where "ks0 = KxSingleThreadWait t ?x wr m al to c1 (begin_wait t irql ks)"
  note prep = single_wait_prepared[where ks = ks and t = t and x = ?x and wr = wr and m = m and al = al and to = to and c = c1 and irql = irql,
      folded ks0_def]
  define ks1 where "ks1 = KiSatisfyMutantWait ?x t ks0"
  have "mutant_ok ks"
    using ke_inv_links(4)[OF ke_reachable_inv[OF assms(1)]] by (simp add: objects_ok_def)
  note mD = mutant_okD[OF this]
  have free: "owner ks ?x = None" "?x \<notin> set (mutants ks t)"
    using mD(3)[OF assms(4)] mD(4)[of ?x t] assms(5) by simp_all
  have ob1: "ks_Objects ks1 ?x = (ks_Objects ks ?x)\<lparr>ob_SignalState := 0, ob_OwnerThread := Some t, ob_Abandoned := False\<rparr>"
    using assms(5) by (simp add: ks1_def KiSatisfyMutantWait_objects prep(1) Let_def s32_def)
  have th1: "mutants ks1 t = mutants ks t @ [?x]" "th_WaitStatus (ks_Threads ks1 t) = (if ob_Abandoned (ks_Objects ks ?x) then STATUS_ABANDONED else 0)"
    "th_KernelApcDisable (ks_Threads ks1 t) = s16 (th_KernelApcDisable (ks_Threads ks t) - (if ob_ApcDisable (ks_Objects ks ?x) then 1 else 0))"
    using assms(5) by (simp_all add: ks1_def KiSatisfyMutantWait_threads prep Let_def s32_def)
  have "\<not> kernel_apc_deliverable (ks_Threads ks0 t)"
    using assms(3) by (simp add: kernel_apc_deliverable_def apc_first_def prep)
  then have wait: "KeWaitForSingleObject t irql ?x wr m al to c1 c2 c3 ks =
      Some (Returned (if ob_Abandoned (ks_Objects ks ?x) then STATUS_ABANDONED else 0), ks1)"
    using prep(1) assms(4,5) th1(2)
    unfolding KeWaitForSingleObject_def Let_def ks0_def[symmetric] ks1_def[symmetric] by simp
  define ks2 where "ks2 = free_mutant ?x True (set_signal ?x 1 ks1)"
  define ks3 where "ks3 = (if ob_ApcDisable (ks_Objects ks ?x) then KeLeaveCriticalRegion t ks2 else ks2)"
  have "KeReleaseMutex t ?x False irql1 ks1 = Some (Inr (0, ks3))"
    using ob1 assms(6) by (simp add: KeReleaseMutex_def KeReleaseMutant_def Let_def finish_def s32_def ks3_def ks2_def free_mutant_def)
  moreover have "ks_Objects ks3 ?x = (ks_Objects ks ?x)\<lparr>ob_Abandoned := False\<rparr>"
    using free assms(5) by (cases "ks_Objects ks ?x") (simp add: ks3_def ks2_def free_mutant_def KeLeaveCriticalRegion_def ob1)
  moreover have "mutants ks3 t = mutants ks t"
    using ob1 th1(1) free(2) by (simp add: ks3_def ks2_def free_mutant_def KeLeaveCriticalRegion_def remove1_append)
  moreover have "th_KernelApcDisable (ks_Threads ks2 t) = th_KernelApcDisable (ks_Threads ks1 t)"
    by (simp add: ks2_def free_mutant_def RemoveMutantListEntry_def split: option.split)
  then have "th_KernelApcDisable (ks_Threads ks3 t) = th_KernelApcDisable (ks_Threads ks t)"
    using th1(3) assms(7,8) by (simp add: ks3_def KeLeaveCriticalRegion_def s16_small)
  ultimately show ?thesis
    using wait ob1 by (intro exI[of _ ks1] exI[of _ ks3]) simp
qed

theorem mutex_acquire_release_witness:
  "\<exists>ks1 ks2. KeWaitForSingleObject 2 0 (Obj 1) Executive KernelMode False None (clock_at 0) (clock_at 0) (clock_at 0) demo0 =
      Some (Returned STATUS_SUCCESS, ks1) \<and> owner ks1 (Obj 1) = Some 2 \<and>
    KeReleaseMutex 2 (Obj 1) False 0 ks1 = Some (Inr (0, ks2)) \<and> sig ks2 (Obj 1) = 1 \<and> mutants ks2 2 = []"
proof -
  have f: "2 \<notin> waiting demo0" "\<not> apc_first 0 (ks_Threads demo0 2)" "ty demo0 (Obj 1) = MutantObject" "sig demo0 (Obj 1) = 1" "wl demo0 (Obj 1) = []"
    "\<not> ob_Abandoned (ks_Objects demo0 (Obj 1))" "mutants demo0 2 = []" "th_KernelApcDisable (ks_Threads demo0 2) = 0"
    by (simp_all add: demo0_simps blank_object_def new_thread_def apc_first_def)
  show ?thesis
    using mutex_acquire_release[OF demo_reachable(1) f(1-5), of Executive KernelMode False None "clock_at 0" "clock_at 0" "clock_at 0" 0] f(4,6-8) by auto
qed

section \<open>Operations return\<close>

text \<open>
  C18. Every operation that looks for waiters or waits itself ends: its loops over the wait lists
  return, whatever the state the system is in.
\<close>

theorem dispatcher_operations_return:
  assumes "ke_reachable ks"
  shows "(is_event (ty ks (Obj n)) \<longrightarrow> KeSetEvent t (Obj n) i w q ks \<noteq> None \<and> KePulseEvent t (Obj n) i w q ks \<noteq> None) \<and>
    (ty ks (Obj n) = EventSynchronizationObject \<longrightarrow> KeSetEventBoostPriority t (Obj n) ks \<noteq> None) \<and>
    (ty ks (Obj n) = MutantObject \<longrightarrow> KeReleaseMutant t (Obj n) i a w q ks \<noteq> None) \<and>
    (is_timer (ty ks (Obj n)) \<longrightarrow> KeSetTimer c1 c2 cs (Obj n) d b ks \<noteq> None) \<and>
    (t \<notin> waiting ks \<longrightarrow> KeDelayExecutionThread t q m al d c1 c2 c3 ks \<noteq> None) \<and>
    (t \<notin> waiting ks \<longrightarrow> ty ks (Obj n) \<noteq> QueueObject \<longrightarrow> KeWaitForSingleObject t q (Obj n) wr m al to c1 c2 c3 ks \<noteq> None) \<and>
    (t \<notin> waiting ks \<longrightarrow> ty ks (Obj n) = QueueObject \<longrightarrow> KeRemoveQueue t q (Obj n) m to c1 c2 c3 ks \<noteq> None)"
proof -
  note inv = ke_reachable_inv[OF assms]
  show ?thesis
    using KeSetEvent_ok[OF inv, of n t i w q] KePulseEvent_ok[OF inv, of n t i w q] KeSetEventBoostPriority_ok[OF inv, of n t]
      KeReleaseMutant_ok[OF inv, of n t i a w q] KeSetTimerEx_ok(2)[OF inv, of n 0 c1 c2 cs d b] KeDelayExecutionThread_ok[OF inv, of t q m al d c1 c2 c3]
      KeWaitForSingleObject_ok[OF inv, of t n q wr m al to c1 c2 c3] KeRemoveQueue_ok[OF inv, of t n q m to c1 c2 c3]
    by (auto simp: KeSetTimer_def)
qed

theorem dispatcher_operations_return_witness:
  "is_event (ty demo (Obj 0)) \<and> KeSetEvent 2 (Obj 0) 1 False 0 demo \<noteq> None"
proof -
  have "is_event (ty demo (Obj 0))"
    by (simp add: demo_simps demo1_objects is_event_def)
  then show ?thesis
    using dispatcher_operations_return[OF demo_reachable(3), of 0 2 1 False 0] by blast
qed

section \<open>Queues\<close>

text \<open>
  A queue that lets two threads run. Thread 2 has taken the only entry and runs; thread 1 finds
  no entry and waits.
\<close>

definition queue0 :: KSTATE where
  "queue0 = KeInitializeQueue 1 (Obj 0) 2 (KiInitSystem 100)"

definition queue1 :: KSTATE where
  "queue1 = snd (KeInsertQueue 3 (Obj 0) 7 queue0)"

definition queue2 :: KSTATE where
  "queue2 = after (KeRemoveQueue 2 0 (Obj 0) KernelMode None (clock_at 0) (clock_at 0) (clock_at 0) queue1) queue1"

definition queue3 :: KSTATE where
  "queue3 = after (KeRemoveQueue 1 0 (Obj 0) KernelMode None (clock_at 0) (clock_at 0) (clock_at 0) queue2) queue2"

lemma queue0_simps:
  "ks_Objects queue0 (Obj 0) = blank_object\<lparr>ob_Type := QueueObject, ob_MaximumCount := 2\<rparr>" "ks_Threads queue0 t = new_thread"
  by (simp_all add: queue0_def KeInitializeQueue_def blank_object_def)

lemma queue1_simps:
  "ks_Objects queue1 (Obj 0) = blank_object\<lparr>ob_Type := QueueObject, ob_SignalState := 1, ob_EntryList := [7], ob_MaximumCount := 2\<rparr>"
  "ks_Threads queue1 t = new_thread"
  by (simp_all add: queue1_def KeInsertQueue_def KiInsertQueue_def Let_def queue0_simps blank_object_def s32_def)

lemmas queue_wait = KeRemoveQueue_def KxQueueThreadWait_def begin_wait_def set_wait_def remove_queue_round_def count_up_def count_down_def
  kernel_apc_deliverable_def insert_wait_block_def KiBlockThread_def object_block_def after_def s32_def u32_add_def u32_sub_def

lemma queue2_simps:
  "ks_Objects queue2 (Obj 0) = blank_object\<lparr>ob_Type := QueueObject, ob_MaximumCount := 2, ob_ThreadList := [2], ob_CurrentCount := 1\<rparr>"
  "ks_Threads queue2 t = (if t = 2 then new_thread\<lparr>th_WaitBlockList := [object_block 2 0 (Obj 0) WaitAny], th_WaitReason := WrQueue, th_Queue := Some (Obj 0)\<rparr>
     else new_thread)"
  by (simp_all add: queue2_def queue_wait Let_def queue1_simps blank_object_def new_thread_def)

lemma queue3_simps:
  "ks_Objects queue3 (Obj 0) = blank_object\<lparr>ob_Type := QueueObject, ob_MaximumCount := 2, ob_ThreadList := [2, 1], ob_CurrentCount := 1,
     ob_WaitList := [object_block 1 0 (Obj 0) WaitAny]\<rparr>"
  "ks_Threads queue3 t = (if t = 1 then new_thread\<lparr>th_WaitBlockList := [object_block 1 0 (Obj 0) WaitAny], th_WaitReason := WrQueue,
       th_Queue := Some (Obj 0), th_State := Waiting\<rparr> else ks_Threads queue2 t)"
  by (simp_all add: queue3_def queue_wait Let_def queue2_simps blank_object_def new_thread_def)

lemma queue_reachable: "ke_reachable queue0" "ke_reachable queue1" "ke_reachable queue2" "ke_reachable queue3"
proof -
  show 0: "ke_reachable queue0"
    unfolding queue0_def
    by (intro ke_reachable.step[OF ke_reachable.start ke_step.init_queue]) (simp add: unused_def blank_object_def new_thread_def)
  show 1: "ke_reachable queue1"
    unfolding queue1_def KeInsertQueue_def by (intro ke_reachable.step[OF 0 ke_step.insert_queue]) (simp add: queue0_simps)
  have remove: "ke_reachable (after (KeRemoveQueue t q (Obj n) m to c1 c2 c3 ks) ks)"
    if "ke_reachable ks" "t \<notin> waiting ks" "ty ks (Obj n) = QueueObject" for t q n m to c1 c2 c3 ks
    using that by (auto simp: after_def split: option.split intro: ke_reachable.step ke_step.remove_queue)
  show 2: "ke_reachable queue2"
    unfolding queue2_def by (rule remove[OF 1]) (simp_all add: queue1_simps waiting_def new_thread_def)
  show "ke_reachable queue3"
    unfolding queue3_def by (rule remove[OF 2]) (simp_all add: queue2_simps waiting_def new_thread_def)
qed

text \<open>
  C13. The list of threads of a queue has exactly the threads that work for it; and, until the queue
  is run down, its current count is the number of those that are not waiting, for whatever object,
  on 32 bits. \<open>KeRundownQueue\<close> hands out the entries and empties the list of threads, none of which
  belongs to the queue any more, but leaves the count as it is.
\<close>

theorem queue_count_exact:
  assumes "ke_reachable ks" "ty ks (Obj n) = QueueObject"
  shows "distinct (ob_ThreadList (ks_Objects ks (Obj n))) \<and>
    (\<forall>t. t \<in> set (ob_ThreadList (ks_Objects ks (Obj n))) \<longleftrightarrow> queue ks t = Some (Obj n)) \<and>
    (\<not> ob_RunDown (ks_Objects ks (Obj n)) \<longrightarrow>
      ob_CurrentCount (ks_Objects ks (Obj n)) = length [t \<leftarrow> ob_ThreadList (ks_Objects ks (Obj n)). t \<notin> waiting ks] mod 4294967296) \<and>
    (\<exists>ks'. KeRundownQueue (Obj n) ks = (ob_EntryList (ks_Objects ks (Obj n)), ks') \<and> ob_ThreadList (ks_Objects ks' (Obj n)) = [] \<and>
       (\<forall>t. queue ks' t = (if queue ks t = Some (Obj n) then None else queue ks t)) \<and>
       ob_CurrentCount (ks_Objects ks' (Obj n)) = ob_CurrentCount (ks_Objects ks (Obj n)))"
proof -
  let ?q = "Obj n"
  note D = queue_okD(1-3)[OF ke_inv_links(2)[OF ke_reachable_inv[OF assms(1)]] assms(2)]
  define ks' where "ks' = snd (KeRundownQueue ?q ks)"
  have "KeRundownQueue ?q ks = (ob_EntryList (ks_Objects ks ?q), ks')"
    unfolding ks'_def KeRundownQueue_def Let_def by simp
  moreover have "queue ks' t = (if queue ks t = Some ?q then None else queue ks t)" for t
    using D(2)[of t] by (simp add: ks'_def)
  moreover have "ob_ThreadList (ks_Objects ks' ?q) = []" "ob_CurrentCount (ks_Objects ks' ?q) = ob_CurrentCount (ks_Objects ks ?q)"
    by (simp_all add: ks'_def)
  ultimately show ?thesis
    using D by (intro conjI exI[of _ ks']) (simp_all add: active_def)
qed

theorem queue_count_exact_witness:
  "ob_ThreadList (ks_Objects queue3 (Obj 0)) = [2, 1] \<and> ob_CurrentCount (ks_Objects queue3 (Obj 0)) = length [t \<leftarrow> [2, 1]. t \<notin> waiting queue3] \<and>
   (\<exists>ks'. KeRundownQueue (Obj 0) queue3 = ([], ks') \<and> queue ks' 1 = None \<and> ob_CurrentCount (ks_Objects ks' (Obj 0)) = 1)"
proof -
  have f: "ty queue3 (Obj 0) = QueueObject" "\<not> ob_RunDown (ks_Objects queue3 (Obj 0))" "ob_ThreadList (ks_Objects queue3 (Obj 0)) = [2, 1]"
    "ob_EntryList (ks_Objects queue3 (Obj 0)) = []" "ob_CurrentCount (ks_Objects queue3 (Obj 0)) = 1" "queue queue3 1 = Some (Obj 0)"
    by (simp_all add: queue3_simps blank_object_def)
  show ?thesis
    using queue_count_exact[OF queue_reachable(4) f(1)] f by (auto split: if_splits)
qed

text \<open>
  What a thread that joins a queue comes to. An entry is taken if there is one and fewer threads
  of the queue run than the limit; otherwise kernel APCs, user APCs and a time-out that is due
  already come before the thread blocks.
\<close>

definition remove_outcome ::
  "nat \<Rightarrow> KPROCESSOR_MODE \<Rightarrow> int option \<Rightarrow> KCLOCK \<Rightarrow> KCLOCK \<Rightarrow> KTHREAD \<Rightarrow> KOBJECT \<Rightarrow> wait_result" where
  "remove_outcome irql m to c1 c2 th ob =
     (if ob_CurrentCount ob < ob_MaximumCount ob \<and> ob_EntryList ob \<noteq> [] then Returned (hd (ob_EntryList ob))
      else if apc_first irql th then KernelApc
      else if m = UserMode \<and> th_UserApcPending th then Returned STATUS_USER_APC
      else if \<exists>d \<in> set_option to. wait_due c1 d \<le> u64 (ck_InterruptTime c2) then Returned STATUS_TIMEOUT
      else Blocked)"

lemma queue_wait_prepared:
  fixes ks t irql q m to c
  defines "ks1 \<equiv> KxQueueThreadWait t q m to c (begin_wait t irql ks)"
  shows "ks_Objects ks1 (Obj n) = ks_Objects ks (Obj n)" "kernel_apc_deliverable (ks_Threads ks1 t) = apc_first irql (ks_Threads ks t)"
    "queue ks1 u = queue ks u" "th_UserApcPending (ks_Threads ks1 t) = th_UserApcPending (ks_Threads ks t)"
    "th_WaitReason (ks_Threads ks1 t) = WrQueue" "to = Some d \<Longrightarrow> due ks1 (TimerOf t) = wait_due c d" "waiting ks1 = waiting ks"
  unfolding ks1_def KxQueueThreadWait_def KxSetTimerForThreadWait_def begin_wait_def set_wait_def set_timer_list_def waiting_def
    kernel_apc_deliverable_def apc_first_def
  by (auto simp: Let_def due_def wait_due_def split: option.split)

text \<open>A round of the loop, in terms of the state it starts in.\<close>

lemma remove_queue_round_result:
  assumes "remove_queue_round t q m timed c2 c3 ks = Some (r, ks')"
  shows "r = (if ob_CurrentCount (ks_Objects ks q) < ob_MaximumCount (ks_Objects ks q) \<and> ob_EntryList (ks_Objects ks q) \<noteq> []
      then Returned (hd (ob_EntryList (ks_Objects ks q)))
      else if kernel_apc_deliverable (ks_Threads ks t) then KernelApc
      else if m = UserMode \<and> th_UserApcPending (ks_Threads ks t) then Returned STATUS_USER_APC
      else if timed \<and> timer_expired t c2 ks then Returned STATUS_TIMEOUT else Blocked)"
    "r \<noteq> Blocked \<Longrightarrow> ks_Threads ks' = ks_Threads ks"
    "r \<noteq> Blocked \<Longrightarrow> ob_CurrentCount (ks_Objects ks' q) = u32_add (ob_CurrentCount (ks_Objects ks q)) 1"
    "r = Blocked \<Longrightarrow> \<not> timed \<Longrightarrow> ks_Threads ks' = (ks_Threads ks)(t := (ks_Threads ks t)\<lparr>th_State := Waiting\<rparr>)"
    "r = Blocked \<Longrightarrow> \<not> timed \<Longrightarrow> ob_CurrentCount (ks_Objects ks' q) = ob_CurrentCount (ks_Objects ks q)"
    "r \<noteq> Blocked \<or> \<not> timed \<Longrightarrow> ob_ThreadList (ks_Objects ks' q) = ob_ThreadList (ks_Objects ks q)"
    "r \<noteq> Blocked \<or> \<not> timed \<Longrightarrow> ob_EntryList (ks_Objects ks' q) =
       (if ob_CurrentCount (ks_Objects ks q) < ob_MaximumCount (ks_Objects ks q) then tl (ob_EntryList (ks_Objects ks q)) else ob_EntryList (ks_Objects ks q))"
  using assms unfolding remove_queue_round_def Let_def
  by (cases m; auto simp: count_up_def KiBlockThread_def insert_wait_block_def object_block_def split: if_splits)+

text \<open>
  C28. A queue is first in, first out. With no thread waiting, an insertion puts the entry at the
  end of the entries, or in front of them for an insertion at the head, and changes no thread. A thread
  that belongs to no queue and asks for an entry joins the queue and ends as \<^const>\<open>remove_outcome\<close> says: it gets
  the entry that is first, and only that one is gone, if the limit of running threads is not reached; otherwise
  the entries stay, and without APCs and time-out the thread waits.
\<close>

theorem queue_first_in_first_out:
  assumes "ke_reachable ks" "ty ks (Obj n) = QueueObject" "t \<notin> waiting ks" "queue ks t = None"
  shows "(wl ks (Obj n) = [] \<longrightarrow>
      ks_Threads (snd (KeInsertQueue cur (Obj n) e ks)) = ks_Threads ks \<and>
      ob_EntryList (ks_Objects (snd (KeInsertQueue cur (Obj n) e ks)) (Obj n)) = ob_EntryList (ks_Objects ks (Obj n)) @ [e] \<and>
      ks_Threads (snd (KeInsertHeadQueue cur (Obj n) e ks)) = ks_Threads ks \<and>
      ob_EntryList (ks_Objects (snd (KeInsertHeadQueue cur (Obj n) e ks)) (Obj n)) = e # ob_EntryList (ks_Objects ks (Obj n))) \<and>
    (\<exists>ks'. KeRemoveQueue t irql (Obj n) m to c1 c2 c3 ks =
        Some (remove_outcome irql m to c1 c2 (ks_Threads ks t) (ks_Objects ks (Obj n)), ks') \<and>
      (remove_outcome irql m to c1 c2 (ks_Threads ks t) (ks_Objects ks (Obj n)) \<noteq> Blocked \<or> to = None \<longrightarrow>
        queue ks' t = Some (Obj n) \<and> ob_ThreadList (ks_Objects ks' (Obj n)) = ob_ThreadList (ks_Objects ks (Obj n)) @ [t] \<and>
        (if remove_outcome irql m to c1 c2 (ks_Threads ks t) (ks_Objects ks (Obj n)) = Blocked
         then waiting ks' = insert t (waiting ks) \<and> ob_CurrentCount (ks_Objects ks' (Obj n)) = ob_CurrentCount (ks_Objects ks (Obj n))
         else waiting ks' = waiting ks \<and> ob_CurrentCount (ks_Objects ks' (Obj n)) = u32_add (ob_CurrentCount (ks_Objects ks (Obj n))) 1) \<and>
        ob_EntryList (ks_Objects ks' (Obj n)) =
          (if ob_CurrentCount (ks_Objects ks (Obj n)) < ob_MaximumCount (ks_Objects ks (Obj n))
           then tl (ob_EntryList (ks_Objects ks (Obj n))) else ob_EntryList (ks_Objects ks (Obj n)))))"
proof (intro conjI impI)
  let ?q = "Obj n" and ?ob = "ks_Objects ks (Obj n)" and ?out = "remove_outcome irql m to c1 c2 (ks_Threads ks t) (ks_Objects ks (Obj n))"
  show "ks_Threads (snd (KeInsertQueue cur ?q e ks)) = ks_Threads ks"
    "ob_EntryList (ks_Objects (snd (KeInsertQueue cur ?q e ks)) ?q) = ob_EntryList ?ob @ [e]"
    "ks_Threads (snd (KeInsertHeadQueue cur ?q e ks)) = ks_Threads ks"
    "ob_EntryList (ks_Objects (snd (KeInsertHeadQueue cur ?q e ks)) ?q) = e # ob_EntryList ?ob" if "wl ks ?q = []"
    using that by (simp_all add: KeInsertQueue_def KeInsertHeadQueue_def KiInsertQueue_def Let_def)
  define ks1 where "ks1 = KxQueueThreadWait t ?q m to c1 (begin_wait t irql ks)"
  note prep = queue_wait_prepared[where ks = ks and t = t and q = ?q and m = m and to = to and c = c1 and irql = irql, folded ks1_def]
  define ks2 where "ks2 = upd_object ?q (\<lambda>ob. ob\<lparr>ob_ThreadList := ob_ThreadList ob @ [t]\<rparr>) (upd_thread t (\<lambda>th. th\<lparr>th_Queue := Some ?q\<rparr>) ks1)"
  have eq: "KeRemoveQueue t irql ?q m to c1 c2 c3 ks = remove_queue_round t ?q m (to \<noteq> None) c2 c3 ks2"
    unfolding KeRemoveQueue_def Let_def ks1_def[symmetric] ks2_def using assms(4) by (simp add: prep(3))
  have ks2: "ks_Objects ks2 ?q = ?ob\<lparr>ob_ThreadList := ob_ThreadList ?ob @ [t]\<rparr>" "queue ks2 t = Some ?q" "waiting ks2 = waiting ks"
    "kernel_apc_deliverable (ks_Threads ks2 t) = apc_first irql (ks_Threads ks t)" "th_UserApcPending (ks_Threads ks2 t) = th_UserApcPending (ks_Threads ks t)"
    using prep(1,2,4) by (simp_all add: ks2_def prep(7)[symmetric] waiting_upd_thread kernel_apc_deliverable_def)
  have late: "(to \<noteq> None \<and> timer_expired t c2 ks2) = (\<exists>d \<in> set_option to. wait_due c1 d \<le> u64 (ck_InterruptTime c2))"
    using prep(6) by (cases to) (simp_all add: timer_expired_def ks2_def due_def)
  obtain r ks' where r: "remove_queue_round t ?q m (to \<noteq> None) c2 c3 ks2 = Some (r, ks')"
    using KeRemoveQueue_ok[OF ke_reachable_inv[OF assms(1)] assms(3,2), of irql m to c1 c2 c3] eq by auto
  note result = remove_queue_round_result[OF r]
  have out: "r = ?out"
    unfolding result(1) late ks2(4,5) by (simp add: remove_outcome_def ks2(1))
  have "queue ks' t = Some ?q \<and> waiting ks' = (if r = Blocked then insert t (waiting ks) else waiting ks)" if "r \<noteq> Blocked \<or> to = None"
    using result(2,4) that ks2(2,3) by (cases "r = Blocked") (auto simp: waiting_def)
  then show "\<exists>ks'. KeRemoveQueue t irql ?q m to c1 c2 c3 ks = Some (?out, ks') \<and>
      (?out \<noteq> Blocked \<or> to = None \<longrightarrow>
        queue ks' t = Some ?q \<and> ob_ThreadList (ks_Objects ks' ?q) = ob_ThreadList ?ob @ [t] \<and>
        (if ?out = Blocked then waiting ks' = insert t (waiting ks) \<and> ob_CurrentCount (ks_Objects ks' ?q) = ob_CurrentCount ?ob
         else waiting ks' = waiting ks \<and> ob_CurrentCount (ks_Objects ks' ?q) = u32_add (ob_CurrentCount ?ob) 1) \<and>
        ob_EntryList (ks_Objects ks' ?q) =
          (if ob_CurrentCount ?ob < ob_MaximumCount ?ob then tl (ob_EntryList ?ob) else ob_EntryList ?ob))"
    using r result(3,5-7) unfolding eq out[symmetric] by (auto simp: ks2(1))
qed

theorem queue_first_in_first_out_witness:
  "ob_EntryList (ks_Objects (snd (KeInsertQueue 3 (Obj 0) 9 queue1)) (Obj 0)) = [7, 9] \<and>
   (\<exists>ks'. KeRemoveQueue 2 0 (Obj 0) KernelMode None (clock_at 0) (clock_at 0) (clock_at 0) queue1 = Some (Returned 7, ks') \<and>
     ob_EntryList (ks_Objects ks' (Obj 0)) = [])"
proof -
  have f: "ty queue1 (Obj 0) = QueueObject" "2 \<notin> waiting queue1" "queue queue1 2 = None" "wl queue1 (Obj 0) = []"
    "ob_EntryList (ks_Objects queue1 (Obj 0)) = [7]" "ob_CurrentCount (ks_Objects queue1 (Obj 0)) = 0" "ob_MaximumCount (ks_Objects queue1 (Obj 0)) = 2"
    by (simp_all add: queue1_simps waiting_def blank_object_def new_thread_def)
  show ?thesis
    using queue_first_in_first_out[OF queue_reachable(2) f(1-3), of 3 9 0 KernelMode None "clock_at 0" "clock_at 0" "clock_at 0"] f(4-7)
    by (auto simp: remove_outcome_def)
qed

text \<open>A thread that comes back without having waited keeps the reason of the wait that was set up.\<close>

lemma KiActivateWaiterQueue_keeps_reason:
  "queue (KiActivateWaiterQueue p ks) u = queue ks u" "th_WaitReason (ks_Threads (KiActivateWaiterQueue p ks) u) = th_WaitReason (ks_Threads ks u)"
  by (auto simp: KiActivateWaiterQueue_def count_down_def Let_def split: list.split)

lemma KeRemoveQueue_keeps_reason:
  assumes "KeRemoveQueue u irql (Obj n) m to c1 c2 c3 ks = Some (Returned e, ks')"
  shows "queue ks' u = Some (Obj n)" "th_WaitReason (ks_Threads ks' u) = WrQueue"
proof -
  let ?q = "Obj n"
  define ks1 where "ks1 = KxQueueThreadWait u ?q m to c1 (begin_wait u irql ks)"
  note prep = queue_wait_prepared[where ks = ks and t = u and q = ?q and m = m and to = to and c = c1 and irql = irql, folded ks1_def]
  obtain ks2 where round: "remove_queue_round u ?q m (to \<noteq> None) c2 c3 ks2 = Some (Returned e, ks')"
    and ks2: "queue ks2 u = Some ?q" "th_WaitReason (ks_Threads ks2 u) = WrQueue"
    using assms prep(5) unfolding KeRemoveQueue_def Let_def ks1_def[symmetric]
    by (auto simp: KiActivateWaiterQueue_keeps_reason count_down_def split: if_splits option.splits)
  show "queue ks' u = Some ?q" "th_WaitReason (ks_Threads ks' u) = WrQueue"
    using remove_queue_round_result(2)[OF round] ks2 by simp_all
qed

text \<open>
  C29. Who is woken by an insertion when a thread waits for the queue and the limit of running
  threads is not reached. If the inserting thread does not belong to the queue, the thread that
  began to wait last is woken with the entry as its status. But a thread that got its last entry
  without waiting for it still has the wait reason \<open>WrQueue\<close>; when it inserts an entry, with its queue
  and wait reason as they were on that return, nobody is woken and the entry stays in the list,
  although a thread waits that the queue would let run.
\<close>

theorem stale_wait_reason:
  assumes "KeRemoveQueue u irql (Obj n) m to c1 c2 c3 ks0 = Some (Returned e0, ks1)"
    "ke_reachable ks" "ty ks (Obj n) = QueueObject" "wl ks (Obj n) \<noteq> []"
    "ob_CurrentCount (ks_Objects ks (Obj n)) < ob_MaximumCount (ks_Objects ks (Obj n))"
    "queue ks u = queue ks1 u" "th_WaitReason (ks_Threads ks u) = th_WaitReason (ks_Threads ks1 u)" "queue ks v \<noteq> Some (Obj n)"
  shows "waiting (snd (KeInsertQueue u (Obj n) e ks)) = waiting ks \<and>
    ob_EntryList (ks_Objects (snd (KeInsertQueue u (Obj n) e ks)) (Obj n)) = ob_EntryList (ks_Objects ks (Obj n)) @ [e] \<and>
    waiting (snd (KeInsertQueue v (Obj n) e ks)) = waiting ks - {wb_Thread (last (wl ks (Obj n)))} \<and>
    wb_Thread (last (wl ks (Obj n))) \<in> waiting ks \<and>
    th_WaitStatus (ks_Threads (snd (KeInsertQueue v (Obj n) e ks)) (wb_Thread (last (wl ks (Obj n))))) = e \<and>
    ob_EntryList (ks_Objects (snd (KeInsertQueue v (Obj n) e ks)) (Obj n)) = ob_EntryList (ks_Objects ks (Obj n))"
proof -
  let ?q = "Obj n" and ?b = "last (wl ks (Obj n))"
  have stale: "queue ks u = Some ?q" "th_WaitReason (ks_Threads ks u) = WrQueue"
    using KeRemoveQueue_keeps_reason[OF assms(1)] assms(6,7) by simp_all
  then have stay: "snd (KeInsertQueue u ?q e ks) =
      upd_object ?q (\<lambda>ob. ob\<lparr>ob_SignalState := s32 (ob_SignalState ob + 1), ob_EntryList := ob_EntryList ob @ [e]\<rparr>) ks"
    by (simp add: KeInsertQueue_def KiInsertQueue_def Let_def)
  have "?b \<in> set (wl ks ?q)"
    using assms(4) by simp
  then have w: "wb_Thread ?b \<in> waiting ks"
    using wl_okD(1)[OF ke_inv_links(6)[OF ke_reachable_inv[OF assms(2)]]] by simp
  let ?ks = "snd (KeInsertQueue v ?q e ks)"
  have "ks_Threads ?ks = (ks_Threads ks)(wb_Thread ?b := (ks_Threads ks (wb_Thread ?b))\<lparr>th_WaitStatus := e, th_WaitReason := 0, th_State := DeferredReady\<rparr>)"
    "ob_EntryList (ks_Objects ?ks ?q) = ob_EntryList (ks_Objects ks ?q)"
    using assms(4,5,8) by (simp_all add: KeInsertQueue_def KiInsertQueue_def KiReadyThread_def Let_def)
  then show ?thesis
    using w unfolding stay by (auto simp: waiting_def)
qed

theorem stale_wait_reason_witness:
  "waiting queue3 = {1} \<and> waiting (snd (KeInsertQueue 2 (Obj 0) 8 queue3)) = {1} \<and>
   ob_EntryList (ks_Objects (snd (KeInsertQueue 2 (Obj 0) 8 queue3)) (Obj 0)) = [8] \<and> waiting (snd (KeInsertQueue 3 (Obj 0) 8 queue3)) = {}"
proof -
  have took: "KeRemoveQueue 2 0 (Obj 0) KernelMode None (clock_at 0) (clock_at 0) (clock_at 0) queue1 = Some (Returned 7, queue2)"
    by (simp add: queue2_def queue_wait Let_def queue1_simps blank_object_def new_thread_def)
  have f: "ty queue3 (Obj 0) = QueueObject" "wl queue3 (Obj 0) = [object_block 1 0 (Obj 0) WaitAny]" "queue queue3 2 = queue queue2 2"
    "ob_CurrentCount (ks_Objects queue3 (Obj 0)) < ob_MaximumCount (ks_Objects queue3 (Obj 0))" "queue queue3 3 \<noteq> Some (Obj 0)"
    "th_WaitReason (ks_Threads queue3 2) = th_WaitReason (ks_Threads queue2 2)" "waiting queue3 = {1}" "ob_EntryList (ks_Objects queue3 (Obj 0)) = []"
    by (auto simp: queue3_simps queue2_simps blank_object_def new_thread_def waiting_def)
  show ?thesis
    using stale_wait_reason[OF took queue_reachable(4) f(1) _ f(4,3,6,5), of 8] f(2,7,8) by (simp add: object_block_def)
qed

section \<open>The hand of a timer\<close>

text \<open>
  C40. The hand of a timer has eight bits, the table 512 slots. Taking the only timer out of a slot
  below 256 sets the time of the slot to the far future; in a slot from 256 on the time stays
  what it was, so the clock interrupt asks for the expiry of an empty slot.
\<close>

theorem removed_timer_slot_time:
  assumes "ke_reachable ks" "ks_TimerTable ks h = [x]"
  shows "ks_TimerTable (KxRemoveTreeTimer x ks) h = [] \<and>
    (if h < 256 then ks_TimerTime (KxRemoveTreeTimer x ks) h \<ge> 0xFFFFFFFF00000000
     else ks_TimerTime (KxRemoveTreeTimer x ks) h = ks_TimerTime ks h)"
  using KxRemoveTreeTimer_only[OF ke_inv_links(3)[OF ke_reachable_inv[OF assms(1)]] assms(2)] by simp

text \<open>A timer in slot 300.\<close>

definition late :: KSTATE where
  "late = after (KeSetTimerEx (clock_at 0) (clock_at 0) [] (Obj 0) (- 30000) 0 False (KeInitializeTimer (Obj 0) (KiInitSystem 100)))
     (KiInitSystem 100)"

lemma late_simps: "ks_TimerTable late 300 = [Obj 0]" "ks_TimerTime late 300 = 30000"
  by (simp_all add: late_def after_def KeSetTimerEx_def KeCancelTimer_def KeInitializeTimer_def KeInitializeTimerEx_def KiComputeDueTime_def
      KxInsertTimer_def KiInsertTimerTable_def KiComputeTimerTableIndex_def clock_at_def blank_object_def Let_def due_def u64_def s64_def KiInitSystem_def)

lemma late_reachable: "ke_reachable late"
proof -
  let ?ks = "KeInitializeTimer (Obj 0) (KiInitSystem 100)"
  have 0: "ke_reachable ?ks"
    unfolding KeInitializeTimer_def
    by (rule ke_reachable.step[OF ke_reachable.start ke_step.init_timer])
      (simp_all add: is_timer_def unused_def blank_object_def new_thread_def)
  have "is_timer (ty ?ks (Obj 0))"
    by (simp add: KeInitializeTimer_def KeInitializeTimerEx_def is_timer_def)
  then show ?thesis
    using ke_reachable.step[OF 0 ke_step.set_timer[of ?ks 0 0 "clock_at 0" "clock_at 0" "[]" "- 30000" False]]
    by (auto simp: late_def after_def ke_reachable.start split: option.split)
qed

theorem removed_timer_slot_time_witness:
  "ks_TimerTable (KxRemoveTreeTimer (Obj 0) late) 300 = [] \<and> ks_TimerTime (KxRemoveTreeTimer (Obj 0) late) 300 = 30000"
  using removed_timer_slot_time[OF late_reachable late_simps(1)] by (simp add: late_simps)

end
