(* ===== verification/Spec2Isabelle.thy ===== *)
theory Spec2Isabelle
  imports Rtl_Memory Rtl_Bitmap Rtl_Time Rtl_RangeList FsRtl_Name Io_StartPacket Ke_Ready Ke_Properties
begin

text \<open>
  \<^bold>\<open>FreeNT kernel: dispatcher, scheduler, device queues, runtime library and file names.\<close>

  The repository is an operating system compatible with Windows NT. This development models
  parts of its kernel that compute on plain data or on the dispatcher database: the waits,
  synchronisation objects, timers, queues and asynchronous procedure calls, the scheduler of a
  processor and the device queues of \<open>ntoskrnl/ke\<close>, the start of requests in \<open>ntoskrnl/io\<close>, the matcher for file names of
  \<open>ntoskrnl/fsrtl\<close>, and the memory, bitmap, time and range list routines of \<open>sdk/lib/rtl\<close>. All paths are under \<open>src/\<close>.

  \<^bold>\<open>Conventions.\<close> Theory \<open>NT_Prelude\<close>. A \<open>ULONG\<close> is a natural number with \<open>u32_add\<close>,
  \<open>u32_sub\<close> and \<open>u32_mul\<close> reducing modulo \<open>2 ^ 32\<close>; a signed value is an integer, cut to its
  width by \<open>s8\<close>, \<open>s16\<close>, \<open>s32\<close>, \<open>s64\<close> wherever the code stores a result; values that are
  combined bit by bit are words. An array is a list whose accesses outside the list are
  \<^const>\<open>None\<close>. An exception or an error status is \<^const>\<open>Inl\<close>. A loop that is not structural is a
  partial function with \<^const>\<open>None\<close> for a run that does not end, or a function with a
  termination proof, so that every statement with \<^const>\<open>Some\<close> on the right says that the code
  returns; no fuel is used anywhere.

  \<^bold>\<open>Runtime library.\<close>
  \<^item> \<open>Rtl_Memory\<close>: comparing and filling memory (\<open>mem.c\<close>).
  \<^item> \<open>Rtl_Bitmap\<close>: all of \<open>bitmap.c\<close> on arrays of 32-bit words. Setting and clearing a range
    changes exactly that range; the searches for a run of set and of clear bits end and are exact,
    but for the request of all bits of the bitmap, which \<open>RtlFindClearBits\<close> always refuses;
    counting and longest runs are right.
    The locale \<open>range_allocator\<close> is the contract of a search that marks what it finds; its
    interpretations are the two routines of the code, and successive allocations are disjoint.
  \<^item> \<open>Rtl_Time\<close>: all of \<open>time.c\<close>: conversions between tick counts, calendar fields and second
    counts, their round trips, and the computation of a recurring cutover time.
  \<^item> \<open>Rtl_RangeList\<close>: all of \<open>rangelist.c\<close>: lists of ranges of 64-bit numbers. A search returns the
    highest aligned free place, and the inversion the complement, both under conditions that the
    code does not test: for the search a list that is not empty, a length that fits below the
    maximum and ranges that do not start too low. In an empty list the search ignores its lower
    bound, which is a theorem of its own. A function that reads an entry it has freed has no
    result.

  \<^bold>\<open>File names.\<close> \<open>FsRtl_Name\<close>: all of \<open>fsrtl/name.c\<close>. The matcher keeps its back-tracking
  positions in buffers that are swapped and grown; the model has the buffers in a store, with the
  pointers to them. It agrees with a reference semantics of wild cards by recursion on the
  expression, for expressions whose length plus number of stars is at most 15; that bound is what
  the first buffers hold, and a theorem shows the write behind the end of the buffer for eight
  stars. The reference takes \<open>DOS_STAR\<close> as the code does, which runs over the last dot too.
  \<open>FsRtlDissectName\<close> splits a path at its first backslash, in every case. The upcase table and the allocator are parameters.

  \<^bold>\<open>Dispatcher.\<close> The state \<open>KSTATE\<close> has the dispatcher objects (one record \<open>KOBJECT\<close> for the
  header and the fields of events, mutants, semaphores, timers and queues), the threads, the APCs
  and the timer table. A list of the code is the list of its entries, a wait block is in the
  block list of its thread and in the wait list of its object.
  \<^item> \<open>Ke_Types\<close>, \<open>Ke_Timer\<close>, \<open>Ke_Wait\<close>, \<open>Ke_Objects\<close>, \<open>Ke_Expiry\<close>, \<open>Ke_Apc\<close>: the data and the
    operations, one definition for a function of \<open>wait.c\<close>, \<open>eventobj.c\<close>, \<open>mutex.c\<close>, \<open>semphobj.c\<close>,
    \<open>timerobj.c\<close>, \<open>queue.c\<close>, \<open>apc.c\<close>, the expiry of timers in \<open>dpc.c\<close> and the inline routines of
    \<open>include/internal/ke_x.h\<close>. Each operation runs under the dispatcher lock and is one step. A
    wait is split where the thread gives up the processor: up to there it is one step, and
    what follows is another one (\<open>wait_resume\<close>, \<open>KeRemoveQueue_resume\<close>).
  \<^item> \<open>Ke_Links\<close>, \<open>Ke_Invariant\<close>: the invariant \<open>ke_inv\<close>: wait lists and block lists agree, the
    timer table is in order, queues count their running threads until they are run down (the field
    \<open>ob_RunDown\<close> records this, no operation reads it), mutants agree with the lists of
    their owners, and no thread waits for what it could take, queues apart. The locales \<open>waker\<close> and
    \<open>object_waker\<close> are the contract of a loop that wakes the threads of a wait list;
    \<open>KiWaitTest\<close>, \<open>KxUnwaitThread\<close> and \<open>KxUnwaitThreadForEvent\<close> are its three interpretations, and
    termination and preservation of the invariant are proved once.
  \<^item> \<open>Ke_HandOver\<close>: whom such a loop wakes, for any wait list. The function \<open>hand_over\<close> reads a
    line from its head: the threads that wait for all their objects are told to look again, and
    the first that waits for any object takes the signal. The locale \<open>hander\<close> extends \<open>waker\<close> by
    the effect of a single wake-up; a synchronization event and a mutant interpret it.
  \<^item> \<open>Ke_Signal\<close>, \<open>Ke_Blocking\<close>, \<open>Ke_Waiting\<close>, \<open>Ke_Queue\<close>, \<open>Ke_Expiry\<close>, \<open>Ke_Apc\<close>: every operation
    keeps the invariant and returns.
  \<^item> \<open>Ke_System\<close>: the step relation \<open>ke_step\<close> with all operations in any order, by any threads, and
    the states \<open>ke_reachable\<close> from the initial one. Its side conditions are what the documentation
    asks of callers.
  \<^item> \<open>Ke_Properties\<close>: what this gives in every reachable state (exact wait lists, no lost
    wake-up, mutual exclusion, bounded semaphores, exact timer table, exact queue counts), the
    refinement of an abstract semaphore by \<open>KeReleaseSemaphore\<close>, and the behaviour of single
    operations: whom a set event and a released mutant wake, every way in which a wait for an
    object ends (\<open>single_wait_outcome\<close>), and the order of the entries of a queue. A thread that
    waits for a queue is not protected from a lost wake-up: after \<open>KeRemoveQueue\<close> has returned
    without waiting, the wait reason of the thread stays \<open>WrQueue\<close>, and its next insertion wakes
    nobody.

  \<^bold>\<open>Scheduler.\<close> \<open>Ke_Scheduler\<close> has the state \<open>KPRCB\<close> of a processor (ready lists, their summary,
  current, next and idle thread) with threads that extend those of the dispatcher by quantum and
  preemption, and the operations of \<open>thrdschd.c\<close>, \<open>KiExitDispatcher\<close>, \<open>KiQuantumEnd\<close>,
  \<open>KeUpdateRunTime\<close>, \<open>KiDispatchInterrupt\<close>, the idle loop and the priority functions of \<open>thrdobj.c\<close>,
  in the build for one processor. An operation that gives up the processor ends at the switch.
  \<open>Ke_Ready\<close> has the step relation \<open>sched_step\<close> with all of them in any order and the states
  reachable from the initialised kernel: ready lists and summary are exact, the operations return,
  and a thread of the highest priority runs. The last holds for orderly steps only (the flag of the
  relation). A step is not orderly if a thread yields, if the priority of the current or next thread
  changes while a next thread is chosen, or that of a thread on its way into the ready lists, if a
  priority is set below the base priority of its thread, or if \<open>KeSetEventBoostPriority\<close> lowers a
  thread with a temporary boost: none of these leads to a new choice. The dispatcher and the
  scheduler are two models that meet in one operation, making a thread ready: the dispatcher sets
  the adjustment of its priority, from which \<open>KiDeferredReadyThread\<close> starts.

  \<^bold>\<open>Device queues.\<close> \<open>Ke_DeviceQueue\<close>: all of \<open>devqueue.c\<close>. The locale \<open>request_queue\<close> is the contract
  with a driver: an insertion into an idle queue hands the request back, a removal from a busy
  queue hands out a request or makes the queue idle, and no request is lost or handed out twice.
  The pairs of functions without and with a key are its interpretations. With keys, the queue is
  ordered and a removal is the step of an elevator, but for the greatest key in the queue: with it
  the removal starts over, and an entry with exactly this key stays.

  \<^bold>\<open>Requests of a device.\<close> \<open>Io_StartPacket\<close>: the client of these queues, \<open>IoStartPacket\<close>,
  \<open>IoStartNextPacket\<close>, \<open>IoStartNextPacketByKey\<close> with the deferred mode (\<open>io/iomgr/device.c\<close>), and
  \<open>IoCancelIrp\<close> (\<open>irp.c\<close>). Calls of the start and cancel routines of the driver are recorded in the
  state. The lemmas rest on the contract \<open>request_queue\<close>: in every reachable state each request is
  started, waiting or withdrawn, one is served at a time, in the order of submission if there are
  no keys, and all operations return, the loop of the deferred mode included.

  Deferred routines of timers and the routines of APCs belong to drivers: they are parameters, of
  which the theorems ask that they keep the invariant, and of an APC routine that it does not queue
  kernel APCs to the thread for ever (\<open>kernel_work\<close>). What the clock shows is an argument of
  every operation that reads it, a list of readings where it is read in a loop. The expiry
  routine ends because a timer that is inserted again gets a due time after the time the routine
  started with.

  \<^bold>\<open>Not modelled.\<close> Interrupt levels and spin locks (operations are atomic; the window in which
  \<open>KiCompleteTimer\<close> has released the lock is part of its step), several processors and
  affinity, stack swapping and the switch of contexts, gates, the branch of \<open>KiInsertQueueApc\<close> for
  a thread in a gate wait, software interrupts, attaching to a process, \<open>KeSetSystemTime\<close>, DPC
  queues and the suspension of threads. The rest of the system works on devices, page tables, user
  memory or machine registers, or calls drivers, and is outside the state of this model: memory,
  object, process, configuration and security managers, the rest of the I/O manager, the executive,
  debugger, hardware abstraction layer, boot loader, drivers, subsystems, user mode libraries and programs, and the
  remaining files of the runtime libraries.
\<close>

end
